(* ===== verification/Prelude.thy ===== *)
theory Prelude
  imports Main "HOL-Library.Word"
begin

text \<open>
  Shared vocabulary of the development: the C integer types of
  \<^verbatim>\<open>kernel/types.h\<close>, the ways a kernel function can fail to return, byte
  buffers with the little-endian accessors the RISC-V target uses, and the generic
  list, option and word lemmas the component theories share.
\<close>

unbundle bit_operations_syntax

named_theorems buf_simps \<open>reading a buffer after a write\<close>
named_theorems layout \<open>offsets and sizes of C structures\<close>

section \<open>Integer types\<close>

type_synonym u8 = "8 word"
type_synonym u16 = "16 word"
type_synonym u32 = "32 word"
type_synonym u64 = "64 word"
type_synonym addr = "64 word"

section \<open>Outcomes\<close>

text \<open>
  A kernel function returns a value, panics, dereferences a null or wild pointer, runs
  past the end of an object, goes to sleep, or spins waiting for somebody else. All but
  the first are values of \<open>fault\<close>.
\<close>

datatype fault =
    Panic string
  | NullDeref
  | OutOfBounds
  | Sleeps
  | Spins

type_synonym 'a result = "fault + 'a"

definition bindE :: "'a result \<Rightarrow> ('a \<Rightarrow> 'b result) \<Rightarrow> 'b result" where
  "bindE m f = (case m of Inl e \<Rightarrow> Inl e | Inr x \<Rightarrow> f x)"

lemma bindE_simps [simp]:
  "bindE (Inl e) f = Inl e"
  "bindE (Inr x) f = f x"
  by (simp_all add: bindE_def)

lemma bindE_eq_Inr: "bindE m f = Inr y \<longleftrightarrow> (\<exists>x. m = Inr x \<and> f x = Inr y)"
  by (cases m) auto

lemma bindE_assoc: "bindE (bindE m f) g = bindE m (\<lambda>x. bindE (f x) g)"
  by (cases m) auto

section \<open>Byte buffers\<close>

text \<open>
  A buffer is the content of a page or of a C object, indexed by byte offset. Accesses at
  a fixed width are little endian, as on the RISC-V machine the kernel is compiled for.
\<close>

type_synonym buf = "nat \<Rightarrow> u8"

definition get16 :: "buf \<Rightarrow> nat \<Rightarrow> u16" where
  "get16 b i = ucast (b i) OR push_bit 8 (ucast (b (i + 1)))"

definition get32 :: "buf \<Rightarrow> nat \<Rightarrow> u32" where
  "get32 b i = ucast (b i) OR push_bit 8 (ucast (b (i + 1))) OR
     push_bit 16 (ucast (b (i + 2))) OR push_bit 24 (ucast (b (i + 3)))"

definition get64 :: "buf \<Rightarrow> nat \<Rightarrow> u64" where
  "get64 b i = ucast (get32 b i) OR push_bit 32 (ucast (get32 b (i + 4)))"

definition put8 :: "buf \<Rightarrow> nat \<Rightarrow> u8 \<Rightarrow> buf" where
  "put8 b i v = b(i := v)"

definition put16 :: "buf \<Rightarrow> nat \<Rightarrow> u16 \<Rightarrow> buf" where
  "put16 b i v = b(i := ucast v, i + 1 := ucast (drop_bit 8 v))"

definition put32 :: "buf \<Rightarrow> nat \<Rightarrow> u32 \<Rightarrow> buf" where
  "put32 b i v = b(i := ucast v, i + 1 := ucast (drop_bit 8 v),
     i + 2 := ucast (drop_bit 16 v), i + 3 := ucast (drop_bit 24 v))"

definition put64 :: "buf \<Rightarrow> nat \<Rightarrow> u64 \<Rightarrow> buf" where
  "put64 b i v = put32 (put32 b i (ucast v)) (i + 4) (ucast (drop_bit 32 v))"

text \<open>\<open>memmove\<close> between two different objects, and \<open>memset\<close> of a range.\<close>

definition blit :: "buf \<Rightarrow> nat \<Rightarrow> buf \<Rightarrow> nat \<Rightarrow> nat \<Rightarrow> buf" where
  "blit d i s j n = (\<lambda>k. if i \<le> k \<and> k < i + n then s (j + (k - i)) else d k)"

definition fill :: "buf \<Rightarrow> nat \<Rightarrow> u8 \<Rightarrow> nat \<Rightarrow> buf" where
  "fill b i v n = (\<lambda>k. if i \<le> k \<and> k < i + n then v else b k)"

definition bytes_of :: "buf \<Rightarrow> nat \<Rightarrow> nat \<Rightarrow> u8 list" where
  "bytes_of b i n = map b [i..<i + n]"

definition put_bytes :: "buf \<Rightarrow> nat \<Rightarrow> u8 list \<Rightarrow> buf" where
  "put_bytes b i xs = (\<lambda>k. if i \<le> k \<and> k < i + length xs then xs ! (k - i) else b k)"

lemma length_bytes_of [simp]: "length (bytes_of b i n) = n"
  by (simp add: bytes_of_def)

lemma nth_bytes_of [simp]: "k < n \<Longrightarrow> bytes_of b i n ! k = b (i + k)"
  by (simp add: bytes_of_def)

lemma put8_apply [buf_simps]: "put8 b i v k = (if k = i then v else b k)"
  by (simp add: put8_def)

lemma blit_apply [buf_simps]:
  "blit d i s j n k = (if i \<le> k \<and> k < i + n then s (j + (k - i)) else d k)"
  by (simp add: blit_def)

lemma fill_apply [buf_simps]:
  "fill b i v n k = (if i \<le> k \<and> k < i + n then v else b k)"
  by (simp add: fill_def)

lemma put_bytes_apply [buf_simps]:
  "put_bytes b i xs k = (if i \<le> k \<and> k < i + length xs then xs ! (k - i) else b k)"
  by (simp add: put_bytes_def)

lemma put16_apply [buf_simps]:
  "put16 b i v k = (if k = i then ucast v else if k = i + 1 then ucast (drop_bit 8 v) else b k)"
  by (simp add: put16_def)

lemma put32_apply [buf_simps]:
  "put32 b i v k = (if k = i then ucast v else if k = i + 1 then ucast (drop_bit 8 v)
     else if k = i + 2 then ucast (drop_bit 16 v)
     else if k = i + 3 then ucast (drop_bit 24 v) else b k)"
  by (simp add: put32_def)

lemma get16_put16 [simp]: "get16 (put16 b i v) i = v"
  by (rule bit_word_eqI) (auto simp: get16_def put16_apply bit_simps)

lemma get32_put32 [simp]: "get32 (put32 b i v) i = v"
proof (rule bit_word_eqI)
  fix n assume "n < LENGTH(32)"
  then consider "n < 8" | "8 \<le> n \<and> n < 16" | "16 \<le> n \<and> n < 24" | "24 \<le> n \<and> n < 32"
    by fastforce
  then show "bit (get32 (put32 b i v) i) n = bit v n"
    by cases (auto simp: get32_def put32_apply bit_simps)
qed

lemma get16_cong: "b i = c j \<Longrightarrow> b (i + 1) = c (j + 1) \<Longrightarrow> get16 b i = get16 c j"
  by (simp add: get16_def)

lemma get32_cong:
  "b i = c j \<Longrightarrow> b (i + 1) = c (j + 1) \<Longrightarrow> b (i + 2) = c (j + 2) \<Longrightarrow> b (i + 3) = c (j + 3) \<Longrightarrow>
   get32 b i = get32 c j"
  by (simp add: get32_def)

lemma get64_cong: "(\<And>k. k < 8 \<Longrightarrow> b (i + k) = c (j + k)) \<Longrightarrow> get64 b i = get64 c j"
proof -
  assume *: "\<And>k. k < 8 \<Longrightarrow> b (i + k) = c (j + k)"
  have "get32 b i = get32 c j"
    using *[of 0] *[of 1] *[of 2] *[of 3] by (intro get32_cong) auto
  moreover have "get32 b (i + 4) = get32 c (j + 4)"
    using *[of 4] *[of 5] *[of 6] *[of 7] by (intro get32_cong) (simp_all add: eval_nat_numeral)
  ultimately show ?thesis by (simp add: get64_def)
qed

text \<open>A write outside the bytes that are read is not seen.\<close>

lemma get16_put16_other [buf_simps]:
  "j + 2 \<le> i \<or> i + 2 \<le> j \<Longrightarrow> get16 (put16 b i v) j = get16 b j"
  by (auto simp: get16_def put16_apply)

lemma get16_put32_other [buf_simps]:
  "j + 2 \<le> i \<or> i + 4 \<le> j \<Longrightarrow> get16 (put32 b i v) j = get16 b j"
  by (auto simp: get16_def put32_apply)

lemma get16_put8_other [buf_simps]:
  "j + 2 \<le> i \<or> i + 1 \<le> j \<Longrightarrow> get16 (put8 b i v) j = get16 b j"
  by (auto simp: get16_def put8_apply)

lemma get32_put16_other [buf_simps]:
  "j + 4 \<le> i \<or> i + 2 \<le> j \<Longrightarrow> get32 (put16 b i v) j = get32 b j"
  by (auto simp: get32_def put16_apply)

lemma get32_put32_other [buf_simps]:
  "j + 4 \<le> i \<or> i + 4 \<le> j \<Longrightarrow> get32 (put32 b i v) j = get32 b j"
  by (auto simp: get32_def put32_apply)

lemma get32_put8_other [buf_simps]:
  "j + 4 \<le> i \<or> i + 1 \<le> j \<Longrightarrow> get32 (put8 b i v) j = get32 b j"
  by (auto simp: get32_def put8_apply)

lemma get16_blit_other [buf_simps]:
  "j + 2 \<le> i \<or> i + n \<le> j \<Longrightarrow> get16 (blit b i s k n) j = get16 b j"
  by (auto simp: get16_def blit_apply)

lemma get32_blit_other [buf_simps]:
  "j + 4 \<le> i \<or> i + n \<le> j \<Longrightarrow> get32 (blit b i s k n) j = get32 b j"
  by (auto simp: get32_def blit_apply)

lemma get16_blit_inside [buf_simps]:
  "i \<le> j \<Longrightarrow> j + 2 \<le> i + n \<Longrightarrow> get16 (blit b i s k n) j = get16 s (k + (j - i))"
  by (auto simp: get16_def blit_apply Suc_diff_le)

lemma get32_blit_inside [buf_simps]:
  "i \<le> j \<Longrightarrow> j + 4 \<le> i + n \<Longrightarrow> get32 (blit b i s k n) j = get32 s (k + (j - i))"
  by (rule get32_cong) (auto simp: blit_apply intro!: arg_cong [where f = s])

lemma get64_put64 [simp]: "get64 (put64 b i v) i = v"
proof -
  have "get64 (put64 b i v) i =
        ucast (ucast v :: u32) OR push_bit 32 (ucast (ucast (drop_bit 32 v) :: u32))"
    by (simp add: get64_def put64_def get32_put32_other)
  also have "\<dots> = v"
    by (rule bit_word_eqI) (auto simp: bit_simps)
  finally show ?thesis .
qed

lemma put64_other: "k < i \<or> i + 8 \<le> k \<Longrightarrow> put64 b i v k = b k"
  by (auto simp: put64_def put32_apply)

lemma put64_indep: "i \<le> k \<Longrightarrow> k < i + 8 \<Longrightarrow> put64 b i v k = put64 c i v k"
  by (auto simp: put64_def put32_apply)

lemma get64_put64_other [buf_simps]:
  "j + 8 \<le> i \<or> i + 8 \<le> j \<Longrightarrow> get64 (put64 b i v) j = get64 b j"
  by (rule get64_cong) (auto intro!: put64_other)

lemma get64_put32_other [buf_simps]:
  "j + 8 \<le> i \<or> i + 4 \<le> j \<Longrightarrow> get64 (put32 b i v) j = get64 b j"
  by (rule get64_cong) (auto simp: put32_apply)

lemma get64_put16_other [buf_simps]:
  "j + 8 \<le> i \<or> i + 2 \<le> j \<Longrightarrow> get64 (put16 b i v) j = get64 b j"
  by (rule get64_cong) (auto simp: put16_apply)

lemma get32_put64_other [buf_simps]:
  "j + 4 \<le> i \<or> i + 8 \<le> j \<Longrightarrow> get32 (put64 b i v) j = get32 b j"
  by (rule get32_cong) (auto intro!: put64_other)

lemma get16_put64_other [buf_simps]:
  "j + 2 \<le> i \<or> i + 8 \<le> j \<Longrightarrow> get16 (put64 b i v) j = get16 b j"
  by (rule get16_cong) (auto intro!: put64_other)

lemma bytes_of_cong: "(\<And>k. k < n \<Longrightarrow> b (i + k) = c (j + k)) \<Longrightarrow> bytes_of b i n = bytes_of c j n"
  by (rule nth_equalityI) auto

lemma bytes_of_append: "bytes_of b i (m + n) = bytes_of b i m @ bytes_of b (i + m) n"
  by (rule nth_equalityI) (auto simp: nth_append)

lemma bytes_of_one: "bytes_of b i 1 = [b i]"
  by (simp add: bytes_of_def)

lemma put_bytes_bytes_of [simp]: "bytes_of (put_bytes b i xs) i (length xs) = xs"
  by (rule nth_equalityI) (auto simp: put_bytes_apply)

section \<open>Words\<close>

lemma unat_ucast_mod: "unat (ucast (w :: 'a::len word) :: 'b::len word) = unat w mod 2 ^ LENGTH('b)"
  by (simp add: unsigned_ucast_eq take_bit_eq_mod)

lemma unat_u8_le: "unat (x :: u8) \<le> 255"
  using unsigned_less [where ?'a = nat, of x] by simp

lemma unat_u16_le: "unat (x :: u16) \<le> 65535"
  using unsigned_less [where ?'a = nat, of x] by simp

lemma unat_take_bit_mod: "unat (take_bit n (w :: 'a::len word)) = unat w mod 2 ^ n"
  by (simp only: unsigned_take_bit_eq) (simp only: take_bit_eq_mod)

lemma unat_drop_bit_div: "unat (drop_bit n (w :: 'a::len word)) = unat w div 2 ^ n"
  by (simp only: unat_drop_bit_eq) (simp only: drop_bit_eq_div)

lemma unat_not_word: "unat (NOT (w :: 'a::len word)) = 2 ^ LENGTH('a) - 1 - unat w"
proof -
  have "NOT w = - 1 - w" by (simp add: not_eq_complement)
  moreover have "w \<le> - 1" by simp
  ultimately show ?thesis by (simp add: unat_sub unsigned_minus_1_eq_mask mask_eq_exp_minus_1)
qed

lemma ucast_not_down:
  "LENGTH('b) \<le> LENGTH('a) \<Longrightarrow> ucast (NOT (w :: 'a::len word)) = (NOT (ucast w) :: 'b::len word)"
  by (rule bit_word_eqI) (auto simp: bit_simps)

lemma unat_add_small:
  "unat (a :: 'a::len word) + unat b < 2 ^ LENGTH('a) \<Longrightarrow> unat (a + b) = unat a + unat b"
  by (simp add: unat_word_ariths)

lemma unat_of_nat_small: "n < 2 ^ LENGTH('a) \<Longrightarrow> unat (of_nat n :: 'a::len word) = n"
  by (simp add: unat_of_nat take_bit_eq_mod)

lemma sint_of_int_small: "- (2 ^ 31) \<le> n \<Longrightarrow> n < 2 ^ 31 \<Longrightarrow> sint (word_of_int n :: u32) = n"
  by (simp add: sint_sbintrunc' signed_take_bit_int_eq_self)

section \<open>Tables\<close>

text \<open>
  Most kernel tables are searched for the first slot that satisfies a condition. The scan
  \<open>for (i = 0; i < N; i++) if (P(t[i])) ...\<close> is \<open>first_slot\<close>.
\<close>

fun first_slot_from :: "('a \<Rightarrow> bool) \<Rightarrow> nat \<Rightarrow> 'a list \<Rightarrow> nat option" where
  "first_slot_from P k [] = None"
| "first_slot_from P k (x # xs) = (if P x then Some k else first_slot_from P (Suc k) xs)"

definition first_slot :: "('a \<Rightarrow> bool) \<Rightarrow> 'a list \<Rightarrow> nat option" where
  "first_slot P xs = first_slot_from P 0 xs"

lemma first_slot_from_None: "first_slot_from P k xs = None \<longleftrightarrow> (\<forall>x\<in>set xs. \<not> P x)"
  by (induction xs arbitrary: k) auto

lemma first_slot_from_shift:
  "first_slot_from P (Suc k) xs = map_option Suc (first_slot_from P k xs)"
  by (induction xs arbitrary: k) auto

lemma first_slot_Cons:
  "first_slot P (x # xs) = (if P x then Some 0 else map_option Suc (first_slot P xs))"
  by (simp add: first_slot_def first_slot_from_shift)

lemma first_slot_None: "first_slot P xs = None \<longleftrightarrow> (\<forall>x\<in>set xs. \<not> P x)"
  by (simp add: first_slot_def first_slot_from_None)

lemma first_slot_Some:
  "first_slot P xs = Some i \<longleftrightarrow> i < length xs \<and> P (xs ! i) \<and> (\<forall>j<i. \<not> P (xs ! j))"
proof (induction xs arbitrary: i)
  case Nil
  then show ?case by (simp add: first_slot_def)
next
  case (Cons x xs)
  then show ?case
    by (cases i) (auto simp: first_slot_Cons less_Suc_eq_0_disj)
qed

lemma first_slotD: "first_slot P xs = Some i \<Longrightarrow> i < length xs \<and> P (xs ! i)"
  by (simp add: first_slot_Some)

section \<open>Slot tables\<close>

text \<open>
  The contract of the fixed-size tables from which the kernel hands out indices:
  descriptors, open files, file descriptors.
\<close>

locale slot_table =
  fixes alloc :: "'t \<Rightarrow> nat option \<times> 't"
    and release :: "'t \<Rightarrow> nat \<Rightarrow> 't"
    and used :: "'t \<Rightarrow> nat set"
    and cap :: nat
    and ok :: "'t \<Rightarrow> bool"
  assumes alloc_some: "ok t \<Longrightarrow> alloc t = (Some i, t') \<Longrightarrow>
            i < cap \<and> i \<notin> used t \<and> used t' = insert i (used t) \<and> ok t'"
    and alloc_none: "ok t \<Longrightarrow> alloc t = (None, t') \<Longrightarrow> t' = t \<and> used t = {..<cap}"
    and used_bound: "ok t \<Longrightarrow> used t \<subseteq> {..<cap}"
    and release_used: "ok t \<Longrightarrow> i \<in> used t \<Longrightarrow> used (release t i) = used t - {i} \<and> ok (release t i)"
begin

lemma alloc_succeeds: "ok t \<Longrightarrow> (\<exists>i t'. alloc t = (Some i, t')) \<longleftrightarrow> card (used t) < cap"
proof
  assume t: "ok t" and "\<exists>i t'. alloc t = (Some i, t')"
  then obtain i where i: "i < cap" "i \<notin> used t" using alloc_some by blast
  have "used t \<subset> {..<cap}" using used_bound [OF t] i by auto
  then show "card (used t) < cap" using psubset_card_mono [of "{..<cap}"] by simp
next
  assume t: "ok t" and lt: "card (used t) < cap"
  obtain r t' where r: "alloc t = (r, t')" by fastforce
  then show "\<exists>i t'. alloc t = (Some i, t')" using lt t alloc_none by (cases r) fastforce+
qed

lemma alloc_twice_distinct:
  "ok t \<Longrightarrow> alloc t = (Some i, t') \<Longrightarrow> alloc t' = (Some j, t'') \<Longrightarrow> i \<noteq> j"
  using alloc_some by blast

lemma alloc_release:
  "ok t \<Longrightarrow> alloc t = (Some i, t') \<Longrightarrow> used (release t' i) = used t \<and> ok (release t' i)"
  using alloc_some [of t i t'] release_used [of t' i] by auto

end

section \<open>Lookup tables\<close>

text \<open>
  The contract of the bounded tables that map keys to values: \<open>room t k\<close> says whether
  the table can take an entry for \<open>k\<close>.
\<close>

locale lookup_table =
  fixes lookup :: "'t \<Rightarrow> 'k \<Rightarrow> 'v option"
    and insert_at :: "'t \<Rightarrow> 'k \<Rightarrow> 'v \<Rightarrow> 't"
    and room :: "'t \<Rightarrow> 'k \<Rightarrow> bool"
  assumes lookup_insert: "room t k \<Longrightarrow> lookup (insert_at t k v) = (lookup t)(k \<mapsto> v)"
    and insert_full: "\<not> room t k \<Longrightarrow> insert_at t k v = t"
    and known_room: "lookup t k \<noteq> None \<Longrightarrow> room t k"
begin

lemma insert_other: "k' \<noteq> k \<Longrightarrow> lookup (insert_at t k v) k' = lookup t k'"
  by (cases "room t k") (simp_all add: lookup_insert insert_full)

lemma insert_keeps_known: "lookup t k' \<noteq> None \<Longrightarrow> lookup (insert_at t k v) k' \<noteq> None"
  by (cases "room t k") (simp_all add: lookup_insert insert_full)

lemma insert_last_wins: "room t k \<Longrightarrow> lookup (insert_at (insert_at t k v) k w) k = Some w"
  using lookup_insert [of t k v] known_room [of "insert_at t k v" k]
  by (simp add: lookup_insert)

lemma insert_commute:
  assumes "k \<noteq> k'" "lookup t k \<noteq> None" "lookup t k' \<noteq> None"
  shows "lookup (insert_at (insert_at t k v) k' v') = lookup (insert_at (insert_at t k' v') k v)"
proof -
  have "room (insert_at t k v) k'" "room (insert_at t k' v') k" "room t k" "room t k'"
    using assms insert_keeps_known known_room by blast+
  then show ?thesis using assms(1) by (simp add: lookup_insert fun_upd_twist)
qed

end

section \<open>Queues\<close>

text \<open>
  The contract of the kernel's first-in first-out queues. \<open>holds s xs\<close> relates a state to
  the list of items it holds, \<open>fits xs x\<close> says when \<open>x\<close> may be added.
\<close>

fun drain :: "('s \<Rightarrow> ('a \<times> 's) option) \<Rightarrow> nat \<Rightarrow> 's \<Rightarrow> 'a list \<times> 's" where
  "drain deq 0 s = ([], s)"
| "drain deq (Suc n) s =
     (case deq s of None \<Rightarrow> ([], s)
      | Some (x, s') \<Rightarrow> (case drain deq n s' of (xs, s'') \<Rightarrow> (x # xs, s'')))"

locale fifo_queue =
  fixes enq :: "'s \<Rightarrow> 'a \<Rightarrow> 's"
    and deq :: "'s \<Rightarrow> ('a \<times> 's) option"
    and holds :: "'s \<Rightarrow> 'a list \<Rightarrow> bool"
    and fits :: "'a list \<Rightarrow> 'a \<Rightarrow> bool"
  assumes enq_holds: "holds s xs \<Longrightarrow> fits xs x \<Longrightarrow> holds (enq s x) (xs @ [x])"
    and deq_none: "holds s [] \<Longrightarrow> deq s = None"
    and deq_some: "holds s (x # xs) \<Longrightarrow> \<exists>s'. deq s = Some (x, s') \<and> holds s' xs"
begin

lemma enq_all:
  "holds s xs \<Longrightarrow> (\<And>i. i < length ys \<Longrightarrow> fits (xs @ take i ys) (ys ! i)) \<Longrightarrow>
   holds (foldl enq s ys) (xs @ ys)"
proof (induction ys arbitrary: s xs)
  case (Cons y ys)
  have "holds (enq s y) (xs @ [y])" using Cons.prems enq_holds by (metis append_Nil2 length_greater_0_conv
      list.distinct(1) nth_Cons_0 take0)
  moreover have "fits ((xs @ [y]) @ take i ys) (ys ! i)" if "i < length ys" for i
    using Cons.prems(2) [of "Suc i"] that by simp
  ultimately have "holds (foldl enq (enq s y) ys) ((xs @ [y]) @ ys)" by (rule Cons.IH)
  then show ?case by simp
qed simp

lemma deq_all:
  "holds s xs \<Longrightarrow> fst (drain deq (length xs) s) = xs \<and> holds (snd (drain deq (length xs) s)) []"
proof (induction xs arbitrary: s)
  case (Cons x xs)
  obtain s' where "deq s = Some (x, s')" "holds s' xs" using deq_some [OF Cons.prems] by blast
  then show ?case using Cons.IH [of s'] by (auto split: prod.splits)
qed simp

lemma fifo_order:
  assumes "holds s []" "\<And>i. i < length ys \<Longrightarrow> fits (take i ys) (ys ! i)"
  shows "fst (drain deq (length ys) (foldl enq s ys)) = ys"
  using deq_all [OF enq_all [OF assms(1), of ys]] assms(2) by simp

end

end
