(* ===== verification/Kstring.thy ===== *)
theory Kstring
  imports Prelude
begin

text \<open>
  The memory and string routines of \<^verbatim>\<open>kernel/string.c\<close>, on the flat byte-addressed
  memory the C code runs on. Pointers are 64-bit words, so pointer arithmetic wraps as it
  does on the machine; each loop is a recursive function on its trip count. The lemmas
  give each routine its functional specification, \<open>memmove\<close> for every overlap of source
  and destination included.
\<close>

section \<open>Flat memory\<close>

type_synonym fmem = "addr \<Rightarrow> u8"

definition ld64 :: "fmem \<Rightarrow> addr \<Rightarrow> u64" where
  "ld64 m a = get64 (\<lambda>k. m (a + of_nat k)) 0"

definition st64 :: "fmem \<Rightarrow> addr \<Rightarrow> u64 \<Rightarrow> fmem" where
  "st64 m a v = (\<lambda>x. if unat (x - a) < 8 then put64 (\<lambda>_. 0) 0 v (unat (x - a)) else m x)"

text \<open>The address range \<open>[a, a + n)\<close>.\<close>

definition in_range :: "addr \<Rightarrow> nat \<Rightarrow> addr \<Rightarrow> bool" where
  "in_range a n x \<longleftrightarrow> unat (x - a) < n"

section \<open>The routines\<close>

fun set_loop :: "fmem \<Rightarrow> addr \<Rightarrow> u8 \<Rightarrow> nat \<Rightarrow> nat \<Rightarrow> fmem" where
  "set_loop m cdst c i 0 = m"
| "set_loop m cdst c i (Suc k) = set_loop (m(cdst + of_nat i := c)) cdst c (Suc i) k"

definition memset :: "fmem \<Rightarrow> addr \<Rightarrow> u32 \<Rightarrow> u32 \<Rightarrow> fmem" where
  "memset m dst c n = set_loop m dst (ucast c) 0 (unat n)"

fun cmp_loop :: "fmem \<Rightarrow> addr \<Rightarrow> addr \<Rightarrow> nat \<Rightarrow> int" where
  "cmp_loop m s1 s2 0 = 0"
| "cmp_loop m s1 s2 (Suc n) =
     (if m s1 \<noteq> m s2 then uint (m s1) - uint (m s2) else cmp_loop m (s1 + 1) (s2 + 1) n)"

definition memcmp :: "fmem \<Rightarrow> addr \<Rightarrow> addr \<Rightarrow> u32 \<Rightarrow> int" where
  "memcmp m v1 v2 n = cmp_loop m v1 v2 (unat n)"

fun copy_up :: "fmem \<Rightarrow> addr \<Rightarrow> addr \<Rightarrow> nat \<Rightarrow> fmem" where
  "copy_up m d s 0 = m"
| "copy_up m d s (Suc n) = copy_up (m(d := m s)) (d + 1) (s + 1) n"

fun copy_down :: "fmem \<Rightarrow> addr \<Rightarrow> addr \<Rightarrow> nat \<Rightarrow> fmem" where
  "copy_down m d s 0 = m"
| "copy_down m d s (Suc n) = copy_down (m(d - 1 := m (s - 1))) (d - 1) (s - 1) n"

definition memmove :: "fmem \<Rightarrow> addr \<Rightarrow> addr \<Rightarrow> u32 \<Rightarrow> fmem" where
  "memmove m dst src n =
     (if n = 0 then m
      else if src < dst \<and> src + ucast n > dst
           then copy_down m (dst + ucast n) (src + ucast n) (unat n)
           else copy_up m dst src (unat n))"

definition memcpy :: "fmem \<Rightarrow> addr \<Rightarrow> addr \<Rightarrow> u32 \<Rightarrow> fmem" where
  "memcpy m dst src n = memmove m dst src n"

fun strncmp_loop :: "fmem \<Rightarrow> addr \<Rightarrow> addr \<Rightarrow> nat \<Rightarrow> int" where
  "strncmp_loop m p q 0 = 0"
| "strncmp_loop m p q (Suc n) =
     (if m p \<noteq> 0 \<and> m p = m q then strncmp_loop m (p + 1) (q + 1) n
      else uint (m p) - uint (m q))"

definition strncmp :: "fmem \<Rightarrow> addr \<Rightarrow> addr \<Rightarrow> u32 \<Rightarrow> int" where
  "strncmp m p q n = strncmp_loop m p q (unat n)"

text \<open>The second loop of \<open>strncpy\<close>, and the first.\<close>

fun zero_loop :: "fmem \<Rightarrow> addr \<Rightarrow> nat \<Rightarrow> fmem" where
  "zero_loop m s 0 = m"
| "zero_loop m s (Suc n) = zero_loop (m(s := 0)) (s + 1) n"

fun strncpy_loop :: "fmem \<Rightarrow> addr \<Rightarrow> addr \<Rightarrow> nat \<Rightarrow> fmem" where
  "strncpy_loop m s t 0 = m"
| "strncpy_loop m s t (Suc n) =
     (let m' = m(s := m t)
      in if m t \<noteq> 0 then strncpy_loop m' (s + 1) (t + 1) n else zero_loop m' (s + 1) n)"

definition strncpy :: "fmem \<Rightarrow> addr \<Rightarrow> addr \<Rightarrow> int \<Rightarrow> fmem" where
  "strncpy m s t n = strncpy_loop m s t (nat n)"

text \<open>\<open>safestrcpy\<close> copies at most \<open>n - 1\<close> bytes and then writes the terminator at \<open>s\<close>.\<close>

fun safestrcpy_loop :: "fmem \<Rightarrow> addr \<Rightarrow> addr \<Rightarrow> nat \<Rightarrow> fmem" where
  "safestrcpy_loop m s t 0 = m(s := 0)"
| "safestrcpy_loop m s t (Suc n) =
     (let m' = m(s := m t)
      in if m t \<noteq> 0 then safestrcpy_loop m' (s + 1) (t + 1) n else m'(s + 1 := 0))"

definition safestrcpy :: "fmem \<Rightarrow> addr \<Rightarrow> addr \<Rightarrow> int \<Rightarrow> fmem" where
  "safestrcpy m s t n = (if n \<le> 0 then m else safestrcpy_loop m s t (nat n - 1))"

text \<open>The search for the terminator need not end; \<^const>\<open>None\<close> is the endless run.\<close>

partial_function (option) strlen_loop :: "fmem \<Rightarrow> addr \<Rightarrow> nat \<Rightarrow> nat option" where
  "strlen_loop m s n = (if m (s + of_nat n) = 0 then Some n else strlen_loop m s (n + 1))"

definition strlen :: "fmem \<Rightarrow> addr \<Rightarrow> nat option" where
  "strlen m s = strlen_loop m s 0"

section \<open>Address ranges\<close>

lemma in_range_unat:
  "unat a + n \<le> 2 ^ 64 \<Longrightarrow> in_range a n x \<longleftrightarrow> unat a \<le> unat x \<and> unat x < unat a + n"
proof -
  assume fit: "unat a + n \<le> 2 ^ 64"
  show ?thesis
  proof (cases "a \<le> x")
    case True
    then show ?thesis by (auto simp: in_range_def unat_sub word_le_nat_alt)
  next
    case False
    then have lt: "unat x < unat a" by (simp add: word_le_nat_alt)
    have "unat (x - a) = 2 ^ 64 + unat x - unat a"
      using lt unsigned_less [where ?'a = nat, of a]
      by (simp add: unat_sub_if_size size_word.rep_eq)
    then show ?thesis using lt fit by (simp add: in_range_def)
  qed
qed

lemma in_range_offset: "k < n \<Longrightarrow> n \<le> 2 ^ 64 \<Longrightarrow> in_range a n (a + of_nat k)"
  by (simp add: in_range_def unat_of_nat_small)

lemma in_range_Suc:
  "in_range a (Suc n) x \<longleftrightarrow> x = a \<or> in_range (a + 1) n x" if "Suc n \<le> 2 ^ 64"
proof (cases "x = a")
  case True
  then show ?thesis by (simp add: in_range_def)
next
  case False
  then have "x - a \<noteq> 0" by simp
  then have "unat (x - a) = Suc (unat (x - a - 1))"
    by (simp add: unat_minus_one unat_gt_0)
  moreover have "x - a - 1 = x - (a + 1)" by simp
  ultimately show ?thesis using False by (simp add: in_range_def)
qed

lemma unat_add_of_nat: "unat (a :: addr) + n < 2 ^ 64 \<Longrightarrow> unat (a + of_nat n) = unat a + n"
  by (simp add: unat_word_ariths unat_of_nat take_bit_eq_mod)

section \<open>Filling and copying\<close>

lemma set_loop_spec:
  "k \<le> 2 ^ 64 \<Longrightarrow>
   set_loop m d c i k = (\<lambda>x. if in_range (d + of_nat i) k x then c else m x)"
proof (induction k arbitrary: m i)
  case 0
  then show ?case by (simp add: in_range_def)
next
  case (Suc k)
  then show ?case by (auto simp: in_range_Suc ac_simps)
qed

lemma memset_spec: "memset m d c n = (\<lambda>x. if in_range d (unat n) x then ucast c else m x)"
  using unsigned_less [where ?'a = nat, of n] by (simp add: memset_def set_loop_spec)

definition moved :: "fmem \<Rightarrow> addr \<Rightarrow> addr \<Rightarrow> nat \<Rightarrow> fmem" where
  "moved m d s n = (\<lambda>x. if in_range d n x then m (s + (x - d)) else m x)"

lemma copy_up_spec:
  assumes "unat d + n < 2 ^ 64" "unat s + n < 2 ^ 64" "unat d \<le> unat s \<or> unat s + n \<le> unat d"
  shows "copy_up m d s n = moved m d s n"
  using assms
proof (induction n arbitrary: m d s)
  case 0
  then show ?case by (simp add: moved_def in_range_def)
next
  case (Suc n)
  have d1: "unat (d + 1) = unat d + 1" and s1: "unat (s + 1) = unat s + 1"
    using Suc.prems unat_add_of_nat [of d 1] unat_add_of_nat [of s 1] by auto
  have far: "s + (x - d) \<noteq> d" if x: "in_range (d + 1) n x" for x
  proof -
    have rx: "unat d < unat x" "unat x < unat d + Suc n"
      using x Suc.prems by (auto simp: in_range_unat d1)
    have "unat (x - d) = unat x - unat d"
      using rx by (simp add: unat_sub word_le_nat_alt)
    then have "unat (s + (x - d)) = unat s + (unat x - unat d)"
      using rx Suc.prems by (simp add: unat_add_small)
    then have "unat (s + (x - d)) \<noteq> unat d" using rx Suc.prems by linarith
    then show ?thesis by metis
  qed
  have "copy_up m d s (Suc n) = moved (m(d := m s)) (d + 1) (s + 1) n"
    using Suc.prems by (auto simp: d1 s1 intro!: Suc.IH)
  also have "\<dots> = moved m d s (Suc n)"
  proof
    fix x
    have nd: "\<not> in_range (d + 1) n d"
      using Suc.prems by (simp add: in_range_unat d1)
    show "moved (m(d := m s)) (d + 1) (s + 1) n x = moved m d s (Suc n) x"
      using far [of x] nd Suc.prems by (auto simp: moved_def in_range_Suc algebra_simps)
  qed
  finally show ?case .
qed

lemma copy_down_spec:
  assumes "unat d + n < 2 ^ 64" "unat s < unat d"
  shows "copy_down m (d + of_nat n) (s + of_nat n) n = moved m d s n"
  using assms
proof (induction n arbitrary: m)
  case 0
  then show ?case by (simp add: moved_def in_range_def)
next
  case (Suc n)
  have e: "unat (d + of_nat n) = unat d + n" using Suc.prems by (intro unat_add_of_nat) simp
  have rng: "in_range d (Suc n) x \<longleftrightarrow> in_range d n x \<or> x = d + of_nat n" for x
    using Suc.prems by (auto simp: in_range_unat e unsigned_word_eqI less_Suc_eq
        intro: word_unat_eq_iff [THEN iffD2])
  have far: "s + (x - d) \<noteq> d + of_nat n" if x: "in_range d n x" for x
  proof -
    have rx: "unat d \<le> unat x" "unat x < unat d + n"
      using x Suc.prems by (auto simp: in_range_unat)
    have "unat (x - d) = unat x - unat d"
      using rx by (simp add: unat_sub word_le_nat_alt)
    then have "unat (s + (x - d)) = unat s + (unat x - unat d)"
      using rx Suc.prems by (simp add: unat_add_small)
    then have "unat (s + (x - d)) \<noteq> unat (d + of_nat n)" using rx Suc.prems e by linarith
    then show ?thesis by metis
  qed
  have nd: "\<not> in_range d n (d + of_nat n)"
    using Suc.prems by (simp add: in_range_unat e)
  have "copy_down m (d + of_nat (Suc n)) (s + of_nat (Suc n)) (Suc n) =
        copy_down (m(d + of_nat n := m (s + of_nat n))) (d + of_nat n) (s + of_nat n) n"
    by simp
  also have "\<dots> = moved (m(d + of_nat n := m (s + of_nat n))) d s n"
    by (rule Suc.IH) (use Suc.prems in auto)
  also have "\<dots> = moved m d s (Suc n)"
  proof
    fix x
    show "moved (m(d + of_nat n := m (s + of_nat n))) d s n x = moved m d s (Suc n) x"
      using far [of x] nd by (auto simp: moved_def rng)
  qed
  finally show ?case .
qed

text \<open>
  C36: \<open>memmove\<close> copies correctly for every overlap of the two regions: each destination
  byte receives the byte that the source held before the call, and no other byte changes.
\<close>

theorem memmove_spec:
  assumes "unat dst + unat n < 2 ^ 64" "unat src + unat n < 2 ^ 64"
  shows "memmove m dst src n x =
           (if in_range dst (unat n) x then m (src + (x - dst)) else m x)"
proof (cases "n = 0")
  case True
  then show ?thesis by (simp add: memmove_def in_range_def)
next
  case False
  have n: "(ucast n :: u64) = of_nat (unat n)" by simp
  have e: "unat (src + of_nat (unat n)) = unat src + unat n"
    using assms by (intro unat_add_of_nat)
  show ?thesis
  proof (cases "src < dst \<and> src + ucast n > dst")
    case True
    then have "memmove m dst src n = moved m dst src (unat n)"
      using False assms copy_down_spec [of dst "unat n" src m]
      by (simp add: memmove_def word_less_nat_alt n del: of_nat_unat)
    then show ?thesis by (simp add: moved_def)
  next
    case up: False
    then have "unat dst \<le> unat src \<or> unat src + unat n \<le> unat dst"
      using e by (auto simp: word_less_nat_alt n simp del: of_nat_unat)
    then have "memmove m dst src n = moved m dst src (unat n)"
      using False up assms copy_up_spec [of dst "unat n" src m] by (auto simp: memmove_def)
    then show ?thesis by (simp add: moved_def)
  qed
qed

theorem memmove_spec_witness:
  "memmove (\<lambda>a. ucast a) 2 0 4 3 = 1"
  using memmove_spec [of 2 4 0 "\<lambda>a. ucast a" 3] by (simp add: in_range_def)

section \<open>Comparing and searching\<close>

lemma memcmp_zero_iff:
  "memcmp m v1 v2 n = 0 \<longleftrightarrow> (\<forall>k < unat n. m (v1 + of_nat k) = m (v2 + of_nat k))"
proof -
  have "cmp_loop m v1 v2 k = 0 \<longleftrightarrow> (\<forall>j < k. m (v1 + of_nat j) = m (v2 + of_nat j))" for k
  proof (induction k arbitrary: v1 v2)
    case 0
    then show ?case by simp
  next
    case (Suc k)
    show ?case
      by (auto simp: Suc All_less_Suc2 word_uint_eq_iff [symmetric] ac_simps)
  qed
  then show ?thesis by (simp add: memcmp_def)
qed

text \<open>A C string of length \<open>n\<close> at \<open>s\<close>.\<close>

definition cstring_at :: "fmem \<Rightarrow> addr \<Rightarrow> nat \<Rightarrow> bool" where
  "cstring_at m s n \<longleftrightarrow> m (s + of_nat n) = 0 \<and> (\<forall>k < n. m (s + of_nat k) \<noteq> 0)"

lemma strlen_cstring: "cstring_at m s n \<Longrightarrow> strlen m s = Some n"
proof -
  assume c: "cstring_at m s n"
  have "k \<le> n \<Longrightarrow> strlen_loop m s k = Some n" for k
  proof (induction rule: inc_induct)
    case base
    then show ?case using c by (subst strlen_loop.simps) (simp add: cstring_at_def)
  next
    case (step k)
    then show ?case using c by (subst strlen_loop.simps) (simp add: cstring_at_def)
  qed
  then show ?thesis by (simp add: strlen_def)
qed

lemma strncmp_zero_iff:
  "strncmp m p q n = 0 \<longleftrightarrow>
     (\<forall>k < unat n. (\<forall>j < k. m (p + of_nat j) \<noteq> 0) \<longrightarrow> m (p + of_nat k) = m (q + of_nat k))"
proof -
  have "strncmp_loop m p q k = 0 \<longleftrightarrow>
     (\<forall>i < k. (\<forall>j < i. m (p + of_nat j) \<noteq> 0) \<longrightarrow> m (p + of_nat i) = m (q + of_nat i))" for k
  proof (induction k arbitrary: p q)
    case 0
    then show ?case by simp
  next
    case (Suc k)
    have "m p \<noteq> m q \<Longrightarrow> uint (m p) - uint (m q) \<noteq> 0"
      by (simp add: word_uint_eq_iff)
    then show ?case
      by (cases "m p = 0"; cases "m p = m q") (simp_all add: Suc All_less_Suc2 ac_simps)
  qed
  then show ?thesis by (simp add: strncmp_def)
qed

section \<open>Bounded string copies\<close>

lemma safestrcpy_loop_nul: "\<exists>k\<le>n. safestrcpy_loop m s t n (s + of_nat k) = 0"
proof (induction n arbitrary: m s t)
  case 0
  then show ?case by simp
next
  case (Suc n)
  show ?case
  proof (cases "m t = 0")
    case True
    then show ?thesis by (auto simp: Let_def intro!: exI [of _ 1])
  next
    case False
    obtain k where "k \<le> n"
      "safestrcpy_loop (m(s := m t)) (s + 1) (t + 1) n (s + 1 + of_nat k) = 0"
      using Suc by blast
    then show ?thesis using False by (auto simp: Let_def ac_simps intro!: exI [of _ "Suc k"])
  qed
qed

lemma safestrcpy_loop_frame:
  "n < 2 ^ 64 - 1 \<Longrightarrow> \<not> in_range s (Suc n) x \<Longrightarrow> safestrcpy_loop m s t n x = m x"
proof (induction n arbitrary: m s t)
  case 0
  then show ?case by (auto simp: in_range_def)
next
  case (Suc n)
  then have "x \<noteq> s" "\<not> in_range (s + 1) (Suc n) x" "x \<noteq> s + 1"
    by (auto simp: in_range_Suc [of "Suc n"] in_range_Suc [of n])
  then show ?case using Suc by (simp add: Let_def)
qed

text \<open>
  C37: \<open>safestrcpy\<close> always leaves a terminated string in a non-empty destination, whatever
  the source holds and however it overlaps, and writes nothing outside the \<open>n\<close> bytes it
  was given.
\<close>

theorem safestrcpy_safe:
  assumes "0 < n" "n < 2 ^ 31"
  shows "(\<exists>k < nat n. safestrcpy m s t n (s + of_nat k) = 0) \<and>
         (\<forall>x. \<not> in_range s (nat n) x \<longrightarrow> safestrcpy m s t n x = m x)"
proof -
  have "Suc (nat n - 1) = nat n" "nat n - 1 < 2 ^ 64 - 1" using assms by auto
  then show ?thesis
    using assms safestrcpy_loop_nul [of "nat n - 1" m s t]
      safestrcpy_loop_frame [of "nat n - 1" s _ m t]
    by (auto simp: safestrcpy_def less_Suc_eq_le [symmetric])
qed

theorem safestrcpy_safe_witness:
  "(\<exists>k < nat 2. safestrcpy (\<lambda>_. 7) 100 200 2 (100 + of_nat k) = 0) \<and>
   safestrcpy (\<lambda>_. 7) 100 200 2 102 = 7"
  using safestrcpy_safe [of 2 "\<lambda>_. 7" 100 200] by (simp add: in_range_def)

section \<open>Loads and stores\<close>

text \<open>Two ranges without a common byte.\<close>

definition apart :: "addr \<Rightarrow> nat \<Rightarrow> addr \<Rightarrow> nat \<Rightarrow> bool" where
  "apart a n b m \<longleftrightarrow> (\<forall>x. \<not> (in_range a n x \<and> in_range b m x))"

lemma apart_sym: "apart a n b m \<longleftrightarrow> apart b m a n"
  by (auto simp: apart_def)

lemma ld64_cong: "(\<And>x. in_range a 8 x \<Longrightarrow> m x = m' x) \<Longrightarrow> ld64 m a = ld64 m' a"
  unfolding ld64_def by (rule get64_cong) (simp add: in_range_offset)

lemma ld64_st64_same [simp]: "ld64 (st64 m a v) a = v"
proof -
  have "ld64 (st64 m a v) a = get64 (put64 (\<lambda>_. 0) 0 v) 0"
    unfolding ld64_def by (rule get64_cong) (simp add: st64_def unat_of_nat_small)
  then show ?thesis by simp
qed

lemma st64_other: "\<not> in_range a 8 x \<Longrightarrow> st64 m a v x = m x"
  by (simp add: st64_def in_range_def)

lemma ld64_st64_apart [simp]: "apart a 8 b 8 \<Longrightarrow> ld64 (st64 m a v) b = ld64 m b"
  by (rule ld64_cong) (auto simp: apart_def intro!: st64_other)

lemma memset_other: "\<not> in_range a (unat n) x \<Longrightarrow> memset m a c n x = m x"
  by (simp add: memset_spec)

lemma ld64_memset_apart [simp]: "apart a (unat n) b 8 \<Longrightarrow> ld64 (memset m a c n) b = ld64 m b"
  by (rule ld64_cong) (auto simp: apart_def intro!: memset_other)

end
