(* ===== verification/Kalloc.thy ===== *)
theory Kalloc
  imports Kstring
begin

text \<open>
  The page allocator of \<^verbatim>\<open>kernel/kalloc.c\<close>, twice. The first model is the C code on flat
  memory: the free list is threaded through the free pages and the reference counters are
  64-bit cells at the link-time address of \<open>ref_counter\<close>. The second, the \<open>pool\<close>, keeps
  the free list as a list, the counters as a function and the content of each page as a
  buffer. The components above the allocator are modelled on the pool; the refinement
  lemmas show that the C code implements it for every page that no counter cell overlaps.
\<close>

section \<open>Pages and addresses\<close>

definition PGSIZE :: u64 where [layout]: "PGSIZE = 4096"
definition KERNBASE :: u64 where [layout]: "KERNBASE = 0x80000000"
definition PHYSTOP :: u64 where [layout]: "PHYSTOP = KERNBASE + 128 * 1024 * 1024"
definition MAX_USER_PAGE_COUNT :: u64 where
  [layout]: "MAX_USER_PAGE_COUNT = (PHYSTOP - KERNBASE) div PGSIZE"

definition PGROUNDUP :: "u64 \<Rightarrow> u64" where
  "PGROUNDUP sz = (sz + PGSIZE - 1) AND NOT (PGSIZE - 1)"

definition PGROUNDDOWN :: "u64 \<Rightarrow> u64" where
  "PGROUNDDOWN a = a AND NOT (PGSIZE - 1)"

text \<open>The test at the head of \<open>kfree\<close>, negated.\<close>

definition valid_page :: "addr \<Rightarrow> addr \<Rightarrow> bool" where
  "valid_page kernel_end pa \<longleftrightarrow> \<not> (pa mod PGSIZE \<noteq> 0 \<or> pa < kernel_end \<or> pa \<ge> PHYSTOP)"

section \<open>The allocator on flat memory\<close>

record kmem =
  fm :: fmem
  kfreelist :: addr
  kend :: addr
  ref_counter :: addr

definition cell :: "kmem \<Rightarrow> u64 \<Rightarrow> addr" where
  "cell k page_num = ref_counter k + 8 * page_num"

definition add_page_reference :: "kmem \<Rightarrow> u64 \<Rightarrow> kmem" where
  "add_page_reference k pointer_in_page =
     (let page_num = ucast (PGROUNDDOWN pointer_in_page div PGSIZE) :: u32;
          c = cell k (ucast page_num)
      in k\<lparr>fm := st64 (fm k) c (ld64 (fm k) c + 1)\<rparr>)"

definition kfree :: "kmem \<Rightarrow> addr \<Rightarrow> kmem result" where
  "kfree k pa =
     (if \<not> valid_page (kend k) pa then Inl (Panic ''kfree'')
      else
        let c = cell k (PGROUNDDOWN pa div PGSIZE)
        in if ld64 (fm k) c > 1
           then Inr (k\<lparr>fm := st64 (fm k) c (ld64 (fm k) c - 1)\<rparr>)
           else
             let m = st64 (fm k) c 0;
                 m = memset m pa 1 4096;
                 m = st64 m pa (kfreelist k)
             in Inr (k\<lparr>fm := m, kfreelist := pa\<rparr>))"

definition kalloc :: "kmem \<Rightarrow> addr \<times> kmem" where
  "kalloc k =
     (let r = kfreelist k;
          k = (if r \<noteq> 0 then k\<lparr>kfreelist := ld64 (fm k) r\<rparr> else k);
          k = k\<lparr>fm := st64 (fm k) (cell k (PGROUNDDOWN r div PGSIZE)) 1\<rparr>;
          k = (if r \<noteq> 0 then k\<lparr>fm := memset (fm k) r 5 4096\<rparr> else k)
      in (r, k))"

partial_function (option) freerange_loop :: "kmem \<Rightarrow> addr \<Rightarrow> addr \<Rightarrow> kmem result option" where
  "freerange_loop k p pa_end =
     (if p + PGSIZE \<le> pa_end
      then (case kfree k p of Inl e \<Rightarrow> Some (Inl e)
                            | Inr k' \<Rightarrow> freerange_loop k' (p + PGSIZE) pa_end)
      else Some (Inr k))"

definition freerange :: "kmem \<Rightarrow> addr \<Rightarrow> addr \<Rightarrow> kmem result option" where
  "freerange k pa_start pa_end = freerange_loop k (PGROUNDUP pa_start) pa_end"

definition kinit :: "kmem \<Rightarrow> kmem result option" where
  "kinit k = freerange k (kend k) PHYSTOP"

section \<open>The page pool\<close>

record pool =
  freelist :: "addr list"
  refs :: "addr \<Rightarrow> u64"
  pg :: "addr \<Rightarrow> buf"
  pend :: addr

definition pool_kfree :: "pool \<Rightarrow> addr \<Rightarrow> pool result" where
  "pool_kfree P pa =
     (if \<not> valid_page (pend P) pa then Inl (Panic ''kfree'')
      else if refs P pa > 1 then Inr (P\<lparr>refs := (refs P)(pa := refs P pa - 1)\<rparr>)
      else Inr (P\<lparr>refs := (refs P)(pa := 0), pg := (pg P)(pa := \<lambda>_. 1), freelist := pa # freelist P\<rparr>))"

definition pool_kalloc :: "pool \<Rightarrow> addr \<times> pool" where
  "pool_kalloc P =
     (case freelist P of
        [] \<Rightarrow> (0, P\<lparr>refs := (refs P)(0 := 1)\<rparr>)
      | r # rs \<Rightarrow> (r, P\<lparr>freelist := rs, refs := (refs P)(r := 1), pg := (pg P)(r := \<lambda>_. 5)\<rparr>))"

section \<open>Page arithmetic\<close>

lemma valid_page_bounds:
  assumes "valid_page e p"
  shows "unat p mod 4096 = 0" "unat e \<le> unat p" "unat p + 4096 \<le> 0x88000000"
proof -
  have "unat (p mod 4096) = 0" using assms by (simp add: valid_page_def layout)
  then show m: "unat p mod 4096 = 0" by (simp add: unat_mod)
  show "unat e \<le> unat p" using assms by (simp add: valid_page_def not_less word_le_nat_alt [symmetric])
  have "unat p < 0x88000000"
    using assms by (simp add: valid_page_def layout not_le word_less_nat_alt [symmetric])
      (simp add: word_less_nat_alt)
  moreover obtain q where "unat p = 4096 * q" using m by (auto elim: dvdE simp: dvd_eq_mod_eq_0)
  ultimately show "unat p + 4096 \<le> 0x88000000" by simp
qed

lemma PGROUNDDOWN_aligned: "p mod PGSIZE = 0 \<Longrightarrow> PGROUNDDOWN p = p"
proof -
  assume "p mod PGSIZE = 0"
  then have "take_bit 12 p = 0" by (simp add: take_bit_eq_mod layout)
  then have low: "\<not> bit p n" if "n < 12" for n
    using that by (metis bit_take_bit_iff bit_0_eq bot_apply bot_bool_def)
  have "PGROUNDDOWN p = p AND NOT (mask 12)"
    by (simp add: PGROUNDDOWN_def layout mask_numeral)
  also have "\<dots> = p"
    by (rule bit_word_eqI) (use low in \<open>auto simp: bit_simps\<close>)
  finally show ?thesis .
qed

lemma PGROUNDDOWN_valid: "valid_page e p \<Longrightarrow> PGROUNDDOWN p = p"
  by (simp add: valid_page_def PGROUNDDOWN_aligned)

lemma PGROUNDDOWN_0 [simp]: "PGROUNDDOWN 0 = 0"
  by (simp add: PGROUNDDOWN_def)

lemma unat_page_num: "unat (p div PGSIZE) = unat p div 4096"
  by (simp add: layout unat_div)

lemma page_range: "valid_page e p \<Longrightarrow> in_range p 4096 x \<longleftrightarrow> unat x div 4096 = unat p div 4096"
proof -
  assume v: "valid_page e p"
  obtain q where q: "unat p = 4096 * q"
    using valid_page_bounds(1) [OF v] by (auto elim: dvdE simp: dvd_eq_mod_eq_0)
  have "unat p + 4096 \<le> 2 ^ 64" using valid_page_bounds(3) [OF v] by simp
  then have "in_range p 4096 x \<longleftrightarrow> 4096 * q \<le> unat x \<and> unat x < 4096 * q + 4096"
    by (simp add: in_range_unat q)
  also have "\<dots> \<longleftrightarrow> unat x div 4096 = q"
    using div_mult_mod_eq [of "unat x" 4096] mod_less_divisor [of 4096 "unat x"] by auto
  finally show ?thesis by (simp add: q)
qed

lemma pages_apart:
  assumes "valid_page e p" "valid_page e q" "p \<noteq> q" shows "apart p 4096 q 4096"
proof -
  have "unat p div 4096 \<noteq> unat q div 4096"
    using assms valid_page_bounds(1) [OF assms(1)] valid_page_bounds(1) [OF assms(2)]
    by (metis div_mult_mod_eq word_unat_eq_iff)
  then show ?thesis using assms by (auto simp: apart_def page_range)
qed

lemma apart_mono: "apart a n b m \<Longrightarrow> n' \<le> n \<Longrightarrow> m' \<le> m \<Longrightarrow> apart a n' b m'"
  unfolding apart_def in_range_def by (meson less_le_trans)

lemma cells_apart:
  assumes "unat i < 2 ^ 32" "unat j < 2 ^ 32" "i \<noteq> j"
  shows "apart (cell k i) 8 (cell k j) 8"
  unfolding apart_def
proof (intro allI notI, elim conjE)
  fix x assume x: "in_range (cell k i) 8 x" "in_range (cell k j) 8 x"
  define d where "d = x - cell k i"
  define e where "e = x - cell k j"
  have de: "unat d < 8" "unat e < 8" using x by (auto simp: d_def e_def in_range_def)
  have "8 * i + d = 8 * j + e" by (simp add: d_def e_def cell_def)
  then have "unat (8 * i + d) = unat (8 * j + e)" by simp
  then have "8 * unat i + unat d = 8 * unat j + unat e"
    using assms de by (simp add: unat_word_ariths)
  then have "unat i = unat j" using de by presburger
  then show False using assms by (simp add: word_unat_eq_iff)
qed

section \<open>The C allocator implements the pool\<close>

text \<open>A page the allocator may hand out without a counter write landing in it.\<close>

definition safe_page :: "kmem \<Rightarrow> addr \<Rightarrow> bool" where
  "safe_page k p \<longleftrightarrow> valid_page (kend k) p \<and>
     (\<forall>q. q = 0 \<or> valid_page (kend k) q \<longrightarrow> apart (cell k (q div PGSIZE)) 8 p 4096)"

fun chain :: "fmem \<Rightarrow> addr \<Rightarrow> addr list \<Rightarrow> bool" where
  "chain m a [] \<longleftrightarrow> a = 0"
| "chain m a (p # ps) \<longleftrightarrow> a = p \<and> p \<noteq> 0 \<and> chain m (ld64 m p) ps"

definition pool_rel :: "kmem \<Rightarrow> pool \<Rightarrow> bool" where
  "pool_rel k P \<longleftrightarrow>
     kend k \<noteq> 0 \<and> pend P = kend k \<and>
     chain (fm k) (kfreelist k) (freelist P) \<and> distinct (freelist P) \<and>
     (\<forall>p \<in> set (freelist P). safe_page k p) \<and>
     (\<forall>q. safe_page k q \<longrightarrow> refs P q = ld64 (fm k) (cell k (q div PGSIZE))) \<and>
     (\<forall>q i. safe_page k q \<longrightarrow> q \<notin> set (freelist P) \<longrightarrow> i < 4096 \<longrightarrow>
        pg P q i = fm k (q + of_nat i))"

lemma chain_cong:
  "(\<And>p. p \<in> set ps \<Longrightarrow> ld64 m p = ld64 m' p) \<Longrightarrow> chain m a ps \<longleftrightarrow> chain m' a ps"
  by (induction ps arbitrary: a) auto

lemma safe_page_cong [simp]:
  "safe_page (k\<lparr>fm := m\<rparr>) = safe_page k"
  "safe_page (k\<lparr>kfreelist := h\<rparr>) = safe_page k"
  by (auto simp: safe_page_def cell_def fun_eq_iff)

lemma cell_cong [simp]:
  "cell (k\<lparr>fm := m\<rparr>) = cell k"
  "cell (k\<lparr>kfreelist := h\<rparr>) = cell k"
  by (auto simp: cell_def fun_eq_iff)

lemma safe_page_valid: "safe_page k p \<Longrightarrow> valid_page (kend k) p"
  by (simp add: safe_page_def)

lemma safe_page_cell:
  "safe_page k p \<Longrightarrow> q = 0 \<or> valid_page (kend k) q \<Longrightarrow> apart (cell k (q div PGSIZE)) 8 p 4096"
  unfolding safe_page_def by blast

lemma page_num_eq:
  assumes "valid_page e p" "valid_page e q" "p div PGSIZE = q div PGSIZE" shows "p = q"
proof -
  have "unat p div 4096 = unat q div 4096" using assms(3) by (metis unat_page_num)
  then have "unat p = unat q"
    using valid_page_bounds(1) [OF assms(1)] valid_page_bounds(1) [OF assms(2)]
    by (metis div_mult_mod_eq)
  then show ?thesis by (simp add: word_unat_eq_iff)
qed

lemma page_num_small: "q = 0 \<or> valid_page e q \<Longrightarrow> unat (q div PGSIZE) < 2 ^ 32"
  using valid_page_bounds(3) [of e q] by (auto simp: unat_page_num)

lemma valid_cells_apart:
  assumes "valid_page e p" "q = 0 \<or> valid_page e q" "p \<noteq> q" "e \<noteq> 0"
  shows "apart (cell k (q div PGSIZE)) 8 (cell k (p div PGSIZE)) 8"
proof (rule cells_apart)
  show "unat (q div PGSIZE) < 2 ^ 32" "unat (p div PGSIZE) < 2 ^ 32"
    using page_num_small assms by blast+
  show "q div PGSIZE \<noteq> p div PGSIZE"
  proof (cases "q = 0")
    case True
    have "unat e > 0" using assms by (simp add: unat_gt_0)
    then have "unat p \<ge> 4096"
      using valid_page_bounds [OF assms(1)] by (metis le_zero_eq linorder_not_less mod_less)
    then have "unat (p div PGSIZE) \<noteq> 0" by (simp add: unat_page_num)
    then show ?thesis using True by auto
  next
    case False
    then show ?thesis using assms page_num_eq by metis
  qed
qed

lemma in_page_offset: "i < 4096 \<Longrightarrow> in_range p 4096 (p + of_nat i)"
  by (rule in_range_offset) auto

text \<open>What the three kinds of store leave alone.\<close>

lemma cell_store:
  assumes "safe_page k p" "q = 0 \<or> valid_page (kend k) q"
  shows "i < 4096 \<Longrightarrow> st64 m (cell k (q div PGSIZE)) v (p + of_nat i) = m (p + of_nat i)"
    and "ld64 (st64 m (cell k (q div PGSIZE)) v) p = ld64 m p"
proof -
  have a: "apart (cell k (q div PGSIZE)) 8 p 4096" by (rule safe_page_cell [OF assms])
  show "i < 4096 \<Longrightarrow> st64 m (cell k (q div PGSIZE)) v (p + of_nat i) = m (p + of_nat i)"
    using a in_page_offset [of i p] by (auto simp: apart_def intro!: st64_other)
  show "ld64 (st64 m (cell k (q div PGSIZE)) v) p = ld64 m p"
    by (rule ld64_st64_apart) (rule apart_mono [OF a], auto)
qed

lemma page_fill:
  assumes "safe_page k p"
  shows "safe_page k q \<Longrightarrow> p \<noteq> q \<Longrightarrow> ld64 (memset m p c 4096) q = ld64 m q"
    and "q = 0 \<or> valid_page (kend k) q \<Longrightarrow>
         ld64 (memset m p c 4096) (cell k (q div PGSIZE)) = ld64 m (cell k (q div PGSIZE))"
    and "safe_page k q \<Longrightarrow> p \<noteq> q \<Longrightarrow> i < 4096 \<Longrightarrow> memset m p c 4096 (q + of_nat i) = m (q + of_nat i)"
    and "i < 4096 \<Longrightarrow> memset m p c 4096 (p + of_nat i) = ucast c"
proof -
  have pq: "apart p 4096 q 4096" if "safe_page k q" "p \<noteq> q" for q
    using that assms by (metis pages_apart safe_page_valid)
  show "safe_page k q \<Longrightarrow> p \<noteq> q \<Longrightarrow> ld64 (memset m p c 4096) q = ld64 m q"
    by (rule ld64_memset_apart) (rule apart_mono [OF pq], auto)
  show "q = 0 \<or> valid_page (kend k) q \<Longrightarrow>
         ld64 (memset m p c 4096) (cell k (q div PGSIZE)) = ld64 m (cell k (q div PGSIZE))"
    using safe_page_cell [OF assms, of q] by (simp add: apart_sym)
  show "safe_page k q \<Longrightarrow> p \<noteq> q \<Longrightarrow> i < 4096 \<Longrightarrow> memset m p c 4096 (q + of_nat i) = m (q + of_nat i)"
    using pq in_page_offset [of i q] by (auto simp: apart_def intro!: memset_other)
  show "i < 4096 \<Longrightarrow> memset m p c 4096 (p + of_nat i) = ucast c"
    using in_page_offset [of i p] by (simp add: memset_spec)
qed

lemma link_store:
  assumes "safe_page k p"
  shows "safe_page k q \<Longrightarrow> p \<noteq> q \<Longrightarrow> ld64 (st64 m p v) q = ld64 m q"
    and "q = 0 \<or> valid_page (kend k) q \<Longrightarrow>
         ld64 (st64 m p v) (cell k (q div PGSIZE)) = ld64 m (cell k (q div PGSIZE))"
    and "safe_page k q \<Longrightarrow> p \<noteq> q \<Longrightarrow> i < 4096 \<Longrightarrow> st64 m p v (q + of_nat i) = m (q + of_nat i)"
proof -
  have pq: "apart p 8 q 4096" if "safe_page k q" "p \<noteq> q" for q
    using apart_mono [OF pages_apart [OF safe_page_valid [OF assms] safe_page_valid [OF that(1)]
        that(2)], of 8 4096] by simp
  show "safe_page k q \<Longrightarrow> p \<noteq> q \<Longrightarrow> ld64 (st64 m p v) q = ld64 m q"
    by (rule ld64_st64_apart) (rule apart_mono [OF pq], auto)
  show "q = 0 \<or> valid_page (kend k) q \<Longrightarrow>
         ld64 (st64 m p v) (cell k (q div PGSIZE)) = ld64 m (cell k (q div PGSIZE))"
    using safe_page_cell [OF assms, of q]
    by (intro ld64_st64_apart) (auto simp: apart_sym [of p] intro: apart_mono)
  show "safe_page k q \<Longrightarrow> p \<noteq> q \<Longrightarrow> i < 4096 \<Longrightarrow> st64 m p v (q + of_nat i) = m (q + of_nat i)"
    using pq in_page_offset [of i q] by (auto simp: apart_def intro!: st64_other)
qed

lemma pool_relD:
  assumes "pool_rel k P"
  shows "kend k \<noteq> 0" "pend P = kend k" "chain (fm k) (kfreelist k) (freelist P)"
    "distinct (freelist P)" "p \<in> set (freelist P) \<Longrightarrow> safe_page k p"
    "safe_page k q \<Longrightarrow> refs P q = ld64 (fm k) (cell k (q div PGSIZE))"
    "safe_page k q \<Longrightarrow> q \<notin> set (freelist P) \<Longrightarrow> i < 4096 \<Longrightarrow> pg P q i = fm k (q + of_nat i)"
  using assms by (auto simp: pool_rel_def)

lemma safe_page_nonzero: "safe_page k p \<Longrightarrow> kend k \<noteq> 0 \<Longrightarrow> p \<noteq> 0"
  using valid_page_bounds(2) [of "kend k" p] safe_page_valid [of k p]
  by (auto simp: unsigned_eq_0_iff)

lemma kalloc_refines_empty:
  assumes rel: "pool_rel k P" and e: "freelist P = []"
  shows "fst (kalloc k) = 0" "pool_rel (snd (kalloc k)) (snd (pool_kalloc P))"
proof -
  have h: "kfreelist k = 0" using pool_relD(3) [OF rel] e by simp
  then show "fst (kalloc k) = 0" by (simp add: kalloc_def Let_def)
  have "apart (cell k (0 div PGSIZE)) 8 (cell k (q div PGSIZE)) 8" if "safe_page k q" for q
    using that pool_relD(1) [OF rel] safe_page_nonzero [OF that]
    by (intro valid_cells_apart [of "kend k"]) (auto dest: safe_page_valid)
  moreover have "st64 m (cell k (0 div PGSIZE)) v (q + of_nat i) = m (q + of_nat i)"
    if "safe_page k q" "i < 4096" for q i m v
    using that by (intro cell_store) auto
  ultimately show "pool_rel (snd (kalloc k)) (snd (pool_kalloc P))"
    using h e pool_relD [OF rel] safe_page_nonzero
    by (auto simp: kalloc_def pool_kalloc_def pool_rel_def Let_def)
qed

lemma kalloc_refines_some:
  assumes rel: "pool_rel k P" and f: "freelist P = r # rs"
  shows "fst (kalloc k) = r" "pool_rel (snd (kalloc k)) (snd (pool_kalloc P))"
proof -
  note R = pool_relD [OF rel]
  have h: "kfreelist k = r" "r \<noteq> 0" using R(3) f by auto
  then show "fst (kalloc k) = r" by (simp add: kalloc_def Let_def)
  have sr: "safe_page k r" "valid_page (kend k) r" and srs: "p \<in> set rs \<Longrightarrow> safe_page k p"
    and nr: "r \<notin> set rs" for p
    using R(4) R(5) f safe_page_valid by auto
  define m where "m = memset (st64 (fm k) (cell k (r div PGSIZE)) 1) r 5 4096"
  have k': "snd (kalloc k) = k\<lparr>kfreelist := ld64 (fm k) r, fm := m\<rparr>"
    using h PGROUNDDOWN_valid [OF sr(2)] by (simp add: kalloc_def Let_def m_def)
  have "chain m (ld64 (fm k) r) rs \<longleftrightarrow> chain (fm k) (ld64 (fm k) r) rs"
  proof (rule chain_cong)
    fix p assume p: "p \<in> set rs"
    then have "r \<noteq> p" using nr by auto
    then show "ld64 m p = ld64 (fm k) p"
      using page_fill(1) [OF sr(1) srs [OF p]] cell_store(2) [OF srs [OF p], of r] sr(2)
      by (simp add: m_def)
  qed
  then have c: "chain m (ld64 (fm k) r) rs" using R(3) f by simp
  have cells: "ld64 m (cell k (q div PGSIZE)) =
      (if q = r then 1 else ld64 (fm k) (cell k (q div PGSIZE)))" if "safe_page k q" for q
  proof (cases "q = r")
    case True
    then show ?thesis using sr by (simp add: m_def page_fill(2))
  next
    case False
    then show ?thesis
      using that sr R(1) valid_cells_apart [of "kend k" q r k] safe_page_valid [OF that]
      by (simp add: m_def page_fill(2))
  qed
  have bytes: "m (q + of_nat i) = (if q = r then 5 else fm k (q + of_nat i))"
    if "safe_page k q" "i < 4096" for q i
    using that sr by (auto simp: m_def page_fill(3) [of k] page_fill(4) [of k] cell_store(1))
  show "pool_rel (snd (kalloc k)) (snd (pool_kalloc P))"
    unfolding k' using c cells bytes f R srs by (auto simp: pool_kalloc_def pool_rel_def)
qed

lemma kfree_refines:
  assumes rel: "pool_rel k P" and sp: "safe_page k p" and fresh: "p \<notin> set (freelist P)"
  shows "\<exists>k' P'. kfree k p = Inr k' \<and> pool_kfree P p = Inr P' \<and> pool_rel k' P'"
proof -
  note R = pool_relD [OF rel]
  have v: "valid_page (kend k) p" and nz: "p \<noteq> 0"
    using safe_page_valid [OF sp] safe_page_nonzero [OF sp R(1)] by auto
  define c where "c = cell k (p div PGSIZE)"
  have other: "apart c 8 (cell k (q div PGSIZE)) 8" if "safe_page k q" "q \<noteq> p" for q
    using that v R(1) valid_cells_apart [of "kend k" q p k] safe_page_valid by (simp add: c_def)
  have rc: "refs P p = ld64 (fm k) c" using R(6) [OF sp] by (simp add: c_def)
  have pn: "cell k (PGROUNDDOWN p div PGSIZE) = c" by (simp add: PGROUNDDOWN_valid [OF v] c_def)
  have keep: "st64 (fm k) c w (q + of_nat i) = fm k (q + of_nat i)" "ld64 (st64 (fm k) c w) q = ld64 (fm k) q"
    if "safe_page k q" "i < 4096" for q i w
    using cell_store [OF that(1), of p] v that(2) by (auto simp: c_def)
  show ?thesis
  proof (cases "ld64 (fm k) c > 1")
    case True
    define m where "m = st64 (fm k) c (ld64 (fm k) c - 1)"
    have "chain m (kfreelist k) (freelist P)"
      using R(3) R(5) keep(2) [of _ 0] chain_cong [of "freelist P" m "fm k"] by (auto simp: m_def)
    moreover have "ld64 m (cell k (q div PGSIZE)) =
        (if q = p then ld64 (fm k) c - 1 else ld64 (fm k) (cell k (q div PGSIZE)))"
      if "safe_page k q" for q
      using other [OF that] by (simp add: m_def c_def [symmetric])
    ultimately have "pool_rel (k\<lparr>fm := m\<rparr>) (P\<lparr>refs := (refs P)(p := refs P p - 1)\<rparr>)"
      using R rc keep(1) by (auto simp: pool_rel_def m_def)
    then show ?thesis
      using True v rc R(2) by (auto simp: kfree_def pool_kfree_def pn m_def)
  next
    case False
    define m1 where "m1 = memset (st64 (fm k) c 0) p 1 4096"
    define m where "m = st64 m1 p (kfreelist k)"
    have link: "ld64 m q = ld64 (fm k) q" if "q \<in> set (freelist P)" for q
    proof -
      have "safe_page k q" "p \<noteq> q" using that fresh R(5) by auto
      then show ?thesis
        using link_store(1) [OF sp] page_fill(1) [OF sp] keep(2) [of q 0] by (simp add: m_def m1_def)
    qed
    have "chain m p (p # freelist P)"
      using R(3) nz chain_cong [OF link, of "freelist P"] by (simp add: m_def)
    moreover have "ld64 m (cell k (q div PGSIZE)) =
        (if q = p then 0 else ld64 (fm k) (cell k (q div PGSIZE)))" if "safe_page k q" for q
      using other [OF that] link_store(2) [OF sp] page_fill(2) [OF sp] safe_page_valid [OF that]
      by (simp add: m_def m1_def c_def [symmetric])
    moreover have "m (q + of_nat i) = fm k (q + of_nat i)"
      if "safe_page k q" "q \<noteq> p" "i < 4096" for q i
      using that link_store(3) [OF sp] page_fill(3) [OF sp] keep(1) by (simp add: m_def m1_def)
    ultimately have "pool_rel (k\<lparr>fm := m, kfreelist := p\<rparr>)
        (P\<lparr>refs := (refs P)(p := 0), pg := (pg P)(p := \<lambda>_. 1), freelist := p # freelist P\<rparr>)"
      using R sp fresh by (auto simp: pool_rel_def)
    then show ?thesis
      using False v rc R(2) by (auto simp: kfree_def pool_kfree_def pn m_def m1_def Let_def)
  qed
qed

text \<open>
  C13: the C allocator implements the page pool: from related states \<open>kalloc\<close> returns the
  page the pool returns and ends in related states, and so does \<open>kfree\<close> of an allocated
  page, as long as the pages handled are not overlapped by reference counter cells.
\<close>

theorem kalloc_kfree_refine_pool:
  assumes "pool_rel k P"
  shows "fst (kalloc k) = fst (pool_kalloc P) \<and>
         pool_rel (snd (kalloc k)) (snd (pool_kalloc P)) \<and>
         (\<forall>p. safe_page k p \<longrightarrow> p \<notin> set (freelist P) \<longrightarrow>
            (\<exists>k' P'. kfree k p = Inr k' \<and> pool_kfree P p = Inr P' \<and> pool_rel k' P'))"
  using kalloc_refines_empty [OF assms] kalloc_refines_some [OF assms] kfree_refines [OF assms]
  by (cases "freelist P") (auto simp: pool_kalloc_def)

definition boot_kmem :: kmem where
  "boot_kmem = \<lparr>fm = \<lambda>_. 0, kfreelist = 0, kend = 0x80022000, ref_counter = 0\<rparr>"

definition boot_pool :: pool where
  "boot_pool = \<lparr>freelist = [], refs = \<lambda>_. 0, pg = \<lambda>_ _. 0, pend = 0x80022000\<rparr>"

lemma boot_related: "pool_rel boot_kmem boot_pool"
  by (simp add: pool_rel_def boot_kmem_def boot_pool_def ld64_def get64_def get32_def)

lemma low_counters_safe:
  assumes "ref_counter k = 0" "unat (kend k) \<ge> 0x80000000" "valid_page (kend k) p"
  shows "safe_page k p"
proof -
  have "apart (cell k (q div PGSIZE)) 8 p 4096" if "q = 0 \<or> valid_page (kend k) q" for q
    unfolding apart_def
  proof (intro allI notI, elim conjE)
    fix x assume x: "in_range (cell k (q div PGSIZE)) 8 x" "in_range p 4096 x"
    have q: "unat q < 0x88000000" using that valid_page_bounds(3) [of "kend k" q] by auto
    then have n: "unat (q div PGSIZE) < 0x88000" by (simp add: unat_page_num less_mult_imp_div_less)
    then have "unat (8 * (q div PGSIZE)) = 8 * unat (q div PGSIZE)" by (simp add: unat_word_ariths)
    then have "unat x < 0x440008"
      using x(1) n assms(1) by (simp add: cell_def in_range_unat)
    moreover have "0x80000000 \<le> unat x"
      using x(2) assms valid_page_bounds [OF assms(3)] by (simp add: in_range_unat)
    ultimately show False by simp
  qed
  then show ?thesis using assms(3) unfolding safe_page_def by blast
qed

theorem kalloc_kfree_refine_pool_witness:
  "fst (kalloc boot_kmem) = 0 \<and> (\<exists>k'. kfree boot_kmem 0x80030000 = Inr k')"
proof -
  have "safe_page boot_kmem 0x80030000"
    by (rule low_counters_safe) (simp_all add: boot_kmem_def valid_page_def layout)
  moreover have "(0x80030000 :: addr) \<notin> set (freelist boot_pool)" by (simp add: boot_pool_def)
  ultimately show ?thesis
    using kalloc_kfree_refine_pool [OF boot_related]
    by (auto simp: pool_kalloc_def boot_pool_def)
qed

section \<open>The counter array is too short\<close>

text \<open>Every page number that \<open>kalloc\<close> and \<open>kfree\<close> use is past the end of \<open>ref_counter\<close>.\<close>

lemma ref_counter_out_of_bounds:
  "valid_page e p \<Longrightarrow> KERNBASE \<le> e \<Longrightarrow> MAX_USER_PAGE_COUNT \<le> PGROUNDDOWN p div PGSIZE"
proof -
  assume v: "valid_page e p" and e: "KERNBASE \<le> e"
  have "0x80000000 \<le> unat p"
    using valid_page_bounds(2) [OF v] e by (simp add: layout word_le_nat_alt)
  then have "0x80000000 div 4096 \<le> unat p div 4096" by (rule div_le_mono)
  then have "32768 \<le> unat (p div PGSIZE)" by (simp add: unat_page_num)
  moreover have "unat MAX_USER_PAGE_COUNT = 32768" by (simp add: layout)
  ultimately show ?thesis by (simp add: PGROUNDDOWN_valid [OF v] word_le_nat_alt)
qed

lemma ld64_ones: "(\<And>x. in_range a 8 x \<Longrightarrow> m x = 1) \<Longrightarrow> ld64 m a = 0x0101010101010101"
proof -
  assume "\<And>x. in_range a 8 x \<Longrightarrow> m x = 1"
  then have "ld64 m a = ld64 (\<lambda>_. 1) a" by (rule ld64_cong)
  then show ?thesis by (simp add: ld64_def get64_def get32_def)
qed


definition linked_kmem :: kmem where
  "linked_kmem = \<lparr>fm = \<lambda>_. 0, kfreelist = 0, kend = 0x80030000, ref_counter = 0x80010000\<rparr>"


section \<open>The allocator interface\<close>

text \<open>
  What a client of the allocator relies on: \<open>avail\<close> are the pages that can still be
  handed out, in order, and \<open>owned\<close> the pages that may be given back.
\<close>

locale page_allocator =
  fixes alloc :: "'s \<Rightarrow> addr \<times> 's"
    and give_back :: "'s \<Rightarrow> addr \<Rightarrow> 's result"
    and avail :: "'s \<Rightarrow> addr list"
    and ok :: "'s \<Rightarrow> bool"
    and owned :: "'s \<Rightarrow> addr \<Rightarrow> bool"
  assumes alloc_ok: "ok s \<Longrightarrow> ok (snd (alloc s))"
    and alloc_none: "ok s \<Longrightarrow> avail s = [] \<Longrightarrow> fst (alloc s) = 0"
    and alloc_some: "ok s \<Longrightarrow> avail s = p # ps \<Longrightarrow> fst (alloc s) = p \<and> avail (snd (alloc s)) = ps"
    and avail_distinct: "ok s \<Longrightarrow> distinct (avail s) \<and> 0 \<notin> set (avail s)"
    and give_back_ok: "ok s \<Longrightarrow> owned s p \<Longrightarrow>
          \<exists>s'. give_back s p = Inr s' \<and> ok s' \<and> avail s' \<in> {avail s, p # avail s}"
begin

lemma alloc_zero_iff: "ok s \<Longrightarrow> fst (alloc s) = 0 \<longleftrightarrow> avail s = []"
  using alloc_none [of s] alloc_some [of s "hd (avail s)" "tl (avail s)"] avail_distinct [of s]
  by (cases "avail s") auto

lemma alloc_fresh: "ok s \<Longrightarrow> fst (alloc s) \<noteq> 0 \<Longrightarrow> fst (alloc s) \<notin> set (avail (snd (alloc s)))"
  using alloc_zero_iff [of s] alloc_some [of s] avail_distinct [of s] by (cases "avail s") auto

lemma alloc_twice_distinct:
  "ok s \<Longrightarrow> alloc s = (p, s') \<Longrightarrow> alloc s' = (q, s'') \<Longrightarrow> p \<noteq> 0 \<Longrightarrow> q \<noteq> p"
  using alloc_fresh [of s] alloc_ok [of s] alloc_none [of s'] alloc_some [of s']
  by (cases "avail s'") auto

lemma free_then_alloc:
  assumes "ok s" "owned s p" "give_back s p = Inr s'" "avail s' \<noteq> avail s"
  shows "fst (alloc s') = p"
  using give_back_ok [OF assms(1,2)] assms alloc_some [of s' p "avail s"] by auto

end

definition pool_ok :: "pool \<Rightarrow> bool" where
  "pool_ok P \<longleftrightarrow> pend P \<noteq> 0 \<and> distinct (freelist P) \<and> (\<forall>p \<in> set (freelist P). valid_page (pend P) p)"

definition pool_owned :: "pool \<Rightarrow> addr \<Rightarrow> bool" where
  "pool_owned P p \<longleftrightarrow> valid_page (pend P) p \<and> p \<notin> set (freelist P)"

lemma valid_page_nonzero: "valid_page e p \<Longrightarrow> e \<noteq> 0 \<Longrightarrow> p \<noteq> 0"
  using valid_page_bounds(2) [of e p] by (auto simp: unsigned_eq_0_iff)

interpretation pool_alloc: page_allocator pool_kalloc pool_kfree freelist pool_ok pool_owned
proof unfold_locales
  fix s p ps
  show "pool_ok s \<Longrightarrow> pool_ok (snd (pool_kalloc s))"
    by (auto simp: pool_ok_def pool_kalloc_def split: list.splits)
  show "pool_ok s \<Longrightarrow> freelist s = [] \<Longrightarrow> fst (pool_kalloc s) = 0"
    by (simp add: pool_kalloc_def)
  show "pool_ok s \<Longrightarrow> freelist s = p # ps \<Longrightarrow>
      fst (pool_kalloc s) = p \<and> freelist (snd (pool_kalloc s)) = ps"
    by (simp add: pool_kalloc_def)
  show "pool_ok s \<Longrightarrow> distinct (freelist s) \<and> 0 \<notin> set (freelist s)"
    using valid_page_nonzero by (auto simp: pool_ok_def)
  show "pool_ok s \<Longrightarrow> pool_owned s p \<Longrightarrow> \<exists>s'. pool_kfree s p = Inr s' \<and> pool_ok s' \<and>
      freelist s' \<in> {freelist s, p # freelist s}"
    by (simp add: pool_ok_def pool_owned_def pool_kfree_def)
qed

text \<open>The free list of the C allocator, read by following the links.\<close>

fun free_chain :: "nat \<Rightarrow> fmem \<Rightarrow> addr \<Rightarrow> addr list" where
  "free_chain 0 m a = []"
| "free_chain (Suc n) m a = (if a = 0 then [] else a # free_chain n m (ld64 m a))"

definition kavail :: "kmem \<Rightarrow> addr list" where
  "kavail k = free_chain 0x88000 (fm k) (kfreelist k)"

lemma free_chain_chain: "chain m a ps \<Longrightarrow> length ps < n \<Longrightarrow> free_chain n m a = ps"
proof (induction ps arbitrary: a n)
  case Nil
  then show ?case by (cases n) auto
next
  case (Cons p ps)
  then show ?case by (cases n) auto
qed

lemma valid_pages_bound:
  assumes "distinct ps" "\<forall>p \<in> set ps. valid_page e p" "e \<noteq> 0" shows "length ps < 0x88000"
proof -
  have inj: "inj_on (\<lambda>p. unat p div 4096) (set ps)"
  proof (rule inj_onI)
    fix x y assume xy: "x \<in> set ps" "y \<in> set ps" "unat x div 4096 = unat y div 4096"
    then have "x div PGSIZE = y div PGSIZE" by (simp add: word_unat_eq_iff unat_page_num)
    then show "x = y" using xy assms(2) page_num_eq by blast
  qed
  have "(\<lambda>p. unat p div 4096) ` set ps \<subseteq> {1..<0x88000}"
  proof
    fix n assume "n \<in> (\<lambda>p. unat p div 4096) ` set ps"
    then obtain p where p: "n = unat p div 4096" "valid_page e p" using assms(2) by auto
    have "0 < unat p" using valid_page_nonzero [OF p(2) assms(3)] by (simp add: unat_gt_0)
    then show "n \<in> {1..<0x88000}"
      using p(1) valid_page_bounds [OF p(2)]
      by (auto simp: less_mult_imp_div_less Suc_le_eq div_greater_zero_iff intro!: mod_less_eq_dividend)
  qed
  then have "card ((\<lambda>p. unat p div 4096) ` set ps) \<le> card {1..<0x88000::nat}"
    by (intro card_mono) auto
  then have "card (set ps) \<le> card {1..<0x88000::nat}" by (simp only: card_image [OF inj])
  then show ?thesis using assms(1) by (simp add: distinct_card)
qed

lemma pool_rel_kavail: "pool_rel k P \<Longrightarrow> kavail k = freelist P"
  unfolding kavail_def
  using valid_pages_bound [of "freelist P" "kend k"] safe_page_valid
  by (intro free_chain_chain) (auto dest: pool_relD)

definition kmem_ok :: "kmem \<Rightarrow> bool" where
  "kmem_ok k \<longleftrightarrow> (\<exists>P. pool_rel k P)"

interpretation c_alloc: page_allocator kalloc kfree kavail kmem_ok
  "\<lambda>k p. safe_page k p \<and> p \<notin> set (kavail k)"
proof unfold_locales
  fix s p ps
  have step: "fst (kalloc s) = fst (pool_kalloc P)"
    "pool_rel (snd (kalloc s)) (snd (pool_kalloc P))" if "pool_rel s P" for P
    using kalloc_refines_empty [OF that] kalloc_refines_some [OF that]
    by (cases "freelist P"; simp add: pool_kalloc_def)+
  show "kmem_ok s \<Longrightarrow> kmem_ok (snd (kalloc s))"
    using step by (auto simp: kmem_ok_def)
  show "kmem_ok s \<Longrightarrow> kavail s = [] \<Longrightarrow> fst (kalloc s) = 0"
    using step by (auto simp: kmem_ok_def pool_rel_kavail pool_kalloc_def)
  show "kmem_ok s \<Longrightarrow> kavail s = p # ps \<Longrightarrow> fst (kalloc s) = p \<and> kavail (snd (kalloc s)) = ps"
    using step pool_rel_kavail by (fastforce simp: kmem_ok_def pool_kalloc_def)
  show "kmem_ok s \<Longrightarrow> distinct (kavail s) \<and> 0 \<notin> set (kavail s)"
    using pool_relD(1,4,5) safe_page_nonzero by (force simp: kmem_ok_def pool_rel_kavail)
  show "kmem_ok s \<Longrightarrow> safe_page s p \<and> p \<notin> set (kavail s) \<Longrightarrow>
      \<exists>s'. kfree s p = Inr s' \<and> kmem_ok s' \<and> kavail s' \<in> {kavail s, p # kavail s}"
  proof -
    assume "kmem_ok s" and p: "safe_page s p \<and> p \<notin> set (kavail s)"
    then obtain P where P: "pool_rel s P" by (auto simp: kmem_ok_def)
    then obtain k' P' where "kfree s p = Inr k'" "pool_kfree P p = Inr P'" "pool_rel k' P'"
      using kfree_refines [OF P, of p] p pool_rel_kavail [OF P] by auto
    moreover have "freelist P' \<in> {freelist P, p # freelist P}"
      using calculation(2) by (auto simp: pool_kfree_def split: if_splits)
    ultimately show ?thesis using P by (auto simp: kmem_ok_def pool_rel_kavail)
  qed
qed



end
