(* ===== verification/NetUtil.thy ===== *)
theory NetUtil
  imports Prelude
begin

text \<open>
  The helpers of \<^verbatim>\<open>kernel/sys/net.h\<close> and \<^verbatim>\<open>kernel/sys/net.c\<close> that do not touch
  driver or socket state: byte-order conversion, the Internet checksums, the dotted-quad
  parser and the DNS name encoder.
\<close>

section \<open>Byte order\<close>

definition htons :: "u16 \<Rightarrow> u16" where
  "htons hostshort = drop_bit 8 hostshort OR push_bit 8 hostshort"

definition ntohs :: "u16 \<Rightarrow> u16" where
  "ntohs netshort = drop_bit 8 netshort OR push_bit 8 netshort"

definition ntohl :: "u32 \<Rightarrow> u32" where
  "ntohl netlong =
     push_bit 24 (netlong AND 0x000000FF) OR
     push_bit 8 (netlong AND 0x0000FF00) OR
     drop_bit 8 (netlong AND 0x00FF0000) OR
     drop_bit 24 (netlong AND 0xFF000000)"

definition htonl :: "u32 \<Rightarrow> u32" where
  "htonl hostlong =
     push_bit 24 (hostlong AND 0x000000FF) OR
     push_bit 8 (hostlong AND 0x0000FF00) OR
     drop_bit 8 (hostlong AND 0x00FF0000) OR
     drop_bit 24 (hostlong AND 0xFF000000)"

section \<open>Checksums\<close>

text \<open>
  The summing loop shared by \<open>chksum\<close> and \<open>udp_checksum\<close>: 16-bit words in memory
  order while more than one byte is left, then the odd byte.
\<close>

function chk_loop :: "buf \<Rightarrow> nat \<Rightarrow> nat \<Rightarrow> u64 \<Rightarrow> u64" where
  "chk_loop b p len cksum =
     (if len > 1 then chk_loop b (p + 2) (len - 2) (cksum + ucast (get16 b p))
      else if len \<noteq> 0 then cksum + ucast (b p) else cksum)"
  by pat_completeness auto
termination
  by (relation "measure (\<lambda>(b, p, len, cksum). len)") auto

declare chk_loop.simps [simp del]

definition csum_fold :: "u64 \<Rightarrow> u16" where
  "csum_fold cksum =
     (let cksum = drop_bit 16 cksum + (cksum AND 0xffff);
          cksum = cksum + drop_bit 16 cksum
      in ucast (NOT cksum))"

definition chksum :: "buf \<Rightarrow> nat \<Rightarrow> u32 \<Rightarrow> u16" where
  "chksum b hdr len = csum_fold (chk_loop b hdr (unat len) 0)"

definition IPPROTO_TCP :: u8 where "IPPROTO_TCP = 6"
definition IPPROTO_UDP :: u8 where "IPPROTO_UDP = 17"

text \<open>The pseudo header that \<open>udp_checksum\<close> lays out on its stack.\<close>

definition udp_pseudo :: "u32 \<Rightarrow> u32 \<Rightarrow> u16 \<Rightarrow> buf" where
  "udp_pseudo src_ip dst_ip udp_len =
     put16 (put8 (put8 (put32 (put32 (\<lambda>_. 0) 0 src_ip) 4 dst_ip) 8 0) 9 IPPROTO_UDP) 10 udp_len"

text \<open>\<open>b\<close> is the page, \<open>hdr\<close> and \<open>payload\<close> the offsets of the two pointers in it.\<close>

definition udp_checksum :: "u32 \<Rightarrow> u32 \<Rightarrow> buf \<Rightarrow> nat \<Rightarrow> nat \<Rightarrow> u16 \<Rightarrow> u16" where
  "udp_checksum src_ip dst_ip b hdr payload payload_len =
     (let pseudo = udp_pseudo src_ip dst_ip (get16 b (hdr + 4));
          cksum = chk_loop pseudo 0 12 0;
          hdr_buf = blit (\<lambda>_. 0) 0 b hdr 8;
          cksum = chk_loop hdr_buf 0 8 cksum;
          cksum = chk_loop b payload (unat payload_len) cksum
      in csum_fold cksum)"

section \<open>Dotted quads\<close>

definition is_digit :: "char \<Rightarrow> bool" where
  "is_digit c \<longleftrightarrow> 48 \<le> (of_char c :: nat) \<and> (of_char c :: nat) \<le> 57"

text \<open>
  The inner loop of \<open>ip_to_u32\<close>; \<open>num\<close> is a 32-bit \<open>int\<close> and the loop does not
  stop when it overflows.
\<close>

fun scan_num :: "u32 \<Rightarrow> string \<Rightarrow> u32 \<times> string" where
  "scan_num num [] = (num, [])"
| "scan_num num (c # ip) =
     (if is_digit c then scan_num (num * 10 + (of_char c - 48)) ip else (num, c # ip))"

text \<open>The outer loop: \<open>parts\<close> holds the entries \<open>parts[0..i)\<close> filled so far.\<close>

function ip_loop :: "u32 list \<Rightarrow> string \<Rightarrow> u32 list option" where
  "ip_loop parts ip =
     (if ip \<noteq> [] \<and> length parts < 4 then
        (case scan_num 0 ip of (num, ip1) \<Rightarrow>
          if sint num < 0 \<or> sint num > 255 then None
          else
            (case ip1 of
               [] \<Rightarrow> ip_loop (parts @ [num]) []
             | c # ip2 \<Rightarrow>
                 if c = CHR ''.'' then ip_loop (parts @ [num]) ip2
                 else if length (parts @ [num]) < 4 then None
                 else ip_loop (parts @ [num]) ip1))
      else Some parts)"
  by pat_completeness auto
termination
  by (relation "measure (\<lambda>(parts, ip). 4 - length parts)") auto

declare ip_loop.simps [simp del]

definition ip_to_u32 :: "string \<Rightarrow> u32" where
  "ip_to_u32 ip =
     (case ip_loop [] ip of
        None \<Rightarrow> 0xFFFFFFFF
      | Some parts \<Rightarrow>
          if length parts \<noteq> 4 then 0xFFFFFFFF
          else push_bit 24 (parts ! 0) OR push_bit 16 (parts ! 1) OR
               push_bit 8 (parts ! 2) OR parts ! 3)"

section \<open>DNS names\<close>

definition LONG_DOMAIN :: nat where "LONG_DOMAIN = 1"
definition LONG_DOMAIN_SECTION :: nat where "LONG_DOMAIN_SECTION = 2"

text \<open>A C string is the list of its characters; \<open>cstr\<close> reads it, the terminator included.\<close>

definition cstr :: "string \<Rightarrow> nat \<Rightarrow> u8" where
  "cstr s i = (if i < length s then of_char (s ! i) else 0)"

primrec my_strlen :: "string \<Rightarrow> nat" where
  "my_strlen [] = 0"
| "my_strlen (c # s) = (if of_char c = (0 :: u8) then 0 else Suc (my_strlen s))"

function dns_loop :: "string \<Rightarrow> nat \<Rightarrow> nat \<Rightarrow> nat \<Rightarrow> nat \<Rightarrow> buf \<Rightarrow> nat \<times> buf" where
  "dns_loop name name_len len_index i res_index res =
     (if i < name_len + 1 then
        if i - len_index = 64 then (LONG_DOMAIN_SECTION, res)
        else if cstr name i = 46 \<or> cstr name i = 0 then
          dns_loop name name_len res_index (i + 1) (res_index + 1)
            (res(len_index := of_nat (i - len_index)))
        else
          dns_loop name name_len len_index (i + 1) (res_index + 1)
            (res(res_index := cstr name i))
      else (0, res))"
  by pat_completeness auto
termination
  by (relation "measure (\<lambda>(name, name_len, len_index, i, res_index, res). name_len + 1 - i)") auto

declare dns_loop.simps [simp del]

definition node_to_dns :: "string \<Rightarrow> buf \<Rightarrow> nat \<times> buf" where
  "node_to_dns name res =
     (let name_len = my_strlen name in
      if name_len > 253 then (LONG_DOMAIN, res)
      else
        (case dns_loop name name_len 0 0 1 res of
           (r, res') \<Rightarrow> if r \<noteq> 0 then (r, res') else (0, res'(name_len + 1 := 0))))"

section \<open>Lemmas on byte order\<close>

lemma htons_eq_ntohs: "htons x = ntohs x"
  by (simp add: htons_def ntohs_def)

lemma htonl_eq_ntohl: "htonl x = ntohl x"
  by (simp add: htonl_def ntohl_def)

lemma ntohs_ntohs [simp]: "ntohs (ntohs x) = x"
proof (rule bit_word_eqI)
  fix n assume "n < LENGTH(16)"
  then show "bit (ntohs (ntohs x)) n = bit x n"
    by (cases "n < 8") (auto simp: ntohs_def bit_simps)
qed

lemma byte_masks_32:
  "(0x000000FF :: u32) = mask 8"
  "(0x0000FF00 :: u32) = push_bit 8 (mask 8)"
  "(0x00FF0000 :: u32) = push_bit 16 (mask 8)"
  "(0xFF000000 :: u32) = push_bit 24 (mask 8)"
  by (simp_all add: mask_numeral)

lemma bit_ntohl:
  "bit (ntohl x) n \<longleftrightarrow> n < 32 \<and>
     (if n < 8 then bit x (24 + n) else if n < 16 then bit x (8 + n)
      else if n < 24 then bit x (n - 8) else bit x (n - 24))"
  by (auto simp: ntohl_def byte_masks_32 bit_simps)

lemma ntohl_ntohl [simp]: "ntohl (ntohl x) = x"
proof (rule bit_word_eqI)
  fix n assume "n < LENGTH(32)"
  then consider "n < 8" | "8 \<le> n \<and> n < 16" | "16 \<le> n \<and> n < 24" | "24 \<le> n \<and> n < 32"
    by fastforce
  then show "bit (ntohl (ntohl x)) n = bit x n"
    by cases (auto simp: bit_ntohl)
qed

text \<open>Storing a converted value puts its most significant byte first.\<close>

lemma put16_htons_bytes:
  "put16 b i (htons x) i = ucast (drop_bit 8 x)"
  "put16 b i (htons x) (i + 1) = ucast x"
proof -
  show "put16 b i (htons x) i = ucast (drop_bit 8 x)"
    by (rule bit_word_eqI) (auto simp: put16_apply htons_def bit_simps)
  show "put16 b i (htons x) (i + 1) = ucast x"
    by (rule bit_word_eqI) (auto simp: put16_apply htons_def bit_simps)
qed

section \<open>Lemmas on checksums\<close>

text \<open>
  The specification of the Internet checksum: the one's complement sum of a natural number
  is its representative modulo 65535 in \<open>1..65535\<close> (0 only for 0).
\<close>

definition ones_sum :: "nat \<Rightarrow> nat" where
  "ones_sum n = (if n = 0 then 0 else Suc ((n - 1) mod 65535))"

function word_sum :: "buf \<Rightarrow> nat \<Rightarrow> nat \<Rightarrow> nat" where
  "word_sum b p len =
     (if len > 1 then unat (get16 b p) + word_sum b (p + 2) (len - 2)
      else if len \<noteq> 0 then unat (b p) else 0)"
  by pat_completeness auto
termination
  by (relation "measure (\<lambda>(b, p, len). len)") auto

declare word_sum.simps [simp del]

lemma word_sum_simps [simp]:
  "word_sum b p 0 = 0"
  "word_sum b p (Suc 0) = unat (b p)"
  "word_sum b p (Suc (Suc len)) = unat (get16 b p) + word_sum b (p + 2) len"
  by (subst word_sum.simps, simp)+

lemma chk_loop_simps [simp]:
  "chk_loop b p 0 c = c"
  "chk_loop b p (Suc 0) c = c + ucast (b p)"
  "chk_loop b p (Suc (Suc len)) c = chk_loop b (p + 2) len (c + ucast (get16 b p))"
  by (subst chk_loop.simps, simp)+

lemma ones_sum_le: "ones_sum n \<le> 65535"
  using mod_less_divisor [of 65535 "n - 1"] unfolding ones_sum_def by (simp only: Suc_le_eq split: if_split) simp

lemma ones_sum_fold:
  fixes n :: nat
  assumes "n < 2 ^ 32"
  defines "x \<equiv> n div 65536 + n mod 65536"
  shows "(x + x div 65536) mod 65536 = ones_sum n"
proof -
  have e: "n = 65536 * (n div 65536) + n mod 65536" by simp
  then have n: "n = 65535 * (n div 65536) + x" unfolding x_def by linarith
  have "n div 65536 < 65536" using assms by (simp add: less_mult_imp_div_less)
  moreover have "n mod 65536 < 65536" by simp
  ultimately have x: "x \<le> 131070" unfolding x_def by linarith
  show ?thesis
  proof (cases "n = 0")
    case True
    then show ?thesis by (simp add: ones_sum_def x_def)
  next
    case False
    then have "0 < x" using n e unfolding x_def by (metis add_is_0 gr0I mult_is_0)
    then have "n - 1 = 65535 * (n div 65536) + (x - 1)" using n by simp
    then have "(n - 1) mod 65535 = (x - 1) mod 65535" by simp
    then have os: "ones_sum n = Suc ((x - 1) mod 65535)" using False by (simp add: ones_sum_def)
    show ?thesis
    proof (cases "x < 65536")
      case True
      then show ?thesis using \<open>0 < x\<close> by (simp add: os)
    next
      case False
      then have "(x - 1) mod 65535 = x - 1 - 65535" using x by (simp add: le_mod_geq)
      moreover have d: "x div 65536 = 1" using False x by simp
      moreover have "(x + 1) mod 65536 = x + 1 - 65536" using False x by (simp add: le_mod_geq)
      ultimately show ?thesis using False by (simp add: os d)
    qed
  qed
qed

lemma ones_sum_Suc: "r < 65535 \<Longrightarrow> ones_sum (Suc (65535 * q + r)) = Suc r"
  by (simp add: ones_sum_def)

lemma ones_sum_complement: "ones_sum (n + (65535 - ones_sum n)) = 65535"
proof (cases n)
  case 0
  then show ?thesis by (simp add: ones_sum_def)
next
  case (Suc m)
  define q r where "q = m div 65535" and "r = m mod 65535"
  then have m: "m = 65535 * q + r" and r: "r < 65535" by simp_all
  have "n + (65535 - ones_sum n) = Suc (65535 * q + 65534)"
    using r by (simp add: Suc m ones_sum_Suc)
  then show ?thesis by (simp only: ones_sum_Suc)
qed

lemma csum_fold_spec:
  assumes "unat c < 2 ^ 32"
  shows "unat (csum_fold c) = 65535 - ones_sum (unat c)"
proof -
  define x where "x = drop_bit 16 c + (c AND 0xffff)"
  define y where "y = x + drop_bit 16 x"
  have "(0xffff :: u64) = mask 16" by (simp add: mask_numeral)
  then have m: "unat (c AND 0xffff) = unat c mod 65536"
    by (simp only: take_bit_eq_mask [symmetric] unat_take_bit_mod) simp
  have d: "unat (drop_bit 16 v) = unat v div 65536" for v :: u64
    by (simp only: unat_drop_bit_div) simp
  have x: "unat x = unat c div 65536 + unat c mod 65536"
    using assms unfolding x_def by (subst unat_add_small) (simp_all only: d m, simp)
  have "unat y = unat x + unat x div 65536"
    using assms unfolding y_def by (subst unat_add_small) (simp_all only: d x, simp)
  then have "unat (ucast y :: u16) = ones_sum (unat c)"
    using ones_sum_fold [OF assms] by (simp add: unat_ucast_mod x)
  moreover have "csum_fold c = NOT (ucast y)"
    by (simp add: csum_fold_def Let_def ucast_not_down x_def y_def)
  ultimately show ?thesis by (simp add: unat_not_word)
qed

lemma word_sum_bound: "word_sum b p len \<le> 65535 * ((len + 1) div 2)"
proof (induction len arbitrary: p rule: induct_nat_012)
  case 0
  then show ?case by simp
next
  case 1
  then show ?case using unat_u8_le [of "b p"] by simp
next
  case (ge2 n)
  have "(Suc (Suc n) + 1) div 2 = Suc ((n + 1) div 2)" by simp
  then show ?case using ge2(1) [of "p + 2"] unat_u16_le [of "get16 b p"] by simp
qed

lemma unat_chk_loop:
  "unat c + word_sum b p len < 2 ^ 64 \<Longrightarrow> unat (chk_loop b p len c) = unat c + word_sum b p len"
proof (induction len arbitrary: p c rule: induct_nat_012)
  case 0
  then show ?case by simp
next
  case 1
  then show ?case by (simp add: unat_add_small unat_ucast_mod)
next
  case (ge2 n)
  then have "unat (c + ucast (get16 b p)) = unat c + unat (get16 b p)"
    by (subst unat_add_small) (simp_all add: unat_ucast_mod)
  with ge2 show ?case by simp
qed

section \<open>Lemmas on DNS names\<close>

fun join_dots :: "string list \<Rightarrow> string" where
  "join_dots [] = []"
| "join_dots [l] = l"
| "join_dots (l # ls) = l @ CHR ''.'' # join_dots ls"

definition dns_label_bytes :: "string \<Rightarrow> u8 list" where
  "dns_label_bytes l = of_nat (length l) # map of_char l"

definition dns_encode :: "string list \<Rightarrow> u8 list" where
  "dns_encode ls = concat (map dns_label_bytes ls) @ [0]"

definition dns_label_ok :: "string \<Rightarrow> bool" where
  "dns_label_ok l \<longleftrightarrow> length l \<le> 63 \<and> (\<forall>c\<in>set l. of_char c \<noteq> (46 :: u8) \<and> of_char c \<noteq> (0 :: u8))"

lemma my_strlen_length: "(\<And>c. c \<in> set s \<Longrightarrow> of_char c \<noteq> (0 :: u8)) \<Longrightarrow> my_strlen s = length s"
  by (induction s) auto

lemma join_dots_Cons: "ls \<noteq> [] \<Longrightarrow> join_dots (l # ls) = l @ CHR ''.'' # join_dots ls"
  by (cases ls) auto

lemma set_join_dots: "c \<in> set (join_dots ls) \<Longrightarrow> c = CHR ''.'' \<or> (\<exists>l\<in>set ls. c \<in> set l)"
  by (induction ls rule: join_dots.induct) auto

text \<open>The loop copies one label without touching its length byte.\<close>

lemma dns_loop_label:
  assumes "k \<le> m" "m \<le> 63" "s + m \<le> n" "\<And>j. j < m \<Longrightarrow> cstr name (s + j) \<noteq> 46 \<and> cstr name (s + j) \<noteq> 0"
  shows "dns_loop name n s (s + k) (s + k + 1) res =
         dns_loop name n s (s + m) (s + m + 1) (blit res (s + k + 1) (cstr name) (s + k) (m - k))"
  using assms(1)
proof (induction arbitrary: res rule: inc_induct)
  case base
  have "blit res (s + m + 1) (cstr name) (s + m) (m - m) = res"
    by (rule ext) (auto simp: blit_apply)
  then show ?case by simp
next
  case (step k)
  let ?res = "res(s + k + 1 := cstr name (s + k))"
  have "dns_loop name n s (s + k) (s + k + 1) res = dns_loop name n s (s + Suc k) (s + Suc k + 1) ?res"
    using step.hyps assms by (subst dns_loop.simps) auto
  also have "\<dots> = dns_loop name n s (s + m) (s + m + 1)
      (blit ?res (s + Suc k + 1) (cstr name) (s + Suc k) (m - Suc k))"
    by (rule step.IH)
  also have "blit ?res (s + Suc k + 1) (cstr name) (s + Suc k) (m - Suc k) =
      blit res (s + k + 1) (cstr name) (s + k) (m - k)"
    using step.hyps by (auto simp: blit_def fun_eq_iff intro!: arg_cong [where f = "cstr name"])
  finally show ?case .
qed

text \<open>One label and its terminator, from the length byte on.\<close>

lemma dns_loop_step:
  assumes "dns_label_ok l" "drop s name = l @ t" "t = [] \<or> (\<exists>t'. t = CHR ''.'' # t')"
    "s \<le> length name" "n = length name"
  shows "\<exists>res'. dns_loop name n s s (s + 1) res =
      dns_loop name n (s + length l + 1) (s + length l + 1) (s + length l + 2) res' \<and>
      (\<forall>k < s. res' k = res k) \<and> bytes_of res' s (length l + 1) = dns_label_bytes l"
proof -
  have nth: "name ! (s + j) = (l @ t) ! j" if "s + j < length name" for j
    using assms(2,4) that by (metis nth_drop)
  have len: "length name = s + length l + length t"
    using arg_cong [OF assms(2), of length] assms(4) by simp
  have lab: "cstr name (s + j) = of_char (l ! j)" if "j < length l" for j
    using that len by (simp add: cstr_def nth nth_append)
  have l63: "length l \<le> 63" using assms(1) by (simp add: dns_label_ok_def)
  have stop: "cstr name (s + length l) = 46 \<or> cstr name (s + length l) = 0"
    using assms(3) len by (auto simp: cstr_def nth)
  let ?r1 = "blit res (s + 1) (cstr name) s (length l)"
  let ?r2 = "?r1(s := of_nat (length l))"
  have "dns_loop name n s s (s + 1) res = dns_loop name n s (s + length l) (s + length l + 1) ?r1"
    using dns_loop_label [of 0 "length l" s n name res] l63 len assms(1,5)
    by (auto simp: lab dns_label_ok_def)
  also have "\<dots> = dns_loop name n (s + length l + 1) (s + length l + 1) (s + length l + 2) ?r2"
    using l63 len assms(5) stop by (subst dns_loop.simps) auto
  finally have loop: "dns_loop name n s s (s + 1) res = \<dots>" .
  have "bytes_of ?r2 s (length l + 1) = dns_label_bytes l"
    by (rule nth_equalityI) (auto simp: dns_label_bytes_def nth_Cons blit_apply lab split: nat.splits)
  with loop show ?thesis by (intro exI [of _ ?r2]) (auto simp: blit_apply)
qed

lemma dns_loop_labels:
  assumes "ls \<noteq> []" "\<And>l. l \<in> set ls \<Longrightarrow> dns_label_ok l" "drop s name = join_dots ls"
    "s \<le> length name" "n = length name"
  shows "\<exists>res'. dns_loop name n s s (s + 1) res = (0, res') \<and> (\<forall>k < s. res' k = res k) \<and>
      bytes_of res' s (n + 1 - s) = concat (map dns_label_bytes ls)"
  using assms
proof (induction ls arbitrary: s res)
  case Nil
  then show ?case by simp
next
  case (Cons l ls)
  show ?case
  proof (cases "ls = []")
    case True
    from Cons.prems True have d: "drop s name = l @ []" by simp
    from dns_loop_step [OF _ d, of n res] Cons.prems obtain r where
      r: "dns_loop name n s s (s + 1) res =
          dns_loop name n (s + length l + 1) (s + length l + 1) (s + length l + 2) r"
      "\<forall>k < s. r k = res k" "bytes_of r s (length l + 1) = dns_label_bytes l"
      by auto
    have n: "n = s + length l" using arg_cong [OF d, of length] Cons.prems(4,5) by simp
    then have "dns_loop name n s s (s + 1) res = (0, r)"
      using r(1) by (subst (asm) (2) dns_loop.simps) simp
    with r n True show ?thesis by auto
  next
    case False
    with Cons.prems have d: "drop s name = l @ CHR ''.'' # join_dots ls"
      by (simp add: join_dots_Cons)
    from dns_loop_step [OF _ d, of n res] Cons.prems obtain r where
      r: "dns_loop name n s s (s + 1) res =
          dns_loop name n (s + length l + 1) (s + length l + 1) (s + length l + 1 + 1) r"
      "\<forall>k < s. r k = res k" "bytes_of r s (length l + 1) = dns_label_bytes l"
      by auto
    have n: "n = s + length l + 1 + length (join_dots ls)"
      using arg_cong [OF d, of length] Cons.prems(4,5) by simp
    have "drop (s + length l + 1) name = drop (length l + 1) (drop s name)"
      by (simp add: add.commute)
    then have "drop (s + length l + 1) name = join_dots ls" by (simp add: d)
    with Cons.IH [of "s + length l + 1" r] False Cons.prems n obtain r' where
      r': "dns_loop name n (s + length l + 1) (s + length l + 1) (s + length l + 1 + 1) r = (0, r')"
      "\<forall>k < s + length l + 1. r' k = r k"
      "bytes_of r' (s + length l + 1) (n + 1 - (s + length l + 1)) = concat (map dns_label_bytes ls)"
      by auto
    have "bytes_of r' s (length l + 1) = dns_label_bytes l"
      using r'(2) bytes_of_cong [of "length l + 1" r' s r s] r(3) by simp
    moreover have "n + 1 - s = (length l + 1) + (n + 1 - (s + length l + 1))" using n by simp
    ultimately have "bytes_of r' s (n + 1 - s) = concat (map dns_label_bytes (l # ls))"
      using r'(3) by (simp only: bytes_of_append) (simp add: add.assoc)
    with r r' show ?thesis by auto
  qed
qed

section \<open>Lemmas on dotted quads\<close>

definition digit :: "nat \<Rightarrow> char" where
  "digit d = ''0123456789'' ! d"

fun decimal :: "nat \<Rightarrow> string" where
  "decimal n = (if n < 10 then [digit n] else decimal (n div 10) @ [digit (n mod 10)])"

declare decimal.simps [simp del]

definition dotted :: "u8 \<Rightarrow> u8 \<Rightarrow> u8 \<Rightarrow> u8 \<Rightarrow> string" where
  "dotted a b c d = decimal (unat a) @ ''.'' @ decimal (unat b) @ ''.'' @
     decimal (unat c) @ ''.'' @ decimal (unat d)"

lemma digit_char:
  assumes "d < 10"
  shows "is_digit (digit d)" "of_char (digit d) - 48 = (of_nat d :: u32)"
proof -
  from assms have "d \<in> {0, 1, 2, 3, 4, 5, 6, 7, 8, 9}" by auto
  then show "is_digit (digit d)" "of_char (digit d) - 48 = (of_nat d :: u32)"
    by (auto simp: digit_def is_digit_def)
qed

lemma decimal_not_Nil [simp]: "decimal n \<noteq> []"
  by (subst decimal.simps) simp

lemma scan_num_decimal:
  "scan_num a (decimal n @ t) = scan_num (a * 10 ^ length (decimal n) + of_nat n) t"
proof (induction n arbitrary: a t rule: decimal.induct)
  case (1 n)
  show ?case
  proof (cases "n < 10")
    case True
    then show ?thesis by (simp add: decimal.simps [of n] digit_char)
  next
    case False
    have n: "of_nat (n div 10) * 10 + of_nat (n mod 10) = (of_nat n :: u32)"
    proof -
      have "of_nat (n div 10 * 10 + n mod 10) = (of_nat n :: u32)" by simp
      then show ?thesis by (simp only: of_nat_add of_nat_mult of_nat_numeral)
    qed
    have "scan_num a (decimal n @ t) = scan_num a (decimal (n div 10) @ digit (n mod 10) # t)"
      using False by (simp add: decimal.simps [of n])
    also have "\<dots> = scan_num (a * 10 ^ length (decimal (n div 10)) + of_nat (n div 10)) (digit (n mod 10) # t)"
      using False 1 by simp
    also have "\<dots> = scan_num ((a * 10 ^ length (decimal (n div 10)) + of_nat (n div 10)) * 10 + of_nat (n mod 10)) t"
      by (simp add: digit_char)
    also have "(a * 10 ^ length (decimal (n div 10)) + of_nat (n div 10)) * 10 + of_nat (n mod 10) =
        a * 10 ^ length (decimal n) + (of_nat n :: u32)"
      using False by (simp add: decimal.simps [of n] distrib_right n [symmetric])
    finally show ?thesis .
  qed
qed

lemma scan_num_octet [simp]:
  "scan_num 0 (decimal (unat (a :: u8)) @ CHR ''.'' # t) = (ucast a, CHR ''.'' # t)"
  "scan_num 0 (decimal (unat a)) = (ucast a, [])"
  using scan_num_decimal [of 0 "unat a" "CHR ''.'' # t"] scan_num_decimal [of 0 "unat a" "[]"]
  by (simp_all add: is_digit_def)

lemma sint_ucast_octet: "0 \<le> sint (ucast (a :: u8) :: u32) \<and> sint (ucast a :: u32) \<le> 255"
proof -
  have u: "uint a < 256" using unsigned_less [where ?'a = int, of a] by simp
  then have "uint (ucast a :: u32) = uint a"
    by (simp add: unsigned_ucast_eq take_bit_int_eq_self)
  then have "sint (ucast a :: u32) = uint a"
    using u by (simp add: sint_uint signed_take_bit_int_eq_self_iff order_trans [OF _ unsigned_greater_eq])
  then show ?thesis using u by simp
qed
lemma ip_loop_dotted:
  "ip_loop [] (dotted a b c d) = Some [ucast a, ucast b, ucast c, ucast d]"
  using sint_ucast_octet [of a] sint_ucast_octet [of b] sint_ucast_octet [of c] sint_ucast_octet [of d]
  by (simp add: dotted_def ip_loop.simps)

section \<open>Properties\<close>

lemma chksum_ones:
  assumes "len \<le> 131070"
  shows "unat (chksum b p len) = 65535 - ones_sum (word_sum b p (unat len))"
proof -
  have "unat len \<le> 131070" using assms by (simp add: word_le_nat_alt)
  then have "(unat len + 1) div 2 \<le> 65535" by simp
  then have w: "word_sum b p (unat len) < 2 ^ 32"
    using word_sum_bound [of b p "unat len"] by simp
  then have "unat (chk_loop b p (unat len) 0) = word_sum b p (unat len)"
    by (subst unat_chk_loop) simp_all
  then show ?thesis using w by (simp add: chksum_def csum_fold_spec)
qed

text \<open>
  C23: for a header of at most 131070 bytes, \<open>chksum\<close> is the complement of the one's
  complement sum of its 16-bit words (the two folding steps lose nothing).
\<close>

theorem chksum_spec:
  assumes "len \<le> 131070"
  shows "unat (chksum b p len) = 65535 - ones_sum (word_sum b p (unat len))"
  using assms by (rule chksum_ones)

theorem chksum_spec_witness:
  "(20 :: u32) \<le> 131070 \<and>
   unat (chksum ((\<lambda>_. 0)(0 := 0x45, 8 := 64)) 0 20) =
     65535 - ones_sum (word_sum ((\<lambda>_. 0)(0 := 0x45, 8 := 64)) 0 20)"
  using chksum_spec [of 20 "(\<lambda>_. 0)(0 := 0x45, 8 := 64)" 0] by simp

lemma udp_checksum_ones:
  "unat (udp_checksum src_ip dst_ip b hdr payload payload_len) =
     65535 - ones_sum (word_sum (udp_pseudo src_ip dst_ip (get16 b (hdr + 4))) 0 12 +
       word_sum b hdr 8 + word_sum b payload (unat payload_len))"
proof -
  let ?s = "udp_pseudo src_ip dst_ip (get16 b (hdr + 4))"
  let ?h = "blit (\<lambda>_. 0) 0 b hdr 8"
  let ?n = "unat payload_len"
  have "(?n + 1) div 2 \<le> 32768" using unat_u16_le [of payload_len] by simp
  then have bd: "word_sum ?s 0 12 + word_sum b hdr 8 + word_sum b payload ?n < 2 ^ 32"
    using word_sum_bound [of ?s 0 12] word_sum_bound [of b hdr 8] word_sum_bound [of b payload ?n]
    by simp
  have h: "word_sum ?h 0 8 = word_sum b hdr 8"
    by (simp add: numeral_eq_Suc get16_blit_inside)
  have "unat (chk_loop b payload ?n (chk_loop ?h 0 8 (chk_loop ?s 0 12 0))) =
      word_sum ?s 0 12 + word_sum b hdr 8 + word_sum b payload ?n"
    using bd by (simp add: unat_chk_loop h)
  then show ?thesis using bd by (simp add: udp_checksum_def Let_def csum_fold_spec)
qed


text \<open>
  C32: \<open>ip_to_u32\<close> parses the dotted form of any four octets to the 32-bit address
  with the first octet in the most significant byte.
\<close>

theorem ip_to_u32_dotted:
  "ip_to_u32 (dotted a b c d) =
     push_bit 24 (ucast a) OR push_bit 16 (ucast b) OR push_bit 8 (ucast c) OR ucast d"
  by (simp add: ip_to_u32_def ip_loop_dotted)

text \<open>The part accumulator wraps around, so an over-long number can pass the range check.\<close>

lemma ip_to_u32_overflow: "ip_to_u32 ''4294967297.0.0.1'' = 0x01000001"
  by code_simp

text \<open>
  C33: \<open>node_to_dns\<close> turns a dotted name of labels of at most 63 characters, 253
  characters in all, into the length-prefixed labels of a DNS question, closed by the root label.
\<close>

theorem node_to_dns_encodes:
  assumes "ls \<noteq> []" and "\<forall>l\<in>set ls. dns_label_ok l" and "length (join_dots ls) \<le> 253"
  shows "\<exists>res'. node_to_dns (join_dots ls) res = (0, res') \<and>
      bytes_of res' 0 (length (join_dots ls) + 2) = dns_encode ls"
proof -
  let ?name = "join_dots ls"
  have "my_strlen ?name = length ?name"
    using assms(2) by (intro my_strlen_length) (fastforce dest: set_join_dots simp: dns_label_ok_def)
  moreover obtain r where r: "dns_loop ?name (length ?name) 0 0 1 res = (0, r)"
    "bytes_of r 0 (length ?name + 1) = concat (map dns_label_bytes ls)"
    using dns_loop_labels [of ls 0 ?name "length ?name" res] assms by auto
  ultimately have "node_to_dns ?name res = (0, r(length ?name + 1 := 0))"
    using assms(3) by (simp add: node_to_dns_def)
  moreover have "bytes_of (r(length ?name + 1 := 0)) 0 (length ?name + 1 + 1) =
      bytes_of r 0 (length ?name + 1) @ [0]"
    unfolding bytes_of_append bytes_of_one
    by (rule arg_cong2 [where f = "(@)"]) (auto intro: bytes_of_cong)
  ultimately show ?thesis using r(2) by (auto simp: dns_encode_def)
qed

theorem node_to_dns_encodes_witness:
  "\<exists>res'. node_to_dns ''ab.c'' (\<lambda>_. 0) = (0, res') \<and>
      bytes_of res' 0 6 = [2, 97, 98, 1, 99, 0]"
proof -
  have l: "length (join_dots [''ab'', ''c'']) + 2 = 6" by simp
  show ?thesis
    using node_to_dns_encodes [of "[''ab'', ''c'']" "\<lambda>_. 0", unfolded l]
    by (simp add: dns_label_ok_def dns_encode_def dns_label_bytes_def)
qed

text \<open>
  The checksum the code sends for this empty datagram is 0; RFC 768 asks for all ones then,
  since 0 means that no checksum was computed.
\<close>

lemma udp_checksum_may_be_zero:
  "udp_checksum 0 0 (put16 (put16 (\<lambda>_. 0) 0 57087) 4 2048) 0 8 0 = 0"
  by code_simp

end
