(* ===== verification/NetState.thy ===== *)
theory NetState
  imports Kalloc NetUtil
begin

text \<open>
  The state the network stack works on: the globals of \<^verbatim>\<open>virtio_net.c\<close>,
  \<^verbatim>\<open>sys/arp.c\<close>, \<^verbatim>\<open>sys/net.c\<close> and \<^verbatim>\<open>sys/socket.c\<close>, the page pool
  all packets, sockets and bindings live in, and the memory of the calling process.
  Objects that the code allocates with \<open>kalloc\<close> are pages of bytes, accessed at the offsets
  of their C structures; an access that leaves the page of its object is the fault
  \<^const>\<open>OutOfBounds\<close>, an access through a null pointer \<^const>\<open>NullDeref\<close>.

  The model is sequential: the spinlocks of these files protect one operation from
  another and do not appear, and neither does the text that \<open>printf\<close> writes. Register
  writes, frames handed to the device and wake-up calls are recorded in the ghost fields
  \<open>mmio\<close>, \<open>wire\<close> and \<open>woken\<close>.
\<close>

section \<open>Structures\<close>

type_synonym mac = "u8 list"

record arp_entry =
  ae_ip :: u32
  ae_mac :: mac
  ae_valid :: u32

record net_state =
  ip_addr :: u32
  mac_addr :: mac
  subnet_mask :: u32
  gateway :: u32

record virtq =
  vq_desc :: addr
  driver_area :: addr
  device_area :: addr
  vq_num :: u32
  vq_free :: "u8 list"
  used_idx :: u32

record virtio_net_config =
  cfg_mac :: mac
  cfg_status :: u16
  max_virtqueue_pairs :: u16
  cfg_mtu :: u16

record virtio_net =
  cfg :: virtio_net_config
  txq :: virtq
  rxq :: virtq

text \<open>The channels that the network code passes to \<open>wakeup\<close>.\<close>

datatype chan = FreeDesc u32 nat | RxHead addr

record netst =
  mem :: pool
  netconf :: net_state
  arp_cache :: "arp_entry list"
  net :: virtio_net
  packet_buf :: addr
  udp_port_binds :: "addr list"
  tcp_port_binds :: "addr list"
  sock_list :: addr
  tcp_sock_list :: addr
  udp_sock_list :: addr
  udp_ops :: addr
  tcp_ops :: addr
  umem :: "addr \<Rightarrow> u8 option"
  mmio :: "(u32 \<times> u32) list"
  wire :: "u8 list list"
  woken :: "chan list"

section \<open>Pages of the pool\<close>

definition page :: "netst \<Rightarrow> addr \<Rightarrow> buf" where
  "page s p = pg (mem s) p"

definition set_page :: "netst \<Rightarrow> addr \<Rightarrow> buf \<Rightarrow> netst" where
  "set_page s p b = s\<lparr>mem := (mem s)\<lparr>pg := (pg (mem s))(p := b)\<rparr>\<rparr>"

definition n_kalloc :: "netst \<Rightarrow> addr \<times> netst" where
  "n_kalloc s = (case pool_kalloc (mem s) of (r, P) \<Rightarrow> (r, s\<lparr>mem := P\<rparr>))"

definition n_kfree :: "netst \<Rightarrow> addr \<Rightarrow> netst result" where
  "n_kfree s p = bindE (pool_kfree (mem s) p) (\<lambda>P. Inr (s\<lparr>mem := P\<rparr>))"

text \<open>Dereferencing a pointer that may be null.\<close>

definition deref :: "addr \<Rightarrow> (unit \<Rightarrow> 'a result) \<Rightarrow> 'a result" where
  "deref p f = (if p = 0 then Inl NullDeref else f ())"

text \<open>\<open>memmove\<close> of \<open>n\<close> bytes into the page \<open>b\<close>; both ends must stay within a page.\<close>

definition blitE :: "buf \<Rightarrow> nat \<Rightarrow> buf \<Rightarrow> nat \<Rightarrow> nat \<Rightarrow> buf result" where
  "blitE b i src j n =
     (if n = 0 \<or> i + n \<le> 4096 \<and> j + n \<le> 4096 then Inr (blit b i src j n) else Inl OutOfBounds)"

section \<open>User memory\<close>

text \<open>
  \<open>copyin\<close> of \<open>n\<close> user bytes into a kernel buffer of \<open>cap\<close> bytes. Translation fails at
  the first unmapped byte; bytes before it have been written by then, so a request for
  more than \<open>cap\<close> bytes overruns the buffer if the first \<open>cap + 1\<close> are mapped.
\<close>

definition user_bytes :: "(addr \<Rightarrow> u8 option) \<Rightarrow> addr \<Rightarrow> nat \<Rightarrow> u8 list option" where
  "user_bytes u va n = those (map (\<lambda>k. u (va + of_nat k)) [0..<n])"

definition ucopyin :: "netst \<Rightarrow> nat \<Rightarrow> addr \<Rightarrow> nat \<Rightarrow> u8 list option result" where
  "ucopyin s cap srcva n =
     (if n \<le> cap then Inr (user_bytes (umem s) srcva n)
      else case user_bytes (umem s) srcva (cap + 1) of
             None \<Rightarrow> Inr None | Some _ \<Rightarrow> Inl OutOfBounds)"

text \<open>\<open>copyout\<close> stores byte after byte until it meets an unmapped one.\<close>

fun ucopyout_loop :: "(addr \<Rightarrow> u8 option) \<Rightarrow> addr \<Rightarrow> u8 list \<Rightarrow> bool \<times> (addr \<Rightarrow> u8 option)" where
  "ucopyout_loop u va [] = (True, u)"
| "ucopyout_loop u va (b # bs) =
     (case u va of None \<Rightarrow> (False, u) | Some _ \<Rightarrow> ucopyout_loop (u(va \<mapsto> b)) (va + 1) bs)"

definition ucopyout :: "netst \<Rightarrow> addr \<Rightarrow> u8 list \<Rightarrow> bool \<times> netst" where
  "ucopyout s dstva bs = (case ucopyout_loop (umem s) dstva bs of (r, u) \<Rightarrow> (r, s\<lparr>umem := u\<rparr>))"

section \<open>Lemmas\<close>

lemma page_set_page: "page (set_page s p b) q = (if q = p then b else page s q)"
  by (simp add: page_def set_page_def)

lemma page_set_page_same [simp]: "page (set_page s p b) p = b"
  by (simp add: page_set_page)

lemma page_set_page_other [simp]: "q \<noteq> p \<Longrightarrow> page (set_page s p b) q = page s q"
  by (simp add: page_set_page)

lemma set_page_same [simp]: "set_page (set_page s p b) p c = set_page s p c"
  by (simp add: set_page_def)

lemma set_page_fields [simp]:
  "netconf (set_page s p b) = netconf s" "arp_cache (set_page s p b) = arp_cache s"
  "net (set_page s p b) = net s" "packet_buf (set_page s p b) = packet_buf s"
  "udp_port_binds (set_page s p b) = udp_port_binds s"
  "tcp_port_binds (set_page s p b) = tcp_port_binds s"
  "sock_list (set_page s p b) = sock_list s" "tcp_sock_list (set_page s p b) = tcp_sock_list s"
  "udp_sock_list (set_page s p b) = udp_sock_list s"
  "udp_ops (set_page s p b) = udp_ops s" "tcp_ops (set_page s p b) = tcp_ops s"
  "umem (set_page s p b) = umem s" "mmio (set_page s p b) = mmio s"
  "wire (set_page s p b) = wire s" "woken (set_page s p b) = woken s"
  "freelist (mem (set_page s p b)) = freelist (mem s)"
  "refs (mem (set_page s p b)) = refs (mem s)" "pend (mem (set_page s p b)) = pend (mem s)"
  by (simp_all add: set_page_def)

lemma page_update_mem [simp]:
  "page (s\<lparr>netconf := a\<rparr>) = page s" "page (s\<lparr>arp_cache := c\<rparr>) = page s"
  "page (s\<lparr>net := n\<rparr>) = page s" "page (s\<lparr>mmio := m\<rparr>) = page s" "page (s\<lparr>wire := w\<rparr>) = page s"
  "page (s\<lparr>woken := k\<rparr>) = page s" "page (s\<lparr>udp_port_binds := u\<rparr>) = page s"
  "page (s\<lparr>tcp_port_binds := t\<rparr>) = page s" "page (s\<lparr>umem := v\<rparr>) = page s"
  by (simp_all add: page_def fun_eq_iff)

lemma n_kalloc_cases:
  obtains (none) "freelist (mem s) = []" "n_kalloc s = (0, s\<lparr>mem := (mem s)\<lparr>refs := (refs (mem s))(0 := 1)\<rparr>\<rparr>)"
  | (some) p ps where "freelist (mem s) = p # ps"
      "n_kalloc s = (p, s\<lparr>mem := (mem s)\<lparr>freelist := ps, refs := (refs (mem s))(p := 1),
                                        pg := (pg (mem s))(p := \<lambda>_. 5)\<rparr>\<rparr>)"
  by (cases "freelist (mem s)") (auto simp: n_kalloc_def pool_kalloc_def)

lemma those_map_Some: "those (map f xs) = Some ys \<longleftrightarrow> map f xs = map Some ys"
  by (induction xs arbitrary: ys) (auto split: option.splits simp: Cons_eq_map_conv)

lemma user_bytes_Some:
  "user_bytes u va n = Some bs \<longleftrightarrow> length bs = n \<and> (\<forall>k<n. u (va + of_nat k) = Some (bs ! k))"
  by (auto simp: user_bytes_def those_map_Some list_eq_iff_nth_eq)

lemma ucopyout_loop_ok:
  assumes "\<forall>k < length bs. u (va + of_nat k) \<noteq> None" "length bs < 2 ^ 64"
  shows "fst (ucopyout_loop u va bs) \<and>
         (\<forall>k < length bs. snd (ucopyout_loop u va bs) (va + of_nat k) = Some (bs ! k)) \<and>
         (\<forall>a. \<not> in_range va (length bs) a \<longrightarrow> snd (ucopyout_loop u va bs) a = u a)"
  using assms
proof (induction bs arbitrary: u va)
  case (Cons b bs)
  have m: "u va \<noteq> None" "\<forall>k < length bs. u (va + 1 + of_nat k) \<noteq> None"
    using Cons.prems(1) by (simp_all add: All_less_Suc2 ac_simps)
  define w where "w = u(va \<mapsto> b)"
  have mw: "\<forall>k < length bs. w (va + 1 + of_nat k) \<noteq> None" using m(2) by (simp add: w_def)
  have l: "length bs < 2 ^ 64" using Cons.prems(2) by simp
  note IH = Cons.IH [OF mw l]
  have e: "ucopyout_loop u va (b # bs) = ucopyout_loop w (va + 1) bs"
    using m(1) by (auto simp: w_def split: option.splits)
  have n: "Suc (length bs) \<le> 2 ^ 64" using Cons.prems(2) by simp
  have nv: "\<not> in_range (va + 1) (length bs) va"
    using Cons.prems(2) by (simp add: in_range_def unsigned_minus_1_eq_mask mask_eq_exp_minus_1)
  have w: "w va = Some b" by (simp add: w_def)
  have z: "snd (ucopyout_loop w (va + 1) bs) va = Some b" using IH nv w by metis
  have "snd (ucopyout_loop w (va + 1) bs) (va + of_nat k) = Some ((b # bs) ! k)"
    if "k < length (b # bs)" for k
    using that IH z by (cases k) (auto simp: ac_simps)
  moreover have "snd (ucopyout_loop w (va + 1) bs) a = u a" if a: "\<not> in_range va (length (b # bs)) a" for a
  proof -
    have "w a = u a" "\<not> in_range (va + 1) (length bs) a" using a in_range_Suc [OF n] by (auto simp: w_def)
    then show ?thesis using IH by metis
  qed
  ultimately show ?case using IH e by simp
qed simp

section \<open>Frames\<close>

text \<open>
  \<open>keeps A s s'\<close>: only the pages in \<open>A\<close>, the free list, the transmit queue and the ghost
  fields may differ between \<open>s\<close> and \<open>s'\<close>.
\<close>

definition keeps :: "addr set \<Rightarrow> netst \<Rightarrow> netst \<Rightarrow> bool" where
  "keeps A s s' \<longleftrightarrow>
     (\<forall>p. p \<notin> A \<longrightarrow> page s' p = page s p \<and> refs (mem s') p = refs (mem s) p) \<and>
     pend (mem s') = pend (mem s) \<and> netconf s' = netconf s \<and> arp_cache s' = arp_cache s \<and>
     packet_buf s' = packet_buf s \<and> cfg (net s') = cfg (net s) \<and> rxq (net s') = rxq (net s) \<and>
     udp_port_binds s' = udp_port_binds s \<and> tcp_port_binds s' = tcp_port_binds s \<and>
     sock_list s' = sock_list s \<and> tcp_sock_list s' = tcp_sock_list s \<and>
     udp_sock_list s' = udp_sock_list s \<and> udp_ops s' = udp_ops s \<and> tcp_ops s' = tcp_ops s \<and>
     umem s' = umem s"

lemma keeps_refl [simp]: "keeps A s s"
  by (simp add: keeps_def)

lemma keeps_trans: "keeps A s t \<Longrightarrow> keeps B t u \<Longrightarrow> A \<union> B \<subseteq> C \<Longrightarrow> keeps C s u"
proof -
  assume *: "keeps A s t" "keeps B t u" "A \<union> B \<subseteq> C"
  have "p \<notin> A" "p \<notin> B" if "p \<notin> C" for p using *(3) that by auto
  then show ?thesis using *(1,2) by (simp add: keeps_def)
qed

lemma keeps_mono: "keeps A s t \<Longrightarrow> A \<subseteq> C \<Longrightarrow> keeps C s t"
  by (auto simp: keeps_def)

lemma keeps_set_page: "p \<in> A \<Longrightarrow> keeps A s (set_page s p b)"
  by (auto simp: keeps_def page_set_page)

lemma keepsD:
  assumes "keeps A s s'"
  shows "p \<notin> A \<Longrightarrow> page s' p = page s p" "p \<notin> A \<Longrightarrow> refs (mem s') p = refs (mem s) p"
    "pend (mem s') = pend (mem s)" "netconf s' = netconf s" "arp_cache s' = arp_cache s"
    "packet_buf s' = packet_buf s" "udp_port_binds s' = udp_port_binds s"
    "tcp_port_binds s' = tcp_port_binds s" "sock_list s' = sock_list s"
    "tcp_sock_list s' = tcp_sock_list s" "udp_sock_list s' = udp_sock_list s"
    "udp_ops s' = udp_ops s" "tcp_ops s' = tcp_ops s" "umem s' = umem s"
    "cfg (net s') = cfg (net s)" "rxq (net s') = rxq (net s)"
  using assms by (auto simp: keeps_def)

lemma n_kalloc_some:
  assumes "freelist (mem s) = p # ps"
  obtains s' where "n_kalloc s = (p, s')" "freelist (mem s') = ps" "keeps {p} s s'" "net s' = net s"
    "page s' p = (\<lambda>_. 5)" "refs (mem s') p = 1" "wire s' = wire s" "mmio s' = mmio s" "woken s' = woken s"
  using assms that by (simp add: n_kalloc_def pool_kalloc_def keeps_def page_def)

lemma n_kfree_owned:
  assumes "valid_page (pend (mem s)) p" "refs (mem s) p \<le> 1"
  obtains s' where "n_kfree s p = Inr s'" "freelist (mem s') = p # freelist (mem s)" "keeps {p} s s'"
    "net s' = net s" "wire s' = wire s" "mmio s' = mmio s" "woken s' = woken s" "refs (mem s') p = 0"
  using assms that by (simp add: n_kfree_def pool_kfree_def keeps_def page_def leD)

section \<open>A concrete state\<close>

text \<open>An idle stack with its queues set up and four free pages; the witnesses start here.\<close>

definition idle_net :: netst where
  "idle_net =
     \<lparr>mem = \<lparr>freelist = [0x80110000, 0x80111000, 0x80112000, 0x80113000], refs = \<lambda>_. 0,
             pg = \<lambda>_ _. 0, pend = 0x80022000\<rparr>,
      netconf = \<lparr>ip_addr = 0x0a000a0a, mac_addr = [0x52, 0x54, 0, 0x12, 0x34, 0x56],
                 subnet_mask = 0, gateway = 0\<rparr>,
      arp_cache = replicate 16 \<lparr>ae_ip = 0, ae_mac = replicate 6 0, ae_valid = 0\<rparr>,
      net = \<lparr>cfg = \<lparr>cfg_mac = [0x52, 0x54, 0, 0x12, 0x34, 0x56], cfg_status = 1,
                    max_virtqueue_pairs = 1, cfg_mtu = 1500\<rparr>,
             txq = \<lparr>vq_desc = 0x80100000, driver_area = 0x80101000, device_area = 0x80102000,
                    vq_num = 1, vq_free = replicate 8 1, used_idx = 0\<rparr>,
             rxq = \<lparr>vq_desc = 0x80103000, driver_area = 0x80104000, device_area = 0x80105000,
                    vq_num = 0, vq_free = replicate 8 0, used_idx = 0\<rparr>\<rparr>,
      packet_buf = 0x80106000,
      udp_port_binds = replicate 512 0, tcp_port_binds = replicate 512 0,
      sock_list = 0x80107000, tcp_sock_list = 0x80108000, udp_sock_list = 0x80109000,
      udp_ops = 0x80010000, tcp_ops = 0x80010040,
      umem = \<lambda>a. if a < 4096 then Some (ucast a) else None,
      mmio = [], wire = [], woken = []\<rparr>"

end
