(* ===== verification/Socket.thy ===== *)
theory Socket
  imports NetState
begin

text \<open>
  Socket objects, socket lists and port bindings, \<^verbatim>\<open>kernel/sys/socket.c\<close> without the
  calls that dispatch through \<open>struct socket_ops\<close> (see the theory SocketCalls). A
  \<open>struct socket\<close>, a \<open>struct port_binding\<close> and a \<open>struct socket_list\<close> is a page each; the
  offsets below are those of the RV64 ABI.
\<close>

section \<open>Layout and constants\<close>

abbreviation (input) sk_pending :: nat where "sk_pending \<equiv> 0"
abbreviation (input) sk_src_ip :: nat where "sk_src_ip \<equiv> 32"
abbreviation (input) sk_src_port :: nat where "sk_src_port \<equiv> 40"
abbreviation (input) sk_proto :: nat where "sk_proto \<equiv> 48"
abbreviation (input) sk_type :: nat where "sk_type \<equiv> 52"
abbreviation (input) sk_family :: nat where "sk_family \<equiv> 56"
abbreviation (input) sk_state :: nat where "sk_state \<equiv> 60"
abbreviation (input) sk_fd :: nat where "sk_fd \<equiv> 64"
abbreviation (input) sk_ops :: nat where "sk_ops \<equiv> 72"
abbreviation (input) sk_rx_head :: nat where "sk_rx_head \<equiv> 80"
abbreviation (input) sk_rx_tail :: nat where "sk_rx_tail \<equiv> 88"

abbreviation (input) pb_ip_addr :: nat where "pb_ip_addr \<equiv> 0"
abbreviation (input) pb_port :: nat where "pb_port \<equiv> 2"
abbreviation (input) pb_sock :: nat where "pb_sock \<equiv> 8"

abbreviation (input) sl_socks :: nat where "sl_socks \<equiv> 0"
abbreviation (input) sl_size :: nat where "sl_size \<equiv> 8"

definition AF_INET :: u32 where "AF_INET = 2"
definition SOCK_STREAM :: u32 where "SOCK_STREAM = 1"
definition SOCK_DGRAM :: u32 where "SOCK_DGRAM = 2"
definition PROTO_TCP :: u32 where "PROTO_TCP = 6"
definition PROTO_UDP :: u32 where "PROTO_UDP = 17"
definition CLOSED :: u32 where "CLOSED = 50"
definition BOUND :: u32 where "BOUND = 51"
definition LISTENING :: u32 where "LISTENING = 52"
definition SYN_SENT :: u32 where "SYN_SENT = 53"
definition SYN_RECVD :: u32 where "SYN_RECVD = 54"
definition ESTABLISHED :: u32 where "ESTABLISHED = 55"
definition MAX_SOCKET_CAPACITY :: nat where "MAX_SOCKET_CAPACITY = 512"
definition MAX_PORT_BINDINGS :: nat where "MAX_PORT_BINDINGS = 512"
definition INADDR_ANY :: u32 where "INADDR_ANY = 1"

section \<open>Port bindings\<close>

text \<open>An access \<open>t[i]\<close> of a table of \<open>MAX_PORT_BINDINGS\<close> pointers.\<close>

definition bind_at :: "addr list \<Rightarrow> nat \<Rightarrow> addr result" where
  "bind_at t i = (if i < length t then Inr (t ! i) else Inl OutOfBounds)"

definition insert_port_binding :: "netst \<Rightarrow> addr \<Rightarrow> (int \<times> netst) result" where
  "insert_port_binding s bind =
     (let sock = get64 (page s bind) pb_sock;
          port = unat (get16 (page s bind) pb_port)
      in deref sock (\<lambda>_.
         let proto = get32 (page s sock) sk_proto
         in if proto = PROTO_TCP then
              (if port < length (tcp_port_binds s)
               then Inr (0, s\<lparr>tcp_port_binds := (tcp_port_binds s)[port := bind]\<rparr>)
               else Inl OutOfBounds)
            else if proto = PROTO_UDP then
              (if port < length (udp_port_binds s)
               then Inr (0, s\<lparr>udp_port_binds := (udp_port_binds s)[port := bind]\<rparr>)
               else Inl OutOfBounds)
            else Inr (0, s)))"

definition remove_port_binding :: "netst \<Rightarrow> addr \<Rightarrow> (int \<times> netst) result" where
  "remove_port_binding s bind =
     (let sock = get64 (page s bind) pb_sock;
          port = unat (get16 (page s bind) pb_port)
      in deref sock (\<lambda>_.
         let proto = get32 (page s sock) sk_proto
         in if proto = PROTO_TCP then
              bindE (bind_at (tcp_port_binds s) port) (\<lambda>b.
                if b = 0 then Inr (- 1, s)
                else Inr (0, s\<lparr>tcp_port_binds := (tcp_port_binds s)[port := 0]\<rparr>))
            else if proto = PROTO_UDP then
              bindE (bind_at (udp_port_binds s) port) (\<lambda>b.
                if b = 0 then Inr (- 1, s)
                else Inr (0, s\<lparr>udp_port_binds := (udp_port_binds s)[port := 0]\<rparr>))
            else Inr (0, s)))"

section \<open>Socket lists\<close>

definition list_socks :: "netst \<Rightarrow> addr \<Rightarrow> addr" where
  "list_socks s l = get64 (page s l) sl_socks"

definition list_size :: "netst \<Rightarrow> addr \<Rightarrow> u32" where
  "list_size s l = get32 (page s l) sl_size"

definition sock_slots :: "netst \<Rightarrow> addr \<Rightarrow> addr list" where
  "sock_slots s l = map (\<lambda>i. get64 (page s (list_socks s l)) (8 * i)) [0..<MAX_SOCKET_CAPACITY]"

definition set_slot :: "netst \<Rightarrow> addr \<Rightarrow> nat \<Rightarrow> addr \<Rightarrow> netst" where
  "set_slot s l i v = (let p = list_socks s l in set_page s p (put64 (page s p) (8 * i) v))"

definition set_size :: "netst \<Rightarrow> addr \<Rightarrow> u32 \<Rightarrow> netst" where
  "set_size s l n = set_page s l (put32 (page s l) sl_size n)"

text \<open>The loop that the three insert functions share: take the first empty slot, if any.\<close>

definition take_slot :: "netst \<Rightarrow> addr \<Rightarrow> addr \<Rightarrow> (nat option \<times> netst) result" where
  "take_slot s l sock =
     deref l (\<lambda>_. deref (list_socks s l) (\<lambda>_.
       case first_slot (\<lambda>a. a = 0) (sock_slots s l) of
         None \<Rightarrow> Inr (None, s)
       | Some i \<Rightarrow> let s = set_slot s l i sock in Inr (Some i, set_size s l (list_size s l + 1))))"

definition tcp_socket_list_insert :: "netst \<Rightarrow> addr \<Rightarrow> (int \<times> netst) result" where
  "tcp_socket_list_insert s sock = bindE (take_slot s (tcp_sock_list s) sock) (\<lambda>(_, s). Inr (0, s))"

definition udp_socket_list_insert :: "netst \<Rightarrow> addr \<Rightarrow> (int \<times> netst) result" where
  "udp_socket_list_insert s sock = bindE (take_slot s (udp_sock_list s) sock) (\<lambda>(_, s). Inr (0, s))"

text \<open>
  \<open>getsock\<close> follows every pointer below \<open>size\<close> without a test; 0 is "not found". The
  recursion runs over the remaining trip count.
\<close>

fun getsock_loop :: "netst \<Rightarrow> u32 \<Rightarrow> nat \<Rightarrow> nat \<Rightarrow> addr result" where
  "getsock_loop s fd i 0 = Inr 0"
| "getsock_loop s fd i (Suc n) =
     (if i \<ge> MAX_SOCKET_CAPACITY then Inl OutOfBounds
      else
        let sock = sock_slots s (sock_list s) ! i
        in deref sock (\<lambda>_.
           if get32 (page s sock) sk_fd = fd then Inr sock else getsock_loop s fd (Suc i) n))"

definition getsock :: "netst \<Rightarrow> u32 \<Rightarrow> addr result" where
  "getsock s fd =
     deref (sock_list s) (\<lambda>_. getsock_loop s fd 0 (nat (sint (list_size s (sock_list s)))))"

text \<open>The search in \<open>socket_list_remove\<close>; it follows null slots as well.\<close>

fun clear_slot :: "netst \<Rightarrow> addr \<Rightarrow> u32 \<Rightarrow> nat \<Rightarrow> nat \<Rightarrow> netst result" where
  "clear_slot s l fd i 0 = Inr s"
| "clear_slot s l fd i (Suc n) =
     (let sock = sock_slots s l ! i
      in deref sock (\<lambda>_.
         if get32 (page s sock) sk_fd = fd
         then (let s = set_slot s l i 0 in Inr (set_size s l (list_size s l - 1)))
         else clear_slot s l fd (Suc i) n))"

definition socket_list_remove :: "netst \<Rightarrow> int \<Rightarrow> (int \<times> netst) result" where
  "socket_list_remove s fd =
     deref (sock_list s) (\<lambda>_.
       if fd < 0 \<or> fd \<ge> int MAX_SOCKET_CAPACITY then Inl OutOfBounds
       else if sock_slots s (sock_list s) ! nat fd = 0 then Inr (- 1, s)
       else bindE (getsock s (word_of_int fd)) (\<lambda>sock.
         if sock = 0 then Inr (- 1, s)
         else
           let s = set_size s (sock_list s) (list_size s (sock_list s) - 1);
               t = get32 (page s sock) sk_type
           in bindE (if t = SOCK_STREAM then
                       deref (tcp_sock_list s) (\<lambda>_.
                         clear_slot s (tcp_sock_list s) (word_of_int fd) 0 MAX_SOCKET_CAPACITY)
                     else if t = SOCK_DGRAM then
                       deref (udp_sock_list s) (\<lambda>_.
                         clear_slot s (udp_sock_list s) (word_of_int fd) 0 MAX_SOCKET_CAPACITY)
                     else Inr s) (\<lambda>s.
              bindE (n_kfree s sock) (\<lambda>s. Inr (1, s)))))"

definition sock_list_insert :: "netst \<Rightarrow> addr \<Rightarrow> (int \<times> netst) result" where
  "sock_list_insert s sock =
     deref (sock_list s) (\<lambda>_.
       if list_size s (sock_list s) = of_nat MAX_SOCKET_CAPACITY then Inr (- 1, s)
       else bindE (take_slot s (sock_list s) sock) (\<lambda>(idx, s).
         let t = get32 (page s sock) sk_type
         in if t = SOCK_DGRAM then
              bindE (udp_socket_list_insert s sock) (\<lambda>(r, s).
                if r = - 1
                then (case idx of None \<Rightarrow> Inl OutOfBounds
                      | Some i \<Rightarrow> let s = set_slot s (sock_list s) i 0
                                  in Inr (- 1, set_size s (sock_list s) (list_size s (sock_list s) - 1)))
                else Inr (0, s))
            else if t = SOCK_STREAM then
              bindE (tcp_socket_list_insert s sock) (\<lambda>(r, s).
                if r = - 1
                then (case idx of None \<Rightarrow> Inl OutOfBounds
                      | Some i \<Rightarrow> let s = set_slot s (sock_list s) i 0
                                  in Inr (- 1, set_size s (sock_list s) (list_size s (sock_list s) - 1)))
                else Inr (0, s))
            else Inr (0, s)))"

section \<open>Creation\<close>

text \<open>The checks of \<open>initsocket\<close>: the protocol it settles on, or \<open>None\<close> for -1.\<close>

definition socket_protocol :: "u32 \<Rightarrow> u32 \<Rightarrow> u32 \<Rightarrow> u32 option" where
  "socket_protocol sock_family sock_type protocol =
     (if sock_family \<noteq> AF_INET then None
      else if sock_type \<noteq> SOCK_STREAM \<and> sock_type \<noteq> SOCK_DGRAM then None
      else
        let protocol = (if protocol = 0 then (if sock_type = SOCK_STREAM then PROTO_TCP else PROTO_UDP)
                        else protocol)
        in if protocol \<noteq> PROTO_TCP \<and> protocol \<noteq> PROTO_UDP then None
           else if protocol = PROTO_TCP \<and> sock_type \<noteq> SOCK_STREAM \<or>
                   protocol = PROTO_UDP \<and> sock_type \<noteq> SOCK_DGRAM then None
           else Some protocol)"

definition initsocket :: "netst \<Rightarrow> addr \<Rightarrow> u32 \<Rightarrow> u32 \<Rightarrow> u32 \<Rightarrow> (int \<times> netst) result" where
  "initsocket s sock sock_family sock_type protocol =
     (case socket_protocol sock_family sock_type protocol of
        None \<Rightarrow> Inr (- 1, s)
      | Some protocol \<Rightarrow>
          let b = page s sock;
              b = put32 b sk_proto protocol;
              b = put32 b sk_src_ip (ip_addr (netconf s));
              b = put32 b sk_type sock_type;
              b = put32 b sk_family sock_family;
              b = put32 b sk_state CLOSED;
              b = put64 b sk_rx_head 0;
              b = put64 b sk_rx_tail 0;
              b = (if protocol = PROTO_TCP then put64 b sk_ops (tcp_ops s) else b);
              b = (if protocol = PROTO_UDP then put64 b sk_ops (udp_ops s) else b);
              s = set_page s sock b
          in bindE (sock_list_insert s sock) (\<lambda>(r, s). Inr (if r = - 1 then - 1 else 0, s)))"

text \<open>
  \<open>sock_list_init\<close> and its two copies: a page for the list and a zeroed page for its
  slots; \<open>size\<close> keeps whatever \<open>kalloc\<close> left there. The result is the new list pointer.
\<close>

definition make_sock_list :: "netst \<Rightarrow> (addr \<times> netst) result" where
  "make_sock_list s =
     (let (l, s) = n_kalloc s
      in if l = 0 then Inr (0, s)
         else
           let (socks, s) = n_kalloc s;
               s = set_page s l (put64 (page s l) sl_socks socks)
           in if socks = 0 then bindE (n_kfree s l) (\<lambda>s. Inr (l, s))
              else Inr (l, set_page s socks (\<lambda>_. 0)))"

definition sock_list_init :: "netst \<Rightarrow> netst result" where
  "sock_list_init s = bindE (make_sock_list s) (\<lambda>(l, s). Inr (s\<lparr>sock_list := l\<rparr>))"

definition tcp_sock_list_init :: "netst \<Rightarrow> netst result" where
  "tcp_sock_list_init s = bindE (make_sock_list s) (\<lambda>(l, s). Inr (s\<lparr>tcp_sock_list := l\<rparr>))"

definition udp_sock_list_init :: "netst \<Rightarrow> netst result" where
  "udp_sock_list_init s = bindE (make_sock_list s) (\<lambda>(l, s). Inr (s\<lparr>udp_sock_list := l\<rparr>))"

definition socket_init :: "netst \<Rightarrow> netst result" where
  "socket_init s = bindE (sock_list_init s) (\<lambda>s. bindE (tcp_sock_list_init s) udp_sock_list_init)"

end
