(* ===== verification/VirtioNet.thy ===== *)
theory VirtioNet
  imports NetState
begin

text \<open>
  The transmit side of the network driver \<^verbatim>\<open>kernel/virtio_net.c\<close> and its
  initialisation. Virtqueues are pages laid out as in \<^verbatim>\<open>kernel/virtio.h\<close>. The
  device is a parameter: \<open>nic s\<close> is the content that the used ring of the transmit queue
  has when its index first moves after a notification in state \<open>s\<close>, or \<open>None\<close> if it
  never does; \<open>rd log r\<close> is the value that register \<open>r\<close> reads after the register writes
  \<open>log\<close>.
\<close>

section \<open>Constants and layout\<close>

definition NUM :: nat where "NUM = 8"
definition QUEUE_RX :: u32 where "QUEUE_RX = 0"
definition QUEUE_TX :: u32 where "QUEUE_TX = 1"
definition HDR_SIZE :: u32 where "HDR_SIZE = 10"
definition VRING_DESC_F_NEXT :: u16 where "VRING_DESC_F_NEXT = 1"
definition VRING_DESC_F_WRITE :: u16 where "VRING_DESC_F_WRITE = 2"

definition VIRTIO_MMIO_MAGIC_VALUE :: u32 where "VIRTIO_MMIO_MAGIC_VALUE = 0x000"
definition VIRTIO_MMIO_VERSION :: u32 where "VIRTIO_MMIO_VERSION = 0x004"
definition VIRTIO_MMIO_DEVICE_ID :: u32 where "VIRTIO_MMIO_DEVICE_ID = 0x008"
definition VIRTIO_MMIO_VENDOR_ID :: u32 where "VIRTIO_MMIO_VENDOR_ID = 0x00c"
definition VIRTIO_MMIO_DEVICE_FEATURES :: u32 where "VIRTIO_MMIO_DEVICE_FEATURES = 0x010"
definition VIRTIO_MMIO_DRIVER_FEATURES :: u32 where "VIRTIO_MMIO_DRIVER_FEATURES = 0x020"
definition VIRTIO_MMIO_QUEUE_SEL :: u32 where "VIRTIO_MMIO_QUEUE_SEL = 0x030"
definition VIRTIO_MMIO_QUEUE_NUM_MAX :: u32 where "VIRTIO_MMIO_QUEUE_NUM_MAX = 0x034"
definition VIRTIO_MMIO_QUEUE_NUM :: u32 where "VIRTIO_MMIO_QUEUE_NUM = 0x038"
definition VIRTIO_MMIO_QUEUE_READY :: u32 where "VIRTIO_MMIO_QUEUE_READY = 0x044"
definition VIRTIO_MMIO_QUEUE_NOTIFY :: u32 where "VIRTIO_MMIO_QUEUE_NOTIFY = 0x050"
definition VIRTIO_MMIO_STATUS :: u32 where "VIRTIO_MMIO_STATUS = 0x070"
definition VIRTIO_MMIO_QUEUE_DESC_LOW :: u32 where "VIRTIO_MMIO_QUEUE_DESC_LOW = 0x080"
definition VIRTIO_MMIO_QUEUE_DESC_HIGH :: u32 where "VIRTIO_MMIO_QUEUE_DESC_HIGH = 0x084"
definition VIRTIO_MMIO_DRIVER_DESC_LOW :: u32 where "VIRTIO_MMIO_DRIVER_DESC_LOW = 0x090"
definition VIRTIO_MMIO_DRIVER_DESC_HIGH :: u32 where "VIRTIO_MMIO_DRIVER_DESC_HIGH = 0x094"
definition VIRTIO_MMIO_DEVICE_DESC_LOW :: u32 where "VIRTIO_MMIO_DEVICE_DESC_LOW = 0x0a0"
definition VIRTIO_MMIO_DEVICE_DESC_HIGH :: u32 where "VIRTIO_MMIO_DEVICE_DESC_HIGH = 0x0a4"
definition VIRTIO_CONFIG_S_ACKNOWLEDGE :: u32 where "VIRTIO_CONFIG_S_ACKNOWLEDGE = 1"
definition VIRTIO_CONFIG_S_DRIVER :: u32 where "VIRTIO_CONFIG_S_DRIVER = 2"
definition VIRTIO_CONFIG_S_DRIVER_OK :: u32 where "VIRTIO_CONFIG_S_DRIVER_OK = 4"
definition VIRTIO_CONFIG_S_FEATURES_OK :: u32 where "VIRTIO_CONFIG_S_FEATURES_OK = 8"
definition VIRTIO_NET_F_MAC :: u32 where "VIRTIO_NET_F_MAC = 32"

text \<open>\<open>struct virtq_desc\<close>, \<open>struct virtq_avail\<close> and \<open>struct virtq_used\<close> as byte offsets.\<close>

abbreviation (input) desc_addr :: "nat \<Rightarrow> nat" where "desc_addr i \<equiv> 16 * i"
abbreviation (input) desc_len :: "nat \<Rightarrow> nat" where "desc_len i \<equiv> 16 * i + 8"
abbreviation (input) desc_flags :: "nat \<Rightarrow> nat" where "desc_flags i \<equiv> 16 * i + 12"
abbreviation (input) desc_next :: "nat \<Rightarrow> nat" where "desc_next i \<equiv> 16 * i + 14"
abbreviation (input) ring_idx :: nat where "ring_idx \<equiv> 2"
abbreviation (input) avail_ring :: "nat \<Rightarrow> nat" where "avail_ring i \<equiv> 4 + 2 * i"
abbreviation (input) used_id :: "nat \<Rightarrow> nat" where "used_id i \<equiv> 4 + 8 * i"
abbreviation (input) used_len :: "nat \<Rightarrow> nat" where "used_len i \<equiv> 8 + 8 * i"

section \<open>Descriptors\<close>

definition alloc_desc :: "virtq \<Rightarrow> nat option \<times> virtq" where
  "alloc_desc q =
     (case first_slot (\<lambda>f. f \<noteq> 0) (take NUM (vq_free q)) of
        None \<Rightarrow> (None, q)
      | Some i \<Rightarrow> (Some i, q\<lparr>vq_free := (vq_free q)[i := 0]\<rparr>))"

definition free_desc :: "netst \<Rightarrow> virtq \<Rightarrow> nat \<Rightarrow> (virtq \<times> netst) result" where
  "free_desc s q i =
     (if i \<ge> NUM then Inl (Panic ''free_desc 1'')
      else if vq_free q ! i \<noteq> 0 then Inl (Panic ''free_desc 2'')
      else
        let d = page s (vq_desc q);
            d = put64 d (desc_addr i) 0;
            d = put32 d (desc_len i) 0;
            d = put16 d (desc_flags i) 0;
            d = put16 d (desc_next i) 0;
            s = set_page s (vq_desc q) d
        in Inr (q\<lparr>vq_free := (vq_free q)[i := 1]\<rparr>, s\<lparr>woken := woken s @ [FreeDesc (vq_num q) i]\<rparr>))"

section \<open>Transmission\<close>

definition reg_write :: "netst \<Rightarrow> u32 \<Rightarrow> u32 \<Rightarrow> netst" where
  "reg_write s r v = s\<lparr>mmio := mmio s @ [(r, v)]\<rparr>"

text \<open>What the device finds when it follows the chain of descriptors that starts at \<open>i\<close>.\<close>

fun chain_bytes :: "nat \<Rightarrow> netst \<Rightarrow> virtq \<Rightarrow> nat \<Rightarrow> u8 list" where
  "chain_bytes 0 s q i = []"
| "chain_bytes (Suc n) s q i =
     (let d = page s (vq_desc q)
      in bytes_of (page s (get64 d (desc_addr i))) 0 (unat (get32 d (desc_len i))) @
         (if get16 d (desc_flags i) AND VRING_DESC_F_NEXT \<noteq> 0
          then chain_bytes n s q (unat (get16 d (desc_next i))) else []))"

text \<open>The chain that the last entry of the available ring names.\<close>

definition posted_chain :: "netst \<Rightarrow> virtq \<Rightarrow> u8 list" where
  "posted_chain s q =
     (let a = page s (driver_area q)
      in chain_bytes NUM s q (unat (get16 a (avail_ring (unat (get16 a ring_idx - 1) mod NUM)))))"

definition notify_tx :: "netst \<Rightarrow> netst" where
  "notify_tx s =
     reg_write (s\<lparr>wire := wire s @ [posted_chain s (txq (net s))]\<rparr>) VIRTIO_MMIO_QUEUE_NOTIFY QUEUE_TX"

text \<open>The descriptor pair of a packet, and its entry in the available ring.\<close>

definition fill_tx_desc :: "buf \<Rightarrow> nat \<Rightarrow> nat \<Rightarrow> addr \<Rightarrow> addr \<Rightarrow> u16 \<Rightarrow> buf" where
  "fill_tx_desc d hdr_desc pkt_desc hdr pkt pkt_len =
     (let d = put16 d (desc_flags hdr_desc) (get16 d (desc_flags hdr_desc) OR VRING_DESC_F_NEXT);
          d = put32 d (desc_len hdr_desc) HDR_SIZE;
          d = put64 d (desc_addr hdr_desc) hdr;
          d = put16 d (desc_next hdr_desc) (of_nat pkt_desc);
          d = put32 d (desc_len pkt_desc) (ucast pkt_len);
          d = put64 d (desc_addr pkt_desc) pkt;
          d = put16 d (desc_flags pkt_desc) 0
      in d)"

definition push_avail :: "buf \<Rightarrow> u16 \<Rightarrow> buf" where
  "push_avail a head =
     (let a = put16 a (avail_ring (unat (get16 a ring_idx) mod NUM)) head
      in put16 a ring_idx (get16 a ring_idx + 1))"

definition transmit_packet ::
  "(netst \<Rightarrow> buf option) \<Rightarrow> netst \<Rightarrow> addr \<Rightarrow> u16 \<Rightarrow> netst result" where
  "transmit_packet nic s pkt_data pkt_len =
     (let s = reg_write s VIRTIO_MMIO_QUEUE_SEL QUEUE_TX;
          (hdr, s) = n_kalloc s
      in if hdr = 0 then Inl (Panic ''failed to allocate header'')
         else
           let s = set_page s hdr (\<lambda>_. 0);
               (hdr_desc, q) = alloc_desc (txq (net s));
               (pkt_desc, q) = alloc_desc q;
               s = s\<lparr>net := (net s)\<lparr>txq := q\<rparr>\<rparr>
           in case (hdr_desc, pkt_desc) of
                (Some hdd, Some pkd) \<Rightarrow>
                  if packet_buf s = 0 \<or> vq_desc q = 0 \<or> driver_area q = 0 \<or> device_area q = 0
                  then Inl NullDeref
                  else bindE (blitE (page s (packet_buf s)) 0 (page s pkt_data) 0 (unat pkt_len))
                    (\<lambda>b.
                      let s = set_page s (packet_buf s) b;
                          s = set_page s (vq_desc q)
                                (fill_tx_desc (page s (vq_desc q)) hdd pkd hdr (packet_buf s) pkt_len);
                          s = set_page s (driver_area q) (push_avail (page s (driver_area q)) (of_nat hdd));
                          prev_used_idx = get16 (page s (device_area q)) ring_idx;
                          s = notify_tx s
                      in case nic s of
                           None \<Rightarrow> Inl Spins
                         | Some u \<Rightarrow>
                             if get16 u ring_idx = prev_used_idx then Inl Spins
                             else
                               let s = set_page s (device_area q) u
                               in bindE (free_desc s q hdd) (\<lambda>(q, s).
                                  bindE (free_desc s q pkd) (\<lambda>(q, s).
                                  Inr (s\<lparr>net := (net s)\<lparr>txq := q\<rparr>\<rparr>))))
              | _ \<Rightarrow> Inr s)"

definition apply_padding :: "netst \<Rightarrow> u8 \<Rightarrow> int \<times> netst" where
  "apply_padding s num_bytes =
     (if unat num_bytes > 64 - 10 \<or> num_bytes < 1 then (1, s)
      else (0, set_page s (packet_buf s)
                 (fill (page s (packet_buf s)) (10 + (64 - unat num_bytes)) 0 (unat num_bytes))))"

section \<open>Initialisation\<close>

text \<open>The part that \<open>virtio_net_init\<close> does for each of the two queues.\<close>

definition setup_queue ::
  "((u32 \<times> u32) list \<Rightarrow> u32 \<Rightarrow> u32) \<Rightarrow> netst \<Rightarrow> virtq \<Rightarrow> u32 \<Rightarrow> string \<Rightarrow> string \<Rightarrow> (virtq \<times> netst) result" where
  "setup_queue rd s q sel not_ready no_mem =
     (let s = reg_write s VIRTIO_MMIO_QUEUE_SEL sel
      in if rd (mmio s) VIRTIO_MMIO_QUEUE_READY \<noteq> 0 then Inl (Panic not_ready)
         else
           let (d, s) = n_kalloc s;
               (a, s) = n_kalloc s;
               (u, s) = n_kalloc s
           in if d = 0 \<or> a = 0 \<or> u = 0 then Inl (Panic no_mem)
              else
                let s = set_page (set_page (set_page s d (\<lambda>_. 0)) a (\<lambda>_. 0)) u (\<lambda>_. 0);
                    q = q\<lparr>vq_num := sel, vq_desc := d, driver_area := a, device_area := u,
                          vq_free := replicate NUM 1\<rparr>;
                    s = reg_write s VIRTIO_MMIO_QUEUE_NUM (of_nat NUM);
                    s = reg_write s VIRTIO_MMIO_QUEUE_DESC_LOW (ucast d);
                    s = reg_write s VIRTIO_MMIO_QUEUE_DESC_HIGH (ucast (drop_bit 32 d));
                    s = reg_write s VIRTIO_MMIO_DRIVER_DESC_LOW (ucast a);
                    s = reg_write s VIRTIO_MMIO_DRIVER_DESC_HIGH (ucast (drop_bit 32 a));
                    s = reg_write s VIRTIO_MMIO_DEVICE_DESC_LOW (ucast u);
                    s = reg_write s VIRTIO_MMIO_DEVICE_DESC_HIGH (ucast (drop_bit 32 u))
                in Inr (q, s))"

definition fill_rx_desc :: "buf \<Rightarrow> nat \<Rightarrow> nat \<Rightarrow> addr \<Rightarrow> addr \<Rightarrow> buf" where
  "fill_rx_desc d rx_hdr_desc rx_desc hdr rxbuf =
     (let d = put64 d (desc_addr rx_hdr_desc) hdr;
          d = put32 d (desc_len rx_hdr_desc) HDR_SIZE;
          d = put16 d (desc_flags rx_hdr_desc) VRING_DESC_F_NEXT;
          d = put16 d (desc_next rx_hdr_desc) (of_nat rx_desc);
          d = put64 d (desc_addr rx_desc) rxbuf;
          d = put32 d (desc_len rx_desc) 4096;
          d = put16 d (desc_flags rx_desc) VRING_DESC_F_WRITE
      in d)"

text \<open>One receive buffer per round; a failed \<open>alloc_desc\<close> would index the table with -1.\<close>

fun rx_fill :: "nat \<Rightarrow> netst \<Rightarrow> virtq \<Rightarrow> (virtq \<times> netst) result" where
  "rx_fill 0 s q = Inr (q, s)"
| "rx_fill (Suc n) s q =
     (let (rx_hdr_desc, q) = alloc_desc q;
          (rx_desc, q) = alloc_desc q;
          (rxbuf, s) = n_kalloc s;
          (hdr, s) = n_kalloc s
      in if rxbuf = 0 then Inl (Panic ''rxbuf alloc failed'')
         else case (rx_hdr_desc, rx_desc) of
                (Some h, Some r) \<Rightarrow>
                  let s = set_page s (vq_desc q) (fill_rx_desc (page s (vq_desc q)) h r hdr rxbuf);
                      s = set_page s (driver_area q) (push_avail (page s (driver_area q)) (of_nat h))
                  in rx_fill n s q
              | _ \<Rightarrow> Inl OutOfBounds)"

definition virtio_net_init ::
  "((u32 \<times> u32) list \<Rightarrow> u32 \<Rightarrow> u32) \<Rightarrow> virtio_net_config \<Rightarrow> netst \<Rightarrow> netst result" where
  "virtio_net_init rd devcfg s =
     (if rd (mmio s) VIRTIO_MMIO_MAGIC_VALUE \<noteq> 0x74726976 \<or> rd (mmio s) VIRTIO_MMIO_VERSION \<noteq> 2 \<or>
         rd (mmio s) VIRTIO_MMIO_DEVICE_ID \<noteq> 1 \<or> rd (mmio s) VIRTIO_MMIO_VENDOR_ID \<noteq> 0x554d4551
      then Inl (Panic ''could not find virtio net'')
      else
        let s = reg_write s VIRTIO_MMIO_STATUS 0;
            status = VIRTIO_CONFIG_S_ACKNOWLEDGE;
            s = reg_write s VIRTIO_MMIO_STATUS status;
            status = status OR VIRTIO_CONFIG_S_DRIVER;
            s = reg_write s VIRTIO_MMIO_STATUS status;
            s = s\<lparr>net := (net s)\<lparr>cfg := devcfg\<rparr>\<rparr>;
            features = rd (mmio s) VIRTIO_MMIO_DEVICE_FEATURES AND VIRTIO_NET_F_MAC;
            s = reg_write s VIRTIO_MMIO_DRIVER_FEATURES features;
            status = status OR VIRTIO_CONFIG_S_FEATURES_OK;
            s = reg_write s VIRTIO_MMIO_STATUS status;
            status = rd (mmio s) VIRTIO_MMIO_STATUS;
            max_queue_size = rd (mmio s) VIRTIO_MMIO_QUEUE_NUM_MAX
        in if status AND VIRTIO_CONFIG_S_FEATURES_OK = 0 then Inl (Panic ''virtio net FEATURES_OK unset'')
           else if max_queue_size = 0 then Inl (Panic ''virtio net has no queue 1 (QUEUE_TX)'')
           else if max_queue_size < of_nat NUM then Inl (Panic ''virtio net max queue too short'')
           else
             bindE (setup_queue rd s (txq (net s)) QUEUE_TX
                      ''QUEUE_TX should not be ready'' ''virtio net alloc'') (\<lambda>(q, s).
             let s = reg_write (s\<lparr>net := (net s)\<lparr>txq := q\<rparr>\<rparr>) VIRTIO_MMIO_QUEUE_READY 1
             in bindE (setup_queue rd s (rxq (net s)) QUEUE_RX
                         ''QUEUE_RX should not be ready'' ''virtio net alloc'') (\<lambda>(q, s).
                bindE (rx_fill (NUM div 2) s q) (\<lambda>(q, s).
                let s = s\<lparr>net := (net s)\<lparr>rxq := q\<rparr>\<rparr>;
                    s = reg_write s VIRTIO_MMIO_QUEUE_READY 1;
                    s = reg_write s VIRTIO_MMIO_QUEUE_NOTIFY QUEUE_RX;
                    s = reg_write s VIRTIO_MMIO_STATUS (status OR VIRTIO_CONFIG_S_DRIVER_OK);
                    (pb, s) = n_kalloc s
                in Inr (s\<lparr>packet_buf := pb\<rparr>)))))"

section \<open>Descriptor allocation\<close>

definition virtq_ok :: "virtq \<Rightarrow> bool" where
  "virtq_ok q \<longleftrightarrow> length (vq_free q) = NUM"

definition used_descs :: "virtq \<Rightarrow> nat set" where
  "used_descs q = {i. i < NUM \<and> vq_free q ! i = 0}"

lemma alloc_desc_Some:
  "virtq_ok q \<Longrightarrow> alloc_desc q = (Some i, q') \<longleftrightarrow>
     first_slot (\<lambda>f. f \<noteq> 0) (vq_free q) = Some i \<and> q' = q\<lparr>vq_free := (vq_free q)[i := 0]\<rparr>"
  by (auto simp: alloc_desc_def virtq_ok_def split: option.splits)

lemma alloc_desc_None:
  "virtq_ok q \<Longrightarrow> alloc_desc q = (None, q') \<longleftrightarrow> first_slot (\<lambda>f. f \<noteq> 0) (vq_free q) = None \<and> q' = q"
  by (auto simp: alloc_desc_def virtq_ok_def split: option.splits)

definition release_desc :: "virtq \<Rightarrow> nat \<Rightarrow> virtq" where
  "release_desc q i = q\<lparr>vq_free := (vq_free q)[i := 1]\<rparr>"

lemma free_desc_release:
  "i < NUM \<Longrightarrow> vq_free q ! i = 0 \<Longrightarrow> \<exists>s'. free_desc s q i = Inr (release_desc q i, s')"
  by (simp add: free_desc_def release_desc_def Let_def)

interpretation desc_table: slot_table alloc_desc release_desc used_descs NUM virtq_ok
proof unfold_locales
  fix t t' i
  show "virtq_ok t \<Longrightarrow> alloc_desc t = (Some i, t') \<Longrightarrow>
      i < NUM \<and> i \<notin> used_descs t \<and> used_descs t' = insert i (used_descs t) \<and> virtq_ok t'"
    by (auto simp: alloc_desc_Some used_descs_def virtq_ok_def nth_list_update dest!: first_slotD)
  show "virtq_ok t \<Longrightarrow> alloc_desc t = (None, t') \<Longrightarrow> t' = t \<and> used_descs t = {..<NUM}"
    by (auto simp: alloc_desc_None used_descs_def virtq_ok_def first_slot_None)
  show "virtq_ok t \<Longrightarrow> used_descs t \<subseteq> {..<NUM}" by (auto simp: used_descs_def)
  show "virtq_ok t \<Longrightarrow> i \<in> used_descs t \<Longrightarrow>
      used_descs (release_desc t i) = used_descs t - {i} \<and> virtq_ok (release_desc t i)"
    by (auto simp: used_descs_def release_desc_def virtq_ok_def nth_list_update)
qed

section \<open>The transmitted frame\<close>

lemma unat_desc_index: "i < NUM \<Longrightarrow> unat (of_nat i :: u16) = i"
  by (rule unat_of_nat_small) (simp add: NUM_def)

lemma fill_tx_desc_hdr:
  assumes "i \<noteq> j"
  shows "get64 (fill_tx_desc d i j h p n) (desc_addr i) = h"
    and "get32 (fill_tx_desc d i j h p n) (desc_len i) = HDR_SIZE"
    and "get16 (fill_tx_desc d i j h p n) (desc_flags i) AND VRING_DESC_F_NEXT \<noteq> 0"
    and "get16 (fill_tx_desc d i j h p n) (desc_next i) = of_nat j"
proof -
  have "16 * i + 16 \<le> 16 * j \<or> 16 * j + 16 \<le> 16 * i" using assms by auto
  then show "get64 (fill_tx_desc d i j h p n) (desc_addr i) = h"
    "get32 (fill_tx_desc d i j h p n) (desc_len i) = HDR_SIZE"
    "get16 (fill_tx_desc d i j h p n) (desc_next i) = of_nat j"
    "get16 (fill_tx_desc d i j h p n) (desc_flags i) AND VRING_DESC_F_NEXT \<noteq> 0"
    by (auto simp: fill_tx_desc_def Let_def buf_simps VRING_DESC_F_NEXT_def)
qed

lemma fill_tx_desc_pkt:
  "get64 (fill_tx_desc d i j h p n) (desc_addr j) = p"
  "get32 (fill_tx_desc d i j h p n) (desc_len j) = ucast n"
  "get16 (fill_tx_desc d i j h p n) (desc_flags j) = 0"
  by (auto simp: fill_tx_desc_def Let_def buf_simps)

lemma push_avail_reads:
  "get16 (push_avail a h) ring_idx = get16 a ring_idx + 1"
  "get16 (push_avail a h) (avail_ring (unat (get16 a ring_idx) mod NUM)) = h"
  by (simp_all add: push_avail_def Let_def buf_simps)

text \<open>A queue that is set up: four different pages, none of them free.\<close>

definition tx_ready :: "netst \<Rightarrow> bool" where
  "tx_ready s \<longleftrightarrow>
     (let q = txq (net s); ps = [packet_buf s, vq_desc q, driver_area q, device_area q]
      in virtq_ok q \<and> distinct ps \<and> 0 \<notin> set ps \<and> set ps \<inter> set (freelist (mem s)) = {})"

text \<open>The device completes every request it is notified of (virtio 1.1, 2.6.13 and 2.6.14).\<close>

definition nic_completes :: "(netst \<Rightarrow> buf option) \<Rightarrow> bool" where
  "nic_completes nic \<longleftrightarrow>
     (\<forall>s. \<exists>u. nic s = Some u \<and> get16 u ring_idx \<noteq> get16 (page s (device_area (txq (net s)))) ring_idx)"

text \<open>The state when the device is notified.\<close>

definition tx_posted :: "netst \<Rightarrow> addr \<Rightarrow> addr \<Rightarrow> u16 \<Rightarrow> nat \<Rightarrow> nat \<Rightarrow> virtq \<Rightarrow> netst" where
  "tx_posted s hdr pkt_data pkt_len i j q =
     (let s = set_page s hdr (\<lambda>_. 0);
          s = s\<lparr>net := (net s)\<lparr>txq := q\<rparr>\<rparr>;
          s = set_page s (packet_buf s) (blit (page s (packet_buf s)) 0 (page s pkt_data) 0 (unat pkt_len));
          s = set_page s (vq_desc q) (fill_tx_desc (page s (vq_desc q)) i j hdr (packet_buf s) pkt_len)
      in set_page s (driver_area q) (push_avail (page s (driver_area q)) (of_nat i)))"

lemma posted_chain_frame:
  assumes ps: "distinct [hdr, packet_buf s, vq_desc q, driver_area q]" "pkt_data \<noteq> hdr"
    and ij: "i \<noteq> j" "i < NUM" "j < NUM"
  shows "posted_chain (tx_posted s hdr pkt_data pkt_len i j q) q =
         replicate 10 0 @ bytes_of (page s pkt_data) 0 (unat pkt_len)"
proof -
  define t where "t = tx_posted s hdr pkt_data pkt_len i j q"
  define d where "d = page t (vq_desc q)"
  have d: "d = fill_tx_desc (page s (vq_desc q)) i j hdr (packet_buf s) pkt_len"
    using ps by (auto simp: d_def t_def tx_posted_def Let_def)
  have a: "page t (driver_area q) = push_avail (page s (driver_area q)) (of_nat i)"
    using ps by (auto simp: t_def tx_posted_def Let_def)
  have h: "bytes_of (page t hdr) 0 10 = replicate 10 0"
    using ps by (intro nth_equalityI) (auto simp: t_def tx_posted_def Let_def)
  have p: "bytes_of (page t (packet_buf s)) 0 (unat pkt_len) = bytes_of (page s pkt_data) 0 (unat pkt_len)"
    using ps by (intro bytes_of_cong) (auto simp: t_def tx_posted_def Let_def blit_apply)
  have head: "posted_chain t q = chain_bytes NUM t q i"
    using ij by (simp add: posted_chain_def Let_def a push_avail_reads unat_desc_index)
  obtain n where NUM: "NUM = Suc (Suc n)" using that [of 6] by (simp add: NUM_def)
  have small: "unat pkt_len mod 4294967296 = unat pkt_len" using unat_u16_le [of pkt_len] by simp
  have "chain_bytes NUM t q i =
        bytes_of (page t hdr) 0 10 @ bytes_of (page t (packet_buf s)) 0 (unat pkt_len)"
    using ij unat_desc_index [of j] unfolding NUM
    by (simp add: d_def [symmetric] d fill_tx_desc_hdr fill_tx_desc_pkt HDR_SIZE_def Let_def
        unsigned_ucast_eq take_bit_eq_mod small)
  then show ?thesis using h p head by (simp add: t_def)
qed

lemma tx_posted_fields [simp]:
  "net (tx_posted s h p n i j q) = (net s)\<lparr>txq := q\<rparr>"
  "wire (tx_posted s h p n i j q) = wire s"
  "freelist (mem (tx_posted s h p n i j q)) = freelist (mem s)"
  by (simp_all add: tx_posted_def Let_def)

lemma reg_write_fields [simp]:
  "mem (reg_write s r v) = mem s" "net (reg_write s r v) = net s"
  "wire (reg_write s r v) = wire s" "packet_buf (reg_write s r v) = packet_buf s"
  "arp_cache (reg_write s r v) = arp_cache s" "netconf (reg_write s r v) = netconf s"
  "page (reg_write s r v) = page s"
  by (simp_all add: reg_write_def)

lemma free_desc_ok:
  assumes "i < NUM" "vq_free q ! i = 0"
  obtains s' where "free_desc s q i = Inr (release_desc q i, s')" "net s' = net s" "wire s' = wire s"
    "freelist (mem s') = freelist (mem s)" "keeps {vq_desc q} s s'"
  using assms that by (simp add: free_desc_def release_desc_def Let_def keeps_def page_set_page)

lemma transmit_packet_eq:
  assumes "n_kalloc (reg_write s VIRTIO_MMIO_QUEUE_SEL QUEUE_TX) = (h, s1)" "h \<noteq> 0"
    "alloc_desc (txq (net s1)) = (Some i, q1)" "alloc_desc q1 = (Some j, q2)"
    "0 \<notin> {packet_buf s1, vq_desc q2, driver_area q2, device_area q2}" "unat pkt_len \<le> 4096"
  shows "transmit_packet nic s pkt_data pkt_len =
    (let t = tx_posted s1 h pkt_data pkt_len i j q2; s = notify_tx t
     in case nic s of None \<Rightarrow> Inl Spins
        | Some u \<Rightarrow>
            if get16 u ring_idx = get16 (page t (device_area q2)) ring_idx then Inl Spins
            else bindE (free_desc (set_page s (device_area q2) u) q2 i) (\<lambda>(q, s).
                 bindE (free_desc s q j) (\<lambda>(q, s). Inr (s\<lparr>net := (net s)\<lparr>txq := q\<rparr>\<rparr>))))"
  using assms by (simp add: transmit_packet_def Let_def blitE_def tx_posted_def cong: option.case_cong if_cong)

lemma notify_tx_fields [simp]:
  "net (notify_tx s) = net s" "freelist (mem (notify_tx s)) = freelist (mem s)"
  "packet_buf (notify_tx s) = packet_buf s" "page (notify_tx s) = page s"
  "wire (notify_tx s) = wire s @ [posted_chain s (txq (net s))]"
  by (simp_all add: notify_tx_def)

lemma alloc_two_descs:
  assumes "virtq_ok q" "card (used_descs q) + 2 \<le> NUM"
  obtains i j q1 q2 where "alloc_desc q = (Some i, q1)" "alloc_desc q1 = (Some j, q2)"
    "i \<noteq> j" "i < NUM" "j < NUM" "used_descs q2 = insert j (insert i (used_descs q))"
    "i \<notin> used_descs q" "j \<notin> used_descs q" "virtq_ok q2"
    "vq_desc q2 = vq_desc q" "driver_area q2 = driver_area q" "device_area q2 = device_area q"
proof -
  obtain i q1 where i: "alloc_desc q = (Some i, q1)"
    using desc_table.alloc_succeeds [OF assms(1)] assms(2) by auto
  note u1 = desc_table.alloc_some [OF assms(1) i]
  have "finite (used_descs q)" by (simp add: used_descs_def)
  then obtain j q2 where j: "alloc_desc q1 = (Some j, q2)"
    using desc_table.alloc_succeeds [of q1] u1 assms(2) by auto
  note u2 = desc_table.alloc_some [of q1 j q2, OF _ j]
  show thesis
    using that [OF i j] u1 u2 i j assms(1) by (auto simp: alloc_desc_Some)
qed

lemma free_two_descs:
  assumes "i \<noteq> j" "i < NUM" "j < NUM" "virtq_ok q"
    "used_descs q = insert j (insert i us)" "i \<notin> us" "j \<notin> us"
  obtains q' s' where "bindE (free_desc s q i) (\<lambda>(q, s). bindE (free_desc s q j)
      (\<lambda>(q, s). Inr (s\<lparr>net := (net s)\<lparr>txq := q\<rparr>\<rparr>))) = Inr (s'\<lparr>net := (net s')\<lparr>txq := q'\<rparr>\<rparr>)"
    "used_descs q' = us" "virtq_ok q'" "wire s' = wire s" "keeps {vq_desc q} s s'"
    "freelist (mem s') = freelist (mem s)"
    "vq_desc q' = vq_desc q" "driver_area q' = driver_area q" "device_area q' = device_area q"
proof -
  have fi: "vq_free q ! i = 0" using assms by (auto simp: used_descs_def)
  obtain s2 where s2: "free_desc s q i = Inr (release_desc q i, s2)" "wire s2 = wire s"
    "freelist (mem s2) = freelist (mem s)" "keeps {vq_desc q} s s2"
    by (rule free_desc_ok [OF assms(2) fi, of s]) auto
  have ri: "used_descs (release_desc q i) = insert j us" "virtq_ok (release_desc q i)"
    using desc_table.release_used [of q i] assms by auto
  then have fj: "vq_free (release_desc q i) ! j = 0" by (auto simp: used_descs_def)
  obtain s3 where s3: "free_desc s2 (release_desc q i) j = Inr (release_desc (release_desc q i) j, s3)"
    "wire s3 = wire s" "freelist (mem s3) = freelist (mem s)"
    "keeps {vq_desc (release_desc q i)} s2 s3"
    using s2 by (rule_tac free_desc_ok [OF assms(3) fj, of s2]) auto
  have k: "keeps {vq_desc q} s s3"
    using keeps_trans [OF s2(4) s3(4)] by (simp add: release_desc_def)
  have "used_descs (release_desc (release_desc q i) j) = us" "virtq_ok (release_desc (release_desc q i) j)"
    using desc_table.release_used [of "release_desc q i" j] ri assms by auto
  then show thesis
    using that [of "release_desc (release_desc q i) j" s3] s2 s3 k by (simp add: release_desc_def)
qed

definition tx_pages :: "netst \<Rightarrow> addr set" where
  "tx_pages s = (let q = txq (net s) in {packet_buf s, vq_desc q, driver_area q, device_area q})"

lemma keeps_tx_posted:
  "keeps {h, packet_buf s, vq_desc q, driver_area q} s (notify_tx (tx_posted s h p n i j q))"
  by (simp add: keeps_def notify_tx_def reg_write_def tx_posted_def Let_def page_set_page)

lemma transmit_packet_ok:
  assumes ready: "tx_ready s" and room: "card (used_descs (txq (net s))) + 2 \<le> NUM"
    and free: "freelist (mem s) = h # hs" "h \<noteq> 0"
    and pkt: "pkt_data \<noteq> h" "unat pkt_len \<le> 4096" and nic: "nic_completes nic"
  obtains s' where "transmit_packet nic s pkt_data pkt_len = Inr s'"
    "wire s' = wire s @ [replicate 10 0 @ bytes_of (page s pkt_data) 0 (unat pkt_len)]"
    "used_descs (txq (net s')) = used_descs (txq (net s))" "tx_ready s'"
    "freelist (mem s') = hs" "keeps (insert h (tx_pages s)) s s'" "tx_pages s' = tx_pages s"
proof -
  define q where "q = txq (net s)"
  have ok: "virtq_ok q" using ready by (simp add: tx_ready_def q_def Let_def)
  obtain i j q1 q2 where a: "alloc_desc q = (Some i, q1)" "alloc_desc q1 = (Some j, q2)"
    and d: "i \<noteq> j" "i < NUM" "j < NUM" "used_descs q2 = insert j (insert i (used_descs q))"
      "i \<notin> used_descs q" "j \<notin> used_descs q" "virtq_ok q2"
    and same: "vq_desc q2 = vq_desc q" "driver_area q2 = driver_area q" "device_area q2 = device_area q"
    by (rule alloc_two_descs [OF ok room [folded q_def]])
  obtain s1 where k: "n_kalloc (reg_write s VIRTIO_MMIO_QUEUE_SEL QUEUE_TX) = (h, s1)"
    and s1: "freelist (mem s1) = hs" "keeps {h} (reg_write s VIRTIO_MMIO_QUEUE_SEL QUEUE_TX) s1"
      "net s1 = net s" "wire s1 = wire s"
    using n_kalloc_some [of "reg_write s VIRTIO_MMIO_QUEUE_SEL QUEUE_TX" h hs] free by auto
  have k1: "keeps {h} s s1" using s1(2) by (simp add: keeps_def reg_write_def)
  note pb = keepsD(6) [OF k1]
  define t where "t = tx_posted s1 h pkt_data pkt_len i j q2"
  have ps: "distinct [h, packet_buf s1, vq_desc q2, driver_area q2]"
    and nz: "0 \<notin> {packet_buf s1, vq_desc q2, driver_area q2, device_area q2}"
    using ready free same pb by (auto simp: tx_ready_def q_def Let_def)
  have w: "wire (notify_tx t) = wire s @ [replicate 10 0 @ bytes_of (page s pkt_data) 0 (unat pkt_len)]"
    using posted_chain_frame [OF ps pkt(1) d(1-3)] s1(4) keepsD(1) [OF k1] pkt(1) by (simp add: t_def)
  obtain u where u: "nic (notify_tx t) = Some u"
      "get16 u ring_idx \<noteq> get16 (page t (device_area q2)) ring_idx"
    using nic [unfolded nic_completes_def, rule_format, of "notify_tx t"] by (auto simp: t_def)
  define s0 where "s0 = set_page (notify_tx t) (device_area q2) u"
  obtain q' s' where f: "bindE (free_desc s0 q2 i) (\<lambda>(q, s).
        bindE (free_desc s q j) (\<lambda>(q, s). Inr (s\<lparr>net := (net s)\<lparr>txq := q\<rparr>\<rparr>))) =
        Inr (s'\<lparr>net := (net s')\<lparr>txq := q'\<rparr>\<rparr>)"
    and q': "used_descs q' = used_descs q" "virtq_ok q'" "wire s' = wire s0"
      "keeps {vq_desc q2} s0 s'" "freelist (mem s') = freelist (mem s0)"
      "vq_desc q' = vq_desc q2" "driver_area q' = driver_area q2" "device_area q' = device_area q2"
    by (rule free_two_descs [OF d(1-3) d(7) d(4-6)])
  define s'' where "s'' = s'\<lparr>net := (net s')\<lparr>txq := q'\<rparr>\<rparr>"
  have r: "transmit_packet nic s pkt_data pkt_len = Inr s''"
    using transmit_packet_eq [where nic = nic and pkt_data = pkt_data, OF k free(2) _ a(2) nz pkt(2)]
      a(1) s1(3) u f by (simp add: q_def t_def [symmetric] s0_def s''_def Let_def)
  have kt: "keeps {h, packet_buf s1, vq_desc q2, driver_area q2} s1 (notify_tx t)"
    unfolding t_def by (rule keeps_tx_posted)
  have ks: "keeps {device_area q2} (notify_tx t) s0" by (simp add: s0_def keeps_set_page)
  have "keeps (insert h (tx_pages s)) s (notify_tx t)"
    by (rule keeps_trans [OF k1 kt]) (auto simp: tx_pages_def Let_def pb same q_def)
  then have "keeps (insert h (tx_pages s)) s s0"
    by (rule keeps_trans [OF _ ks]) (auto simp: tx_pages_def Let_def same q_def)
  then have kk: "keeps (insert h (tx_pages s)) s s'"
    by (rule keeps_trans [OF _ q'(4)]) (auto simp: tx_pages_def Let_def same q_def)
  have tp: "tx_pages s'' = tx_pages s"
    using keepsD(6) [OF kk] q' same by (simp add: tx_pages_def Let_def s''_def q_def)
  have "freelist (mem s0) = hs" using s1(1) by (simp add: s0_def t_def)
  moreover have "wire s0 = wire (notify_tx t)" by (simp add: s0_def)
  moreover have "keeps (insert h (tx_pages s)) s s''" using kk by (simp add: s''_def keeps_def)
  ultimately show thesis
    using that [OF r] ready free same w q' keepsD(6) [OF kk] tp
    by (auto simp: tx_ready_def Let_def q_def s''_def)
qed


text \<open>The pattern of every sender: fill a page, transmit it and give it back.\<close>

lemma tx_set_page [simp]:
  "tx_ready (set_page s p b) = tx_ready s" "tx_pages (set_page s p b) = tx_pages s"
  by (simp_all add: tx_ready_def tx_pages_def)

lemma send_frame:
  assumes ready: "tx_ready s" and room: "card (used_descs (txq (net s))) + 2 \<le> NUM"
    and free: "freelist (mem s) = h # hs" "h \<noteq> 0" and nic: "nic_completes nic"
    and fr: "fr \<noteq> h" "fr \<notin> tx_pages s" "valid_page (pend (mem s)) fr" "refs (mem s) fr \<le> 1"
    and n: "unat n \<le> 4096"
  obtains s' where "bindE (transmit_packet nic (set_page s fr F) fr n) (\<lambda>s. n_kfree s fr) = Inr s'"
    "wire s' = wire s @ [replicate 10 0 @ bytes_of F 0 (unat n)]"
    "used_descs (txq (net s')) = used_descs (txq (net s))" "tx_ready s'"
    "freelist (mem s') = fr # hs" "keeps (insert fr (insert h (tx_pages s))) s s'"
    "tx_pages s' = tx_pages s"
proof -
  have prems: "tx_ready (set_page s fr F)" "card (used_descs (txq (net (set_page s fr F)))) + 2 \<le> NUM"
    "freelist (mem (set_page s fr F)) = h # hs"
    using ready room free by simp_all
  obtain t where t: "transmit_packet nic (set_page s fr F) fr n = Inr t"
    "wire t = wire s @ [replicate 10 0 @ bytes_of F 0 (unat n)]"
    "used_descs (txq (net t)) = used_descs (txq (net s))" "tx_ready t" "freelist (mem t) = hs"
    "keeps (insert h (tx_pages s)) (set_page s fr F) t" "tx_pages t = tx_pages s"
    by (rule transmit_packet_ok [OF prems free(2) fr(1) n nic]) simp
  have "valid_page (pend (mem t)) fr" "refs (mem t) fr \<le> 1"
    using keepsD(2,3) [OF t(6)] fr by auto
  then obtain s' where s': "n_kfree t fr = Inr s'" "freelist (mem s') = fr # hs" "keeps {fr} t s'"
    "net s' = net t" "wire s' = wire t"
    using n_kfree_owned [of t fr] t(5) by auto
  have k: "keeps (insert fr (insert h (tx_pages s))) s t"
    by (rule keeps_trans [OF keeps_set_page [of fr "{fr}"] t(6)]) auto
  have k': "keeps (insert fr (insert h (tx_pages s))) s s'"
    by (rule keeps_trans [OF k s'(3)]) auto
  have tp: "tx_pages s' = tx_pages s"
    using t(7) s'(4) keepsD(6) [OF s'(3)] by (simp add: tx_pages_def Let_def)
  have "tx_ready s'"
    using t(4,5) fr(2) s' keepsD(6) [OF s'(3)] t(7) by (auto simp: tx_ready_def tx_pages_def Let_def)
  then show thesis using that [of s'] t s' k' tp by simp
qed

text \<open>A device that reports each chain as used at once.\<close>

definition prompt_nic :: "netst \<Rightarrow> buf option" where
  "prompt_nic s = (let u = page s (device_area (txq (net s)))
                   in Some (put16 u ring_idx (get16 u ring_idx + 1)))"

lemma prompt_nic_completes: "nic_completes prompt_nic"
  by (simp add: nic_completes_def prompt_nic_def Let_def)

lemma idle_net_ready: "tx_ready idle_net" "card (used_descs (txq (net idle_net))) + 2 \<le> NUM"
proof -
  show "tx_ready idle_net" by (simp add: tx_ready_def idle_net_def virtq_ok_def NUM_def)
  have "used_descs (txq (net idle_net)) = {}"
    by (auto simp: used_descs_def idle_net_def NUM_def)
  then show "card (used_descs (txq (net idle_net))) + 2 \<le> NUM" by (simp add: NUM_def)
qed


end
