(* ===== verification/Eth.thy ===== *)
theory Eth
  imports NetState
begin

text \<open>
  Ethernet frames, \<^verbatim>\<open>kernel/sys/eth.c\<close>. A \<open>struct eth_frame\<close> is a page with the
  destination at offset 0, the source at 6, the type at 12, the payload at 14 and the
  8-bit \<open>payload_len\<close> at 1514.
\<close>

section \<open>Operations\<close>

definition PROTO_IPV4 :: u16 where "PROTO_IPV4 = 0x0800"
definition PROTO_ARP :: u16 where "PROTO_ARP = 0x0806"
definition PROTO_IPV6 :: u16 where "PROTO_IPV6 = 0x86DD"

abbreviation (input) eth_payload :: nat where "eth_payload \<equiv> 14"
abbreviation (input) eth_payload_len :: nat where "eth_payload_len \<equiv> 1514"

definition eth_dst :: "buf \<Rightarrow> mac" where "eth_dst f = bytes_of f 0 6"
definition eth_src :: "buf \<Rightarrow> mac" where "eth_src f = bytes_of f 6 6"
definition eth_type :: "buf \<Rightarrow> u16" where "eth_type f = get16 f 12"

text \<open>The received packet starts at offset \<open>off\<close> of the page \<open>b\<close>.\<close>

definition parse_eth_packet :: "buf \<Rightarrow> nat \<Rightarrow> int \<Rightarrow> buf \<Rightarrow> buf result" where
  "parse_eth_packet b off len eth_frame =
     (let payload_len = word_of_int (len - 14) :: u16
      in bindE (blitE eth_frame 0 b off 14) (\<lambda>f.
         bindE (blitE f eth_payload b (off + 14) (unat payload_len)) (\<lambda>f.
         Inr (put8 f eth_payload_len (ucast payload_len)))))"

definition build_eth :: "buf \<Rightarrow> mac \<Rightarrow> mac \<Rightarrow> u16 \<Rightarrow> buf" where
  "build_eth eth dst src type =
     (let eth = put_bytes eth 0 (take 6 dst);
          eth = put_bytes eth 6 (take 6 src)
      in put16 eth 12 (htons type))"

text \<open>
  The lines that \<open>print_eth_frame\<close> prints: both addresses, the type if it is one of three
  values, and the payload.
\<close>

datatype eth_line = Addr mac | TypeIPv4 | TypeARP | TypeIPv6 | Payload "u8 list"

definition print_eth_frame :: "buf \<Rightarrow> eth_line list" where
  "print_eth_frame f =
     [Addr (eth_dst f), Addr (eth_src f)] @
     (if ntohs (eth_type f) = 0x0800 then [TypeIPv4]
      else if ntohs (eth_type f) = 0x0806 then [TypeARP]
      else if ntohs (eth_type f) = 0x08DD then [TypeIPv6] else []) @
     [Payload (bytes_of f eth_payload (unat (f eth_payload_len)))]"

section \<open>Lemmas\<close>

lemma put_bytes_other: "k < i \<or> i + length xs \<le> k \<Longrightarrow> put_bytes b i xs k = b k"
  by (auto simp: put_bytes_apply)

lemma bytes_of_put_bytes_other [buf_simps]:
  "j + n \<le> i \<or> i + length xs \<le> j \<Longrightarrow> bytes_of (put_bytes b i xs) j n = bytes_of b j n"
  by (rule bytes_of_cong) (auto simp: put_bytes_apply)

lemma bytes_of_put_bytes_same [buf_simps]: "length xs = n \<Longrightarrow> bytes_of (put_bytes b i xs) i n = xs"
  by auto

lemma bytes_of_put16_other [buf_simps]:
  "j + n \<le> i \<or> i + 2 \<le> j \<Longrightarrow> bytes_of (put16 b i v) j n = bytes_of b j n"
  by (rule bytes_of_cong) (auto simp: put16_apply)

lemma bytes_of_put32_other [buf_simps]:
  "j + n \<le> i \<or> i + 4 \<le> j \<Longrightarrow> bytes_of (put32 b i v) j n = bytes_of b j n"
  by (rule bytes_of_cong) (auto simp: put32_apply)

lemma bytes_of_put8_other [buf_simps]:
  "j + n \<le> i \<or> i + 1 \<le> j \<Longrightarrow> bytes_of (put8 b i v) j n = bytes_of b j n"
  by (rule bytes_of_cong) (auto simp: put8_apply)

lemma get16_put_bytes_other [buf_simps]:
  "j + 2 \<le> i \<or> i + length xs \<le> j \<Longrightarrow> get16 (put_bytes b i xs) j = get16 b j"
  by (rule get16_cong) (auto simp: put_bytes_apply)

lemma get32_put_bytes_other [buf_simps]:
  "j + 4 \<le> i \<or> i + length xs \<le> j \<Longrightarrow> get32 (put_bytes b i xs) j = get32 b j"
  by (rule get32_cong) (auto simp: put_bytes_apply)

lemma build_eth_reads:
  assumes "length dst = 6" "length src = 6"
  shows "eth_dst (build_eth f dst src t) = dst" "eth_src (build_eth f dst src t) = src"
    "ntohs (eth_type (build_eth f dst src t)) = t"
    "14 \<le> k \<Longrightarrow> build_eth f dst src t k = f k"
  using assms
  by (auto simp: build_eth_def Let_def eth_dst_def eth_src_def eth_type_def buf_simps htons_eq_ntohs)

lemma unat_word_of_int_u16: "0 \<le> n \<Longrightarrow> n < 65536 \<Longrightarrow> unat (word_of_int n :: u16) = nat n"
  by (simp add: unat_eq_nat_uint uint_word_of_int)

lemma ucast_word_of_int: "ucast (word_of_int n :: u16) = (word_of_int n :: u8)"
  by (rule bit_word_eqI) (auto simp: bit_simps)

text \<open>For a frame that holds a header and at most a page, parsing copies it.\<close>

lemma parse_eth_packet_ok:
  assumes "14 \<le> len" "off + nat len \<le> 4096" "nat len \<le> 1514"
  obtains f' where "parse_eth_packet b off len f = Inr f'"
    "\<And>k. k < nat len \<Longrightarrow> f' k = b (off + k)"
    "f' eth_payload_len = word_of_int (len - 14)"
proof -
  have n: "unat (word_of_int (len - 14) :: u16) = nat len - 14"
    by (subst unat_word_of_int_u16) (use assms in auto)
  define f' where "f' = put8 (blit (blit f 0 b off 14) 14 b (off + 14) (nat len - 14)) 1514
    (ucast (word_of_int (len - 14) :: u16))"
  have "parse_eth_packet b off len f = Inr f'"
    using assms n by (auto simp: parse_eth_packet_def Let_def blitE_def f'_def nat_le_iff)
  moreover have "f' k = b (off + k)" if "k < nat len" for k
    using that assms by (auto simp: f'_def buf_simps)
  moreover have "f' 1514 = word_of_int (len - 14)"
    by (simp only: f'_def put8_apply refl if_True ucast_word_of_int)
  ultimately show thesis using that by blast
qed

text \<open>A runt frame makes the 16-bit length wrap, and the copy leaves the page.\<close>

lemma parse_eth_packet_runt:
  assumes "0 \<le> len" "len < 14" shows "parse_eth_packet b off len f = Inl OutOfBounds"
proof -
  have "uint (word_of_int (len - 14) :: u16) = (len - 14) mod 65536"
    by (simp only: uint_word_of_int) simp
  also have "\<dots> = len + 65522"
    using assms mod_pos_pos_trivial [of "len + 65522" 65536] mod_add_self2 [of "len - 14" 65536]
    by (simp add: algebra_simps)
  finally have "unat (word_of_int (len - 14) :: u16) = nat (len + 65522)"
    by (simp add: unat_eq_nat_uint)
  then show ?thesis using assms by (auto simp: parse_eth_packet_def blitE_def Let_def nat_le_iff)
qed

end
