(* ===== verification/Ip4.thy ===== *)
theory Ip4
  imports Eth
begin

text \<open>
  IPv4 headers, \<^verbatim>\<open>kernel/sys/ip4.c\<close>. A \<open>struct ip4_frame\<close> has the header at
  offset 0 (ver_ihl 0, tos 1, total_len 2, identification 4, fragment_info 6, ttl 8,
  protocol 9, csum 10, src_ip 12, dst_ip 16), the payload at 20 and the 16-bit
  \<open>payload_len\<close> at 1520. \<open>handle_ip4_packet\<close> is in the theory of the receive path.
\<close>

section \<open>Operations\<close>

abbreviation (input) ip4_payload :: nat where "ip4_payload \<equiv> 20"
abbreviation (input) ip4_payload_len :: nat where "ip4_payload_len \<equiv> 1520"

text \<open>The ten assignments that \<open>parse_ip4_packet\<close> makes, and makes again.\<close>

definition store_ip4_hdr :: "buf \<Rightarrow> nat \<Rightarrow> buf \<Rightarrow> buf" where
  "store_ip4_hdr b off pkt =
     (let pkt = put8 pkt 0 (b off);
          pkt = put8 pkt 1 (b (off + 1));
          pkt = put16 pkt 2 (ntohs (get16 b (off + 2)));
          pkt = put16 pkt 4 (ntohs (get16 b (off + 4)));
          pkt = put16 pkt 6 (ntohs (get16 b (off + 6)));
          pkt = put8 pkt 8 (b (off + 8));
          pkt = put8 pkt 9 (b (off + 9));
          pkt = put16 pkt 10 (ntohs (get16 b (off + 10)));
          pkt = put32 pkt 12 (ntohl (get32 b (off + 12)));
          pkt = put32 pkt 16 (ntohl (get32 b (off + 16)))
      in pkt)"

text \<open>The buffer is the part of page \<open>b\<close> from \<open>off\<close>; the result is the return value and \<open>*pkt\<close>.\<close>

definition parse_ip4_packet :: "buf \<Rightarrow> nat \<Rightarrow> int \<Rightarrow> buf \<Rightarrow> (int \<times> buf) result" where
  "parse_ip4_packet b off len pkt =
     (let pkt = store_ip4_hdr b off pkt;
          pkt = store_ip4_hdr b off pkt;
          hdr_len = uint (pkt 0 AND 0x0F) * 4
      in if hdr_len < 20 \<or> hdr_len > len then Inr (- 1, pkt)
         else if uint (get16 pkt 2) > len then Inr (- 1, pkt)
         else
           let payload_len = word_of_int (len - hdr_len) :: u16;
               pkt = put16 pkt ip4_payload_len payload_len
           in bindE (blitE pkt ip4_payload b (off + nat hdr_len) (unat payload_len))
                (\<lambda>pkt. Inr (0, pkt)))"

definition build_ip4 :: "buf \<Rightarrow> nat \<Rightarrow> u32 \<Rightarrow> u32 \<Rightarrow> u8 \<Rightarrow> u16 \<Rightarrow> buf" where
  "build_ip4 b ip src dst proto len =
     (let b = put8 b ip (push_bit 4 4 OR 5);
          b = put8 b (ip + 1) 0;
          b = put16 b (ip + 2) (htons len);
          b = put16 b (ip + 4) (htons 0);
          b = put16 b (ip + 6) (htons 0);
          b = put8 b (ip + 8) 64;
          b = put8 b (ip + 9) proto;
          b = put32 b (ip + 12) (htonl src);
          b = put32 b (ip + 16) (htonl dst);
          b = put16 b (ip + 10) 0
      in put16 b (ip + 10) (chksum b ip 20))"

text \<open>The fields that \<open>print_ip4_packet\<close> prints.\<close>

datatype ip4_proto_line = ProtoTCP | ProtoUDP | ProtoUnsupported

definition print_ip4_packet :: "buf \<Rightarrow> u8 \<times> u32 list \<times> u32 list \<times> ip4_proto_line \<times> u16" where
  "print_ip4_packet ip =
     (drop_bit 4 (ip 0),
      map (\<lambda>n. drop_bit n (get32 ip 12) AND 0xFF) [24, 16, 8, 0],
      map (\<lambda>n. drop_bit n (get32 ip 16) AND 0xFF) [24, 16, 8, 0],
      if ip 9 = IPPROTO_TCP then ProtoTCP
      else if ip 9 = IPPROTO_UDP then ProtoUDP else ProtoUnsupported,
      get16 ip ip4_payload_len)"

section \<open>Lemmas\<close>

text \<open>Everything of the header but the checksum, as \<open>build_ip4\<close> writes it.\<close>

definition ip4_unsummed :: "buf \<Rightarrow> nat \<Rightarrow> u32 \<Rightarrow> u32 \<Rightarrow> u8 \<Rightarrow> u16 \<Rightarrow> buf" where
  "ip4_unsummed b ip src dst proto len =
     put16 (put32 (put32 (put8 (put8 (put16 (put16 (put16 (put8 (put8 b ip 69) (ip + 1) 0)
       (ip + 2) (htons len)) (ip + 4) (htons 0)) (ip + 6) (htons 0)) (ip + 8) 64) (ip + 9) proto)
       (ip + 12) (htonl src)) (ip + 16) (htonl dst)) (ip + 10) 0"

lemma build_ip4_unsummed:
  "build_ip4 b ip src dst proto len =
     (let c = ip4_unsummed b ip src dst proto len in put16 c (ip + 10) (chksum c ip 20))"
  by (simp add: build_ip4_def ip4_unsummed_def Let_def)

lemma word_sum_cong:
  "(\<And>k. k < n \<Longrightarrow> b (p + k) = c (q + k)) \<Longrightarrow> word_sum b p n = word_sum c q n"
proof (induction n arbitrary: p q rule: induct_nat_012)
  case (ge2 n)
  have "get16 b p = get16 c q"
    using ge2.prems [of 0] ge2.prems [of 1] by (intro get16_cong) auto
  moreover have "word_sum b (p + 2) n = word_sum c (q + 2) n"
    using ge2.prems by (intro ge2.IH(1)) (metis add.assoc add_2_eq_Suc nat_add_left_cancel_less plus_1_eq_Suc)
  ultimately show ?case by simp
qed (use less_Suc0 in \<open>auto\<close>)

text \<open>Changing one word of an even position changes the sum by that word.\<close>

lemma word_sum_put16:
  assumes "get16 b (p + 2 * i) = 0" "2 * i + 2 \<le> n"
  shows "word_sum (put16 b (p + 2 * i) v) p n = word_sum b p n + unat v"
  using assms
proof (induction i arbitrary: p n)
  case 0
  then obtain m where n: "n = Suc (Suc m)" by (metis add_2_eq_Suc le_iff_add mult_zero_right add_0)
  have "word_sum (put16 b p v) (p + 2) m = word_sum b (p + 2) m"
    by (rule word_sum_cong) (auto simp: put16_apply)
  then show ?case using 0 by (simp add: n)
next
  case (Suc i)
  then obtain m where n: "n = Suc (Suc m)" by (metis add_2_eq_Suc' le_iff_add add_Suc)
  have "word_sum (put16 b (p + 2 + 2 * i) v) (p + 2) m = word_sum b (p + 2) m + unat v"
    using Suc.prems by (intro Suc.IH) (auto simp: n)
  moreover have "get16 (put16 b (p + 2 + 2 * i) v) p = get16 b p" by (simp add: buf_simps)
  ultimately show ?case by (simp add: n)
qed

lemma store_ip4_hdr_reads:
  "store_ip4_hdr b off pkt 0 = b off"
  "store_ip4_hdr b off pkt 9 = b (off + 9)"
  "get16 (store_ip4_hdr b off pkt) 2 = ntohs (get16 b (off + 2))"
  "get32 (store_ip4_hdr b off pkt) 12 = ntohl (get32 b (off + 12))"
  "get32 (store_ip4_hdr b off pkt) 16 = ntohl (get32 b (off + 16))"
  "20 \<le> k \<Longrightarrow> store_ip4_hdr b off pkt k = pkt k"
  by (auto simp: store_ip4_hdr_def Let_def buf_simps)

lemma build_ip4_reads:
  "build_ip4 b ip src dst proto len ip = 69"
  "build_ip4 b ip src dst proto len (ip + 9) = proto"
  "get16 (build_ip4 b ip src dst proto len) (ip + 2) = htons len"
  "get32 (build_ip4 b ip src dst proto len) (ip + 12) = htonl src"
  "get32 (build_ip4 b ip src dst proto len) (ip + 16) = htonl dst"
  "k < ip \<or> ip + 20 \<le> k \<Longrightarrow> build_ip4 b ip src dst proto len k = b k"
  by (auto simp: build_ip4_unsummed ip4_unsummed_def Let_def buf_simps)

lemma unat_of_int_small: "0 \<le> n \<Longrightarrow> n < 65536 \<Longrightarrow> unat (word_of_int n :: u16) = nat n"
  by (rule unat_word_of_int_u16)

lemma parse_ip4_ok:
  assumes hl: "b off = 69" and tl: "uint (ntohs (get16 b (off + 2))) \<le> L"
    and L: "20 \<le> L" "L \<le> 1520" "off + nat L \<le> 4096"
  obtains pkt' where "parse_ip4_packet b off L pkt = Inr (0, pkt')"
    "pkt' 9 = b (off + 9)" "get32 pkt' 12 = ntohl (get32 b (off + 12))"
    "get32 pkt' 16 = ntohl (get32 b (off + 16))" "get16 pkt' 2 = ntohs (get16 b (off + 2))"
    "get16 pkt' ip4_payload_len = word_of_int (L - 20)"
    "\<forall>k < nat L - 20. pkt' (ip4_payload + k) = b (off + 20 + k)"
proof -
  define h where "h = store_ip4_hdr b off (store_ip4_hdr b off pkt)"
  define n where "n = (word_of_int (L - 20) :: u16)"
  have n: "unat n = nat L - 20"
    unfolding n_def by (subst unat_of_int_small) (use L in auto)
  define pkt' where "pkt' = blit (put16 h 1520 n) 20 b (off + 20) (nat L - 20)"
  have h0: "uint (h 0 AND 0x0F) * 4 = 20" by (simp add: h_def store_ip4_hdr_reads hl)
  have h2: "get16 h 2 = ntohs (get16 b (off + 2))" by (simp add: h_def store_ip4_hdr_reads)
  have fit: "blitE (put16 h 1520 n) 20 b (off + 20) (unat n) = Inr pkt'"
    using L n by (simp add: blitE_def pkt'_def)
  have "parse_ip4_packet b off L pkt = Inr (0, pkt')"
    using L tl h0 h2 fit [unfolded n_def]
    by (simp add: parse_ip4_packet_def Let_def h_def [symmetric])
  moreover have "pkt' 9 = b (off + 9)" "get32 pkt' 12 = ntohl (get32 b (off + 12))"
    "get32 pkt' 16 = ntohl (get32 b (off + 16))" "get16 pkt' 2 = ntohs (get16 b (off + 2))"
    "get16 pkt' 1520 = n"
    using L by (simp_all add: pkt'_def h_def buf_simps store_ip4_hdr_reads nat_le_iff)
  moreover have "pkt' (20 + k) = b (off + 20 + k)" if "k < nat L - 20" for k
  proof -
    have "20 + k < nat L" using that by linarith
    then show ?thesis by (simp add: pkt'_def blit_apply)
  qed
  ultimately show thesis using that by (simp add: n_def)
qed

lemma ip4_sums_to_zero: "chksum (build_ip4 b ip src dst proto len) ip 20 = 0"
proof -
  define c where "c = ip4_unsummed b ip src dst proto len"
  have "get16 c (ip + 2 * 5) = 0" by (simp add: c_def ip4_unsummed_def)
  then have "word_sum (put16 c (ip + 2 * 5) (chksum c ip 20)) ip 20 = word_sum c ip 20 + unat (chksum c ip 20)"
    by (rule word_sum_put16) simp
  then show ?thesis
    using ones_sum_complement [of "word_sum c ip 20"]
    by (simp add: word_unat_eq_iff chksum_ones build_ip4_unsummed c_def Let_def)
qed

text \<open>
  C28: an IPv4 header that \<open>build_ip4\<close> writes verifies: the checksum over it is zero,
  whatever the addresses, protocol and length.
\<close>

theorem build_ip4_checksum_verifies: "chksum (build_ip4 b ip src dst proto len) ip 20 = 0"
  by (rule ip4_sums_to_zero)

text \<open>
  C27: the receiver's parser recovers what the sender's builder wrote: addresses, protocol
  and length in host order, and the payload byte by byte, for a datagram that fits a
  frame, with or without trailing padding.
\<close>

theorem parse_build_ip4:
  assumes "20 \<le> unat len" "int (unat len) \<le> L" "L \<le> 1520" "off + nat L \<le> 4096"
  shows "\<exists>pkt'. parse_ip4_packet (build_ip4 b off src dst proto len) off L pkt = Inr (0, pkt') \<and>
           get32 pkt' 12 = src \<and> get32 pkt' 16 = dst \<and> pkt' 9 = proto \<and> get16 pkt' 2 = len \<and>
           get16 pkt' ip4_payload_len = word_of_int (L - 20) \<and>
           bytes_of pkt' ip4_payload (nat L - 20) = bytes_of b (off + 20) (nat L - 20)"
proof -
  define f where "f = build_ip4 b off src dst proto len"
  note F = build_ip4_reads [where b = b and ip = off and src = src and dst = dst and
      proto = proto and len = len, folded f_def]
  have tl: "uint (ntohs (get16 f (off + 2))) \<le> L" using assms F(3) by (simp add: htons_eq_ntohs)
  have L: "20 \<le> L" using assms(1,2) by linarith
  obtain pkt' where p: "parse_ip4_packet f off L pkt = Inr (0, pkt')"
    "pkt' 9 = f (off + 9)" "get32 pkt' 12 = ntohl (get32 f (off + 12))"
    "get32 pkt' 16 = ntohl (get32 f (off + 16))" "get16 pkt' 2 = ntohs (get16 f (off + 2))"
    "get16 pkt' ip4_payload_len = word_of_int (L - 20)"
    "\<forall>k < nat L - 20. pkt' (ip4_payload + k) = f (off + 20 + k)"
    by (rule parse_ip4_ok [where pkt = pkt, OF F(1) tl L assms(3,4)])
  have "bytes_of pkt' ip4_payload (nat L - 20) = bytes_of b (off + 20) (nat L - 20)"
    by (rule bytes_of_cong) (simp add: p(7) F(6))
  then show ?thesis
    using p(1-6) F by (simp add: f_def [symmetric] htonl_eq_ntohl htons_eq_ntohs)
qed

theorem parse_build_ip4_witness:
  "\<exists>pkt'. parse_ip4_packet (build_ip4 (\<lambda>_. 7) 14 0x0a000a0a 0x0a000a0b 17 24) 14 46 (\<lambda>_. 0) = Inr (0, pkt') \<and>
     get32 pkt' 12 = 0x0a000a0a \<and> get32 pkt' 16 = 0x0a000a0b \<and> pkt' 9 = 17"
  using parse_build_ip4 [of 24 46 14 "\<lambda>_. 7" "0x0a000a0a" "0x0a000a0b" 17 "\<lambda>_. 0"] by auto

text \<open>A frame that is larger than the 8-bit payload length can say is always refused.\<close>

lemma parse_ip4_long_dropped:
  assumes "len \<le> 255" "255 < uint (ntohs (get16 b (off + 2)))"
  shows "\<exists>pkt'. parse_ip4_packet b off len pkt = Inr (- 1, pkt')"
  using assms by (simp add: parse_ip4_packet_def Let_def store_ip4_hdr_reads)

end
