(* ===== verification/Tcp.thy ===== *)
theory Tcp
  imports Socket VirtioNet Ip4
begin

text \<open>
  The TCP half of the stack, \<^verbatim>\<open>kernel/sys/tcp.c\<close>: binding and listening, the segment
  builder and parser, the transmission of a handshake segment and the handler of received
  segments. A \<open>struct tcp_frame\<close> is packed: the 20-byte header, the payload at 20,
  \<open>payload_len\<close> at 1520 and \<open>next\<close> at 1524. A socket address argument is the 16 bytes of a
  \<open>struct sockaddr_in\<close>: family at 0, port at 2 (network order), address at 4.
\<close>

section \<open>Operations\<close>

definition ACK :: u8 where "ACK = 0x40"
definition SYN :: u8 where "SYN = 0x08"
definition DEFAULT_SEQ_NUM :: u32 where "DEFAULT_SEQ_NUM = 1337"
definition DEFAULT_WINDOW :: u16 where "DEFAULT_WINDOW = 1024"

abbreviation (input) tcp_payload :: nat where "tcp_payload \<equiv> 20"
abbreviation (input) tcp_payload_len :: nat where "tcp_payload_len \<equiv> 1520"

abbreviation (input) sin_family :: "buf \<Rightarrow> u16" where "sin_family a \<equiv> get16 a 0"
abbreviation (input) sin_port :: "buf \<Rightarrow> u16" where "sin_port a \<equiv> get16 a 2"
abbreviation (input) sin_addr :: "buf \<Rightarrow> u32" where "sin_addr a \<equiv> get32 a 4"

text \<open>
  The part that \<open>tcp_bind\<close> and \<open>udp_bind\<close> have in common once the arguments are checked:
  allocate and fill a binding and enter it, or give up.
\<close>

definition fill_binding :: "netst \<Rightarrow> addr \<Rightarrow> addr \<Rightarrow> u16 \<Rightarrow> u32 \<Rightarrow> netst" where
  "fill_binding s binding sock port a =
     (let s = set_page s binding (put16 (page s binding) pb_port port);
          ip = (if a = INADDR_ANY then ip_addr (netconf s) else a);
          s = set_page s sock (put32 (page s sock) sk_src_ip ip);
          s = set_page s binding (put16 (page s binding) pb_ip_addr (ucast ip))
      in set_page s binding (put64 (page s binding) pb_sock sock))"

definition new_binding :: "netst \<Rightarrow> addr \<Rightarrow> u16 \<Rightarrow> u32 \<Rightarrow> (bool \<times> netst) result" where
  "new_binding s sock port a =
     (let (binding, s) = n_kalloc s
      in if binding = 0 then Inr (False, s)
         else
           let s = fill_binding s binding sock port a
           in bindE (insert_port_binding s binding) (\<lambda>(r, s).
              if r = - 1 then bindE (n_kfree s binding) (\<lambda>s. Inr (False, s)) else Inr (True, s)))"

definition tcp_bind :: "netst \<Rightarrow> addr \<Rightarrow> buf option \<Rightarrow> u32 \<Rightarrow> (int \<times> netst) result" where
  "tcp_bind s sock addr addrlen =
     (case addr of
        None \<Rightarrow> Inr (- 1, s)
      | Some a \<Rightarrow>
          let port = ntohs (sin_port a)
          in if unat (sin_port a) > MAX_PORT_BINDINGS then Inr (- 1, s)
             else bindE (bind_at (tcp_port_binds s) (unat port)) (\<lambda>b.
               if b \<noteq> 0 then Inr (- 1, s)
               else deref sock (\<lambda>_.
                 let s = set_page s sock (put32 (page s sock) sk_family (ucast (sin_family a)))
                 in if (ucast (sin_family a) :: u32) \<noteq> AF_INET then Inr (- 1, s)
                    else if addrlen \<noteq> 16 then Inr (- 1, s)
                    else bindE (new_binding s sock port (sin_addr a)) (\<lambda>(bound, s).
                      if \<not> bound then Inr (- 1, s)
                      else
                        let k = page s sock;
                            k = put32 k sk_src_port (ucast port);
                            k = put32 k sk_family (ucast (sin_family a));
                            k = put32 k sk_state BOUND
                        in Inr (0, set_page s sock k)))))"

definition tcp_connect :: "netst \<Rightarrow> addr \<Rightarrow> buf option \<Rightarrow> u32 \<Rightarrow> (int \<times> netst) result" where
  "tcp_connect s sock addr addrlen = Inr (0, s)"

definition tcp_listen :: "netst \<Rightarrow> addr \<Rightarrow> int \<Rightarrow> (int \<times> netst) result" where
  "tcp_listen s sock backlog =
     deref sock (\<lambda>_.
       if get32 (page s sock) sk_type \<noteq> SOCK_STREAM then Inr (- 1, s)
       else if get32 (page s sock) sk_state \<noteq> BOUND then Inr (- 1, s)
       else Inr (0, set_page s sock (put32 (page s sock) sk_state LISTENING)))"

definition tcp_accept :: "netst \<Rightarrow> addr \<Rightarrow> buf option \<Rightarrow> u32 \<Rightarrow> (int \<times> netst) result" where
  "tcp_accept s sock addr addrlen = Inr (0, s)"

definition tcp_close :: "netst \<Rightarrow> addr \<Rightarrow> (int \<times> netst) result" where
  "tcp_close s sock = Inr (0, s)"

text \<open>The payload is the part of \<open>pb\<close> from \<open>po\<close>; a negative length is a huge unsigned one.\<close>

definition build_tcp ::
  "buf \<Rightarrow> u16 \<Rightarrow> u16 \<Rightarrow> u32 \<Rightarrow> u32 \<Rightarrow> u8 \<Rightarrow> u16 \<Rightarrow> buf \<Rightarrow> nat \<Rightarrow> int \<Rightarrow> buf result" where
  "build_tcp tcp src_port dst_port seq_num ack_num flags window pb po payload_len =
     (let t = put16 tcp 0 (htons src_port);
          t = put16 t 2 (htons dst_port);
          t = put32 t 4 (htonl seq_num);
          t = put32 t 8 (htonl ack_num);
          t = put8 t 12 (push_bit 4 5);
          t = put8 t 13 flags;
          t = put16 t 14 (htons window);
          t = put16 t 16 0;
          t = put16 t 18 0
      in bindE (blitE t tcp_payload pb po (unat (word_of_int payload_len :: u32))) (\<lambda>t.
         Inr (put32 t tcp_payload_len (word_of_int payload_len))))"

definition store_tcp_hdr :: "buf \<Rightarrow> nat \<Rightarrow> buf \<Rightarrow> buf" where
  "store_tcp_hdr b off tcp_pkt =
     (let t = put16 tcp_pkt 0 (ntohs (get16 b off));
          t = put16 t 2 (ntohs (get16 b (off + 2)));
          t = put32 t 4 (ntohl (get32 b (off + 4)));
          t = put32 t 8 (ntohl (get32 b (off + 8)));
          t = put8 t 12 (drop_bit 4 (b (off + 12)) AND 0xF);
          t = put8 t 13 (b (off + 13));
          t = put16 t 14 (ntohs (get16 b (off + 14)));
          t = put16 t 16 (ntohs (get16 b (off + 16)));
          t = put16 t 18 (ntohs (get16 b (off + 18)))
      in t)"

definition parse_tcp_packet :: "buf \<Rightarrow> nat \<Rightarrow> int \<Rightarrow> buf \<Rightarrow> (int \<times> buf) result" where
  "parse_tcp_packet b off len tcp_pkt =
     (if len < 20 then Inr (- 1, tcp_pkt)
      else
        let t = store_tcp_hdr b off tcp_pkt;
            hdr_len = uint (t 12) * 4
        in if hdr_len < 20 \<or> hdr_len > len then Inr (- 1, t)
           else
             let t = put32 t tcp_payload_len (word_of_int (len - hdr_len))
             in bindE (blitE t tcp_payload b (off + nat hdr_len) (nat (len - hdr_len)))
                  (\<lambda>t. Inr (0, t)))"

text \<open>\<open>syn\<close> copies the segment into the datagram and the datagram's header into the frame.\<close>

definition syn :: "(netst \<Rightarrow> buf option) \<Rightarrow> netst \<Rightarrow> u16 \<Rightarrow> u32 \<Rightarrow> u16 \<Rightarrow> u32 \<Rightarrow> (int \<times> netst) result" where
  "syn nic s src_port dst_ip dst_port seq_num =
     (let (syn_tcp, s) = n_kalloc s
      in if syn_tcp = 0 then Inr (- 1, s)
      else let (ip, s) = n_kalloc s
      in if ip = 0 then Inr (- 1, s)
      else let (eth, s) = n_kalloc s
      in if eth = 0 then Inr (- 1, s)
      else
        bindE (build_tcp (page s syn_tcp) src_port dst_port DEFAULT_SEQ_NUM (seq_num + 1)
                 (SYN AND ACK) DEFAULT_WINDOW (\<lambda>_. 0) 0 0) (\<lambda>t.
        let s = set_page s syn_tcp t;
            s = set_page s ip (build_ip4 (page s ip) 0 (ip_addr (netconf s)) dst_ip IPPROTO_TCP 20);
            s = set_page s eth (build_eth (page s eth) [0x63, 0xb0, 0xce, 0xf6, 0xeb, 0x50]
                                  (mac_addr (netconf s)) PROTO_IPV4);
            s = set_page s ip (put16 (page s ip) ip4_payload_len 20);
            s = set_page s ip (blit (page s ip) ip4_payload (page s syn_tcp) 0
                                 (unat (get16 (page s ip) ip4_payload_len)));
            s = set_page s eth (put8 (page s eth) eth_payload_len 20);
            s = set_page s eth (blit (page s eth) eth_payload (page s ip) 0
                                  (unat (page s eth eth_payload_len)))
        in bindE (transmit_packet nic s eth (ucast (page s eth eth_payload_len) + 14))
             (\<lambda>s. Inr (0, s))))"

definition handle_tcp_packet :: "netst \<Rightarrow> addr \<Rightarrow> (int \<times> netst) result" where
  "handle_tcp_packet s tcp_pkt =
     (let dst_port = get16 (page s tcp_pkt) 2;
          flags = page s tcp_pkt 13
      in bindE (bind_at (tcp_port_binds s) (unat dst_port)) (\<lambda>port_bind.
         if port_bind = 0 then Inr (- 1, s)
         else
           let sock = get64 (page s port_bind) pb_sock
           in deref sock (\<lambda>_.
              if flags AND SYN \<noteq> 0 \<and> flags AND ACK \<noteq> 0 then Inr (0, s)
              else if flags AND SYN \<noteq> 0 then
                (if get32 (page s sock) sk_type \<noteq> PROTO_TCP then Inr (- 1, s)
                 else if get32 (page s sock) sk_state \<noteq> LISTENING then Inr (- 1, s)
                 else Inr (0, set_page s sock (put32 (page s sock) sk_state SYN_RECVD)))
              else Inr (0, s))))"

section \<open>Segments\<close>

text \<open>The header that \<open>build_tcp\<close> writes, without payload.\<close>

lemma build_tcp_ok:
  assumes "0 \<le> n" "n \<le> 1500" "po + nat n \<le> 4096"
  obtains t where "build_tcp tcp sp dp sq ak fl w pb po n = Inr t"
    "get16 t 0 = htons sp" "get16 t 2 = htons dp" "get32 t 4 = htonl sq" "get32 t 8 = htonl ak"
    "t 12 = 80" "t 13 = fl" "get16 t 14 = htons w"
    "\<forall>k < nat n. t (tcp_payload + k) = pb (po + k)"
proof -
  have n: "unat (word_of_int n :: u32) = nat n"
    using assms by (simp add: unat_eq_nat_uint uint_word_of_int)
  define h where "h = put16 (put16 (put16 (put8 (put8 (put32 (put32 (put16 (put16 tcp 0 (htons sp)) 2 (htons dp))
    4 (htonl sq)) 8 (htonl ak)) 12 80) 13 fl) 14 (htons w)) 16 0) 18 0"
  define t where "t = put32 (blit h tcp_payload pb po (nat n)) tcp_payload_len (word_of_int n)"
  have "build_tcp tcp sp dp sq ak fl w pb po n = Inr t"
    using assms by (auto simp: build_tcp_def Let_def n blitE_def h_def t_def nat_le_iff)
  moreover have "get16 t 0 = htons sp" "get16 t 2 = htons dp" "get32 t 4 = htonl sq"
    "get32 t 8 = htonl ak" "t 12 = 80" "t 13 = fl" "get16 t 14 = htons w"
    by (simp_all add: t_def h_def buf_simps)
  moreover have "\<forall>k < nat n. t (tcp_payload + k) = pb (po + k)"
    using assms by (auto simp: t_def buf_simps)
  ultimately show thesis by (rule that)
qed

lemma parse_tcp_ok:
  assumes "b (off + 12) = 80" "20 \<le> L" "L \<le> 1520" "off + nat L \<le> 4096"
  obtains t where "parse_tcp_packet b off L tcp_pkt = Inr (0, t)"
    "get16 t 0 = ntohs (get16 b off)" "get16 t 2 = ntohs (get16 b (off + 2))"
    "get32 t 4 = ntohl (get32 b (off + 4))" "get32 t 8 = ntohl (get32 b (off + 8))"
    "t 13 = b (off + 13)" "get16 t 14 = ntohs (get16 b (off + 14))"
    "get32 t tcp_payload_len = word_of_int (L - 20)"
    "\<forall>k < nat L - 20. t (tcp_payload + k) = b (off + 20 + k)"
proof -
  define h where "h = store_tcp_hdr b off tcp_pkt"
  define t where "t = blit (put32 h tcp_payload_len (word_of_int (L - 20))) tcp_payload b (off + 20) (nat L - 20)"
  have d: "uint (h 12) * 4 = 20" using assms(1) by (simp add: h_def store_tcp_hdr_def buf_simps)
  have fit: "blitE (put32 h tcp_payload_len (word_of_int (L - 20))) tcp_payload b (off + 20) (nat (L - 20)) = Inr t"
    using assms by (simp add: blitE_def t_def nat_diff_distrib)
  have "parse_tcp_packet b off L tcp_pkt = Inr (0, t)"
    using assms(2) d fit by (simp add: parse_tcp_packet_def Let_def h_def [symmetric])
  moreover have "get16 t 0 = ntohs (get16 b off)" "get16 t 2 = ntohs (get16 b (off + 2))"
    "get32 t 4 = ntohl (get32 b (off + 4))" "get32 t 8 = ntohl (get32 b (off + 8))"
    "t 13 = b (off + 13)" "get16 t 14 = ntohs (get16 b (off + 14))"
    "get32 t tcp_payload_len = word_of_int (L - 20)"
    using assms(3) by (simp_all add: t_def h_def store_tcp_hdr_def buf_simps nat_le_iff)
  moreover have "t (tcp_payload + k) = b (off + 20 + k)" if "k < nat L - 20" for k
  proof -
    have "20 + k < nat L" using that by linarith
    then show ?thesis by (simp add: t_def blit_apply)
  qed
  ultimately show thesis using that by blast
qed

text \<open>
  C30: \<open>parse_tcp_packet\<close> inverts \<open>build_tcp\<close>: ports, sequence and acknowledgement numbers,
  flags, window and payload of a segment with up to 1500 bytes of data come back unchanged.
\<close>

theorem parse_build_tcp:
  assumes "0 \<le> n" "n \<le> 1500" "po + nat n \<le> 4096"
  shows "\<exists>t t'. build_tcp tcp sp dp sq ak fl w pb po n = Inr t \<and>
           parse_tcp_packet t 0 (n + 20) pkt = Inr (0, t') \<and>
           get16 t' 0 = sp \<and> get16 t' 2 = dp \<and> get32 t' 4 = sq \<and> get32 t' 8 = ak \<and>
           t' 13 = fl \<and> get16 t' 14 = w \<and> get32 t' tcp_payload_len = word_of_int n \<and>
           bytes_of t' tcp_payload (nat n) = bytes_of pb po (nat n)"
proof -
  obtain t where t: "build_tcp tcp sp dp sq ak fl w pb po n = Inr t"
    "get16 t 0 = htons sp" "get16 t 2 = htons dp" "get32 t 4 = htonl sq" "get32 t 8 = htonl ak"
    "t 12 = 80" "t 13 = fl" "get16 t 14 = htons w" "\<forall>k < nat n. t (tcp_payload + k) = pb (po + k)"
    by (rule build_tcp_ok [OF assms])
  have L: "t (0 + 12) = 80" "20 \<le> n + 20" "n + 20 \<le> 1520" "0 + nat (n + 20) \<le> 4096"
    using assms t(6) by (auto simp: nat_le_iff)
  obtain t' where t': "parse_tcp_packet t 0 (n + 20) pkt = Inr (0, t')"
    "get16 t' 0 = ntohs (get16 t 0)" "get16 t' 2 = ntohs (get16 t (0 + 2))"
    "get32 t' 4 = ntohl (get32 t (0 + 4))" "get32 t' 8 = ntohl (get32 t (0 + 8))"
    "t' 13 = t (0 + 13)" "get16 t' 14 = ntohs (get16 t (0 + 14))"
    "get32 t' tcp_payload_len = word_of_int (n + 20 - 20)"
    "\<forall>k < nat (n + 20) - 20. t' (tcp_payload + k) = t (0 + 20 + k)"
    by (rule parse_tcp_ok [where tcp_pkt = pkt and b = t and off = 0 and L = "n + 20", OF L])
  have "bytes_of t' tcp_payload (nat n) = bytes_of pb po (nat n)"
    using t(9) t'(9) assms by (intro bytes_of_cong) (simp add: nat_add_distrib)
  then show ?thesis
    using t t' by (simp add: htons_eq_ntohs htonl_eq_ntohl flip: numeral_2_eq_2)
qed

theorem parse_build_tcp_witness:
  "\<exists>t t'. build_tcp (\<lambda>_. 5) 80 1234 1337 7 0x48 1024 (\<lambda>k. of_nat k) 3 2 = Inr t \<and>
     parse_tcp_packet t 0 22 (\<lambda>_. 0) = Inr (0, t') \<and> get16 t' 0 = 80 \<and> get16 t' 2 = 1234 \<and>
     get32 t' 4 = 1337"
  using parse_build_tcp [of 2 3 "\<lambda>_. 5" 80 1234 1337 7 "0x48" 1024 "\<lambda>k. of_nat k" "\<lambda>_. 0"] by auto

section \<open>The socket state machine\<close>

text \<open>What can happen to a TCP socket: calls of its own operations and received segments.\<close>

inductive tcp_step :: "addr \<Rightarrow> netst \<Rightarrow> netst \<Rightarrow> bool" for sock where
  step_bind: "tcp_bind s sock a n = Inr (r, s') \<Longrightarrow> tcp_step sock s s'"
| step_listen: "tcp_listen s sock backlog = Inr (r, s') \<Longrightarrow> tcp_step sock s s'"
| step_segment: "handle_tcp_packet s pkt = Inr (r, s') \<Longrightarrow> tcp_step sock s s'"

text \<open>The port of the socket leads back to it through the table and a live binding.\<close>

definition tcp_registered :: "netst \<Rightarrow> addr \<Rightarrow> bool" where
  "tcp_registered s sock \<longleftrightarrow>
     (let port = unat (get32 (page s sock) sk_src_port); b = tcp_port_binds s ! port
      in port < length (tcp_port_binds s) \<and> b \<noteq> 0 \<and> b \<noteq> sock \<and> b \<notin> set (freelist (mem s)) \<and>
         get64 (page s b) pb_sock = sock)"

definition tcp_sock_ok :: "netst \<Rightarrow> addr \<Rightarrow> bool" where
  "tcp_sock_ok s sock \<longleftrightarrow>
     sock \<noteq> 0 \<and> sock \<notin> set (freelist (mem s)) \<and> pool_ok (mem s) \<and>
     get32 (page s sock) sk_type = SOCK_STREAM \<and> get32 (page s sock) sk_proto = PROTO_TCP \<and>
     (get32 (page s sock) sk_state = CLOSED \<or>
      get32 (page s sock) sk_state \<in> {BOUND, LISTENING} \<and> tcp_registered s sock)"

lemma tcp_sock_ok_listen:
  assumes "tcp_sock_ok s sock" "tcp_listen s sock n = Inr (r, s')"
  shows "tcp_sock_ok s' sock"
  using assms
  by (auto simp: tcp_listen_def deref_def tcp_sock_ok_def tcp_registered_def Let_def buf_simps
      pool_ok_def BOUND_def CLOSED_def split: if_splits)

text \<open>
  The test against \<open>IPPROTO_TCP\<close> instead of \<open>SOCK_STREAM\<close>: no segment changes a stream
  socket.
\<close>

lemma tcp_sock_ok_segment:
  assumes "tcp_sock_ok s sock" "handle_tcp_packet s pkt = Inr (r, s')"
  shows "tcp_sock_ok s' sock"
proof -
  have "s' = s \<or> (\<exists>k. get32 (page s k) sk_type = PROTO_TCP \<and>
      s' = set_page s k (put32 (page s k) sk_state SYN_RECVD))"
    using assms(2) by (auto simp: handle_tcp_packet_def deref_def Let_def bindE_eq_Inr split: if_splits)
  then show ?thesis
  proof
    assume "\<exists>k. get32 (page s k) sk_type = PROTO_TCP \<and>
      s' = set_page s k (put32 (page s k) sk_state SYN_RECVD)"
    moreover have "get32 (page s sock) sk_type \<noteq> PROTO_TCP"
      using assms(1) by (simp add: tcp_sock_ok_def SOCK_STREAM_def PROTO_TCP_def)
    ultimately obtain k where k: "k \<noteq> sock" "s' = set_page s k (put32 (page s k) sk_state SYN_RECVD)"
      by metis
    have "get64 (page s' b) pb_sock = get64 (page s b) pb_sock" for b
      using k by (cases "b = k") (simp_all add: buf_simps)
    then show ?thesis
      using assms(1) k by (simp add: tcp_sock_ok_def tcp_registered_def pool_ok_def Let_def)
  qed (use assms(1) in simp)
qed

lemma fill_binding_pages:
  assumes "binding \<noteq> sock"
  shows "get64 (page (fill_binding s binding sock port a) binding) pb_sock = sock"
    "get16 (page (fill_binding s binding sock port a) binding) pb_port = port"
    "page (fill_binding s binding sock port a) sock = put32 (page s sock) sk_src_ip
       (if a = INADDR_ANY then ip_addr (netconf s) else a)"
    "q \<notin> {binding, sock} \<Longrightarrow> page (fill_binding s binding sock port a) q = page s q"
    "tcp_port_binds (fill_binding s binding sock port a) = tcp_port_binds s"
    "udp_port_binds (fill_binding s binding sock port a) = udp_port_binds s"
    "freelist (mem (fill_binding s binding sock port a)) = freelist (mem s)"
    "pend (mem (fill_binding s binding sock port a)) = pend (mem s)"
    "netconf (fill_binding s binding sock port a) = netconf s"
    "refs (mem (fill_binding s binding sock port a)) = refs (mem s)"
  using assms by (simp_all add: fill_binding_def Let_def buf_simps)

text \<open>A successful bind, for the table of either protocol.\<close>

lemma insert_port_binding_tcp:
  assumes "get64 (page s b) pb_sock = sock" "sock \<noteq> 0" "get32 (page s sock) sk_proto = PROTO_TCP"
    "unat (get16 (page s b) pb_port) < length (tcp_port_binds s)"
  shows "insert_port_binding s b =
    Inr (0, s\<lparr>tcp_port_binds := (tcp_port_binds s)[unat (get16 (page s b) pb_port) := b]\<rparr>)"
  using assms by (simp add: insert_port_binding_def deref_def)

lemma new_binding_tcp:
  assumes "new_binding s sock port a = Inr (ok, s')" "sock \<noteq> 0" "sock \<notin> set (freelist (mem s))"
    "get32 (page s sock) sk_proto = PROTO_TCP" "unat port < length (tcp_port_binds s)" "pool_ok (mem s)"
  obtains (fail) "\<not> ok" "freelist (mem s) = []" "s' = snd (n_kalloc s)"
  | (bound) p ps s1 where "ok" "freelist (mem s) = p # ps" "n_kalloc s = (p, s1)" "p \<noteq> 0" "p \<noteq> sock"
      "freelist (mem s1) = ps" "keeps {p} s s1"
      "s' = (fill_binding s1 p sock port a)\<lparr>tcp_port_binds := (tcp_port_binds s)[unat port := p]\<rparr>"
proof (cases "freelist (mem s)")
  case Nil
  then show ?thesis using assms(1) fail by (simp add: new_binding_def n_kalloc_def pool_kalloc_def)
next
  case (Cons p ps)
  obtain s1 where s1: "n_kalloc s = (p, s1)" "freelist (mem s1) = ps" "keeps {p} s s1"
    using n_kalloc_some [OF Cons] by metis
  have p: "p \<noteq> 0" "p \<noteq> sock"
    using pool_alloc.avail_distinct [OF assms(6)] Cons assms(3) by auto
  define s2 where "s2 = fill_binding s1 p sock port a"
  note F = fill_binding_pages [OF p(2), where s = s1 and port = port and a = a, folded s2_def]
  have "get32 (page s2 sock) sk_proto = PROTO_TCP" "tcp_port_binds s2 = tcp_port_binds s"
    using F(3,5) keepsD [OF s1(3)] assms(4) p(2) by (auto simp: buf_simps)
  then have "insert_port_binding s2 p = Inr (0, s2\<lparr>tcp_port_binds := (tcp_port_binds s)[unat port := p]\<rparr>)"
    using insert_port_binding_tcp [OF F(1) assms(2)] assms(5) F(2) by simp
  then have "ok" "s' = s2\<lparr>tcp_port_binds := (tcp_port_binds s)[unat port := p]\<rparr>"
    using assms(1) s1(1) p(1) by (auto simp: new_binding_def s2_def)
  then show ?thesis using bound [OF _ Cons s1(1) p s1(2,3)] by (simp add: s2_def)
qed

lemma tcp_sock_ok_kalloc_fail:
  "tcp_sock_ok s sock \<Longrightarrow> freelist (mem s) = [] \<Longrightarrow> tcp_sock_ok (snd (n_kalloc s)) sock"
  by (simp add: tcp_sock_ok_def n_kalloc_def pool_kalloc_def tcp_registered_def page_def pool_ok_def Let_def)

lemma tcp_sock_ok_bound:
  assumes ok: "tcp_sock_ok s sock" and nb: "new_binding s sock port a = Inr (True, s1)"
    and port: "unat port < length (tcp_port_binds s)"
  shows "tcp_sock_ok (set_page s1 sock (put32 (put32 (put32 (page s1 sock) sk_src_port (ucast port))
           sk_family f) sk_state BOUND)) sock"
proof -
  have k: "sock \<noteq> 0" "sock \<notin> set (freelist (mem s))" "get32 (page s sock) sk_proto = PROTO_TCP"
    "pool_ok (mem s)" "get32 (page s sock) sk_type = SOCK_STREAM"
    using ok by (auto simp: tcp_sock_ok_def)
  have small: "unat (ucast port :: u32) = unat port"
    using unat_u16_le [of port] by (simp add: unat_ucast_mod)
  from new_binding_tcp [OF nb k(1-3) port k(4)] obtain p ps s2
    where p: "freelist (mem s) = p # ps" "p \<noteq> 0" "p \<noteq> sock" "freelist (mem s2) = ps" "keeps {p} s s2"
      "s1 = (fill_binding s2 p sock port a)\<lparr>tcp_port_binds := (tcp_port_binds s)[unat port := p]\<rparr>"
    by (metis snd_conv)
  show ?thesis
    using k p(1-4) port small keepsD [OF p(5)] fill_binding_pages [OF p(3), where s = s2 and port = port and a = a]
    by (auto simp: p(6) tcp_sock_ok_def tcp_registered_def buf_simps pool_ok_def Let_def)
qed

lemma tcp_sock_ok_bind:
  assumes ok: "tcp_sock_ok s sock" and b: "tcp_bind s sock addr n = Inr (r, s')"
  shows "tcp_sock_ok s' sock"
proof (cases addr)
  case None
  then show ?thesis using ok b by (simp add: tcp_bind_def)
next
  case (Some a)
  define port where "port = ntohs (get16 a 2)"
  define s1 where "s1 = set_page s sock (put32 (page s sock) sk_family (ucast (get16 a 0)))"
  have ok1: "tcp_sock_ok s1 sock"
    using ok by (auto simp: s1_def tcp_sock_ok_def tcp_registered_def buf_simps Let_def pool_ok_def)
  have nz: "sock \<noteq> 0" "sock \<notin> set (freelist (mem s1))" "get32 (page s1 sock) sk_proto = PROTO_TCP"
    "pool_ok (mem s1)" using ok1 by (auto simp: tcp_sock_ok_def)
  consider "s' = s" | "s' = s1"
    | s2 where "unat port < length (tcp_port_binds s1)"
        "new_binding s1 sock port (get32 a 4) = Inr (False, s2)" "s' = s2"
    | s2 where "unat port < length (tcp_port_binds s1)"
        "new_binding s1 sock port (get32 a 4) = Inr (True, s2)"
        "s' = set_page s2 sock (put32 (put32 (put32 (page s2 sock) sk_src_port (ucast port))
           sk_family (ucast (get16 a 0))) sk_state BOUND)"
    using b Some nz(1)
    by (auto simp: tcp_bind_def Let_def bindE_eq_Inr bind_at_def deref_def port_def [symmetric]
        s1_def [symmetric] s1_def [THEN arg_cong [where f = tcp_port_binds], simplified]
        split: if_splits prod.splits)
  then show ?thesis
  proof cases
    case 3
    then show ?thesis
      using new_binding_tcp [OF 3(2) nz(1-3) 3(1) nz(4)] tcp_sock_ok_kalloc_fail [OF ok1] by auto
  next
    case 4
    then show ?thesis using tcp_sock_ok_bound [OF ok1] by simp
  qed (use ok ok1 in auto)
qed

lemma tcp_sock_ok_step: "tcp_step sock s s' \<Longrightarrow> tcp_sock_ok s sock \<Longrightarrow> tcp_sock_ok s' sock"
proof (induction rule: tcp_step.induct)
  case (step_bind s a n r s')
  then show ?case by (rule_tac tcp_sock_ok_bind)
next
  case (step_listen s backlog r s')
  then show ?case by (rule_tac tcp_sock_ok_listen)
next
  case (step_segment s pkt r s')
  then show ?case by (rule_tac tcp_sock_ok_segment)
qed


definition stream_net :: netst where
  "stream_net = set_page idle_net 0x80120000
     (put32 (put32 (put32 (\<lambda>_. 0) sk_type SOCK_STREAM) sk_proto PROTO_TCP) sk_state CLOSED)"

definition http_addr :: buf where
  "http_addr = put32 (put16 (put16 (\<lambda>_. 0) 0 2) 2 0x100) 4 INADDR_ANY"

lemma stream_net_ok: "tcp_sock_ok stream_net 0x80120000"
proof -
  have "pool_ok (mem stream_net)"
    by (simp add: pool_ok_def stream_net_def) (simp add: idle_net_def valid_page_def layout)
  then show ?thesis
    by (simp add: tcp_sock_ok_def stream_net_def buf_simps) (simp add: idle_net_def)
qed

lemma http_addr_fields:
  "get16 http_addr 0 = 2" "get16 http_addr 2 = 0x100" "get32 http_addr 4 = INADDR_ANY" "ntohs 0x100 = 1"
  by (simp_all add: http_addr_def buf_simps ntohs_def)

lemma stream_net_binds:
  "\<exists>s'. tcp_bind stream_net 0x80120000 (Some http_addr) 16 = Inr (0, s') \<and>
     get32 (page s' 0x80120000) sk_state = BOUND"
proof -
  define s1 where "s1 = set_page stream_net 0x80120000 (put32 (page stream_net 0x80120000) sk_family AF_INET)"
  have f: "freelist (mem s1) = 0x80110000 # [0x80111000, 0x80112000, 0x80113000]"
    "tcp_port_binds s1 = replicate 512 0" "get32 (page s1 0x80120000) sk_proto = PROTO_TCP"
    by (simp_all add: s1_def stream_net_def buf_simps) (simp_all add: idle_net_def)
  obtain s2 where s2: "n_kalloc s1 = (0x80110000, s2)" "keeps {0x80110000} s1 s2"
    using n_kalloc_some [OF f(1)] by metis
  note F = fill_binding_pages [of "0x80110000" "0x80120000", where s = s2 and port = 1 and a = INADDR_ANY, simplified]
  have "insert_port_binding (fill_binding s2 0x80110000 0x80120000 1 INADDR_ANY) 0x80110000 =
      Inr (0, (fill_binding s2 0x80110000 0x80120000 1 INADDR_ANY)
        \<lparr>tcp_port_binds := (replicate 512 0)[1 := 0x80110000]\<rparr>)"
    using insert_port_binding_tcp [OF F(1)] F(2,3,5) f keepsD [OF s2(2)] by (simp add: buf_simps)
  then have nb: "\<exists>s3. new_binding s1 0x80120000 1 INADDR_ANY = Inr (True, s3)"
    using s2(1) by (simp add: new_binding_def)
  have t: "tcp_port_binds stream_net = replicate 512 0"
    by (simp add: stream_net_def) (simp add: idle_net_def)
  have "bind_at (replicate 512 0) (unat (1 :: u16)) = Inr 0" by (simp add: bind_at_def)
  then show ?thesis
    using nb t
    by (auto simp: tcp_bind_def http_addr_fields MAX_PORT_BINDINGS_def deref_def Let_def AF_INET_def
        s1_def [unfolded AF_INET_def, symmetric])
qed


end
