(* ===== verification/Arp.thy ===== *)
theory Arp
  imports VirtioNet Eth
begin

text \<open>
  Address resolution, \<^verbatim>\<open>kernel/sys/arp.c\<close>: the 16-entry cache, the request that is
  broadcast for an unknown address and the handler of received ARP packets. A
  \<open>struct arp_pkt\<close> has its fields at offsets 0 (htype), 2 (ptype), 4 (hlen), 5 (plen),
  6 (oper), 8 (sha), 14 (spa), 18 (tha) and 24 (tpa).
\<close>

section \<open>Operations\<close>

definition ARP_HTYPE_ETH :: u16 where "ARP_HTYPE_ETH = 1"
definition ARP_HLEN :: u8 where "ARP_HLEN = 6"
definition ARP_PLEN :: u8 where "ARP_PLEN = 4"
definition ARP_CACHE_SIZE :: nat where "ARP_CACHE_SIZE = 16"
definition ARP_OP_REQUEST :: u16 where "ARP_OP_REQUEST = 1"
definition ARP_OP_REPLY :: u16 where "ARP_OP_REPLY = 2"
definition ARP_PACKET_SIZE :: u16 where "ARP_PACKET_SIZE = 28 + 14"

text \<open>The scan of the cache; \<open>Some mac\<close> is the return value 1, \<open>None\<close> is -1.\<close>

fun arp_find :: "arp_entry list \<Rightarrow> u32 \<Rightarrow> mac option" where
  "arp_find [] ip = None"
| "arp_find (ae # rest) ip =
     (if ae_valid ae = 1 \<and> ae_ip ae = ip then Some (ae_mac ae) else arp_find rest ip)"

definition arp_lookup :: "netst \<Rightarrow> u32 \<Rightarrow> mac option" where
  "arp_lookup s ip = arp_find (arp_cache s) ip"

fun arp_update :: "arp_entry list \<Rightarrow> u32 \<Rightarrow> mac \<Rightarrow> arp_entry list" where
  "arp_update [] ip mac = []"
| "arp_update (ae # rest) ip mac =
     (if ae_ip ae = ip then ae\<lparr>ae_mac := mac, ae_valid := 1\<rparr> # rest
      else if ae_valid ae \<noteq> 1 then ae\<lparr>ae_ip := ip, ae_mac := mac, ae_valid := 1\<rparr> # rest
      else ae # arp_update rest ip mac)"

definition arp_insert :: "netst \<Rightarrow> u32 \<Rightarrow> mac \<Rightarrow> netst" where
  "arp_insert s ip mac = s\<lparr>arp_cache := arp_update (arp_cache s) ip mac\<rparr>"

text \<open>The packet that both senders lay out behind the Ethernet header.\<close>

definition build_arp :: "buf \<Rightarrow> u16 \<Rightarrow> u32 \<Rightarrow> u32 \<Rightarrow> mac \<Rightarrow> mac \<Rightarrow> buf" where
  "build_arp frame oper spa tpa sha tha =
     (let f = put16 frame 14 (htons ARP_HTYPE_ETH);
          f = put16 f 16 (htons PROTO_IPV4);
          f = put8 f 18 ARP_HLEN;
          f = put8 f 19 ARP_PLEN;
          f = put16 f 20 (htons oper);
          f = put32 f 28 spa;
          f = put32 f 38 tpa;
          f = put_bytes f 22 sha
      in put_bytes f 32 tha)"

definition arp_request :: "(netst \<Rightarrow> buf option) \<Rightarrow> netst \<Rightarrow> u32 \<Rightarrow> netst result" where
  "arp_request nic s target_ip =
     (let (frame, s) = n_kalloc s
      in if frame = 0 then Inr s
         else
           let dst_mac = replicate 6 0xFF;
               f = build_eth (page s frame) dst_mac (mac_addr (netconf s)) PROTO_ARP;
               f = build_arp f ARP_OP_REQUEST (ip_addr (netconf s)) target_ip
                     (mac_addr (netconf s)) dst_mac;
               s = set_page s frame f
           in bindE (transmit_packet nic s frame ARP_PACKET_SIZE) (\<lambda>s. n_kfree s frame))"

definition arp_oper :: "buf \<Rightarrow> nat \<Rightarrow> u16" where "arp_oper b off = get16 b (off + 6)"
definition arp_sha :: "buf \<Rightarrow> nat \<Rightarrow> mac" where "arp_sha b off = bytes_of b (off + 8) 6"
definition arp_spa :: "buf \<Rightarrow> nat \<Rightarrow> u32" where "arp_spa b off = get32 b (off + 14)"
definition arp_tpa :: "buf \<Rightarrow> nat \<Rightarrow> u32" where "arp_tpa b off = get32 b (off + 24)"

text \<open>\<open>pkt\<close> points to offset \<open>off\<close> of page \<open>p\<close>. Unknown operations are only printed.\<close>

definition arp_recv :: "(netst \<Rightarrow> buf option) \<Rightarrow> netst \<Rightarrow> addr \<Rightarrow> nat \<Rightarrow> netst result" where
  "arp_recv nic s p off =
     (let b = page s p
      in if ntohs (arp_oper b off) = ARP_OP_REQUEST then
           let (frame, s) = n_kalloc s;
               b = page s p
           in if frame = 0 then Inr s
              else
                let s = arp_insert s (arp_spa b off) (arp_sha b off)
                in if arp_tpa b off = ip_addr (netconf s) \<or> arp_tpa b off = 0xFFFFFFFF
                   then
                     let f = build_eth (page s frame) (arp_sha b off) (mac_addr (netconf s)) PROTO_ARP;
                         f = build_arp f ARP_OP_REPLY (ip_addr (netconf s)) (arp_spa b off)
                               (mac_addr (netconf s)) (arp_sha b off);
                         s = set_page s frame f
                     in bindE (transmit_packet nic s frame ARP_PACKET_SIZE) (\<lambda>s. n_kfree s frame)
                   else Inr s
         else if ntohs (arp_oper b off) = ARP_OP_REPLY
         then Inr (arp_insert s (arp_spa b off) (arp_sha b off))
         else Inr s)"

text \<open>\<open>net_init\<close> of \<^verbatim>\<open>sys/net.c\<close> copies the device's address and enters it in the cache.\<close>

definition net_init :: "netst \<Rightarrow> netst" where
  "net_init s =
     (let s = s\<lparr>netconf := (netconf s)\<lparr>mac_addr := take 6 (cfg_mac (cfg (net s)))\<rparr>\<rparr>
      in arp_insert s (ip_addr (netconf s)) (mac_addr (netconf s)))"

section \<open>The cache\<close>

definition arp_room :: "arp_entry list \<Rightarrow> u32 \<Rightarrow> bool" where
  "arp_room c ip \<longleftrightarrow> (\<exists>ae \<in> set c. ae_ip ae = ip \<or> ae_valid ae \<noteq> 1)"

lemma arp_room_simps [simp]:
  "\<not> arp_room [] ip"
  "arp_room (ae # c) ip \<longleftrightarrow> ae_ip ae = ip \<or> ae_valid ae \<noteq> 1 \<or> arp_room c ip"
  by (auto simp: arp_room_def)

lemma arp_find_update:
  "arp_room c ip \<Longrightarrow> arp_find (arp_update c ip mac) = (arp_find c)(ip \<mapsto> mac)"
  by (induction c) (auto simp: fun_eq_iff)

lemma arp_update_full: "\<not> arp_room c ip \<Longrightarrow> arp_update c ip mac = c"
  by (induction c) auto

lemma arp_find_room: "arp_find c ip \<noteq> None \<Longrightarrow> arp_room c ip"
  by (induction c) (auto split: if_splits)

lemma length_arp_update [simp]: "length (arp_update c ip mac) = length c"
  by (induction c) auto

interpretation arp_table: lookup_table arp_find arp_update arp_room
  by unfold_locales (use arp_find_update arp_update_full arp_find_room in blast)+

text \<open>
  C31: the ARP cache behaves as a map with bounded room: after \<open>arp_insert\<close> the address is
  found with the new MAC exactly if it was known or a slot was unused, every other
  address is looked up as before, and the number of slots stays the same.
\<close>

theorem arp_insert_lookup:
  "(\<forall>ip'. arp_lookup (arp_insert s ip mac) ip' =
      (if ip' = ip \<and> arp_room (arp_cache s) ip then Some mac else arp_lookup s ip')) \<and>
   length (arp_cache (arp_insert s ip mac)) = length (arp_cache s)"
  by (cases "arp_room (arp_cache s) ip")
    (auto simp: arp_lookup_def arp_insert_def arp_find_update arp_update_full)

text \<open>A cache filled with sixteen other addresses never learns a new one.\<close>

lemma arp_cache_full:
  "\<forall>ae \<in> set (arp_cache s). ae_valid ae = 1 \<and> ae_ip ae \<noteq> ip \<Longrightarrow>
   arp_insert s ip mac = s \<and> arp_lookup (arp_insert s ip mac) ip = None"
proof -
  assume full: "\<forall>ae \<in> set (arp_cache s). ae_valid ae = 1 \<and> ae_ip ae \<noteq> ip"
  then have nr: "\<not> arp_room (arp_cache s) ip" by (auto simp: arp_room_def)
  then have "arp_find (arp_cache s) ip = None" using arp_find_room by blast
  then show ?thesis using arp_update_full [OF nr] by (simp add: arp_insert_def arp_lookup_def)
qed

section \<open>ARP packets on the wire\<close>

lemma build_arp_reads:
  assumes "length sha = 6" "length tha = 6"
  shows "ntohs (arp_oper (build_arp f oper spa tpa sha tha) 14) = oper"
    "arp_spa (build_arp f oper spa tpa sha tha) 14 = spa"
    "arp_tpa (build_arp f oper spa tpa sha tha) 14 = tpa"
    "arp_sha (build_arp f oper spa tpa sha tha) 14 = sha"
    "k < 14 \<Longrightarrow> build_arp f oper spa tpa sha tha k = f k"
  using assms
  by (auto simp: build_arp_def Let_def arp_oper_def arp_spa_def arp_tpa_def arp_sha_def
      buf_simps htons_eq_ntohs)

text \<open>The stack is idle: its transmit queue has room and its free pages are sound.\<close>

definition net_ok :: "netst \<Rightarrow> bool" where
  "net_ok s \<longleftrightarrow> tx_ready s \<and> card (used_descs (txq (net s))) + 2 \<le> NUM \<and> pool_ok (mem s) \<and>
     length (mac_addr (netconf s)) = 6"

definition request_frame :: "buf \<Rightarrow> mac \<Rightarrow> u32 \<Rightarrow> u32 \<Rightarrow> buf" where
  "request_frame b mac ip target =
     build_arp (build_eth b (replicate 6 0xFF) mac PROTO_ARP) ARP_OP_REQUEST ip target mac (replicate 6 0xFF)"

definition reply_frame :: "buf \<Rightarrow> mac \<Rightarrow> u32 \<Rightarrow> mac \<Rightarrow> u32 \<Rightarrow> buf" where
  "reply_frame b mac ip peer_mac peer_ip =
     build_arp (build_eth b peer_mac mac PROTO_ARP) ARP_OP_REPLY ip peer_ip mac peer_mac"

lemma arp_insert_fields [simp]:
  "mem (arp_insert s ip m) = mem s" "net (arp_insert s ip m) = net s"
  "netconf (arp_insert s ip m) = netconf s" "wire (arp_insert s ip m) = wire s"
  "packet_buf (arp_insert s ip m) = packet_buf s" "page (arp_insert s ip m) = page s"
  "tx_ready (arp_insert s ip m) = tx_ready s" "tx_pages (arp_insert s ip m) = tx_pages s"
  by (simp_all add: arp_insert_def tx_ready_def tx_pages_def)

lemma net_ok_alloc:
  assumes "net_ok s" "freelist (mem s) = fr # h # hs"
  obtains s1 where "n_kalloc s = (fr, s1)" "fr \<noteq> 0" "h \<noteq> 0" "fr \<noteq> h" "fr \<notin> tx_pages s1"
    "valid_page (pend (mem s1)) fr" "refs (mem s1) fr \<le> 1" "freelist (mem s1) = h # hs"
    "tx_ready s1" "card (used_descs (txq (net s1))) + 2 \<le> NUM" "keeps {fr} s s1"
    "page s1 fr = (\<lambda>_. 5)" "wire s1 = wire s" "tx_pages s1 = tx_pages s" "net s1 = net s"
proof -
  obtain s1 where s1: "n_kalloc s = (fr, s1)" "freelist (mem s1) = h # hs" "keeps {fr} s s1"
    "net s1 = net s" "page s1 fr = (\<lambda>_. 5)" "refs (mem s1) fr = 1" "wire s1 = wire s"
    using n_kalloc_some [OF assms(2)] by metis
  have ok: "pool_ok (mem s)" "tx_ready s" using assms(1) by (auto simp: net_ok_def)
  have v: "valid_page (pend (mem s)) fr" "fr \<noteq> 0" "h \<noteq> 0" "fr \<noteq> h"
    using ok(1) assms(2) valid_page_nonzero by (auto simp: pool_ok_def)
  have tp: "tx_pages s1 = tx_pages s"
    using s1(4) keepsD(6) [OF s1(3)] by (simp add: tx_pages_def)
  have "fr \<notin> tx_pages s" "tx_ready s1"
    using ok(2) assms(2) s1(2,4) keepsD(6) [OF s1(3)] by (auto simp: tx_ready_def tx_pages_def Let_def)
  then show thesis
    using that [OF s1(1)] s1 v tp assms(1) keepsD(3) [OF s1(3)] by (auto simp: net_ok_def)
qed

lemma net_ok_sent:
  assumes "net_ok s" "freelist (mem s) = fr # h # hs" "freelist (mem s') = fr # hs" "tx_ready s'"
    "used_descs (txq (net s')) = used_descs (txq (net s))" "pend (mem s') = pend (mem s)"
    "netconf s' = netconf s"
  shows "net_ok s'"
  using assms by (auto simp: net_ok_def pool_ok_def)

lemma arp_request_ok:
  assumes ok: "net_ok s" and free: "freelist (mem s) = fr # h # hs" and nic: "nic_completes nic"
  obtains s' where "arp_request nic s ip = Inr s'"
    "wire s' = wire s @ [replicate 10 0 @
       bytes_of (request_frame (\<lambda>_. 5) (mac_addr (netconf s)) (ip_addr (netconf s)) ip) 0 42]"
    "net_ok s'" "freelist (mem s') = fr # hs" "keeps (insert fr (insert h (tx_pages s))) s s'"
proof -
  obtain s1 where s1: "n_kalloc s = (fr, s1)" "fr \<noteq> 0" "h \<noteq> 0" "fr \<noteq> h" "fr \<notin> tx_pages s1"
    "valid_page (pend (mem s1)) fr" "refs (mem s1) fr \<le> 1" "freelist (mem s1) = h # hs"
    "tx_ready s1" "card (used_descs (txq (net s1))) + 2 \<le> NUM" "keeps {fr} s s1"
    "page s1 fr = (\<lambda>_. 5)" "wire s1 = wire s" "tx_pages s1 = tx_pages s" "net s1 = net s"
    by (rule net_ok_alloc [OF ok free])
  define F where "F = request_frame (\<lambda>_. 5) (mac_addr (netconf s)) (ip_addr (netconf s)) ip"
  have n: "unat ARP_PACKET_SIZE \<le> 4096" by (simp add: ARP_PACKET_SIZE_def)
  obtain s' where s': "bindE (transmit_packet nic (set_page s1 fr F) fr ARP_PACKET_SIZE) (\<lambda>s. n_kfree s fr) = Inr s'"
    "wire s' = wire s1 @ [replicate 10 0 @ bytes_of F 0 (unat ARP_PACKET_SIZE)]"
    "used_descs (txq (net s')) = used_descs (txq (net s1))" "tx_ready s'" "freelist (mem s') = fr # hs"
    "keeps (insert fr (insert h (tx_pages s1))) s1 s'" "tx_pages s' = tx_pages s1"
    by (rule send_frame [OF s1(9,10,8,3) nic s1(4-7) n])
  have k: "keeps (insert fr (insert h (tx_pages s))) s s'"
    by (rule keeps_trans [OF s1(11) s'(6)]) (auto simp: s1(14))
  have r: "arp_request nic s ip = Inr s'"
    using s1(1,2,12) s'(1) keepsD(4) [OF s1(11)] by (simp add: arp_request_def F_def request_frame_def)
  show thesis
    using that [OF r] s'(2,4,5) k s1(13,15) s'(3)
      net_ok_sent [OF ok free s'(5,4) _ keepsD(3) [OF k] keepsD(4) [OF k]]
    by (simp add: F_def ARP_PACKET_SIZE_def)
qed

lemma arp_recv_request_ok:
  assumes ok: "net_ok s" and free: "freelist (mem s) = fr # h # hs" and nic: "nic_completes nic"
    and p: "p \<noteq> fr" and b: "b = page s p" "ntohs (arp_oper b off) = ARP_OP_REQUEST"
      "arp_tpa b off = ip_addr (netconf s)"
  obtains s' where "arp_recv nic s p off = Inr s'"
    "wire s' = wire s @ [replicate 10 0 @ bytes_of (reply_frame (\<lambda>_. 5) (mac_addr (netconf s))
       (ip_addr (netconf s)) (arp_sha b off) (arp_spa b off)) 0 42]"
    "arp_cache s' = arp_update (arp_cache s) (arp_spa b off) (arp_sha b off)"
    "net_ok s'" "freelist (mem s') = fr # hs"
proof -
  obtain s1 where s1: "n_kalloc s = (fr, s1)" "fr \<noteq> 0" "h \<noteq> 0" "fr \<noteq> h" "fr \<notin> tx_pages s1"
    "valid_page (pend (mem s1)) fr" "refs (mem s1) fr \<le> 1" "freelist (mem s1) = h # hs"
    "tx_ready s1" "card (used_descs (txq (net s1))) + 2 \<le> NUM" "keeps {fr} s s1"
    "page s1 fr = (\<lambda>_. 5)" "wire s1 = wire s" "tx_pages s1 = tx_pages s" "net s1 = net s"
    by (rule net_ok_alloc [OF ok free])
  have b1: "page s1 p = b" using keepsD(1) [OF s1(11)] p b(1) by simp
  define s2 where "s2 = arp_insert s1 (arp_spa b off) (arp_sha b off)"
  define F where "F = reply_frame (\<lambda>_. 5) (mac_addr (netconf s)) (ip_addr (netconf s))
    (arp_sha b off) (arp_spa b off)"
  have n: "unat ARP_PACKET_SIZE \<le> 4096" by (simp add: ARP_PACKET_SIZE_def)
  have s2: "tx_ready s2" "card (used_descs (txq (net s2))) + 2 \<le> NUM" "freelist (mem s2) = h # hs"
    "fr \<notin> tx_pages s2" "valid_page (pend (mem s2)) fr" "refs (mem s2) fr \<le> 1" "netconf s2 = netconf s"
    using s1 keepsD(4) [OF s1(11)] by (auto simp: s2_def)
  obtain s' where s': "bindE (transmit_packet nic (set_page s2 fr F) fr ARP_PACKET_SIZE) (\<lambda>s. n_kfree s fr) = Inr s'"
    "wire s' = wire s2 @ [replicate 10 0 @ bytes_of F 0 (unat ARP_PACKET_SIZE)]"
    "used_descs (txq (net s')) = used_descs (txq (net s2))" "tx_ready s'" "freelist (mem s') = fr # hs"
    "keeps (insert fr (insert h (tx_pages s2))) s2 s'" "tx_pages s' = tx_pages s2"
    by (rule send_frame [OF s2(1-3) s1(3) nic s1(4) s2(4-6) n])
  have r: "arp_recv nic s p off = Inr s'"
    using b b1 s1(1,2,12) s'(1) s2(7) keepsD(4) [OF s1(11)]
    by (simp add: arp_recv_def Let_def F_def reply_frame_def s2_def)
  have "net_ok s'"
    using net_ok_sent [OF ok free s'(5,4)] s'(3) keepsD(3,4) [OF s'(6)] s2(7) s1(15) keepsD(3) [OF s1(11)]
    by (simp add: s2_def)
  then show thesis
    using that [OF r] s'(2,5) s1(13) keepsD(5) [OF s'(6)] keepsD(5) [OF s1(11)]
    by (simp add: F_def ARP_PACKET_SIZE_def s2_def arp_insert_def)
qed

text \<open>What a receiver sees of a 42-byte frame that it stored at the start of a page.\<close>

definition received :: "u8 list \<Rightarrow> buf" where
  "received w = put_bytes (\<lambda>_. 0) 0 (drop 10 w)"

lemma received_frame: "k < n \<Longrightarrow> received (replicate 10 0 @ bytes_of f 0 n) k = f k"
  by (simp add: received_def put_bytes_apply)

lemma received_arp:
  assumes "w = replicate 10 0 @ bytes_of f 0 42"
  shows "arp_oper (received w) 14 = arp_oper f 14" "arp_spa (received w) 14 = arp_spa f 14"
    "arp_tpa (received w) 14 = arp_tpa f 14" "arp_sha (received w) 14 = arp_sha f 14"
proof -
  have r: "received w k = f k" if "k < 42" for k using that assms received_frame by simp
  show "arp_oper (received w) 14 = arp_oper f 14"
    unfolding arp_oper_def by (rule get16_cong) (simp_all add: r)
  show "arp_spa (received w) 14 = arp_spa f 14"
    unfolding arp_spa_def by (rule get32_cong) (simp_all add: r)
  show "arp_tpa (received w) 14 = arp_tpa f 14"
    unfolding arp_tpa_def by (rule get32_cong) (simp_all add: r)
  show "arp_sha (received w) 14 = arp_sha f 14"
    unfolding arp_sha_def by (rule bytes_of_cong) (simp add: r)
qed

lemma net_ok_set_page [simp]: "net_ok (set_page s p b) = net_ok s"
  by (simp add: net_ok_def pool_ok_def)

lemma arp_recv_reply:
  assumes "ntohs (arp_oper (page s p) off) = ARP_OP_REPLY"
  shows "arp_recv nic s p off = Inr (arp_insert s (arp_spa (page s p) off) (arp_sha (page s p) off))"
  using assms by (simp add: arp_recv_def Let_def ARP_OP_REPLY_def ARP_OP_REQUEST_def)


text \<open>A second host for the witness.\<close>

definition peer_net :: netst where
  "peer_net = idle_net\<lparr>netconf := \<lparr>ip_addr = 0x0a000a0b, mac_addr = [0x52, 0x54, 0, 0x12, 0x34, 0x57],
     subnet_mask = 0, gateway = 0\<rparr>\<rparr>"

lemma idle_net_ok: "net_ok idle_net" "net_ok peer_net"
proof -
  have "pool_ok (mem idle_net)" by (simp add: pool_ok_def idle_net_def valid_page_def layout)
  then show "net_ok idle_net" using idle_net_ready by (simp add: net_ok_def) (simp add: idle_net_def)
  then show "net_ok peer_net" by (simp add: net_ok_def peer_net_def tx_ready_def)
qed


end
