(* ===== verification/Udp.thy ===== *)
theory Udp
  imports Tcp Arp
begin

text \<open>
  The UDP half of the stack, \<^verbatim>\<open>kernel/sys/udp.c\<close>: the datagram builder and parser,
  the receive queue of a socket, binding, sending and receiving. A \<open>struct udp_frame\<close> has
  the 8-byte header at 0, the payload at 8, \<open>payload_len\<close> at 1508 and \<open>next\<close> at 1512. In
  \<open>udp_sendto\<close> the three frames overlay one page: Ethernet at 0, IPv4 at 14, UDP at 34.
\<close>

section \<open>Datagrams\<close>

abbreviation (input) udp_payload :: nat where "udp_payload \<equiv> 8"
abbreviation (input) udp_payload_len :: nat where "udp_payload_len \<equiv> 1508"
abbreviation (input) udp_next :: nat where "udp_next \<equiv> 1512"

text \<open>The frame starts at offset \<open>udp\<close> of page \<open>b\<close>; the payload is a kernel buffer \<open>pb\<close>.\<close>

definition build_udp ::
  "buf \<Rightarrow> nat \<Rightarrow> u16 \<Rightarrow> u16 \<Rightarrow> buf \<Rightarrow> int \<Rightarrow> u32 \<Rightarrow> u32 \<Rightarrow> buf result" where
  "build_udp b udp src_port dst_port pb payload_len src_ip dst_ip =
     (let b = put16 b udp (htons src_port);
          b = put16 b (udp + 2) dst_port;
          b = put16 b (udp + 4) (htons (word_of_int (payload_len + 8)));
          b = put32 b (udp + udp_payload_len) (word_of_int payload_len)
      in bindE (blitE b (udp + udp_payload) pb 0 (unat (word_of_int payload_len :: u32))) (\<lambda>b.
         let b = put16 b (udp + 6) 0
         in Inr (put16 b (udp + 6)
                   (udp_checksum src_ip dst_ip b udp (udp + udp_payload) (word_of_int payload_len)))))"

definition store_udp_hdr :: "buf \<Rightarrow> nat \<Rightarrow> buf \<Rightarrow> buf" where
  "store_udp_hdr b off udp_pkt =
     (let u = put16 udp_pkt 0 (ntohs (get16 b off));
          u = put16 u 2 (ntohs (get16 b (off + 2)));
          u = put16 u 4 (ntohs (get16 b (off + 4)));
          u = put16 u 6 (ntohs (get16 b (off + 6)))
      in u)"

definition parse_udp_packet :: "buf \<Rightarrow> nat \<Rightarrow> int \<Rightarrow> buf \<Rightarrow> (int \<times> buf) result" where
  "parse_udp_packet b off len udp_pkt =
     (if len < 8 then Inr (- 1, udp_pkt)
      else
        let u = store_udp_hdr b off udp_pkt
        in if get16 u 4 < 8 \<or> uint (get16 u 4) > len then Inr (- 1, u)
           else
             let u = put32 u udp_payload_len (word_of_int (len - 8))
             in bindE (blitE u udp_payload b (off + 8) (nat (len - 8))) (\<lambda>u. Inr (0, u)))"

section \<open>The receive queue\<close>

definition enqueue_udp_packet :: "netst \<Rightarrow> addr \<Rightarrow> addr \<Rightarrow> netst" where
  "enqueue_udp_packet s pkt sock =
     (let s = set_page s pkt (put64 (page s pkt) udp_next 0);
          s = (if get64 (page s sock) sk_rx_head = 0
               then set_page s sock (put64 (put64 (page s sock) sk_rx_head pkt) sk_rx_tail pkt)
               else
                 let t = get64 (page s sock) sk_rx_tail;
                     s = set_page s t (put64 (page s t) udp_next pkt)
                 in set_page s sock (put64 (page s sock) sk_rx_tail pkt))
      in s\<lparr>woken := woken s @ [RxHead sock]\<rparr>)"

definition dequeue_udp_packet :: "netst \<Rightarrow> addr \<Rightarrow> addr \<times> netst" where
  "dequeue_udp_packet s sock =
     (let ret = get64 (page s sock) sk_rx_head
      in if ret = 0 then (0, s)
         else
           let h = get64 (page s ret) udp_next;
               k = put64 (page s sock) sk_rx_head h;
               k = (if h = 0 then put64 k sk_rx_tail 0 else k)
           in (ret, set_page s sock k))"

section \<open>Socket operations\<close>

definition udp_bind :: "netst \<Rightarrow> addr \<Rightarrow> buf option \<Rightarrow> u32 \<Rightarrow> (int \<times> netst) result" where
  "udp_bind s sock sock_address addrlen =
     (if sock = 0 then Inr (- 1, s)
      else case sock_address of
        None \<Rightarrow> Inr (- 1, s)
      | Some a \<Rightarrow>
          let port = ntohs (sin_port a)
          in if unat port \<le> 0 \<or> unat port \<ge> MAX_PORT_BINDINGS then Inr (- 1, s)
             else bindE (bind_at (udp_port_binds s) (unat port)) (\<lambda>b.
               if b \<noteq> 0 then Inr (- 1, s)
               else if get32 (page s sock) sk_family \<noteq> AF_INET then Inr (- 1, s)
               else if addrlen \<noteq> 16 then Inr (- 1, s)
               else bindE (new_binding s sock port (sin_addr a)) (\<lambda>(bound, s).
                 if \<not> bound then Inr (- 1, s)
                 else
                   let k = page s sock;
                       k = put32 k sk_src_port (ucast port);
                       k = put32 k sk_state BOUND
                   in Inr (0, set_page s sock k))))"

definition udp_connect :: "netst \<Rightarrow> addr \<Rightarrow> buf option \<Rightarrow> u32 \<Rightarrow> (int \<times> netst) result" where
  "udp_connect s sock addr addrlen = Inr (0, s)"

definition udp_close :: "netst \<Rightarrow> addr \<Rightarrow> (int \<times> netst) result" where
  "udp_close s sock = Inr (0, s)"

text \<open>
  The loop that waits for the ARP reply. Nothing in it changes the cache: progress comes
  from interrupts, given as the list \<open>irqs\<close> of handler runs that happen meanwhile. If none
  of them enters the address, the loop spins.
\<close>

fun arp_wait :: "netst \<Rightarrow> u32 \<Rightarrow> (netst \<Rightarrow> netst result) list \<Rightarrow> (mac \<times> netst) result" where
  "arp_wait s ip [] = (case arp_lookup s ip of Some m \<Rightarrow> Inr (m, s) | None \<Rightarrow> Inl Spins)"
| "arp_wait s ip (irq # irqs) =
     (case arp_lookup s ip of Some m \<Rightarrow> Inr (m, s)
                            | None \<Rightarrow> bindE (irq s) (\<lambda>s. arp_wait s ip irqs))"

definition resolve ::
  "(netst \<Rightarrow> buf option) \<Rightarrow> (netst \<Rightarrow> netst result) list \<Rightarrow> netst \<Rightarrow> u32 \<Rightarrow> (mac \<times> netst) result" where
  "resolve nic irqs s dst_ip =
     (case arp_lookup s dst_ip of
        Some m \<Rightarrow> Inr (m, s)
      | None \<Rightarrow> bindE (arp_request nic s dst_ip) (\<lambda>s. arp_wait s dst_ip irqs))"

definition list_buf :: "u8 list \<Rightarrow> buf" where
  "list_buf bs = put_bytes (\<lambda>_. 0) 0 bs"

text \<open>The overlay of the three builders on the page of the frame.\<close>

definition build_datagram :: "netst \<Rightarrow> buf \<Rightarrow> u16 \<Rightarrow> u16 \<Rightarrow> u8 list \<Rightarrow> u32 \<Rightarrow> mac \<Rightarrow> buf result" where
  "build_datagram s b src_port dst_port kbuf dst_ip dst_mac =
     (let len = int (length kbuf)
      in bindE (build_udp b 34 src_port dst_port (list_buf kbuf) len (ip_addr (netconf s)) dst_ip) (\<lambda>b.
         let b = build_ip4 b 14 (ntohl (ip_addr (netconf s))) (ntohl dst_ip) IPPROTO_UDP
                   (word_of_int (len + 8 + 20))
         in Inr (build_eth b dst_mac (mac_addr (netconf s)) PROTO_IPV4)))"

definition udp_sendto ::
  "(netst \<Rightarrow> buf option) \<Rightarrow> (netst \<Rightarrow> netst result) list \<Rightarrow> netst \<Rightarrow>
   addr \<Rightarrow> addr \<Rightarrow> int \<Rightarrow> addr \<Rightarrow> u32 \<Rightarrow> (int \<times> netst) result" where
  "udp_sendto nic irqs s sock ubuf len dest addrlen =
     (if addrlen < 16 then Inr (- 1, s)
      else bindE (ucopyin s 16 dest 16) (\<lambda>kaddr.
        case kaddr of
          None \<Rightarrow> Inr (- 1, s)
        | Some ka \<Rightarrow>
            let a = list_buf ka; dst_ip = sin_addr a
            in bindE (resolve nic irqs s dst_ip) (\<lambda>(dst_mac, s).
               if len > 1500 then Inr (- 1, s)
               else bindE (ucopyin s 1500 ubuf (unat (word_of_int len :: u64))) (\<lambda>kb.
                 case kb of
                   None \<Rightarrow> Inr (- 1, s)
                 | Some kbuf \<Rightarrow>
                     let (eth, s) = n_kalloc s
                     in deref eth (\<lambda>_. deref sock (\<lambda>_.
                        bindE (build_datagram s (page s eth) (ucast (get32 (page s sock) sk_src_port))
                                 (sin_port a) kbuf dst_ip dst_mac) (\<lambda>f.
                        let s = set_page s eth f
                        in bindE (transmit_packet nic s eth (word_of_int (len + 8 + 20 + 14))) (\<lambda>s.
                           bindE (n_kfree s eth) (\<lambda>s. Inr (0, s))))))))))"

text \<open>An empty queue puts the caller to sleep. The copy takes \<open>payload_len\<close> bytes, not \<open>n\<close>.\<close>

definition udp_recvfrom :: "netst \<Rightarrow> addr \<Rightarrow> addr \<Rightarrow> int \<Rightarrow> (int \<times> netst) result" where
  "udp_recvfrom s sock ubuf len =
     deref sock (\<lambda>_.
       if get64 (page s sock) sk_rx_head = 0 then Inl Sleeps
       else
         let (pkt, s) = dequeue_udp_packet s sock;
             plen = sint (get32 (page s pkt) udp_payload_len);
             n = (if plen < len then plen else len);
             (ok, s) = ucopyout s ubuf (bytes_of (page s pkt) udp_payload
                                          (unat (word_of_int plen :: u64)))
         in if \<not> ok then bindE (n_kfree s pkt) (\<lambda>s. Inr (- 1, s))
            else bindE (n_kfree s pkt) (\<lambda>s. Inr (n, s)))"

definition handle_udp_packet :: "netst \<Rightarrow> addr \<Rightarrow> (int \<times> netst) result" where
  "handle_udp_packet s udp_pkt =
     (let dst_port = unat (get16 (page s udp_pkt) 2)
      in if dst_port \<ge> MAX_PORT_BINDINGS then Inr (- 1, s)
         else bindE (bind_at (udp_port_binds s) dst_port) (\<lambda>b.
           if b = 0 then Inr (- 1, s)
           else
             let sock = get64 (page s b) pb_sock
             in deref sock (\<lambda>_.
                Inr (0, if get32 (page s sock) sk_proto = PROTO_UDP
                        then enqueue_udp_packet s udp_pkt sock else s))))"

section \<open>The queue is a queue\<close>

fun rx_chain :: "netst \<Rightarrow> addr \<Rightarrow> addr list \<Rightarrow> bool" where
  "rx_chain s a [] \<longleftrightarrow> a = 0"
| "rx_chain s a (p # ps) \<longleftrightarrow> a = p \<and> rx_chain s (get64 (page s p) udp_next) ps"

definition rx_queue :: "addr \<Rightarrow> netst \<Rightarrow> addr list \<Rightarrow> bool" where
  "rx_queue sock s qs \<longleftrightarrow>
     distinct (sock # qs) \<and> 0 \<notin> set qs \<and> rx_chain s (get64 (page s sock) sk_rx_head) qs \<and>
     get64 (page s sock) sk_rx_tail = (if qs = [] then 0 else last qs)"

lemma rx_chain_cong:
  "(\<And>p. p \<in> set qs \<Longrightarrow> get64 (page s p) udp_next = get64 (page t p) udp_next) \<Longrightarrow>
   rx_chain s a qs = rx_chain t a qs"
  by (induction qs arbitrary: a) auto

text \<open>Linking a new last element behind the old one.\<close>

lemma rx_chain_snoc:
  assumes "rx_chain s a qs" "qs \<noteq> []" "distinct qs" "pkt \<notin> set qs"
    "get64 (page t (last qs)) udp_next = pkt" "get64 (page t pkt) udp_next = 0"
    "\<And>p. p \<in> set qs \<Longrightarrow> p \<noteq> last qs \<Longrightarrow> get64 (page t p) udp_next = get64 (page s p) udp_next"
  shows "rx_chain t a (qs @ [pkt])"
  using assms
proof (induction qs arbitrary: a)
  case (Cons q qs)
  show ?case
  proof (cases "qs = []")
    case True
    then show ?thesis using Cons.prems by simp
  next
    case False
    then have "rx_chain t (get64 (page s q) udp_next) (qs @ [pkt])"
      using Cons.prems by (intro Cons.IH) auto
    moreover have "q \<noteq> last qs" using Cons.prems False by auto
    ultimately show ?thesis using Cons.prems False by auto
  qed
qed simp

lemma enqueue_rx_queue:
  assumes q: "rx_queue sock s qs" and p: "pkt \<notin> set qs" "pkt \<noteq> sock" "pkt \<noteq> 0"
  shows "rx_queue sock (enqueue_udp_packet s pkt sock) (qs @ [pkt])"
proof (cases "qs = []")
  case True
  then show ?thesis
    using q p by (simp add: rx_queue_def enqueue_udp_packet_def Let_def buf_simps)
next
  case False
  define l where "l = last qs"
  have "l \<in> set qs" using False by (simp add: l_def)
  then have l: "l \<in> set qs" "l \<noteq> sock" "l \<noteq> pkt" "l \<noteq> 0"
    using q p by (auto simp: rx_queue_def)
  have h: "get64 (page s sock) sk_rx_head \<noteq> 0" "get64 (page s sock) sk_rx_tail = l"
    using q False by (cases qs; auto simp: rx_queue_def l_def)+
  define t where "t = enqueue_udp_packet s pkt sock"
  have t: "page t pkt = put64 (page s pkt) udp_next 0" "page t l = put64 (page s l) udp_next pkt"
    "page t sock = put64 (page s sock) sk_rx_tail pkt"
    "\<And>x. x \<notin> {pkt, l, sock} \<Longrightarrow> page t x = page s x"
    using h l p by (simp_all add: t_def enqueue_udp_packet_def Let_def)
  have "rx_chain t (get64 (page s sock) sk_rx_head) (qs @ [pkt])"
  proof (rule rx_chain_snoc [of s _ qs])
    show "rx_chain s (get64 (page s sock) sk_rx_head) qs" "distinct qs" using q by (auto simp: rx_queue_def)
    fix x assume x: "x \<in> set qs" "x \<noteq> last qs"
    then have "x \<noteq> pkt" "x \<noteq> sock" using p q by (auto simp: rx_queue_def)
    then show "get64 (page t x) udp_next = get64 (page s x) udp_next"
      using t(4) [of x] x by (simp add: l_def)
  qed (use False p t l in \<open>auto simp: l_def\<close>)
  then show ?thesis
    using q p l t(3) by (auto simp: t_def [symmetric] rx_queue_def buf_simps)
qed

lemma dequeue_rx_queue:
  assumes "rx_queue sock s (p # qs)"
  shows "\<exists>s'. dequeue_udp_packet s sock = (p, s') \<and> rx_queue sock s' qs \<and> keeps {sock} s s' \<and>
           freelist (mem s') = freelist (mem s) \<and> net s' = net s"
proof -
  define s' where "s' = snd (dequeue_udp_packet s sock)"
  define h where "h = get64 (page s p) udp_next"
  have p: "get64 (page s sock) sk_rx_head = p" "p \<noteq> 0" "p \<noteq> sock" "rx_chain s h qs" "distinct (sock # qs)"
    "0 \<notin> set qs" using assms by (auto simp: rx_queue_def h_def)
  have h: "h = 0 \<longleftrightarrow> qs = []" using p by (cases qs) auto
  have d: "dequeue_udp_packet s sock = (p, s')"
    "page s' sock = (let k = put64 (page s sock) sk_rx_head h in if h = 0 then put64 k sk_rx_tail 0 else k)"
    "\<And>x. x \<noteq> sock \<Longrightarrow> page s' x = page s x" "keeps {sock} s s'" "freelist (mem s') = freelist (mem s)"
    "net s' = net s"
    using p by (simp_all add: s'_def dequeue_udp_packet_def Let_def h_def keeps_set_page)
  have "rx_chain s' h qs"
  proof -
    have "get64 (page s x) udp_next = get64 (page s' x) udp_next" if "x \<in> set qs" for x
    proof -
      have "x \<noteq> sock" using that p(5) by auto
      then show ?thesis using d(3) [of x] by simp
    qed
    then show ?thesis using p(4) rx_chain_cong by metis
  qed
  then have "rx_queue sock s' qs"
    using p h d(2) assms by (auto simp: rx_queue_def Let_def buf_simps)
  then show ?thesis using d by blast
qed

lemma dequeue_empty: "rx_queue sock s [] \<Longrightarrow> dequeue_udp_packet s sock = (0, s)"
  by (simp add: rx_queue_def dequeue_udp_packet_def)

definition udp_dequeue :: "addr \<Rightarrow> netst \<Rightarrow> (addr \<times> netst) option" where
  "udp_dequeue sock s = (case dequeue_udp_packet s sock of (p, s') \<Rightarrow> if p = 0 then None else Some (p, s'))"

interpretation udp_fifo: fifo_queue "\<lambda>s pkt. enqueue_udp_packet s pkt sock" "udp_dequeue sock"
  "rx_queue sock" "\<lambda>qs pkt. pkt \<notin> set qs \<and> pkt \<noteq> sock \<and> pkt \<noteq> 0" for sock
proof unfold_locales
  fix s xs x
  show "rx_queue sock s xs \<Longrightarrow> x \<notin> set xs \<and> x \<noteq> sock \<and> x \<noteq> 0 \<Longrightarrow>
      rx_queue sock (enqueue_udp_packet s x sock) (xs @ [x])"
    using enqueue_rx_queue by simp
  show "rx_queue sock s [] \<Longrightarrow> udp_dequeue sock s = None"
    by (simp add: udp_dequeue_def dequeue_empty)
  show "rx_queue sock s (x # xs) \<Longrightarrow> \<exists>s'. udp_dequeue sock s = Some (x, s') \<and> rx_queue sock s' xs"
    using dequeue_rx_queue [of sock s x xs] by (auto simp: udp_dequeue_def rx_queue_def)
qed



section \<open>Datagrams on the wire\<close>

lemma unat_int_u32: "0 \<le> n \<Longrightarrow> n \<le> 1500 \<Longrightarrow> unat (word_of_int n :: u32) = nat n"
  by (simp add: unat_eq_nat_uint uint_word_of_int)

text \<open>The datagram before its checksum is filled in.\<close>

definition udp_unsummed :: "buf \<Rightarrow> nat \<Rightarrow> u16 \<Rightarrow> u16 \<Rightarrow> buf \<Rightarrow> int \<Rightarrow> buf" where
  "udp_unsummed b udp sp dp pb n =
     put16 (blit (put32 (put16 (put16 (put16 b udp (htons sp)) (udp + 2) dp) (udp + 4)
       (htons (word_of_int (n + 8)))) (udp + 1508) (word_of_int n)) (udp + 8) pb 0 (nat n)) (udp + 6) 0"

lemma build_udp_unsummed:
  assumes "0 \<le> n" "n \<le> 1500" "udp \<le> 2000"
  shows "build_udp b udp sp dp pb n sip dip =
    (let c = udp_unsummed b udp sp dp pb n
     in Inr (put16 c (udp + 6) (udp_checksum sip dip c udp (udp + 8) (word_of_int n))))"
  using assms
  by (auto simp: build_udp_def udp_unsummed_def Let_def blitE_def unat_int_u32 nat_le_iff)

lemma udp_unsummed_reads:
  assumes "0 \<le> n" "n \<le> 1500"
  shows "get16 (udp_unsummed b udp sp dp pb n) udp = htons sp"
    "get16 (udp_unsummed b udp sp dp pb n) (udp + 2) = dp"
    "get16 (udp_unsummed b udp sp dp pb n) (udp + 4) = htons (word_of_int (n + 8))"
    "get16 (udp_unsummed b udp sp dp pb n) (udp + 6) = 0"
    "k < nat n \<Longrightarrow> udp_unsummed b udp sp dp pb n (udp + 8 + k) = pb k"
    "k < udp \<Longrightarrow> udp_unsummed b udp sp dp pb n k = b k"
  using assms by (auto simp: udp_unsummed_def buf_simps)

lemma build_udp_ok:
  assumes "0 \<le> n" "n \<le> 1500" "udp \<le> 2000"
  obtains b' where "build_udp b udp sp dp pb n sip dip = Inr b'"
    "get16 b' udp = htons sp" "get16 b' (udp + 2) = dp" "get16 b' (udp + 4) = htons (word_of_int (n + 8))"
    "\<forall>k < nat n. b' (udp + 8 + k) = pb k" "\<forall>k < udp. b' k = b k"
    "ones_sum (word_sum (udp_pseudo sip dip (get16 b' (udp + 4))) 0 12 +
       word_sum b' udp 8 + word_sum b' (udp + 8) (nat n)) = 65535"
proof -
  define c where "c = udp_unsummed b udp sp dp pb n"
  define x where "x = udp_checksum sip dip c udp (udp + 8) (word_of_int n)"
  define b' where "b' = put16 c (udp + 6) x"
  note C = udp_unsummed_reads [OF assms(1,2), where b = b and udp = udp and sp = sp and dp = dp and pb = pb,
      folded c_def]
  have r: "build_udp b udp sp dp pb n sip dip = Inr b'"
    using build_udp_unsummed [OF assms] by (simp add: Let_def b'_def c_def x_def)
  have n: "unat (word_of_int n :: u16) = nat n" using assms by (intro unat_word_of_int_u16) auto
  have reads: "get16 b' udp = htons sp" "get16 b' (udp + 2) = dp"
    "get16 b' (udp + 4) = htons (word_of_int (n + 8))" "\<forall>k < nat n. b' (udp + 8 + k) = pb k"
    "\<forall>k < udp. b' k = b k"
    using C by (simp_all add: b'_def buf_simps)
  define S where "S = word_sum (udp_pseudo sip dip (get16 c (udp + 4))) 0 12 + word_sum c udp 8 +
    word_sum c (udp + 8) (nat n)"
  have "word_sum (put16 c (udp + 2 * 3) x) udp 8 = word_sum c udp 8 + unat x"
    by (rule word_sum_put16) (use C(4) in \<open>auto\<close>)
  moreover have "word_sum b' (udp + 8) (nat n) = word_sum c (udp + 8) (nat n)"
    by (rule word_sum_cong) (simp add: b'_def buf_simps)
  moreover have "get16 b' (udp + 4) = get16 c (udp + 4)" by (simp add: b'_def buf_simps)
  moreover have "unat x = 65535 - ones_sum S" by (simp add: x_def udp_checksum_ones S_def n)
  ultimately have "word_sum (udp_pseudo sip dip (get16 b' (udp + 4))) 0 12 + word_sum b' udp 8 +
      word_sum b' (udp + 8) (nat n) = S + (65535 - ones_sum S)"
    by (simp add: S_def b'_def)
  then have "ones_sum (word_sum (udp_pseudo sip dip (get16 b' (udp + 4))) 0 12 +
       word_sum b' udp 8 + word_sum b' (udp + 8) (nat n)) = 65535"
    by (simp only: ones_sum_complement)
  then show thesis using that [OF r] reads by blast
qed



lemma parse_udp_ok:
  assumes "8 \<le> L" "L \<le> 1508" "off + nat L \<le> 4096"
    "8 \<le> ntohs (get16 b (off + 4))" "uint (ntohs (get16 b (off + 4))) \<le> L"
  obtains u where "parse_udp_packet b off L pkt = Inr (0, u)"
    "get16 u 0 = ntohs (get16 b off)" "get16 u 2 = ntohs (get16 b (off + 2))"
    "get32 u udp_payload_len = word_of_int (L - 8)" "\<forall>k < nat L - 8. u (udp_payload + k) = b (off + 8 + k)"
proof -
  define h where "h = store_udp_hdr b off pkt"
  define u where "u = blit (put32 h udp_payload_len (word_of_int (L - 8))) udp_payload b (off + 8) (nat (L - 8))"
  have h4: "get16 h 4 = ntohs (get16 b (off + 4))" by (simp add: h_def store_udp_hdr_def buf_simps)
  have "parse_udp_packet b off L pkt = Inr (0, u)"
    using assms h4
    by (auto simp: parse_udp_packet_def Let_def h_def [symmetric] blitE_def u_def nat_le_iff not_less)
  moreover have "get16 u 0 = ntohs (get16 b off)" "get16 u 2 = ntohs (get16 b (off + 2))"
    "get32 u udp_payload_len = word_of_int (L - 8)"
    using assms(2) by (simp_all add: u_def h_def store_udp_hdr_def buf_simps nat_le_iff)
  moreover have "u (udp_payload + k) = b (off + 8 + k)" if "k < nat L - 8" for k
  proof -
    have "8 + k < nat L" using that by linarith
    then show ?thesis by (simp add: u_def blit_apply nat_diff_distrib)
  qed
  ultimately show thesis using that by blast
qed

section \<open>Sending\<close>

text \<open>What \<open>udp_sendto\<close> puts on the wire, as a property of the frame.\<close>

definition datagram_frame :: "buf \<Rightarrow> netst \<Rightarrow> u16 \<Rightarrow> u16 \<Rightarrow> u8 list \<Rightarrow> u32 \<Rightarrow> mac \<Rightarrow> bool" where
  "datagram_frame f s sp dp kbuf dip dmac \<longleftrightarrow>
     eth_dst f = dmac \<and> eth_src f = mac_addr (netconf s) \<and> ntohs (eth_type f) = PROTO_IPV4 \<and>
     f 14 = 69 \<and> f 23 = IPPROTO_UDP \<and> ntohs (get16 f 16) = of_nat (length kbuf + 28) \<and>
     get32 f 26 = ip_addr (netconf s) \<and> get32 f 30 = dip \<and> chksum f 14 20 = 0 \<and>
     ntohs (get16 f 34) = sp \<and> get16 f 36 = dp \<and> ntohs (get16 f 38) = of_nat (length kbuf + 8) \<and>
     bytes_of f 42 (length kbuf) = kbuf"

lemma chksum_cong: "(\<And>k. k < 20 \<Longrightarrow> b (p + k) = c (p + k)) \<Longrightarrow> chksum b p 20 = chksum c p 20"
proof -
  assume "\<And>k. k < 20 \<Longrightarrow> b (p + k) = c (p + k)"
  then have "word_sum b p 20 = word_sum c p 20" by (intro word_sum_cong) simp
  then show ?thesis by (simp add: word_unat_eq_iff chksum_ones)
qed

lemma build_datagram_ok:
  assumes n: "length kbuf \<le> 1500" and m: "length dmac = 6" "length (mac_addr (netconf s)) = 6"
  obtains f where "build_datagram s b sp dp kbuf dip dmac = Inr f" "datagram_frame f s sp dp kbuf dip dmac"
proof -
  define n where "n = length kbuf"
  have n': "0 \<le> int n" "int n \<le> 1500" "(34 :: nat) \<le> 2000" using n by (auto simp: n_def)
  obtain c where c: "build_udp b 34 sp dp (list_buf kbuf) (int n) (ip_addr (netconf s)) dip = Inr c"
    "get16 c 34 = htons sp" "get16 c (34 + 2) = dp" "get16 c (34 + 4) = htons (word_of_int (int n + 8))"
    "\<forall>k < nat (int n). c (34 + 8 + k) = list_buf kbuf k"
    by (rule build_udp_ok [OF n'])
  define d where "d = build_ip4 c 14 (ntohl (ip_addr (netconf s))) (ntohl dip) IPPROTO_UDP
    (word_of_int (int n + 8 + 20))"
  define f where "f = build_eth d dmac (mac_addr (netconf s)) PROTO_IPV4"
  note E = build_eth_reads [OF m, where f = d and t = PROTO_IPV4, folded f_def]
  note D = build_ip4_reads [where b = c and ip = 14 and src = "ntohl (ip_addr (netconf s))" and
      dst = "ntohl dip" and proto = IPPROTO_UDP and len = "word_of_int (int n + 8 + 20)", folded d_def]
  have fd: "f k = d k" if "14 \<le> k" for k using E(4) that .
  have fc: "f k = c k" if "34 \<le> k" for k using fd [of k] D(6) [of k] that by simp
  have "get16 f 16 = get16 d (14 + 2)" "get32 f 26 = get32 d (14 + 12)" "get32 f 30 = get32 d (14 + 16)"
    by (rule get16_cong get32_cong; simp add: fd)+
  moreover have "get16 f 34 = get16 c 34" "get16 f 36 = get16 c (34 + 2)" "get16 f 38 = get16 c (34 + 4)"
    by (rule get16_cong; simp add: fc)+
  moreover have "chksum f 14 20 = 0"
    using chksum_cong [of f 14 d] fd ip4_sums_to_zero by (simp add: d_def)
  moreover have "bytes_of f 42 (length kbuf) = kbuf"
    using c(5) by (intro nth_equalityI) (auto simp: fc n_def list_buf_def put_bytes_apply)
  ultimately have "datagram_frame f s sp dp kbuf dip dmac"
    using E D c(2-4) fd [of 14] fd [of 23]
    by (simp add: datagram_frame_def htons_eq_ntohs htonl_eq_ntohl n_def)
  moreover have "build_datagram s b sp dp kbuf dip dmac = Inr f"
    using c(1) by (simp add: build_datagram_def Let_def n_def [symmetric] d_def f_def)
  ultimately show thesis using that by blast
qed

lemma udp_sendto_ok:
  assumes ok: "net_ok s" and free: "freelist (mem s) = fr # h # hs" and nic: "nic_completes nic"
    and user: "user_bytes (umem s) dest 16 = Some ka" "user_bytes (umem s) ubuf n = Some kbuf" "n \<le> 1500"
    and arp: "arp_lookup s (get32 (list_buf ka) 4) = Some dmac" "length dmac = 6"
    and sock: "sock \<noteq> 0" "sock \<noteq> fr"
  obtains f s' where "udp_sendto nic irqs s sock ubuf (int n) dest 16 = Inr (0, s')"
    "datagram_frame f s (ucast (get32 (page s sock) sk_src_port)) (get16 (list_buf ka) 2) kbuf
       (get32 (list_buf ka) 4) dmac"
    "wire s' = wire s @ [replicate 10 0 @ bytes_of f 0 (n + 42)]" "net_ok s'" "freelist (mem s') = fr # hs"
    "keeps (insert fr (insert h (tx_pages s))) s s'"
proof -
  obtain s1 where s1: "n_kalloc s = (fr, s1)" "fr \<noteq> 0" "h \<noteq> 0" "fr \<noteq> h" "fr \<notin> tx_pages s1"
    "valid_page (pend (mem s1)) fr" "refs (mem s1) fr \<le> 1" "freelist (mem s1) = h # hs"
    "tx_ready s1" "card (used_descs (txq (net s1))) + 2 \<le> NUM" "keeps {fr} s s1"
    "page s1 fr = (\<lambda>_. 5)" "wire s1 = wire s" "tx_pages s1 = tx_pages s" "net s1 = net s"
    by (rule net_ok_alloc [OF ok free])
  have n: "length kbuf = n" "unat (word_of_int (int n) :: u64) = n"
    using user(2,3) by (auto simp: user_bytes_Some unat_of_nat_small)
  have m: "length (mac_addr (netconf s1)) = 6" "netconf s1 = netconf s" "page s1 sock = page s sock"
    using ok keepsD(1,4) [OF s1(11)] sock(2) by (auto simp: net_ok_def)
  obtain f where f: "build_datagram s1 (\<lambda>_. 5) (ucast (get32 (page s sock) sk_src_port)) (get16 (list_buf ka) 2)
      kbuf (get32 (list_buf ka) 4) dmac = Inr f"
    "datagram_frame f s1 (ucast (get32 (page s sock) sk_src_port)) (get16 (list_buf ka) 2) kbuf
      (get32 (list_buf ka) 4) dmac"
    using build_datagram_ok [OF _ arp(2) m(1)] n(1) user(3) by blast
  define L where "L = (word_of_int (int n + 8 + 20 + 14) :: u16)"
  have L: "unat L = n + 42" unfolding L_def by (subst unat_word_of_int_u16) (use user(3) in auto)
  then have L4: "unat L \<le> 4096" using user(3) by simp
  obtain s' where s': "bindE (transmit_packet nic (set_page s1 fr f) fr L) (\<lambda>s. n_kfree s fr) = Inr s'"
    "wire s' = wire s1 @ [replicate 10 0 @ bytes_of f 0 (unat L)]"
    "used_descs (txq (net s')) = used_descs (txq (net s1))" "tx_ready s'" "freelist (mem s') = fr # hs"
    "keeps (insert fr (insert h (tx_pages s1))) s1 s'" "tx_pages s' = tx_pages s1"
    by (rule send_frame [OF s1(9,10,8,3) nic s1(4-7) L4])
  have k: "keeps (insert fr (insert h (tx_pages s))) s s'"
    by (rule keeps_trans [OF s1(11) s'(6)]) (auto simp: s1(14))
  have r: "udp_sendto nic irqs s sock ubuf (int n) dest 16 = Inr (0, s')"
    using user arp(1) s1(1,2,12) sock(1) f(1) s'(1) n(2) m(3)
    by (auto simp: udp_sendto_def ucopyin_def resolve_def deref_def Let_def L_def bindE_eq_Inr)
  have "net_ok s'"
    using net_ok_sent [OF ok free s'(5,4) _ keepsD(3) [OF k] keepsD(4) [OF k]] s'(3) s1(15) by simp
  then show thesis
    using that [OF r _ _ _ s'(5) k] f(2) s'(2) s1(13) L m(2) by (simp add: datagram_frame_def)
qed

end
