(* ===== verification/NetRx.thy ===== *)
theory NetRx
  imports Udp
begin

text \<open>
  The receive path: \<open>handle_ip4_packet\<close> of \<^verbatim>\<open>kernel/sys/ip4.c\<close> and \<open>handle_packet\<close> and
  \<open>receive_packet\<close> of \<^verbatim>\<open>kernel/virtio_net.c\<close>, from the used ring of the device to
  the socket queues.
\<close>

section \<open>Operations\<close>

text \<open>
  The tests \<open>tcp < 0\<close> and \<open>udp < 0\<close> on pointers are never true, so a failed \<open>kalloc\<close> goes on
  to the \<open>memset\<close> of address zero.
\<close>

definition handle_ip4_packet :: "netst \<Rightarrow> addr \<Rightarrow> (int \<times> netst) result" where
  "handle_ip4_packet s ip4_pkt =
     (let proto = page s ip4_pkt 9
      in if proto = IPPROTO_TCP then
           let (tcp, s) = n_kalloc s
           in deref tcp (\<lambda>_.
              let s = set_page s tcp (\<lambda>_. 0)
              in bindE (parse_tcp_packet (page s ip4_pkt) ip4_payload
                          (uint (get16 (page s ip4_pkt) ip4_payload_len)) (page s tcp)) (\<lambda>(r, t).
                 let s = set_page s tcp t
                 in if r = 0 then bindE (handle_tcp_packet s tcp) (\<lambda>(_, s). Inr (0, s)) else Inr (0, s)))
         else if proto = IPPROTO_UDP then
           let (udp, s) = n_kalloc s
           in deref udp (\<lambda>_.
              let s = set_page s udp (\<lambda>_. 0)
              in bindE (parse_udp_packet (page s ip4_pkt) ip4_payload
                          (uint (get16 (page s ip4_pkt) ip4_payload_len)) (page s udp)) (\<lambda>(r, u).
                 let s = set_page s udp u
                 in if r = 0 then bindE (handle_udp_packet s udp) (\<lambda>(_, s). Inr (0, s)) else Inr (0, s)))
         else Inr (0, s))"

text \<open>\<open>packet\<close> points to offset \<open>off\<close> of page \<open>p\<close>. The results of \<open>kalloc\<close> are not tested.\<close>

definition handle_packet ::
  "(netst \<Rightarrow> buf option) \<Rightarrow> netst \<Rightarrow> addr \<Rightarrow> nat \<Rightarrow> int \<Rightarrow> netst result" where
  "handle_packet nic s p off len =
     (let (eth_frame, s) = n_kalloc s;
          (ip4_pkt, s) = n_kalloc s
      in deref eth_frame (\<lambda>_.
         let s = set_page s eth_frame (\<lambda>_. 0)
         in bindE (parse_eth_packet (page s p) off len (page s eth_frame)) (\<lambda>f.
            let s = set_page s eth_frame f;
                type = ntohs (eth_type f)
            in bindE (if type = PROTO_IPV4 then
                        deref ip4_pkt (\<lambda>_.
                          let s = set_page s ip4_pkt (\<lambda>_. 0)
                          in bindE (parse_ip4_packet (page s eth_frame) eth_payload
                                      (uint (page s eth_frame eth_payload_len)) (page s ip4_pkt)) (\<lambda>(r, i).
                             let s = set_page s ip4_pkt i
                             in if r = 0 then bindE (handle_ip4_packet s ip4_pkt) (\<lambda>(_, s). Inr s)
                                else Inr s))
                      else if type = PROTO_ARP then arp_recv nic s eth_frame eth_payload
                      else Inr s) (\<lambda>s.
               bindE (n_kfree s eth_frame) (\<lambda>s. n_kfree s ip4_pkt)))))"

text \<open>
  The loop of \<open>receive_packet\<close>, one trip: the used element at \<open>used_idx\<close>, the packet
  behind it, and the descriptor chain offered to the device again. \<open>used_idx\<close> is an
  \<open>int\<close>, the index in the ring page a 16-bit number.
\<close>

definition rx_pending :: "netst \<Rightarrow> bool" where
  "rx_pending s \<longleftrightarrow>
     used_idx (rxq (net s)) \<noteq> ucast (get16 (page s (device_area (rxq (net s)))) ring_idx)"

definition receive_one :: "(netst \<Rightarrow> buf option) \<Rightarrow> netst \<Rightarrow> netst result" where
  "receive_one nic s =
     (let q = rxq (net s);
          i = nat (sint (used_idx q) mod int NUM);
          id = unat (get32 (page s (device_area q)) (used_id i));
          len = sint (get32 (page s (device_area q)) (used_len i) - 10)
      in if id \<ge> 256 then Inl OutOfBounds
         else
           let d = page s (vq_desc q);
               nxt = unat (get16 d (desc_next id))
           in if nxt \<ge> 256 then Inl OutOfBounds
              else
                bindE (handle_packet nic s (get64 d (desc_addr nxt)) 10 len) (\<lambda>s.
                let q = (rxq (net s))\<lparr>used_idx := used_idx (rxq (net s)) + 1\<rparr>;
                    s = s\<lparr>net := (net s)\<lparr>rxq := q\<rparr>\<rparr>;
                    s = set_page s (driver_area q) (push_avail (page s (driver_area q)) (of_nat id))
                in Inr (reg_write s VIRTIO_MMIO_QUEUE_NOTIFY QUEUE_RX)))"

text \<open>The loop ends when the indices agree; \<^const>\<open>None\<close> is the endless run.\<close>

partial_function (option) receive_packet :: "(netst \<Rightarrow> buf option) \<Rightarrow> netst \<Rightarrow> netst result option" where
  "receive_packet nic s =
     (if rx_pending s
      then (case receive_one nic s of Inl e \<Rightarrow> Some (Inl e) | Inr s' \<Rightarrow> receive_packet nic s')
      else Some (Inr s))"

section \<open>Delivery to a bound socket\<close>

lemma rx_queue_cong:
  assumes "\<And>p. p \<in> insert sock (set qs) \<Longrightarrow> page t p = page s p" "rx_queue sock s qs"
  shows "rx_queue sock t qs"
  using assms rx_chain_cong [of qs s t] by (simp add: rx_queue_def)

lemma enqueue_frame:
  assumes "rx_queue sock s qs" "pkt \<notin> set qs" "pkt \<noteq> sock"
  shows "keeps (insert sock (insert pkt (set qs))) s (enqueue_udp_packet s pkt sock)"
    "freelist (mem (enqueue_udp_packet s pkt sock)) = freelist (mem s)"
    "net (enqueue_udp_packet s pkt sock) = net s" "refs (mem (enqueue_udp_packet s pkt sock)) = refs (mem s)"
    "page (enqueue_udp_packet s pkt sock) pkt = put64 (page s pkt) udp_next 0"
proof -
  have "get64 (page s sock) sk_rx_head \<noteq> 0 \<Longrightarrow> get64 (page s sock) sk_rx_tail \<in> set qs"
    using assms by (cases "qs = []") (auto simp: rx_queue_def)
  then show "keeps (insert sock (insert pkt (set qs))) s (enqueue_udp_packet s pkt sock)"
    using assms(3) by (simp add: enqueue_udp_packet_def Let_def keeps_def page_set_page)
  show "freelist (mem (enqueue_udp_packet s pkt sock)) = freelist (mem s)"
    "net (enqueue_udp_packet s pkt sock) = net s" "refs (mem (enqueue_udp_packet s pkt sock)) = refs (mem s)"
    by (simp_all add: enqueue_udp_packet_def Let_def)
  have "get64 (page s sock) sk_rx_head \<noteq> 0 \<Longrightarrow> get64 (page s sock) sk_rx_tail \<noteq> pkt"
    using assms by (cases "qs = []") (auto simp: rx_queue_def)
  then show "page (enqueue_udp_packet s pkt sock) pkt = put64 (page s pkt) udp_next 0"
    using assms(3) by (auto simp: enqueue_udp_packet_def Let_def page_set_page)
qed

text \<open>Port \<open>dp\<close> is bound to the UDP socket \<open>sock\<close>, whose queue holds \<open>qs\<close>.\<close>

definition udp_bound :: "netst \<Rightarrow> nat \<Rightarrow> addr \<Rightarrow> addr list \<Rightarrow> bool" where
  "udp_bound s dp sock qs \<longleftrightarrow>
     dp < MAX_PORT_BINDINGS \<and> dp < length (udp_port_binds s) \<and> sock \<noteq> 0 \<and>
     (let b = udp_port_binds s ! dp in b \<noteq> 0 \<and> get64 (page s b) pb_sock = sock) \<and>
     get32 (page s sock) sk_proto = PROTO_UDP \<and> rx_queue sock s qs"

definition udp_pages :: "netst \<Rightarrow> nat \<Rightarrow> addr \<Rightarrow> addr list \<Rightarrow> addr set" where
  "udp_pages s dp sock qs = {udp_port_binds s ! dp, sock} \<union> set qs"

lemma udp_bound_keeps:
  assumes "udp_bound s dp sock qs" "keeps A s t" "A \<inter> udp_pages s dp sock qs = {}"
  shows "udp_bound t dp sock qs" "udp_pages t dp sock qs = udp_pages s dp sock qs"
proof -
  have p: "page t p = page s p" if "p \<in> udp_pages s dp sock qs" for p
    using keepsD(1) [OF assms(2), of p] assms(3) that by auto
  have b: "udp_port_binds t = udp_port_binds s" by (rule keepsD(7) [OF assms(2)])
  have "rx_queue sock t qs"
    by (rule rx_queue_cong [of sock qs t s]) (use p assms(1) in \<open>auto simp: udp_pages_def udp_bound_def\<close>)
  then show "udp_bound t dp sock qs"
    using assms(1) p b by (auto simp: udp_bound_def udp_pages_def Let_def)
  show "udp_pages t dp sock qs = udp_pages s dp sock qs" by (simp add: udp_pages_def b)
qed

lemma handle_udp_delivers:
  assumes b: "udp_bound s dp sock qs" and dp: "unat (get16 (page s pkt) 2) = dp"
  shows "handle_udp_packet s pkt = Inr (0, enqueue_udp_packet s pkt sock)"
  using b dp by (simp add: handle_udp_packet_def udp_bound_def bind_at_def deref_def Let_def)

text \<open>An IPv4 packet that carries a well-formed datagram for a bound port.\<close>

lemma handle_ip4_delivers:
  assumes b: "udp_bound s dp sock qs" and free: "freelist (mem s) = u # fs"
    and sep: "u \<notin> udp_pages s dp sock qs" "u \<noteq> i" "i \<notin> udp_pages s dp sock qs" "u \<noteq> 0"
    and ip: "page s i 9 = IPPROTO_UDP" "L = uint (get16 (page s i) ip4_payload_len)" "8 \<le> L" "L \<le> 1500"
      "8 \<le> ntohs (get16 (page s i) 24)" "uint (ntohs (get16 (page s i) 24)) \<le> L"
      "unat (ntohs (get16 (page s i) 22)) = dp"
  obtains s' where "handle_ip4_packet s i = Inr (0, s')" "rx_queue sock s' (qs @ [u])"
    "keeps (insert u (insert sock (set qs))) s s'" "freelist (mem s') = fs" "net s' = net s" "refs (mem s') u = 1"
    "get32 (page s' u) udp_payload_len = word_of_int (L - 8)"
    "\<forall>k < nat L - 8. page s' u (udp_payload + k) = page s i (28 + k)"
    "get16 (page s' u) 0 = ntohs (get16 (page s i) 20)"
proof -
  obtain s1 where s1: "n_kalloc s = (u, s1)" "freelist (mem s1) = fs" "keeps {u} s s1" "net s1 = net s"
    "refs (mem s1) u = 1"
    using n_kalloc_some [OF free] by metis
  have pi: "page s1 i = page s i" using keepsD(1) [OF s1(3)] sep(2) by simp
  have L: "8 \<le> L" "L \<le> 1508" "20 + nat L \<le> 4096"
    "8 \<le> ntohs (get16 (page s i) (20 + 4))" "uint (ntohs (get16 (page s i) (20 + 4))) \<le> L"
    using ip(3-6) by (auto simp: nat_le_iff)
  obtain f where f: "parse_udp_packet (page s i) 20 L (\<lambda>_. 0) = Inr (0, f)"
    "get16 f 0 = ntohs (get16 (page s i) 20)" "get16 f 2 = ntohs (get16 (page s i) (20 + 2))"
    "get32 f udp_payload_len = word_of_int (L - 8)"
    "\<forall>k < nat L - 8. f (udp_payload + k) = page s i (20 + 8 + k)"
    by (rule parse_udp_ok [where pkt = "\<lambda>_. 0", OF L])
  define s2 where "s2 = set_page s1 u f"
  have k2: "keeps {u} s s2"
    using keeps_trans [OF s1(3) keeps_set_page [of u "{u}" s1 f], of "{u}"] by (simp add: s2_def)
  have b2: "udp_bound s2 dp sock qs"
    by (rule udp_bound_keeps(1) [OF b k2]) (use sep(1) in auto)
  have nq: "rx_queue sock s2 qs" "u \<notin> set qs" "u \<noteq> sock"
    using b2 sep(1) by (auto simp: udp_bound_def udp_pages_def)
  define s' where "s' = enqueue_udp_packet s2 u sock"
  have pt: "unat (get16 (page s2 u) 2) = dp" using f(3) ip(7) by (simp add: s2_def)
  have r: "handle_ip4_packet s i = Inr (0, s')"
    using s1(1) sep(2,4) ip(1,2) f(1) pi handle_udp_delivers [OF b2 pt]
    by (simp add: handle_ip4_packet_def deref_def s'_def s2_def Let_def IPPROTO_TCP_def IPPROTO_UDP_def)
  note E = enqueue_frame [OF nq, folded s'_def]
  have k': "keeps (insert u (insert sock (set qs))) s s'"
    by (rule keeps_trans [OF k2 E(1)]) auto
  have pu: "page s' u = put64 f udp_next 0" using E(5) by (simp add: s2_def)
  show thesis
  proof (rule that [OF r _ k'])
    show "rx_queue sock s' (qs @ [u])" unfolding s'_def by (rule enqueue_rx_queue [OF nq sep(4)])
    show "freelist (mem s') = fs" "net s' = net s" "refs (mem s') u = 1" using E(2-4) s1 by (simp_all add: s2_def)
    show "get32 (page s' u) udp_payload_len = word_of_int (L - 8)"
      "get16 (page s' u) 0 = ntohs (get16 (page s i) 20)"
      using f by (simp_all add: pu buf_simps)
    have "nat L - 8 \<le> 1500" using ip(4) by (simp add: nat_le_iff)
    then show "\<forall>k < nat L - 8. page s' u (udp_payload + k) = page s i (28 + k)"
      using f(5) by (simp add: pu put64_other)
  qed
qed

text \<open>
  A frame that carries a datagram for port \<open>dp\<close>. Its length must fit the 8-bit
  \<open>payload_len\<close> of \<open>struct eth_frame\<close>.
\<close>

definition udp_frame_for :: "buf \<Rightarrow> int \<Rightarrow> nat \<Rightarrow> bool" where
  "udp_frame_for f len dp \<longleftrightarrow>
     42 \<le> len \<and> len \<le> 14 + 255 \<and> ntohs (get16 f 12) = PROTO_IPV4 \<and> f 14 = 69 \<and> f 23 = IPPROTO_UDP \<and>
     uint (ntohs (get16 f 16)) \<le> len - 14 \<and> 8 \<le> ntohs (get16 f 38) \<and>
     uint (ntohs (get16 f 38)) \<le> len - 34 \<and> unat (ntohs (get16 f 36)) = dp"

lemma uint_word_of_int_u8: "0 \<le> n \<Longrightarrow> n \<le> 255 \<Longrightarrow> uint (word_of_int n :: u8) = n"
  by (simp add: uint_word_of_int)

lemma uint_word_of_int_u16: "0 \<le> n \<Longrightarrow> n < 65536 \<Longrightarrow> uint (word_of_int n :: u16) = n"
  by (simp add: uint_word_of_int)

text \<open>The parsed IPv4 packet satisfies what \<open>handle_ip4_delivers\<close> asks for.\<close>

lemma udp_frame_parsed:
  assumes f: "udp_frame_for f len dp" and g: "\<And>k. k < nat len \<Longrightarrow> g k = f k"
    and gl: "g eth_payload_len = word_of_int (len - 14)"
  obtains i where "parse_ip4_packet g eth_payload (uint (g eth_payload_len)) (\<lambda>_. 0) = Inr (0, i)"
    "i 9 = IPPROTO_UDP" "uint (get16 i ip4_payload_len) = len - 34"
    "8 \<le> ntohs (get16 i 24)" "uint (ntohs (get16 i 24)) \<le> len - 34" "unat (ntohs (get16 i 22)) = dp"
    "get16 i 20 = get16 f 34" "\<forall>k < nat len - 42. i (28 + k) = f (42 + k)"
proof -
  note F = f [unfolded udp_frame_for_def]
  have n: "42 \<le> nat len" using F by linarith
  have L: "uint (g eth_payload_len) = len - 14" using F by (simp only: gl) (rule uint_word_of_int_u8; simp)
  have "get16 g 16 = get16 f 16" by (rule get16_cong) (use n g in auto)
  moreover have "g 14 = 69" "g (14 + 9) = IPPROTO_UDP" using F n g by simp_all
  ultimately have "g 14 = 69" "g (14 + 9) = IPPROTO_UDP" "get16 g (14 + 2) = get16 f 16" by simp_all
  then have prems: "g 14 = 69" "uint (ntohs (get16 g (14 + 2))) \<le> len - 14" "20 \<le> len - 14" "len - 14 \<le> 1520"
    "14 + nat (len - 14) \<le> 4096" "g (14 + 9) = IPPROTO_UDP"
    using F by (auto simp: nat_le_iff)
  obtain i where i: "parse_ip4_packet g 14 (len - 14) (\<lambda>_. 0) = Inr (0, i)" "i 9 = g (14 + 9)"
    "get16 i ip4_payload_len = word_of_int (len - 14 - 20)"
    "\<forall>k < nat (len - 14) - 20. i (ip4_payload + k) = g (14 + 20 + k)"
    by (rule parse_ip4_ok [where pkt = "\<lambda>_. 0", OF prems(1-5)])
  have d: "nat (len - 14) - 20 = nat len - 34" by (simp add: nat_diff_distrib)
  have ik: "i (20 + k) = f (34 + k)" if "k < nat len - 34" for k
    using i(4) d that g [of "34 + k"] by simp
  have w: "get16 i (20 + 0) = get16 f 34" "get16 i (20 + 2) = get16 f 36" "get16 i (20 + 4) = get16 f 38"
    using n ik [of 0] ik [of 1] ik [of 2] ik [of 3] ik [of 4] ik [of 5]
    by (auto intro!: get16_cong simp: eval_nat_numeral)
  have "uint (get16 i ip4_payload_len) = len - 34"
    using F i(3) uint_word_of_int_u16 [of "len - 34"] by simp
  moreover have "\<forall>k < nat len - 42. i (28 + k) = f (42 + k)"
    using ik [of "8 + _"] by (auto simp: less_diff_conv)
  ultimately show thesis
    using that [of i] i(1,2) prems(6) L F w by simp
qed

lemma n_kalloc_two:
  assumes "freelist (mem s) = e # i # fs" "e \<noteq> i"
  obtains s1 s2 where "n_kalloc s = (e, s1)" "n_kalloc s1 = (i, s2)" "freelist (mem s2) = fs"
    "keeps {e, i} s s2" "refs (mem s2) e = 1" "refs (mem s2) i = 1"
proof -
  obtain s1 where s1: "n_kalloc s = (e, s1)" "freelist (mem s1) = i # fs" "keeps {e} s s1" "refs (mem s1) e = 1"
    using n_kalloc_some [OF assms(1)] by metis
  obtain s2 where s2: "n_kalloc s1 = (i, s2)" "freelist (mem s2) = fs" "keeps {i} s1 s2" "refs (mem s2) i = 1"
    using n_kalloc_some [OF s1(2)] by metis
  have "keeps {e, i} s s2" by (rule keeps_trans [OF s1(3) s2(3)]) auto
  moreover have "refs (mem s2) e = 1" using keepsD(2) [OF s2(3), of e] s1(4) assms(2) by simp
  ultimately show thesis using that s1 s2 by blast
qed

lemma n_kfree_two:
  assumes "refs (mem s) e = 1" "refs (mem s) i = 1" "e \<noteq> i" "valid_page (pend (mem s)) e"
    "valid_page (pend (mem s)) i"
  obtains s1 s2 where "n_kfree s e = Inr s1" "n_kfree s1 i = Inr s2"
    "freelist (mem s2) = i # e # freelist (mem s)" "keeps {e, i} s s2"
proof -
  obtain s1 where s1: "n_kfree s e = Inr s1" "freelist (mem s1) = e # freelist (mem s)" "keeps {e} s s1"
    using n_kfree_owned [of s e] assms by (metis order_refl)
  have "refs (mem s1) i = 1" "valid_page (pend (mem s1)) i"
    using keepsD(2,3) [OF s1(3)] assms by auto
  then obtain s2 where s2: "n_kfree s1 i = Inr s2" "freelist (mem s2) = i # e # freelist (mem s)" "keeps {i} s1 s2"
    using n_kfree_owned [of s1 i] s1(2) by (metis order_refl)
  have "keeps {e, i} s s2" by (rule keeps_trans [OF s1(3) s2(3)]) auto
  then show thesis using that s1 s2 by blast
qed

lemma handle_packet_delivers:
  assumes ok: "pool_ok (mem s)" and free: "freelist (mem s) = e # i # u # fs"
    and b: "udp_bound s dp sock qs" and sep: "udp_pages s dp sock qs \<inter> {e, i, u} = {}"
    and f: "udp_frame_for f len dp" and p: "p \<notin> {e, i, u}" "off + nat len \<le> 4096"
      "\<And>k. k < nat len \<Longrightarrow> page s p (off + k) = f k"
  obtains s' where "handle_packet nic s p off len = Inr s'" "rx_queue sock s' (qs @ [u])"
    "freelist (mem s') = i # e # fs" "keeps ({e, i, u, sock} \<union> set qs) s s'" "refs (mem s') u = 1"
    "get32 (page s' u) udp_payload_len = word_of_int (len - 42)"
    "bytes_of (page s' u) udp_payload (nat len - 42) = bytes_of f 42 (nat len - 42)"
    "get16 (page s' u) 0 = ntohs (get16 f 34)"
proof -
  have len: "14 \<le> len" "nat len \<le> 1514" "42 \<le> len" "len \<le> 269"
    using f by (auto simp: udp_frame_for_def)
  have nz: "e \<noteq> 0" "i \<noteq> 0" "u \<noteq> 0" "e \<noteq> i" "e \<noteq> u" "u \<noteq> i"
      "valid_page (pend (mem s)) e" "valid_page (pend (mem s)) i"
    using pool_alloc.avail_distinct [OF ok] ok free by (auto simp: pool_ok_def)
  obtain s1 s2 where s2: "n_kalloc s = (e, s1)" "n_kalloc s1 = (i, s2)" "freelist (mem s2) = u # fs"
    "keeps {e, i} s s2" "refs (mem s2) e = 1" "refs (mem s2) i = 1"
    by (rule n_kalloc_two [OF free nz(4)])
  have "page s2 p = page s p" using keepsD(1) [OF s2(4), of p] p(1) by simp
  then obtain g where g: "parse_eth_packet (page s2 p) off len (\<lambda>_. 0) = Inr g"
    "\<And>k. k < nat len \<Longrightarrow> g k = f k" "g eth_payload_len = word_of_int (len - 14)"
    using parse_eth_packet_ok [OF len(1) p(2) len(2), of "page s2 p" "\<lambda>_. 0"] p(3) by metis
  obtain j where j: "parse_ip4_packet g eth_payload (uint (g eth_payload_len)) (\<lambda>_. 0) = Inr (0, j)"
    "j 9 = IPPROTO_UDP" "uint (get16 j ip4_payload_len) = len - 34"
    "8 \<le> ntohs (get16 j 24)" "uint (ntohs (get16 j 24)) \<le> len - 34" "unat (ntohs (get16 j 22)) = dp"
    "get16 j 20 = get16 f 34" "\<forall>k < nat len - 42. j (28 + k) = f (42 + k)"
    by (rule udp_frame_parsed [OF f g(2,3)])
  have "get16 g 12 = get16 f 12" by (rule get16_cong) (use g(2) len in auto)
  then have ty: "ntohs (eth_type g) = PROTO_IPV4" using f by (simp add: eth_type_def udp_frame_for_def)
  define s3 where "s3 = set_page (set_page s2 e g) i j"
  have k23: "keeps {e, i} s2 s3" by (auto simp: s3_def keeps_def page_set_page)
  have k3: "keeps {e, i} s s3" by (rule keeps_trans [OF s2(4) k23]) auto
  have b3: "udp_bound s3 dp sock qs" "udp_pages s3 dp sock qs = udp_pages s dp sock qs"
    using udp_bound_keeps [OF b k3] sep by auto
  have s3: "freelist (mem s3) = u # fs" "page s3 i = j" "refs (mem s3) = refs (mem s2)"
    using s2(3) by (simp_all add: s3_def)
  have i3: "u \<notin> udp_pages s3 dp sock qs" "u \<noteq> i" "i \<notin> udp_pages s3 dp sock qs"
    using b3(2) sep nz by auto
  obtain s4 where s4: "handle_ip4_packet s3 i = Inr (0, s4)" "rx_queue sock s4 (qs @ [u])"
    "keeps (insert u (insert sock (set qs))) s3 s4" "freelist (mem s4) = fs" "refs (mem s4) u = 1"
    "get32 (page s4 u) udp_payload_len = word_of_int (len - 34 - 8)"
    "\<forall>k < nat (len - 34) - 8. page s4 u (udp_payload + k) = j (28 + k)"
    "get16 (page s4 u) 0 = ntohs (get16 j 20)"
    by (rule handle_ip4_delivers [OF b3(1) s3(1) i3 nz(3), unfolded s3(2), OF j(2) j(3) [symmetric] _ _ j(4-6)])
      (use len in auto)
  have ei: "e \<notin> insert u (insert sock (set qs))" "i \<notin> insert u (insert sock (set qs))"
    using nz sep by (auto simp: udp_pages_def)
  have m4: "refs (mem s4) e = 1" "refs (mem s4) i = 1" "pend (mem s4) = pend (mem s)"
    using keepsD(2,3) [OF s4(3)] ei keepsD(3) [OF k3] s2(5,6) s3(3) by auto
  obtain s5 s6 where s6: "n_kfree s4 e = Inr s5" "n_kfree s5 i = Inr s6" "freelist (mem s6) = i # e # fs"
    "keeps {e, i} s4 s6"
    using n_kfree_two [OF m4(1,2) nz(4)] nz(7,8) m4(3) s4(4) by metis
  have r: "handle_packet nic s p off len = Inr s6"
    using s2(1,2) nz g(1) ty j(1) s4(1) s6(1,2) p(1) by (simp add: handle_packet_def deref_def Let_def s3_def)
  have p46: "page s6 x = page s4 x" if "x \<notin> {e, i}" for x using keepsD(1) [OF s6(4) that] .
  have "keeps ({e, i, u, sock} \<union> set qs) s s4" by (rule keeps_trans [OF k3 s4(3)]) auto
  then have k6: "keeps ({e, i, u, sock} \<union> set qs) s s6" by (rule keeps_trans [OF _ s6(4)]) auto
  have q6: "rx_queue sock s6 (qs @ [u])"
    by (rule rx_queue_cong [OF _ s4(2)]) (rule p46, use ei nz in auto)
  have "bytes_of (page s4 u) udp_payload (nat len - 42) = bytes_of f 42 (nat len - 42)"
    using s4(7) j(8) by (intro bytes_of_cong) (simp add: nat_diff_distrib)
  moreover have "page s6 u = page s4 u" by (rule p46) (use nz in auto)
  moreover have "refs (mem s6) u = 1" using keepsD(2) [OF s6(4), of u] s4(5) nz by simp
  ultimately show thesis using that [OF r q6 s6(3) k6] s4(6,8) j(7) by simp
qed

section \<open>Reading a datagram\<close>

lemma user_bytes_copied:
  assumes "\<forall>k < length bs. u (va + of_nat k) \<noteq> None" "length bs < 2 ^ 64"
  obtains v where "ucopyout_loop u va bs = (True, v)" "user_bytes v va (length bs) = Some bs"
  using ucopyout_loop_ok [OF assms] that by (cases "ucopyout_loop u va bs") (auto simp: user_bytes_Some)

lemma udp_recvfrom_ok:
  assumes q: "rx_queue sock s (p # qs)" and sock: "sock \<noteq> 0"
    and n: "get32 (page s p) udp_payload_len = word_of_int (int n)" "n \<le> 1500"
    and u: "\<forall>k < n. umem s (ubuf + of_nat k) \<noteq> None"
    and p: "valid_page (pend (mem s)) p" "refs (mem s) p \<le> 1"
  obtains s' where "udp_recvfrom s sock ubuf len = Inr (if int n < len then int n else len, s')"
    "user_bytes (umem s') ubuf n = Some (bytes_of (page s p) udp_payload n)"
    "rx_queue sock s' qs" "freelist (mem s') = p # freelist (mem s)"
proof -
  obtain s1 where s1: "dequeue_udp_packet s sock = (p, s1)" "rx_queue sock s1 qs" "keeps {sock} s s1"
    "freelist (mem s1) = freelist (mem s)" using dequeue_rx_queue [OF q] by blast
  have ps: "p \<noteq> sock" "get64 (page s sock) sk_rx_head \<noteq> 0" "p \<notin> set qs"
    using q by (auto simp: rx_queue_def)
  have pp: "page s1 p = page s p" "umem s1 = umem s" "pend (mem s1) = pend (mem s)" "refs (mem s1) p = refs (mem s) p"
    using keepsD [OF s1(3)] ps(1) by auto
  have plen: "sint (word_of_int (int n) :: u32) = int n" using n(2) by (intro sint_of_int_small) auto
  have un: "unat (word_of_int (int n) :: u64) = n" using n(2) by (simp add: unat_of_nat_small)
  have "(scast (word_of_nat n :: u32) :: u64) = word_of_int (sint (word_of_nat n :: u32))" by simp
  then have sn: "unat (scast (word_of_nat n :: u32) :: u64) = n" using un plen by (simp only: of_int_of_nat_eq)
  define bs where "bs = bytes_of (page s p) udp_payload n"
  have lb: "length bs = n" by (simp add: bs_def)
  obtain v where C: "ucopyout_loop (umem s) ubuf bs = (True, v)" "user_bytes v ubuf n = Some bs"
    using user_bytes_copied [of bs "umem s" ubuf] u n(2) lb by auto
  define s2 where "s2 = s1\<lparr>umem := v\<rparr>"
  have c2: "ucopyout s1 ubuf bs = (True, s2)" using C(1) pp(2) by (simp add: ucopyout_def s2_def)
  have m2: "mem s2 = mem s1" "page s2 = page s1" by (simp_all add: s2_def)
  obtain s' where s': "n_kfree s2 p = Inr s'" "freelist (mem s') = p # freelist (mem s2)" "keeps {p} s2 s'"
    using n_kfree_owned [of s2 p] p pp by (metis m2(1))
  have r: "udp_recvfrom s sock ubuf len = Inr (if int n < len then int n else len, s')"
    using sock ps s1(1) n(1) plen sn c2 s'(1) pp(1)
    by (simp add: udp_recvfrom_def deref_def Let_def bs_def [symmetric])
  have "rx_queue sock s' qs"
  proof (rule rx_queue_cong [OF _ s1(2)])
    fix x assume "x \<in> insert sock (set qs)"
    then have "x \<noteq> p" using ps by auto
    then show "page s' x = page s1 x" using keepsD(1) [OF s'(3), of x] m2(2) by simp
  qed
  moreover have "umem s' = v" using keepsD(14) [OF s'(3)] by (simp add: s2_def)
  ultimately show thesis using that [OF r] C(2) s'(2) s1(4) m2(1) by (simp add: bs_def)
qed

section \<open>From the wire to the queue\<close>

text \<open>A frame that \<open>udp_sendto\<close> puts on the wire is one that the receive path accepts.\<close>

lemma datagram_frame_for:
  assumes "datagram_frame f s sp dp kbuf dip dmac" "length kbuf \<le> 227"
  shows "udp_frame_for f (int (length kbuf) + 42) (unat (ntohs dp))"
proof -
  note D = assms(1) [unfolded datagram_frame_def]
  have n: "uint (x :: u16) = int (length kbuf + c)" if "x = of_nat (length kbuf + c)" "c \<le> 28" for x c
  proof -
    have "unat (of_nat (length kbuf + c) :: u16) = length kbuf + c"
      by (rule unat_of_nat_small) (use assms(2) that(2) in simp)
    then show ?thesis using that(1) by (simp only: uint_nat)
  qed
  have t: "uint (ntohs (get16 f 16)) = int (length kbuf + 28)" by (rule n) (use D in auto)
  have u: "uint (ntohs (get16 f 38)) = int (length kbuf + 8)" by (rule n) (use D in auto)
  have "8 \<le> ntohs (get16 f 38)" using u by (simp only: word_le_def) simp
  then show ?thesis
    using D assms(2) t u by (simp only: udp_frame_for_def eth_type_def) simp
qed

text \<open>The device has stored a virtio header and the frame in the receive buffer \<open>p\<close>.\<close>

lemma received_bytes:
  assumes "w = replicate 10 0 @ bytes_of f 0 n" "k < n"
  shows "page (set_page s p (list_buf w)) p (10 + k) = f k"
  using assms by (simp add: list_buf_def put_bytes_apply nth_append)

section \<open>Binding\<close>

lemma insert_port_binding_udp:
  assumes "get64 (page s b) pb_sock = sock" "sock \<noteq> 0" "get32 (page s sock) sk_proto = PROTO_UDP"
    "unat (get16 (page s b) pb_port) < length (udp_port_binds s)"
  shows "insert_port_binding s b =
    Inr (0, s\<lparr>udp_port_binds := (udp_port_binds s)[unat (get16 (page s b) pb_port) := b]\<rparr>)"
  using assms by (simp add: insert_port_binding_def deref_def PROTO_TCP_def PROTO_UDP_def)

text \<open>A socket that has not been bound: its queue is empty and it is no free page.\<close>

definition udp_fresh :: "netst \<Rightarrow> addr \<Rightarrow> bool" where
  "udp_fresh s sock \<longleftrightarrow>
     sock \<noteq> 0 \<and> sock \<notin> set (freelist (mem s)) \<and> get32 (page s sock) sk_proto = PROTO_UDP \<and>
     get32 (page s sock) sk_family = AF_INET \<and> rx_queue sock s []"

lemma udp_bind_ok:
  assumes f: "udp_fresh s sock" and ok: "pool_ok (mem s)" and free: "freelist (mem s) = b # fs"
    and port: "0 < unat (ntohs (get16 a 2))" "unat (ntohs (get16 a 2)) < MAX_PORT_BINDINGS"
    and tbl: "length (udp_port_binds s) = MAX_PORT_BINDINGS" "udp_port_binds s ! unat (ntohs (get16 a 2)) = 0"
  obtains s' where "udp_bind s sock (Some a) 16 = Inr (0, s')" "udp_bound s' (unat (ntohs (get16 a 2))) sock []"
    "length (udp_port_binds s') = MAX_PORT_BINDINGS" "udp_port_binds s' ! unat (ntohs (get16 a 2)) = b"
    "freelist (mem s') = fs" "b \<noteq> 0"
proof -
  define pt where "pt = ntohs (get16 a 2)"
  define ip where "ip = get32 a 4"
  have F: "sock \<noteq> 0" "b \<noteq> sock" "b \<noteq> 0" "get32 (page s sock) sk_proto = PROTO_UDP"
    "get32 (page s sock) sk_family = AF_INET" "rx_queue sock s []"
    using f free pool_alloc.avail_distinct [OF ok] by (auto simp: udp_fresh_def)
  obtain s1 where s1: "n_kalloc s = (b, s1)" "freelist (mem s1) = fs" "keeps {b} s s1"
    using n_kalloc_some [OF free] by metis
  define s2 where "s2 = fill_binding s1 b sock pt ip"
  define s3 where "s3 = s2\<lparr>udp_port_binds := (udp_port_binds s)[unat pt := b]\<rparr>"
  define k where "k = put32 (put32 (page s3 sock) sk_src_port (ucast pt)) sk_state BOUND"
  note P = fill_binding_pages [OF F(2), where s = s1 and port = pt and a = ip, folded s2_def]
  have s1p: "page s1 sock = page s sock" "udp_port_binds s1 = udp_port_binds s"
    using keepsD [OF s1(3)] F(2) by auto
  have pr: "get32 (page s2 sock) sk_proto = PROTO_UDP" "udp_port_binds s2 = udp_port_binds s"
    using P(3,6) s1p F(4) by (simp_all add: buf_simps)
  have ins: "insert_port_binding s2 b = Inr (0, s3)"
    using insert_port_binding_udp [OF P(1) F(1) pr(1)] P(2) pr(2) port(2) tbl(1)
    by (simp add: s3_def pt_def)
  have nb: "new_binding s sock pt ip = Inr (True, s3)"
    using s1(1) F(3) ins by (simp add: new_binding_def s2_def)
  have "udp_bind s sock (Some a) 16 = Inr (0, set_page s3 sock k)"
    using F(1,5) port tbl nb by (simp add: udp_bind_def bind_at_def Let_def pt_def ip_def k_def)
  moreover have "udp_bound (set_page s3 sock k) (unat pt) sock []"
    using F port tbl P(1) pr s1p P(3)
    by (auto simp: udp_bound_def pt_def s3_def k_def buf_simps rx_queue_def)
  moreover have "length (udp_port_binds (set_page s3 sock k)) = MAX_PORT_BINDINGS"
    "udp_port_binds (set_page s3 sock k) ! unat pt = b" "freelist (mem (set_page s3 sock k)) = fs"
    using tbl(1) port(2) P(7) s1(2) by (simp_all add: s3_def pt_def)
  ultimately show thesis using that F(3) unfolding pt_def by blast
qed


definition dgram_net :: netst where
  "dgram_net = set_page idle_net 0x80120000 (put32 (put32 (\<lambda>_. 0) sk_proto PROTO_UDP) sk_family AF_INET)"


end
