(* ===== verification/SocketCalls.thy ===== *)
theory SocketCalls
  imports Udp
begin

text \<open>
  The calls of \<^verbatim>\<open>kernel/sys/socket.c\<close> that go through \<open>struct socket_ops\<close>. The
  two operation tables \<open>udp_ops\<close> and \<open>tcp_ops\<close> are identified by their addresses; a null entry
  of a table, or a pointer to neither table, is a call through a wild pointer.
\<close>

section \<open>The operation tables\<close>

datatype ops_table = UdpOps | TcpOps

definition ops_of :: "netst \<Rightarrow> addr \<Rightarrow> ops_table result" where
  "ops_of s sock =
     deref sock (\<lambda>_.
       let ops = get64 (page s sock) sk_ops
       in if ops = 0 then Inl NullDeref
          else if ops = udp_ops s then Inr UdpOps
          else if ops = tcp_ops s then Inr TcpOps
          else Inl NullDeref)"

definition ops_bind :: "netst \<Rightarrow> addr \<Rightarrow> buf option \<Rightarrow> u32 \<Rightarrow> (int \<times> netst) result" where
  "ops_bind s sock a addrlen =
     bindE (ops_of s sock) (\<lambda>t. case t of UdpOps \<Rightarrow> udp_bind s sock a addrlen
                                        | TcpOps \<Rightarrow> tcp_bind s sock a addrlen)"

definition ops_listen :: "netst \<Rightarrow> addr \<Rightarrow> int \<Rightarrow> (int \<times> netst) result" where
  "ops_listen s sock backlog =
     bindE (ops_of s sock) (\<lambda>t. case t of UdpOps \<Rightarrow> Inl NullDeref
                                        | TcpOps \<Rightarrow> tcp_listen s sock backlog)"

definition ops_sendto ::
  "(netst \<Rightarrow> buf option) \<Rightarrow> (netst \<Rightarrow> netst result) list \<Rightarrow> netst \<Rightarrow>
   addr \<Rightarrow> addr \<Rightarrow> int \<Rightarrow> addr \<Rightarrow> u32 \<Rightarrow> (int \<times> netst) result" where
  "ops_sendto nic irqs s sock ubuf len dest addrlen =
     bindE (ops_of s sock) (\<lambda>t. case t of UdpOps \<Rightarrow> udp_sendto nic irqs s sock ubuf len dest addrlen
                                        | TcpOps \<Rightarrow> Inl NullDeref)"

definition ops_recvfrom :: "netst \<Rightarrow> addr \<Rightarrow> addr \<Rightarrow> int \<Rightarrow> (int \<times> netst) result" where
  "ops_recvfrom s sock ubuf len =
     bindE (ops_of s sock) (\<lambda>t. case t of UdpOps \<Rightarrow> udp_recvfrom s sock ubuf len
                                        | TcpOps \<Rightarrow> Inl NullDeref)"

definition ops_close :: "netst \<Rightarrow> addr \<Rightarrow> (int \<times> netst) result" where
  "ops_close s sock =
     bindE (ops_of s sock) (\<lambda>t. case t of UdpOps \<Rightarrow> udp_close s sock | TcpOps \<Rightarrow> tcp_close s sock)"

section \<open>Calls by file descriptor\<close>

definition bind :: "netst \<Rightarrow> u32 \<Rightarrow> buf option \<Rightarrow> u32 \<Rightarrow> (int \<times> netst) result" where
  "bind s socket sock_address address_len =
     bindE (getsock s socket) (\<lambda>sock.
       if sock = 0 then Inr (- 1, s) else ops_bind s sock sock_address address_len)"

definition listen :: "netst \<Rightarrow> u32 \<Rightarrow> int \<Rightarrow> (int \<times> netst) result" where
  "listen s socket backlog =
     bindE (getsock s socket) (\<lambda>sock.
       if sock = 0 then Inr (- 1, s)
       else bindE (ops_listen s sock backlog) (\<lambda>(_, s). Inr (0, s)))"

text \<open>\<open>accept\<close> sleeps until somebody sets \<open>pending\<close>; nothing in the repository does.\<close>

definition accept :: "netst \<Rightarrow> u32 \<Rightarrow> (int \<times> netst) result" where
  "accept s socket =
     bindE (getsock s socket) (\<lambda>sock.
       if sock = 0 then Inr (- 1, s)
       else if get32 (page s sock) sk_proto \<noteq> PROTO_TCP \<or> get32 (page s sock) sk_type \<noteq> SOCK_STREAM
       then Inr (- 1, s)
       else if get32 (page s sock) sk_state \<noteq> LISTENING then Inr (- 1, s)
       else if get64 (page s sock) sk_pending = 0 then Inl Sleeps
       else Inr (sint (get32 (page s sock) sk_fd), s))"

definition connect :: "netst \<Rightarrow> u32 \<Rightarrow> buf option \<Rightarrow> u32 \<Rightarrow> (int \<times> netst) result" where
  "connect s socket address address_len = Inr (0, s)"

definition close :: "netst \<Rightarrow> u32 \<Rightarrow> (int \<times> netst) result" where
  "close s fd = Inr (0, s)"

definition send :: "netst \<Rightarrow> u32 \<Rightarrow> addr \<Rightarrow> int \<Rightarrow> int \<Rightarrow> (int \<times> netst) result" where
  "send s socket msg len flags = Inr (0, s)"

definition recv :: "netst \<Rightarrow> u32 \<Rightarrow> addr \<Rightarrow> int \<Rightarrow> int \<Rightarrow> (int \<times> netst) result" where
  "recv s socket buf len flags = Inr (0, s)"

definition sendto ::
  "(netst \<Rightarrow> buf option) \<Rightarrow> (netst \<Rightarrow> netst result) list \<Rightarrow> netst \<Rightarrow>
   u32 \<Rightarrow> addr \<Rightarrow> int \<Rightarrow> addr \<Rightarrow> u32 \<Rightarrow> (int \<times> netst) result" where
  "sendto nic irqs s socket msg len dst_addr dst_len =
     bindE (getsock s socket) (\<lambda>sock.
       if sock = 0 then Inr (- 1, s) else ops_sendto nic irqs s sock msg len dst_addr dst_len)"

definition recvfrom :: "netst \<Rightarrow> u32 \<Rightarrow> addr \<Rightarrow> int \<Rightarrow> (int \<times> netst) result" where
  "recvfrom s socket buffer len =
     bindE (getsock s socket) (\<lambda>sock.
       if sock = 0 then Inr (- 1, s) else ops_recvfrom s sock buffer len)"

section \<open>The socket lists after boot\<close>

lemma make_sock_list_ok:
  assumes "freelist (mem s) = l # p # ps" "l \<noteq> 0" "p \<noteq> 0" "l \<noteq> p"
  obtains s' where "make_sock_list s = Inr (l, s')" "freelist (mem s') = ps" "keeps {l, p} s s'"
    "list_socks s' l = p" "list_size s' l = 0x05050505" "page s' p = (\<lambda>_. 0)"
proof -
  obtain s1 where s1: "n_kalloc s = (l, s1)" "freelist (mem s1) = p # ps" "keeps {l} s s1" "page s1 l = (\<lambda>_. 5)"
    using n_kalloc_some [OF assms(1)] by metis
  obtain s2 where s2: "n_kalloc s1 = (p, s2)" "freelist (mem s2) = ps" "keeps {p} s1 s2"
    using n_kalloc_some [OF s1(2)] by metis
  define s' where "s' = set_page (set_page s2 l (put64 (page s2 l) sl_socks p)) p (\<lambda>_. 0)"
  have pl: "page s2 l = (\<lambda>_. 5)" using keepsD(1) [OF s2(3), of l] s1(4) assms(4) by simp
  have "make_sock_list s = Inr (l, s')"
    using s1(1) s2(1) assms by (simp add: make_sock_list_def s'_def)
  moreover have "freelist (mem s') = ps" "page s' p = (\<lambda>_. 0)" using s2(2) by (simp_all add: s'_def)
  moreover have "keeps {l, p} s s'"
  proof -
    have "keeps {l, p} s s2" by (rule keeps_trans [OF s1(3) s2(3)]) auto
    then have "keeps {l, p} s (set_page s2 l (put64 (page s2 l) sl_socks p))"
      by (rule keeps_trans [OF _ keeps_set_page [of l "{l, p}"]]) auto
    then show ?thesis unfolding s'_def by (rule keeps_trans [OF _ keeps_set_page [of p "{l, p}"]]) auto
  qed
  moreover have "list_socks s' l = p" "list_size s' l = 0x05050505"
    using assms(4) by (simp_all add: s'_def list_socks_def list_size_def buf_simps pl) (simp add: get32_def)
  ultimately show thesis using that by blast
qed

text \<open>Everything \<open>socket_init\<close> leaves behind when the allocator has six pages.\<close>

lemma socket_init_ok:
  assumes free: "freelist (mem s) = l1 # p1 # l2 # p2 # l3 # p3 # ps" and ok: "pool_ok (mem s)"
  obtains s' where "socket_init s = Inr s'" "sock_list s' = l1" "list_socks s' l1 = p1"
    "list_size s' l1 = 0x05050505" "page s' p1 = (\<lambda>_. 0)" "l1 \<noteq> 0" "p1 \<noteq> 0"
proof -
  have d: "distinct [l1, p1, l2, p2, l3, p3]" "0 \<notin> {l1, p1, l2, p2, l3, p3}"
    using pool_alloc.avail_distinct [OF ok] free by auto
  then have nz: "l1 \<noteq> 0" "p1 \<noteq> 0" "l1 \<noteq> p1" "l2 \<noteq> 0" "p2 \<noteq> 0" "l2 \<noteq> p2" "l3 \<noteq> 0" "p3 \<noteq> 0" "l3 \<noteq> p3"
    by auto
  obtain s1 where s1: "make_sock_list s = Inr (l1, s1)" "freelist (mem s1) = l2 # p2 # l3 # p3 # ps"
    "list_socks s1 l1 = p1" "list_size s1 l1 = 0x05050505" "page s1 p1 = (\<lambda>_. 0)"
    by (rule make_sock_list_ok [OF free nz(1-3)])
  define t1 where "t1 = s1\<lparr>sock_list := l1\<rparr>"
  have f1: "freelist (mem t1) = l2 # p2 # l3 # p3 # ps" using s1(2) by (simp add: t1_def)
  obtain s2 where s2: "make_sock_list t1 = Inr (l2, s2)" "freelist (mem s2) = l3 # p3 # ps" "keeps {l2, p2} t1 s2"
    by (rule make_sock_list_ok [OF f1 nz(4-6)])
  define t2 where "t2 = s2\<lparr>tcp_sock_list := l2\<rparr>"
  have f2: "freelist (mem t2) = l3 # p3 # ps" using s2(2) by (simp add: t2_def)
  obtain s3 where s3: "make_sock_list t2 = Inr (l3, s3)" "keeps {l3, p3} t2 s3"
    by (rule make_sock_list_ok [OF f2 nz(7-9)])
  define s' where "s' = s3\<lparr>udp_sock_list := l3\<rparr>"
  have "socket_init s = Inr s'"
    using s1(1) s2(1) s3(1)
    by (simp add: socket_init_def sock_list_init_def tcp_sock_list_init_def udp_sock_list_init_def
        s'_def t1_def t2_def)
  moreover have pg: "page s' x = page s1 x" if "x \<in> {l1, p1}" for x
  proof -
    have "x \<notin> {l3, p3}" "x \<notin> {l2, p2}" using that d(1) by auto
    then have "page s3 x = page t2 x" "page s2 x = page t1 x"
      using keepsD(1) [OF s3(2)] keepsD(1) [OF s2(3)] by auto
    then show ?thesis by (simp add: s'_def t2_def t1_def page_def)
  qed
  moreover have "sock_list s' = l1"
    using keepsD(9) [OF s3(2)] keepsD(9) [OF s2(3)] by (simp add: s'_def t2_def t1_def)
  ultimately show thesis
    using that [of s'] s1(3-5) pg nz by (simp add: list_socks_def list_size_def)
qed

lemma getsock_empty:
  assumes "sock_list s = l" "l \<noteq> 0" "list_size s l = 0x05050505" "page s (list_socks s l) = (\<lambda>_. 0)"
  shows "getsock s fd = Inl NullDeref"
proof -
  have n: "nat (sint (0x05050505 :: u32)) = Suc 0x05050504" by simp
  have "getsock_loop s fd 0 (Suc k) = Inl NullDeref" for k
    using assms by (simp add: deref_def sock_slots_def MAX_SOCKET_CAPACITY_def get64_def get32_def)
  then show ?thesis using assms(1-3) by (simp only: getsock_def deref_def n if_False)
qed

text \<open>
  C39: \<open>socket_init\<close> never sets the \<open>size\<close> of the socket lists, so it holds the allocator's fill
  pattern: from boot on, \<open>listen\<close> with a descriptor that is no socket's follows a null slot
  instead of returning -1.
\<close>

theorem listen_after_boot_faults:
  assumes "freelist (mem s) = l1 # p1 # l2 # p2 # l3 # p3 # ps" "pool_ok (mem s)"
  shows "\<exists>s'. socket_init s = Inr s' \<and> (\<forall>fd backlog. listen s' fd backlog = Inl NullDeref)"
proof -
  obtain s' where s': "socket_init s = Inr s'" "sock_list s' = l1" "list_socks s' l1 = p1"
    "list_size s' l1 = 0x05050505" "page s' p1 = (\<lambda>_. 0)" "l1 \<noteq> 0" "p1 \<noteq> 0"
    by (rule socket_init_ok [OF assms])
  then have "getsock s' fd = Inl NullDeref" for fd by (intro getsock_empty [of _ l1]) auto
  then show ?thesis using s'(1) by (auto simp: listen_def)
qed

definition booting_net :: netst where
  "booting_net = idle_net\<lparr>mem := (mem idle_net)\<lparr>freelist :=
     [0x80110000, 0x80111000, 0x80112000, 0x80113000, 0x80114000, 0x80115000]\<rparr>\<rparr>"

theorem listen_after_boot_faults_witness:
  "\<exists>s'. socket_init booting_net = Inr s' \<and> (\<forall>fd backlog. listen s' fd backlog = Inl NullDeref)"
proof -
  have "pool_ok (mem booting_net)" by (simp add: pool_ok_def booting_net_def idle_net_def valid_page_def layout)
  moreover have "freelist (mem booting_net) =
      [0x80110000, 0x80111000, 0x80112000, 0x80113000, 0x80114000, 0x80115000]"
    by (simp add: booting_net_def)
  ultimately show ?thesis using listen_after_boot_faults by metis
qed

end
