(* ===== verification/Vm.thy ===== *)
theory Vm
  imports Kalloc
begin

text \<open>
  Sv39 page tables, \<^verbatim>\<open>kernel/vm.c\<close>. Page-table pages and user pages are pages of the
  pool of the theory Kalloc; a \<open>pte_t *\<close> is a pair of a page and an index below 512. The
  loops over virtual addresses end because \<open>walk\<close> panics from \<open>MAXVA\<close> on.
\<close>

section \<open>Page table entries\<close>

definition PTE_V :: u64 where "PTE_V = 1"
definition PTE_R :: u64 where "PTE_R = 2"
definition PTE_W :: u64 where "PTE_W = 4"
definition PTE_X :: u64 where "PTE_X = 8"
definition PTE_U :: u64 where "PTE_U = 16"

definition PA2PTE :: "u64 \<Rightarrow> u64" where "PA2PTE pa = push_bit 10 (drop_bit 12 pa)"
definition PTE2PA :: "u64 \<Rightarrow> u64" where "PTE2PA pte = push_bit 12 (drop_bit 10 pte)"
definition PTE_FLAGS :: "u64 \<Rightarrow> u64" where "PTE_FLAGS pte = pte AND 0x3FF"

definition PX :: "nat \<Rightarrow> u64 \<Rightarrow> nat" where
  "PX level va = unat (drop_bit (12 + 9 * level) va AND 0x1FF)"

definition MAXVA :: u64 where "MAXVA = push_bit (9 + 9 + 9 + 12 - 1) 1"

type_synonym pte_ptr = "addr \<times> nat"

definition pte_at :: "pool \<Rightarrow> pte_ptr \<Rightarrow> u64" where
  "pte_at P p = get64 (pg P (fst p)) (8 * snd p)"

definition set_pte :: "pool \<Rightarrow> pte_ptr \<Rightarrow> u64 \<Rightarrow> pool" where
  "set_pte P p v = P\<lparr>pg := (pg P)(fst p := put64 (pg P (fst p)) (8 * snd p) v)\<rparr>"

definition zero_page :: "pool \<Rightarrow> addr \<Rightarrow> pool" where
  "zero_page P p = P\<lparr>pg := (pg P)(p := \<lambda>_. 0)\<rparr>"

section \<open>Walking and mapping\<close>

text \<open>The loop of \<open>walk\<close> from \<open>level\<close> down; \<open>None\<close> is the null pointer.\<close>

fun walk_loop :: "pool \<Rightarrow> addr \<Rightarrow> u64 \<Rightarrow> nat \<Rightarrow> bool \<Rightarrow> pte_ptr option \<times> pool" where
  "walk_loop P t va 0 alloc = (Some (t, PX 0 va), P)"
| "walk_loop P t va (Suc n) alloc =
     (let p = (t, PX (Suc n) va); e = pte_at P p
      in if e AND PTE_V \<noteq> 0 then walk_loop P (PTE2PA e) va n alloc
         else if \<not> alloc then (None, P)
         else case pool_kalloc P of (t', P) \<Rightarrow>
           if t' = 0 then (None, P)
           else walk_loop (set_pte (zero_page P t') p (PA2PTE t' OR PTE_V)) t' va n alloc)"

definition walk :: "pool \<Rightarrow> addr \<Rightarrow> u64 \<Rightarrow> bool \<Rightarrow> (pte_ptr option \<times> pool) result" where
  "walk P pagetable va alloc =
     (if va \<ge> MAXVA then Inl (Panic ''walk'') else Inr (walk_loop P pagetable va 2 alloc))"

definition walkaddr :: "pool \<Rightarrow> addr \<Rightarrow> u64 \<Rightarrow> u64" where
  "walkaddr P pagetable va =
     (if va \<ge> MAXVA then 0
      else case fst (walk_loop P pagetable va 2 False) of
             None \<Rightarrow> 0
           | Some p \<Rightarrow>
               if pte_at P p AND PTE_V = 0 then 0
               else if pte_at P p AND PTE_U = 0 then 0
               else PTE2PA (pte_at P p))"

lemma MAXVA_next: "a < MAXVA \<Longrightarrow> unat (a + PGSIZE) = unat a + 4096"
proof -
  assume "a < MAXVA"
  then have "unat a < 2 ^ 38" by (simp add: MAXVA_def word_less_nat_alt)
  then show ?thesis by (subst unat_add_small) (auto simp: PGSIZE_def)
qed

lemma walk_measure:
  "a < MAXVA \<Longrightarrow> unat MAXVA + 4096 - unat (a + PGSIZE) < unat MAXVA + 4096 - unat a"
  using MAXVA_next [of a] by (simp add: word_less_nat_alt)

function mappages_loop :: "pool \<Rightarrow> addr \<Rightarrow> u64 \<Rightarrow> u64 \<Rightarrow> u64 \<Rightarrow> u64 \<Rightarrow> (int \<times> pool) result" where
  "mappages_loop P pagetable a lst pa perm =
     (if a \<ge> MAXVA then Inl (Panic ''walk'')
      else case walk_loop P pagetable a 2 True of
             (None, P) \<Rightarrow> Inr (- 1, P)
           | (Some p, P) \<Rightarrow>
               if pte_at P p AND PTE_V \<noteq> 0 then Inl (Panic ''mappages: remap'')
               else
                 let P = set_pte P p (PA2PTE pa OR perm OR PTE_V)
                 in if a = lst then Inr (0, P)
                    else mappages_loop P pagetable (a + PGSIZE) lst (pa + PGSIZE) perm)"
  by pat_completeness auto
termination
  by (relation "measure (\<lambda>(P, t, a, _). unat MAXVA + 4096 - unat a)")
    (auto simp: not_le intro: walk_measure)

declare mappages_loop.simps [simp del]

definition mappages :: "pool \<Rightarrow> addr \<Rightarrow> u64 \<Rightarrow> u64 \<Rightarrow> u64 \<Rightarrow> u64 \<Rightarrow> (int \<times> pool) result" where
  "mappages P pagetable va sz pa perm =
     (if sz = 0 then Inl (Panic ''mappages: size'')
      else mappages_loop P pagetable (PGROUNDDOWN va) (PGROUNDDOWN (va + sz - 1)) pa perm)"

definition kvmmap :: "pool \<Rightarrow> addr \<Rightarrow> u64 \<Rightarrow> u64 \<Rightarrow> u64 \<Rightarrow> u64 \<Rightarrow> pool result" where
  "kvmmap P kpgtbl va pa sz perm =
     bindE (mappages P kpgtbl va sz pa perm) (\<lambda>(r, P). if r \<noteq> 0 then Inl (Panic ''kvmmap'') else Inr P)"

text \<open>One trip of \<open>uvmunmap\<close>, at an address below \<open>MAXVA\<close>.\<close>

definition unmap_page :: "pool \<Rightarrow> addr \<Rightarrow> u64 \<Rightarrow> bool \<Rightarrow> pool result" where
  "unmap_page P pagetable a do_free =
     (case fst (walk_loop P pagetable a 2 False) of
        None \<Rightarrow> Inl (Panic ''uvmunmap: walk'')
      | Some p \<Rightarrow>
          if pte_at P p AND PTE_V = 0 then Inl (Panic ''uvmunmap: not mapped'')
          else if PTE_FLAGS (pte_at P p) = PTE_V then Inl (Panic ''uvmunmap: not a leaf'')
          else bindE (if do_free then pool_kfree P (PTE2PA (pte_at P p)) else Inr P)
                 (\<lambda>P. Inr (set_pte P p 0)))"

function unmap_loop :: "pool \<Rightarrow> addr \<Rightarrow> u64 \<Rightarrow> u64 \<Rightarrow> bool \<Rightarrow> pool result" where
  "unmap_loop P pagetable a stop do_free =
     (if a \<ge> stop then Inr P
      else if a \<ge> MAXVA then Inl (Panic ''walk'')
      else case unmap_page P pagetable a do_free of
             Inl e \<Rightarrow> Inl e
           | Inr P \<Rightarrow> unmap_loop P pagetable (a + PGSIZE) stop do_free)"
  by pat_completeness auto
termination
  by (relation "measure (\<lambda>(P, t, a, _). unat MAXVA + 4096 - unat a)")
    (auto simp: not_le intro: walk_measure)

declare unmap_loop.simps [simp del]

definition uvmunmap :: "pool \<Rightarrow> addr \<Rightarrow> u64 \<Rightarrow> u64 \<Rightarrow> bool \<Rightarrow> pool result" where
  "uvmunmap P pagetable va npages do_free =
     (if va mod PGSIZE \<noteq> 0 then Inl (Panic ''uvmunmap: not aligned'')
      else unmap_loop P pagetable va (va + npages * PGSIZE) do_free)"

section \<open>Address spaces\<close>

definition uvmcreate :: "pool \<Rightarrow> addr \<times> pool" where
  "uvmcreate P =
     (case pool_kalloc P of (pagetable, P) \<Rightarrow>
        if pagetable = 0 then (0, P) else (pagetable, zero_page P pagetable))"

text \<open>\<open>uvmfirst\<close> tests neither the result of \<open>kalloc\<close> nor that of \<open>mappages\<close>.\<close>

definition uvmfirst :: "pool \<Rightarrow> addr \<Rightarrow> u8 list \<Rightarrow> pool result" where
  "uvmfirst P pagetable src =
     (if length src \<ge> 4096 then Inl (Panic ''uvmfirst: more than a page'')
      else case pool_kalloc P of (mem, P) \<Rightarrow>
        if mem = 0 then Inl NullDeref
        else bindE (mappages (zero_page P mem) pagetable 0 PGSIZE mem (PTE_W OR PTE_R OR PTE_X OR PTE_U))
               (\<lambda>(_, P). Inr (P\<lparr>pg := (pg P)(mem := put_bytes (pg P mem) 0 src)\<rparr>)))"

text \<open>\<open>npages\<close> is an \<open>int\<close>; the conversions are those of the C code.\<close>

definition uvmdealloc :: "pool \<Rightarrow> addr \<Rightarrow> u64 \<Rightarrow> u64 \<Rightarrow> (u64 \<times> pool) result" where
  "uvmdealloc P pagetable oldsz newsz =
     (if newsz \<ge> oldsz then Inr (oldsz, P)
      else bindE (if PGROUNDUP newsz < PGROUNDUP oldsz
                  then let npages = ucast ((PGROUNDUP oldsz - PGROUNDUP newsz) div PGSIZE) :: u32
                       in uvmunmap P pagetable (PGROUNDUP newsz) (scast npages) True
                  else Inr P) (\<lambda>P. Inr (newsz, P)))"

lemma PGROUNDDOWN_take_bit: "PGROUNDDOWN a = a - take_bit 12 a"
proof -
  have "PGROUNDDOWN a = a AND NOT (mask 12)" by (simp add: PGROUNDDOWN_def layout mask_numeral)
  moreover have "(a AND NOT (mask 12)) + take_bit 12 a = (a AND NOT (mask 12)) OR take_bit 12 a"
    by (rule disjunctive_add) (auto simp: bit_simps)
  moreover have "(a AND NOT (mask 12)) OR take_bit 12 a = a"
    by (rule bit_word_eqI) (auto simp: bit_simps)
  ultimately show ?thesis by (simp add: eq_diff_eq)
qed

lemma unat_PGROUNDDOWN: "unat (PGROUNDDOWN a) = unat a - unat a mod 4096"
proof -
  have "take_bit 12 a \<le> a" by (simp add: word_le_nat_alt unat_take_bit_mod)
  then show ?thesis by (simp add: PGROUNDDOWN_take_bit unat_sub unat_take_bit_mod)
qed

lemma mappages_below_MAXVA:
  "mappages P t a PGSIZE m perm = Inr (0, P') \<Longrightarrow> unat (a + PGSIZE) = unat a + 4096 \<and> unat a < unat MAXVA + 4096"
proof -
  assume "mappages P t a PGSIZE m perm = Inr (0, P')"
  then have "PGROUNDDOWN a < MAXVA"
    by (auto simp: mappages_def mappages_loop.simps [of P t "PGROUNDDOWN a"] not_le split: if_splits)
  then have "unat a < 2 ^ 38 + 4096"
    using unat_PGROUNDDOWN [of a] by (simp add: MAXVA_def word_less_nat_alt)
  then show ?thesis by (subst unat_add_small) (auto simp: PGSIZE_def MAXVA_def)
qed

function uvmalloc_loop :: "pool \<Rightarrow> addr \<Rightarrow> u64 \<Rightarrow> u64 \<Rightarrow> u64 \<Rightarrow> u64 \<Rightarrow> (u64 \<times> pool) result" where
  "uvmalloc_loop P pagetable a oldsz newsz xperm =
     (if a \<ge> newsz then Inr (newsz, P)
      else case pool_kalloc P of (mem, P) \<Rightarrow>
        if mem = 0 then bindE (uvmdealloc P pagetable a oldsz) (\<lambda>(_, P). Inr (0, P))
        else case mappages (zero_page P mem) pagetable a PGSIZE mem (PTE_R OR PTE_U OR xperm) of
               Inl e \<Rightarrow> Inl e
             | Inr (r, P) \<Rightarrow>
                 if r \<noteq> 0 then
                   bindE (pool_kfree P mem) (\<lambda>P.
                   bindE (uvmdealloc P pagetable a oldsz) (\<lambda>(_, P). Inr (0, P)))
                 else uvmalloc_loop P pagetable (a + PGSIZE) oldsz newsz xperm)"
  by pat_completeness auto
termination
  by (relation "measure (\<lambda>(P, t, a, _). unat MAXVA + 8192 - unat a)")
    (auto dest!: mappages_below_MAXVA)

declare uvmalloc_loop.simps [simp del]

definition uvmalloc :: "pool \<Rightarrow> addr \<Rightarrow> u64 \<Rightarrow> u64 \<Rightarrow> u64 \<Rightarrow> (u64 \<times> pool) result" where
  "uvmalloc P pagetable oldsz newsz xperm =
     (if newsz < oldsz then Inr (oldsz, P)
      else uvmalloc_loop P pagetable (PGROUNDUP oldsz) (PGROUNDUP oldsz) newsz xperm)"

text \<open>
  \<open>freewalk\<close> with the number of levels below the table as fuel: a table at level 0 has no
  lower-level tables, which is where the recursion of the code ends.
\<close>

fun freewalk_entries :: "(pool \<Rightarrow> addr \<Rightarrow> pool result) \<Rightarrow> pool \<Rightarrow> addr \<Rightarrow> nat list \<Rightarrow> pool result" where
  "freewalk_entries rec P pagetable [] = Inr P"
| "freewalk_entries rec P pagetable (i # is) =
     (let pte = pte_at P (pagetable, i)
      in if pte AND PTE_V \<noteq> 0 \<and> pte AND (PTE_R OR PTE_W OR PTE_X) = 0 then
           bindE (rec P (PTE2PA pte)) (\<lambda>P.
           freewalk_entries rec (set_pte P (pagetable, i) 0) pagetable is)
         else if pte AND PTE_V \<noteq> 0 then Inl (Panic ''freewalk: leaf'')
         else freewalk_entries rec P pagetable is)"

fun freewalk :: "nat \<Rightarrow> pool \<Rightarrow> addr \<Rightarrow> pool result" where
  "freewalk 0 P pagetable = Inl Spins"
| "freewalk (Suc level) P pagetable =
     bindE (freewalk_entries (freewalk level) P pagetable [0..<512]) (\<lambda>P. pool_kfree P pagetable)"

definition uvmfree :: "pool \<Rightarrow> addr \<Rightarrow> u64 \<Rightarrow> pool result" where
  "uvmfree P pagetable sz =
     bindE (if sz > 0 then uvmunmap P pagetable 0 (PGROUNDUP sz div PGSIZE) True else Inr P)
       (\<lambda>P. freewalk 3 P pagetable)"

text \<open>The loops of \<open>uvmcopy\<close> and \<open>uvmshare\<close>; the label \<open>err\<close> unmaps what was copied.\<close>

definition copy_page :: "pool \<Rightarrow> addr \<Rightarrow> addr \<Rightarrow> pool" where
  "copy_page P dst src = P\<lparr>pg := (pg P)(dst := blit (pg P dst) 0 (pg P src) 0 4096)\<rparr>"

definition uvmcopy_err :: "pool \<Rightarrow> addr \<Rightarrow> u64 \<Rightarrow> (int \<times> pool) result" where
  "uvmcopy_err P new i = bindE (uvmunmap P new 0 (i div PGSIZE) True) (\<lambda>P. Inr (- 1, P))"

function uvmcopy_loop :: "pool \<Rightarrow> addr \<Rightarrow> addr \<Rightarrow> u64 \<Rightarrow> u64 \<Rightarrow> (int \<times> pool) result" where
  "uvmcopy_loop P old new i sz =
     (if i \<ge> sz then Inr (0, P)
      else if i \<ge> MAXVA then Inl (Panic ''walk'')
      else case fst (walk_loop P old i 2 False) of
             None \<Rightarrow> Inl (Panic ''uvmcopy: pte should exist'')
           | Some p \<Rightarrow>
               let e = pte_at P p
               in if e AND PTE_V = 0 then Inl (Panic ''uvmcopy: page not present'')
                  else case pool_kalloc P of (mem, P) \<Rightarrow>
                    if mem = 0 then uvmcopy_err P new i
                    else case mappages (copy_page P mem (PTE2PA e)) new i PGSIZE mem (PTE_FLAGS e) of
                           Inl f \<Rightarrow> Inl f
                         | Inr (r, P) \<Rightarrow>
                             if r \<noteq> 0 then bindE (pool_kfree P mem) (\<lambda>P. uvmcopy_err P new i)
                             else uvmcopy_loop P old new (i + PGSIZE) sz)"
  by pat_completeness auto
termination
  by (relation "measure (\<lambda>(P, t, u, a, _). unat MAXVA + 4096 - unat a)")
    (auto simp: not_le intro: walk_measure)

declare uvmcopy_loop.simps [simp del]

definition uvmcopy :: "pool \<Rightarrow> addr \<Rightarrow> addr \<Rightarrow> u64 \<Rightarrow> (int \<times> pool) result" where
  "uvmcopy P old new sz = uvmcopy_loop P old new 0 sz"

definition pool_add_page_reference :: "pool \<Rightarrow> u64 \<Rightarrow> pool" where
  "pool_add_page_reference P a =
     P\<lparr>refs := (refs P)(PGROUNDDOWN a := refs P (PGROUNDDOWN a) + 1)\<rparr>"

function uvmshare_loop :: "pool \<Rightarrow> addr \<Rightarrow> addr \<Rightarrow> u64 \<Rightarrow> u64 \<Rightarrow> (int \<times> pool) result" where
  "uvmshare_loop P old new i sz =
     (if i \<ge> sz then Inr (0, P)
      else if i \<ge> MAXVA then Inl (Panic ''walk'')
      else case fst (walk_loop P old i 2 False) of
             None \<Rightarrow> Inl (Panic ''uvmshare: pte should exist'')
           | Some p \<Rightarrow>
               let e = pte_at P p; pa = PTE2PA e
               in if e AND PTE_V = 0 then Inl (Panic ''uvmshare: page not present'')
                  else case mappages P new i PGSIZE pa (PTE_FLAGS e) of
                         Inl f \<Rightarrow> Inl f
                       | Inr (r, P) \<Rightarrow>
                           if r \<noteq> 0
                           then bindE (uvmunmap P new 0 (i div PGSIZE) False) (\<lambda>P. Inr (- 1, P))
                           else uvmshare_loop (if pa \<noteq> 0 then pool_add_page_reference P pa else P)
                                  old new (i + PGSIZE) sz)"
  by pat_completeness auto
termination
  by (relation "measure (\<lambda>(P, t, u, a, _). unat MAXVA + 4096 - unat a)")
    (auto simp: not_le intro: walk_measure)

declare uvmshare_loop.simps [simp del]

definition uvmshare :: "pool \<Rightarrow> addr \<Rightarrow> addr \<Rightarrow> u64 \<Rightarrow> (int \<times> pool) result" where
  "uvmshare P old new sz = uvmshare_loop P old new 0 sz"

definition uvmclear :: "pool \<Rightarrow> addr \<Rightarrow> u64 \<Rightarrow> pool result" where
  "uvmclear P pagetable va =
     bindE (walk P pagetable va False) (\<lambda>(p, P).
       case p of None \<Rightarrow> Inl (Panic ''uvmclear'')
               | Some p \<Rightarrow> Inr (set_pte P p (pte_at P p AND NOT PTE_U)))"

section \<open>Copying between kernel and user\<close>

text \<open>
  The kernel side is a list of bytes: the source of \<open>copyout\<close>, and what \<open>copyin\<close> and
  \<open>copyinstr\<close> have written to their destination when they return.
\<close>

definition page_off :: "u64 \<Rightarrow> nat" where
  "page_off va = unat (va - PGROUNDDOWN va)"

lemma page_off: "page_off va = unat va mod 4096"
proof -
  have "PGROUNDDOWN va \<le> va" by (simp add: word_le_nat_alt unat_PGROUNDDOWN)
  then have "page_off va = unat va - (unat va - unat va mod 4096)"
    by (simp add: page_off_def unat_sub unat_PGROUNDDOWN)
  then show ?thesis by simp
qed

lemma page_off_less: "page_off va < 4096"
  by (simp add: page_off)

function copyout :: "pool \<Rightarrow> addr \<Rightarrow> u64 \<Rightarrow> u8 list \<Rightarrow> int \<times> pool" where
  "copyout P pagetable dstva src =
     (if src = [] then (0, P)
      else
        let va0 = PGROUNDDOWN dstva; pa0 = walkaddr P pagetable va0
        in if pa0 = 0 then (- 1, P)
           else
             let n = min (4096 - page_off dstva) (length src);
                 P = P\<lparr>pg := (pg P)(pa0 := put_bytes (pg P pa0) (page_off dstva) (take n src))\<rparr>
             in copyout P pagetable (va0 + PGSIZE) (drop n src))"
  by pat_completeness auto
termination
  by (relation "measure (\<lambda>(P, t, va, src). length src)") (auto simp: page_off_less)

declare copyout.simps [simp del]

function copyin :: "pool \<Rightarrow> addr \<Rightarrow> u64 \<Rightarrow> nat \<Rightarrow> int \<times> u8 list" where
  "copyin P pagetable srcva len =
     (if len = 0 then (0, [])
      else
        let va0 = PGROUNDDOWN srcva; pa0 = walkaddr P pagetable va0
        in if pa0 = 0 then (- 1, [])
           else
             let n = min (4096 - page_off srcva) len;
                 (r, bs) = copyin P pagetable (va0 + PGSIZE) (len - n)
             in (r, bytes_of (pg P pa0) (page_off srcva) n @ bs))"
  by pat_completeness auto
termination
  by (relation "measure (\<lambda>(P, t, va, n). n)") (auto simp: page_off_less)

declare copyin.simps [simp del]

text \<open>The inner loop of \<open>copyinstr\<close>: up to \<open>n\<close> bytes of a page from \<open>off\<close>, ending at a NUL.\<close>

fun copystr_page :: "buf \<Rightarrow> nat \<Rightarrow> nat \<Rightarrow> bool \<times> u8 list" where
  "copystr_page b off 0 = (False, [])"
| "copystr_page b off (Suc n) =
     (if b off = 0 then (True, [0])
      else let (got_null, bs) = copystr_page b (Suc off) n in (got_null, b off # bs))"

function copyinstr :: "pool \<Rightarrow> addr \<Rightarrow> u64 \<Rightarrow> nat \<Rightarrow> int \<times> u8 list" where
  "copyinstr P pagetable srcva mx =
     (if mx = 0 then (- 1, [])
      else
        let va0 = PGROUNDDOWN srcva; pa0 = walkaddr P pagetable va0
        in if pa0 = 0 then (- 1, [])
           else
             let n = min (4096 - page_off srcva) mx
             in case copystr_page (pg P pa0) (page_off srcva) n of
                  (True, bs) \<Rightarrow> (0, bs)
                | (False, bs) \<Rightarrow>
                    let (r, bs') = copyinstr P pagetable (va0 + PGSIZE) (mx - n) in (r, bs @ bs'))"
  by pat_completeness auto
termination
  by (relation "measure (\<lambda>(P, t, va, n). n)") (auto simp: page_off_less)

declare copyinstr.simps [simp del]

end
