(* ===== verification/PageTable.thy ===== *)
theory PageTable
  imports Vm
begin

text \<open>
  What the page-table operations of the theory Vm do to the mapping they implement. A table
  page is reached from the root by a path of at most two indices; a page table is well-formed
  when every table page has one path and none is free. The mapping is the function from
  virtual addresses to page table entries.
\<close>

section \<open>Arithmetic of entries and addresses\<close>

lemma PX_nat: "PX l va = unat va div 2 ^ (12 + 9 * l) mod 512"
proof -
  have "(0x1FF :: u64) = mask 9" by (simp add: mask_numeral)
  then have "PX l va = unat (take_bit 9 (drop_bit (12 + 9 * l) va))"
    by (simp only: PX_def take_bit_eq_mask)
  then show ?thesis by (simp only: unat_take_bit_mod unat_drop_bit_div) simp
qed

lemma PX_less [simp]: "PX l va < 512"
  by (simp add: PX_nat)

definition vp :: "u64 \<Rightarrow> nat" where
  "vp va = unat va div 4096"

lemma MAXVA_unat: "va < MAXVA \<longleftrightarrow> unat va < 2 ^ 38"
  by (simp add: MAXVA_def word_less_nat_alt)

lemma PX_vp: "PX l va = vp va div 512 ^ l mod 512"
  by (simp add: PX_nat vp_def power_add power_mult div_mult2_eq)

lemma digits_512: "(n :: nat) < 512 ^ 3 \<Longrightarrow> n = n mod 512 + 512 * (n div 512 mod 512 + 512 * (n div 512 ^ 2 mod 512))"
proof -
  assume n: "n < 512 ^ 3"
  have "n div 512 ^ 2 < 512" using n by (simp add: div_less_iff_less_mult)
  then have "n div 512 ^ 2 mod 512 = n div 512 div 512" by (simp add: power2_eq_square div_mult2_eq)
  moreover have "n div 512 = n div 512 mod 512 + 512 * (n div 512 div 512)"
    "n = n mod 512 + 512 * (n div 512)" by simp_all
  ultimately show ?thesis by metis
qed

lemma same_page_iff:
  assumes "a < MAXVA" "b < MAXVA"
  shows "PX 2 a = PX 2 b \<and> PX 1 a = PX 1 b \<and> PX 0 a = PX 0 b \<longleftrightarrow> vp a = vp b"
proof
  assume *: "PX 2 a = PX 2 b \<and> PX 1 a = PX 1 b \<and> PX 0 a = PX 0 b"
  have "vp x = PX 0 x + 512 * (PX 1 x + 512 * PX 2 x)" if "x < MAXVA" for x
  proof -
    have "vp x < 512 ^ 3" using that by (simp add: vp_def MAXVA_unat)
    then show ?thesis using digits_512 [of "vp x"] by (simp add: PX_vp)
  qed
  then show "vp a = vp b" using assms * by simp
qed (simp add: PX_vp)

lemma flags_take_bit: "f < 1024 \<Longrightarrow> take_bit 10 f = (f :: u64)"
  by (simp add: word_unat_eq_iff unat_take_bit_mod word_less_nat_alt)

lemma PTE2PA_PA2PTE: "take_bit 10 f = f \<Longrightarrow> PTE2PA (PA2PTE pa OR f) = PGROUNDDOWN pa"
proof -
  assume "take_bit 10 f = f"
  then have f: "\<not> bit f n" if "10 \<le> n" for n using that by (metis bit_take_bit_iff not_le)
  have g: "PGROUNDDOWN pa = pa AND NOT (mask 12)" by (simp add: PGROUNDDOWN_def layout mask_numeral)
  show ?thesis
    unfolding PTE2PA_def PA2PTE_def g
    by (rule bit_word_eqI) (auto simp: bit_simps f)
qed

lemma PTE_FLAGS_PA2PTE: "take_bit 10 f = f \<Longrightarrow> PTE_FLAGS (PA2PTE pa OR f) = f"
proof -
  assume f: "take_bit 10 f = f"
  have "PTE_FLAGS (PA2PTE pa OR f) = take_bit 10 (PA2PTE pa OR f)"
    by (simp add: PTE_FLAGS_def take_bit_eq_mask mask_numeral)
  also have "\<dots> = take_bit 10 (PA2PTE pa) OR f" by (simp add: f)
  also have "take_bit 10 (PA2PTE pa) = 0" by (simp add: PA2PTE_def take_bit_push_bit)
  finally show ?thesis by simp
qed

section \<open>Tables and paths\<close>

fun tbl :: "pool \<Rightarrow> addr \<Rightarrow> nat list \<Rightarrow> addr option" where
  "tbl P t [] = Some t"
| "tbl P t (i # is) =
     (let e = pte_at P (t, i) in if e AND PTE_V \<noteq> 0 then tbl P (PTE2PA e) is else None)"

definition path_ok :: "nat list \<Rightarrow> bool" where
  "path_ok q \<longleftrightarrow> length q \<le> 2 \<and> set q \<subseteq> {..<512}"

definition tables :: "pool \<Rightarrow> addr \<Rightarrow> addr set" where
  "tables P pt = {t. \<exists>q. path_ok q \<and> tbl P pt q = Some t}"

definition pt_wf :: "pool \<Rightarrow> addr \<Rightarrow> bool" where
  "pt_wf P pt \<longleftrightarrow>
     (\<forall>p q t. path_ok p \<longrightarrow> path_ok q \<longrightarrow> tbl P pt p = Some t \<longrightarrow> tbl P pt q = Some t \<longrightarrow> p = q) \<and>
     tables P pt \<inter> set (freelist P) = {}"

definition pte_of :: "pool \<Rightarrow> addr \<Rightarrow> u64 \<Rightarrow> u64" where
  "pte_of P pt va =
     (case tbl P pt [PX 2 va, PX 1 va] of None \<Rightarrow> 0 | Some t \<Rightarrow> pte_at P (t, PX 0 va))"

declare tbl.simps(2) [simp del]

lemma tbl_Cons:
  "tbl P t (i # is) = (if pte_at P (t, i) AND PTE_V \<noteq> 0 then tbl P (PTE2PA (pte_at P (t, i))) is else None)"
  by (simp add: tbl.simps(2) Let_def)

lemma pte_of_page: "vp x = vp a \<Longrightarrow> pte_of P pt x = pte_of P pt a"
proof -
  assume "vp x = vp a"
  then have "PX 2 x = PX 2 a" "PX 1 x = PX 1 a" "PX 0 x = PX 0 a" by (simp_all only: PX_vp)
  then show ?thesis by (simp only: pte_of_def)
qed

lemma path_ok_simps [simp]:
  "path_ok []" "path_ok [i] \<longleftrightarrow> i < 512" "path_ok [i, j] \<longleftrightarrow> i < 512 \<and> j < 512"
  by (auto simp: path_ok_def)

lemma pt_wf_unique:
  "pt_wf P pt \<Longrightarrow> path_ok p \<Longrightarrow> path_ok q \<Longrightarrow> tbl P pt p = Some t \<Longrightarrow> tbl P pt q = Some t \<Longrightarrow> p = q"
  unfolding pt_wf_def by blast

lemma pt_wf_free: "pt_wf P pt \<Longrightarrow> x \<in> tables P pt \<Longrightarrow> x \<notin> set (freelist P)"
  unfolding pt_wf_def by blast

lemma tablesI: "path_ok q \<Longrightarrow> tbl P pt q = Some t \<Longrightarrow> t \<in> tables P pt"
  by (auto simp: tables_def)

lemma walk_loop_lookup:
  "walk_loop P pt va 2 False = (map_option (\<lambda>t. (t, PX 0 va)) (tbl P pt [PX 2 va, PX 1 va]), P)"
  by (simp add: numeral_2_eq_2 Let_def tbl_Cons)

lemma walkaddr_pte_of:
  "walkaddr P pt va =
     (let e = pte_of P pt va
      in if va \<ge> MAXVA \<or> e AND PTE_V = 0 \<or> e AND PTE_U = 0 then 0 else PTE2PA e)"
  by (auto simp: walkaddr_def walk_loop_lookup pte_of_def Let_def split: option.splits)

lemma tbl_append:
  "tbl P t (p @ q) = (case tbl P t p of None \<Rightarrow> None | Some s \<Rightarrow> tbl P s q)"
  by (induction p arbitrary: t) (auto simp: tbl_Cons)

text \<open>A lookup reads only the entries along its path.\<close>

lemma tbl_frame:
  assumes "\<And>r s i rest. q = r @ i # rest \<Longrightarrow> tbl P t r = Some s \<Longrightarrow> pte_at P' (s, i) = pte_at P (s, i)"
  shows "tbl P' t q = tbl P t q"
  using assms
proof (induction q arbitrary: t)
  case (Cons i q)
  have e: "pte_at P' (t, i) = pte_at P (t, i)" using Cons.prems [of "[]" i q] by simp
  have "tbl P' s q = tbl P s q" if "tbl P t [i] = Some s" for s
  proof (rule Cons.IH)
    fix r u j rest assume "q = r @ j # rest" "tbl P s r = Some u"
    then show "pte_at P' (u, j) = pte_at P (u, j)"
      using Cons.prems [of "i # r" j rest u] that tbl_append [of P t "[i]" r] by (simp add: tbl_Cons)
  qed
  then show ?case using e by (auto simp: tbl_Cons)
qed simp

lemma pte_at_set_pte: "i < 512 \<Longrightarrow> j < 512 \<Longrightarrow>
  pte_at (set_pte P (t, i) v) (s, j) = (if s = t \<and> j = i then v else pte_at P (s, j))"
  by (auto simp: pte_at_def set_pte_def intro!: get64_put64_other [unfolded fun_eq_iff])

lemma pool_fields [simp]:
  "freelist (set_pte P p v) = freelist P" "refs (set_pte P p v) = refs P" "pend (set_pte P p v) = pend P"
  "freelist (zero_page P t) = freelist P" "refs (zero_page P t) = refs P" "pend (zero_page P t) = pend P"
  by (simp_all add: set_pte_def zero_page_def)

lemma pg_set_pte [simp]: "s \<noteq> fst p \<Longrightarrow> pg (set_pte P p v) s = pg P s"
  by (simp add: set_pte_def)

lemma pg_zero_page [simp]: "s \<noteq> t \<Longrightarrow> pg (zero_page P t) s = pg P s" "pg (zero_page P t) t = (\<lambda>_. 0)"
  by (simp_all add: zero_page_def)

section \<open>Adding a table\<close>

lemma alloc_child:
  assumes wf: "pt_wf P pt" and ok: "pool_ok P" and free: "freelist P = t' # fs"
    and p: "tbl P pt p = Some t" "length p \<le> 1" "path_ok p" and i: "i < 512" "pte_at P (t, i) AND PTE_V = 0"
    and P': "P' = set_pte (zero_page (snd (pool_kalloc P)) t') (t, i) (PA2PTE t' OR PTE_V)"
  shows "\<And>q. path_ok q \<Longrightarrow> tbl P' pt q = (if q = p @ [i] then Some t' else tbl P pt q)"
    and "\<And>x. x \<notin> {t, t'} \<Longrightarrow> pg P' x = pg P x" and "pg P' t' = (\<lambda>_. 0)"
    and "\<And>j. j < 512 \<Longrightarrow> j \<noteq> i \<Longrightarrow> pte_at P' (t, j) = pte_at P (t, j)"
    and "freelist P' = fs" and "pend P' = pend P"
proof -
  have t: "t \<in> tables P pt" by (rule tablesI [OF p(3,1)])
  have tt: "t \<noteq> t'" using pt_wf_free [OF wf t] free by auto
  have v: "valid_page (pend P) t'" using ok free by (simp add: pool_ok_def)
  have k: "snd (pool_kalloc P) = P\<lparr>freelist := fs, refs := (refs P)(t' := 1), pg := (pg P)(t' := \<lambda>_. 5)\<rparr>"
    using free by (simp add: pool_kalloc_def)
  show pg: "pg P' x = pg P x" if "x \<notin> {t, t'}" for x using that by (simp add: P' k)
  show z: "pg P' t' = (\<lambda>_. 0)" using tt by (simp add: P')
  show "freelist P' = fs" "pend P' = pend P" by (simp_all add: P' k)
  have e: "pte_at P' (t, j) = (if j = i then PA2PTE t' OR PTE_V else pte_at P (t, j))" if "j < 512" for j
    using that i(1) tt by (simp add: P' k pte_at_set_pte) (simp add: pte_at_def)
  then show "pte_at P' (t, j) = pte_at P (t, j)" if "j < 512" "j \<noteq> i" for j using that by simp
  have new: "PTE2PA (PA2PTE t' OR PTE_V) = t'"
    using PTE2PA_PA2PTE [of PTE_V t'] PGROUNDDOWN_valid [OF v] by (simp add: PTE_V_def flags_take_bit)
  have newV: "(PA2PTE t' OR PTE_V) AND PTE_V \<noteq> 0"
    by (simp add: PTE_V_def PA2PTE_def bit_eq_iff) (auto simp: bit_simps intro!: exI [of _ 0])
  have old: "tbl P pt (p @ i # rest) = None" for rest
    using p(1) i(2) by (simp add: tbl_append tbl_Cons)
  show "tbl P' pt q = (if q = p @ [i] then Some t' else tbl P pt q)" if q: "path_ok q" for q
  proof (cases "\<exists>rest. q = p @ i # rest")
    case False
    have "tbl P' pt q = tbl P pt q"
    proof (rule tbl_frame)
      fix r s j rest assume r: "q = r @ j # rest" "tbl P pt r = Some s"
      have pr: "path_ok r" "j < 512" using q r(1) by (auto simp: path_ok_def)
      have s: "s \<in> tables P pt" by (rule tablesI [OF pr(1) r(2)])
      have st': "s \<noteq> t'" using pt_wf_free [OF wf s] free by auto
      show "pte_at P' (s, j) = pte_at P (s, j)"
      proof (cases "s = t")
        case True
        then have "r = p" using pt_wf_unique [OF wf pr(1) p(3) r(2)] p(1) by simp
        then have "j \<noteq> i" using False r(1) by auto
        then show ?thesis using e pr(2) True by simp
      next
        case sn: False
        then show ?thesis using pg [of s] st' by (simp add: pte_at_def)
      qed
    qed
    then show ?thesis using False by auto
  next
    case True
    then obtain rest where rest: "q = p @ i # rest" by blast
    have "tbl P' pt p = tbl P pt p"
    proof (rule tbl_frame)
      fix r s j rest' assume r: "p = r @ j # rest'" "tbl P pt r = Some s"
      have pr: "path_ok r" "j < 512" using p(3) r(1) by (auto simp: path_ok_def)
      have s: "s \<in> tables P pt" by (rule tablesI [OF pr(1) r(2)])
      have "s \<noteq> t" using pt_wf_unique [OF wf pr(1) p(3) r(2)] p(1) r(1) by auto
      moreover have "s \<noteq> t'" using pt_wf_free [OF wf s] free by auto
      ultimately show "pte_at P' (s, j) = pte_at P (s, j)" using pg [of s] by (simp add: pte_at_def)
    qed
    then have "tbl P' pt q = tbl P' t' rest"
      using rest p(1) e [OF i(1)] newV new by (simp add: tbl_append tbl_Cons)
    moreover have "tbl P' t' rest = (if rest = [] then Some t' else None)"
      using z by (cases rest) (simp_all add: tbl_Cons pte_at_def get64_def get32_def)
    ultimately show ?thesis using rest old by auto
  qed
qed

text \<open>
  \<open>grows P P' pt\<close>: from \<open>P\<close> to \<open>P'\<close> the page table \<open>pt\<close> may have gained table pages that were free;
  pages that are neither tables nor free are as before.
\<close>

definition grows :: "pool \<Rightarrow> pool \<Rightarrow> addr \<Rightarrow> bool" where
  "grows P P' pt \<longleftrightarrow>
     pt_wf P' pt \<and> pool_ok P' \<and> pend P' = pend P \<and> set (freelist P') \<subseteq> set (freelist P) \<and>
     tables P pt \<subseteq> tables P' pt \<and>
     tables P' pt \<subseteq> tables P pt \<union> (set (freelist P) - set (freelist P')) \<and>
     (\<forall>x. x \<notin> tables P pt \<union> set (freelist P) \<longrightarrow> pg P' x = pg P x \<and> (x \<noteq> 0 \<longrightarrow> refs P' x = refs P x))"

lemma grows_refl: "pt_wf P pt \<Longrightarrow> pool_ok P \<Longrightarrow> grows P P pt"
  by (simp add: grows_def)

lemma grows_trans: "grows P Q pt \<Longrightarrow> grows Q R pt \<Longrightarrow> grows P R pt"
proof -
  assume g: "grows P Q pt" "grows Q R pt"
  have x: "x \<notin> tables Q pt \<union> set (freelist Q)" if "x \<notin> tables P pt \<union> set (freelist P)" for x
    using that g(1) unfolding grows_def by blast
  have "tables R pt \<subseteq> tables P pt \<union> (set (freelist P) - set (freelist R))"
    using g unfolding grows_def by blast
  moreover have "pg R x = pg P x \<and> (x \<noteq> 0 \<longrightarrow> refs R x = refs P x)" if "x \<notin> tables P pt \<union> set (freelist P)" for x
    using x [OF that] that g by (simp add: grows_def)
  moreover have "tables P pt \<subseteq> tables R pt" "set (freelist R) \<subseteq> set (freelist P)" "pend R = pend P"
    "pt_wf R pt" "pool_ok R" using g unfolding grows_def by auto
  ultimately show ?thesis unfolding grows_def by blast
qed

lemma child_grows:
  assumes wf: "pt_wf P pt" and ok: "pool_ok P" and free: "freelist P = t' # fs"
    and p: "tbl P pt p = Some t" "length p \<le> 1" "path_ok p" and i: "i < 512" "pte_at P (t, i) AND PTE_V = 0"
    and P': "P' = set_pte (zero_page (snd (pool_kalloc P)) t') (t, i) (PA2PTE t' OR PTE_V)"
  shows "grows P P' pt" "pte_of P' pt va = pte_of P pt va" "tbl P' pt (p @ [i]) = Some t'"
proof -
  note C = alloc_child [OF assms]
  have pi: "path_ok (p @ [i])" using p(2,3) i(1) by (auto simp: path_ok_def)
  have none: "tbl P pt (p @ [i]) = None" using p(1) i(2) by (simp add: tbl_append tbl_Cons)
  have nt: "t' \<notin> tables P pt" "t \<in> tables P pt" using pt_wf_free [OF wf] free tablesI [OF p(3,1)] by auto
  show ti: "tbl P' pt (p @ [i]) = Some t'" using C(1) [OF pi] by simp
  have T: "tables P' pt = insert t' (tables P pt)"
  proof (intro set_eqI iffI)
    fix x assume "x \<in> tables P' pt"
    then show "x \<in> insert t' (tables P pt)" using C(1) by (auto simp: tables_def split: if_splits)
  next
    fix x assume "x \<in> insert t' (tables P pt)"
    then consider "x = t'" | q where "path_ok q" "tbl P pt q = Some x" by (auto simp: tables_def)
    then show "x \<in> tables P' pt"
    proof cases
      case 1
      then show ?thesis using tablesI [OF pi ti] by simp
    next
      case 2
      then have "tbl P' pt q = Some x" using C(1) [OF 2(1)] none by auto
      then show ?thesis by (rule tablesI [OF 2(1)])
    qed
  qed
  have "q = r" if "path_ok q" "path_ok r" "tbl P' pt q = Some x" "tbl P' pt r = Some x" for q r x
    using that C(1) [OF that(1)] C(1) [OF that(2)] nt(1) pt_wf_unique [OF wf that(1,2)] tablesI
    by (auto split: if_splits)
  moreover have fr: "distinct (t' # fs)" "\<forall>x \<in> set fs. valid_page (pend P) x" "pend P \<noteq> 0"
    using ok free by (auto simp: pool_ok_def)
  moreover have "tables P' pt \<inter> set (freelist P') = {}" using pt_wf_free [OF wf] free C(5) T fr(1) by auto
  ultimately have "pt_wf P' pt" unfolding pt_wf_def by blast
  moreover have "pool_ok P'" using fr C(5,6) by (simp add: pool_ok_def)
  moreover have "refs P' x = refs P x" if "x \<noteq> t'" for x
    using that free by (simp add: P' pool_kalloc_def)
  moreover have "pg P' x = pg P x" if "x \<notin> tables P pt \<union> set (freelist P)" for x
    by (rule C(2)) (use that nt(2) free in auto)
  ultimately show "grows P P' pt"
    using C(5,6) T free fr unfolding grows_def by auto
  show "pte_of P' pt va = pte_of P pt va"
  proof -
    define q where "q = [PX 2 va, PX 1 va]"
    have q: "path_ok q" "length q = 2" by (simp_all add: q_def)
    have qp: "q \<noteq> p" using q(2) p(2) by auto
    show ?thesis
    proof (cases "q = p @ [i]")
      case True
      then have "tbl P' pt q = Some t'" "tbl P pt q = None" using ti none by simp_all
      then show ?thesis using C(3) by (simp add: pte_of_def q_def pte_at_def get64_def get32_def)
    next
      case False
      have "pte_at P' (s, PX 0 va) = pte_at P (s, PX 0 va)" if "tbl P pt q = Some s" for s
      proof -
        have "s \<noteq> t" using pt_wf_unique [OF wf q(1) p(3) that] p(1) qp by auto
        moreover have "s \<noteq> t'" using tablesI [OF q(1) that] nt(1) by auto
        ultimately show ?thesis using C(2) by (simp add: pte_at_def)
      qed
      then show ?thesis using C(1) [OF q(1)] False by (auto simp: pte_of_def q_def split: option.splits)
    qed
  qed
qed

text \<open>One level of \<open>walk\<close> with allocation.\<close>

lemma walk_level:
  assumes wf: "pt_wf P pt" and ok: "pool_ok P" and p: "tbl P pt p = Some t" "length p \<le> 1" "path_ok p"
    and w: "walk_loop P t va (Suc n) True = (r, P')"
  obtains (full) "r = None" "freelist P = []" "P' = snd (pool_kalloc P)"
  | (down) Q t' where "grows P Q pt" "\<forall>va. pte_of Q pt va = pte_of P pt va"
      "tbl Q pt (p @ [PX (Suc n) va]) = Some t'" "walk_loop Q t' va n True = (r, P')"
      "length (freelist P) \<le> Suc (length (freelist Q))"
proof (cases "pte_at P (t, PX (Suc n) va) AND PTE_V = 0")
  case False
  then have "tbl P pt (p @ [PX (Suc n) va]) = Some (PTE2PA (pte_at P (t, PX (Suc n) va)))"
    using p(1) by (simp add: tbl_append tbl_Cons)
  then show thesis using down [OF grows_refl [OF wf ok]] w False by (simp add: Let_def)
next
  case True
  show thesis
  proof (cases "freelist P")
    case Nil
    then show thesis using full w True by (auto simp: Let_def pool_kalloc_def)
  next
    case (Cons t' fs)
    define Q where "Q = set_pte (zero_page (snd (pool_kalloc P)) t') (t, PX (Suc n) va) (PA2PTE t' OR PTE_V)"
    have nz: "t' \<noteq> 0" using pool_alloc.avail_distinct [OF ok] Cons by auto
    have k: "pool_kalloc P = (t', snd (pool_kalloc P))" using Cons by (simp add: pool_kalloc_def)
    note G = child_grows [OF wf ok Cons p PX_less True Q_def]
    have "walk_loop Q t' va n True = (r, P')"
      using w True nz by (simp add: Let_def Q_def) (subst (asm) k, simp)
    moreover have "length (freelist P) \<le> Suc (length (freelist Q))"
      using Cons by (simp add: Q_def pool_kalloc_def)
    ultimately show thesis using down [OF G(1) _ G(3)] G(2) by blast
  qed
qed

lemma kalloc_full:
  assumes "freelist P = []" "pt_wf P pt" "pool_ok P"
  shows "grows P (snd (pool_kalloc P)) pt" "pte_of (snd (pool_kalloc P)) pt va = pte_of P pt va"
proof -
  have k: "snd (pool_kalloc P) = P\<lparr>refs := (refs P)(0 := 1)\<rparr>" using assms(1) by (simp add: pool_kalloc_def)
  have e: "pte_at (snd (pool_kalloc P)) x = pte_at P x" for x by (simp add: k pte_at_def)
  have t: "tbl (snd (pool_kalloc P)) s q = tbl P s q" for s q by (rule tbl_frame) (simp add: e)
  have T: "tables (snd (pool_kalloc P)) pt = tables P pt" by (simp add: tables_def t)
  have f: "freelist (snd (pool_kalloc P)) = freelist P" "pend (snd (pool_kalloc P)) = pend P"
    "pg (snd (pool_kalloc P)) = pg P" by (simp_all add: k)
  show "grows P (snd (pool_kalloc P)) pt"
    using assms by (simp add: grows_def pt_wf_def t T f pool_ok_def) (simp add: k)
  show "pte_of (snd (pool_kalloc P)) pt va = pte_of P pt va" by (simp only: pte_of_def t e)
qed

lemma walk_alloc:
  assumes wf: "pt_wf P pt" and ok: "pool_ok P" and w: "walk_loop P pt va 2 True = (r, P')"
  shows "grows P P' pt" "pte_of P' pt x = pte_of P pt x"
    "r = Some p \<Longrightarrow> \<exists>t. tbl P' pt [PX 2 va, PX 1 va] = Some t \<and> p = (t, PX 0 va)"
    "r = None \<Longrightarrow> freelist P' = [] \<and> length (freelist P) < 2"
    "length (freelist P) \<le> length (freelist P') + 2"
proof -
  have w2: "walk_loop P pt va (Suc (Suc 0)) True = (r, P')" using w by (simp add: numeral_2_eq_2)
  have p0: "tbl P pt [] = Some pt" "length ([] :: nat list) \<le> 1" "path_ok []" by simp_all
  have "grows P P' pt \<and> (\<forall>x. pte_of P' pt x = pte_of P pt x) \<and>
      (\<forall>p. r = Some p \<longrightarrow> (\<exists>t. tbl P' pt [PX 2 va, PX 1 va] = Some t \<and> p = (t, PX 0 va))) \<and>
      (r = None \<longrightarrow> freelist P' = [] \<and> length (freelist P) < 2) \<and>
      length (freelist P) \<le> length (freelist P') + 2"
  proof (rule walk_level [OF wf ok p0 w2], goal_cases)
    case full: 1
    then show ?thesis using kalloc_full [OF full(2) wf ok] by (auto simp: pool_kalloc_def)
  next
    case down: (2 Q t1)
    have Q: "pt_wf Q pt" "pool_ok Q" using down(1) by (simp_all add: grows_def)
    have p1: "tbl Q pt [PX 2 va] = Some t1" "length [PX 2 va] \<le> 1" "path_ok [PX 2 va]"
      using down(3) by (simp_all add: numeral_2_eq_2)
    show ?thesis
    proof (rule walk_level [OF Q p1 down(4)], goal_cases)
      case full: 1
      then show ?thesis
        using kalloc_full [OF full(2) Q] grows_trans [OF down(1)] down(2,5) by (auto simp: pool_kalloc_def)
    next
      case d2: (2 R t0)
      then show ?thesis
        using grows_trans [OF down(1) d2(1)] down(2,5) by auto
    qed
  qed
  then show "grows P P' pt" "pte_of P' pt x = pte_of P pt x"
    "r = Some p \<Longrightarrow> \<exists>t. tbl P' pt [PX 2 va, PX 1 va] = Some t \<and> p = (t, PX 0 va)"
    "r = None \<Longrightarrow> freelist P' = [] \<and> length (freelist P) < 2"
    "length (freelist P) \<le> length (freelist P') + 2" by blast+
qed

section \<open>Changing a leaf\<close>

lemma set_leaf:
  assumes wf: "pt_wf P pt" and ok: "pool_ok P" and t: "tbl P pt [PX 2 va, PX 1 va] = Some t" and va: "va < MAXVA"
  shows "grows P (set_pte P (t, PX 0 va) v) pt"
    "x < MAXVA \<Longrightarrow> pte_of (set_pte P (t, PX 0 va) v) pt x = (if vp x = vp va then v else pte_of P pt x)"
    "tables (set_pte P (t, PX 0 va) v) pt = tables P pt"
proof -
  define P' where "P' = set_pte P (t, PX 0 va) v"
  define q where "q = [PX 2 va, PX 1 va]"
  have q: "path_ok q" "tbl P pt q = Some t" using t by (simp_all add: q_def)
  have e: "pte_at P' (s, j) = (if s = t \<and> j = PX 0 va then v else pte_at P (s, j))" if "j < 512" for s j
    using that by (simp add: P'_def pte_at_set_pte)
  have tb: "tbl P' pt r = tbl P pt r" if r: "path_ok r" for r
  proof (rule tbl_frame)
    fix u s i rest assume u: "r = u @ i # rest" "tbl P pt u = Some s"
    have pu: "path_ok u" "i < 512" "length u < 2" using r u(1) by (auto simp: path_ok_def)
    have "s \<noteq> t" using pt_wf_unique [OF wf pu(1) q(1) u(2)] q(2) pu(3) by (auto simp: q_def)
    then show "pte_at P' (s, i) = pte_at P (s, i)" using e pu(2) by simp
  qed
  have T: "tables P' pt = tables P pt" using tb by (auto simp: tables_def)
  then show "tables (set_pte P (t, PX 0 va) v) pt = tables P pt" by (simp add: P'_def)
  have w': "pt_wf P' pt" using wf tb T by (simp add: pt_wf_def) (simp add: P'_def)
  have "pg P' x = pg P x" if "x \<notin> tables P pt \<union> set (freelist P)" for x
  proof -
    have "x \<noteq> t" using that tablesI [OF q] by auto
    then show ?thesis by (simp add: P'_def)
  qed
  moreover have "tables P pt \<inter> set (freelist P) = {}" using pt_wf_free [OF wf] by auto
  ultimately have "grows P P' pt" using ok w' T by (auto simp: grows_def pool_ok_def P'_def)
  then show "grows P (set_pte P (t, PX 0 va) v) pt" by (simp add: P'_def)
  assume x: "x < MAXVA"
  define y where "y = [PX 2 x, PX 1 x]"
  have y: "path_ok y" by (simp add: y_def)
  have tt: "tbl P pt y = Some t \<longleftrightarrow> y = q" using pt_wf_unique [OF wf y q(1)] q(2) by auto
  have "vp x = vp va \<longleftrightarrow> y = q \<and> PX 0 x = PX 0 va"
    using same_page_iff [OF x va] by (auto simp: y_def q_def)
  then show "pte_of (set_pte P (t, PX 0 va) v) pt x = (if vp x = vp va then v else pte_of P pt x)"
    using tb [OF y] e [of "PX 0 x"] tt q(2) unfolding pte_of_def y_def [symmetric] P'_def [symmetric]
    by (auto split: option.splits)
qed

section \<open>Mapping a range\<close>

lemma PGROUNDDOWN_vp: "unat (PGROUNDDOWN x) = 4096 * vp x"
  by (simp add: unat_PGROUNDDOWN vp_def minus_mod_eq_mult_div)

lemma aligned_vp: "unat a mod 4096 = 0 \<Longrightarrow> unat a = 4096 * vp a"
  using mult_div_mod_eq [of 4096 "unat a"] by (simp add: vp_def)

lemma PGROUNDDOWN_eq: "unat a mod 4096 = 0 \<Longrightarrow> vp x = vp a \<Longrightarrow> PGROUNDDOWN x = a"
  using PGROUNDDOWN_vp [of x] aligned_vp [of a] by (simp add: word_unat_eq_iff)

lemma vp_next: "a < MAXVA \<Longrightarrow> vp (a + PGSIZE) = Suc (vp a)"
  by (simp add: vp_def MAXVA_next)

lemma aligned_next: "a < MAXVA \<Longrightarrow> unat a mod 4096 = 0 \<Longrightarrow> unat (a + PGSIZE) mod 4096 = 0"
  by (simp add: MAXVA_next)

text \<open>The entry that \<open>mappages\<close> writes for address \<open>x\<close> when it maps \<open>a\<close> to \<open>pa\<close>.\<close>

definition mapped_pte :: "u64 \<Rightarrow> u64 \<Rightarrow> u64 \<Rightarrow> u64 \<Rightarrow> u64" where
  "mapped_pte a pa perm x = PA2PTE (pa + (PGROUNDDOWN x - a)) OR perm OR PTE_V"

lemma pte_bits:
  "x AND PTE_V = 0 \<longleftrightarrow> \<not> bit x 0" "x AND PTE_U = 0 \<longleftrightarrow> \<not> bit x 4"
  using and_exp_eq_0_iff_not_bit [of x 0] and_exp_eq_0_iff_not_bit [of x 4]
  by (simp_all add: PTE_V_def PTE_U_def)

lemma mapped_pte_walk:
  assumes "take_bit 10 perm = perm" "perm AND PTE_U \<noteq> 0"
  shows "PTE2PA (mapped_pte a pa perm x) = PGROUNDDOWN (pa + (PGROUNDDOWN x - a))"
    "mapped_pte a pa perm x AND PTE_V \<noteq> 0" "mapped_pte a pa perm x AND PTE_U \<noteq> 0"
proof -
  have "take_bit 10 (perm OR PTE_V) = perm OR PTE_V" using assms(1) by (simp add: PTE_V_def)
  then show "PTE2PA (mapped_pte a pa perm x) = PGROUNDDOWN (pa + (PGROUNDDOWN x - a))"
    unfolding mapped_pte_def by (rule PTE2PA_PA2PTE)
  show "mapped_pte a pa perm x AND PTE_V \<noteq> 0" "mapped_pte a pa perm x AND PTE_U \<noteq> 0"
    using assms(2) by (simp_all add: mapped_pte_def pte_bits bit_simps) (simp add: PTE_V_def)
qed

lemma PGROUNDDOWN_mult: "PGROUNDDOWN x = drop_bit 12 x * 4096"
proof -
  have "PGROUNDDOWN x = x AND NOT (mask 12)" by (simp add: PGROUNDDOWN_def layout mask_numeral)
  also have "\<dots> = push_bit 12 (drop_bit 12 x)" by (rule bit_word_eqI) (auto simp: bit_simps)
  finally show ?thesis by (simp add: push_bit_eq_mult)
qed

lemma PGROUNDDOWN_of_mult: "PGROUNDDOWN (z * 4096) = z * 4096"
proof -
  have "take_bit 12 (push_bit 12 z) = (0 :: u64)" by (rule bit_word_eqI) (auto simp: bit_simps)
  then show ?thesis by (simp add: PGROUNDDOWN_take_bit push_bit_eq_mult)
qed

lemma PGROUNDDOWN_sum:
  assumes "a mod PGSIZE = 0"
  shows "PGROUNDDOWN (a + (PGROUNDDOWN x - PGROUNDDOWN y)) = a + (PGROUNDDOWN x - PGROUNDDOWN y)"
proof -
  obtain b where b: "a = b * 4096"
    using PGROUNDDOWN_mult [of a] PGROUNDDOWN_aligned [OF assms] by metis
  have "a + (PGROUNDDOWN x - PGROUNDDOWN y) = (b + (drop_bit 12 x - drop_bit 12 y)) * 4096"
    unfolding b PGROUNDDOWN_mult by (simp only: distrib_right left_diff_distrib)
  then show ?thesis by (simp only: PGROUNDDOWN_of_mult)
qed

lemma vp_PGROUNDDOWN: "vp (PGROUNDDOWN x) = vp x"
  using PGROUNDDOWN_vp [of x] by (simp add: vp_def)

lemma mappages_loop_ok:
  assumes "mappages_loop P pt a lst pa perm = Inr (r, P')" "pt_wf P pt" "pool_ok P"
    "unat a mod 4096 = 0" "unat lst mod 4096 = 0"
  shows "grows P P' pt \<and>
    (r \<noteq> 0 \<longrightarrow> r = - 1 \<and> freelist P' = []) \<and>
    (r = 0 \<longrightarrow> vp a \<le> vp lst \<and>
      (\<forall>x < MAXVA. pte_of P' pt x = (if vp a \<le> vp x \<and> vp x \<le> vp lst then mapped_pte a pa perm x else pte_of P pt x)) \<and>
      (\<forall>x < MAXVA. vp a \<le> vp x \<and> vp x \<le> vp lst \<longrightarrow> pte_of P pt x AND PTE_V = 0))"
  using assms
proof (induction P pt a lst pa perm rule: mappages_loop.induct)
  case (1 P pt a lst pa perm)
  note W = 1(3,4) and al = 1(5,6)
  have a: "a < MAXVA" using 1(2) by (auto simp: mappages_loop.simps [of P pt a] not_le split: if_splits)
  obtain w Q where w: "walk_loop P pt a 2 True = (w, Q)" by fastforce
  note A = walk_alloc [OF W w]
  have na: "(MAXVA \<le> a) = False" using a by auto
  have u: "(case w of None \<Rightarrow> Inr (- 1, Q)
      | Some p \<Rightarrow> if pte_at Q p AND PTE_V \<noteq> 0 then Inl (Panic ''mappages: remap'')
          else let R = set_pte Q p (PA2PTE pa OR perm OR PTE_V)
               in if a = lst then Inr (0, R)
                  else mappages_loop R pt (a + PGSIZE) lst (pa + PGSIZE) perm) = Inr (r, P')"
    using 1(2) by (subst (asm) mappages_loop.simps) (simp add: na w)
  show ?case
  proof (cases w)
    case None
    then show ?thesis
      using u A(1,4) by auto
  next
    case (Some p)
    obtain t where t: "tbl Q pt [PX 2 a, PX 1 a] = Some t" "p = (t, PX 0 a)" using A(3) [OF Some] by blast
    have Q: "pt_wf Q pt" "pool_ok Q" using A(1) by (simp_all add: grows_def)
    have pa: "pte_at Q p = pte_of P pt a" using t A(2) [of a] by (simp add: pte_of_def)
    define v where "v = PA2PTE pa OR perm OR PTE_V"
    define R where "R = set_pte Q p v"
    note S = set_leaf [OF Q t(1) a, where v = v, folded t(2) R_def]
    have g: "grows P R pt" by (rule grows_trans [OF A(1) S(1)])
    have R: "pt_wf R pt" "pool_ok R" using g by (simp_all add: grows_def)
    have V: "pte_of P pt a AND PTE_V = 0" using u Some pa by (auto split: if_splits)
    have Rx: "pte_of R pt x = (if vp x = vp a then v else pte_of P pt x)" if "x < MAXVA" for x
      using S(2) [OF that] A(2) by simp
    have Vx: "pte_of P pt x AND PTE_V = 0" if "vp x = vp a" "x < MAXVA" for x
      using pte_of_page [of x a P pt] that a V by simp
    have va: "mapped_pte a pa perm x = v" if "vp x = vp a" for x
      using PGROUNDDOWN_eq [OF al(1) that] by (simp add: mapped_pte_def v_def)
    show ?thesis
    proof (cases "a = lst")
      case True
      have "r = 0" "P' = R" using u Some V pa True by (auto simp: R_def v_def)
      moreover have "vp a \<le> vp x \<and> vp x \<le> vp lst \<longleftrightarrow> vp x = vp a" for x using True by auto
      ultimately show ?thesis using g Rx Vx va True by simp
    next
      case False
      have rec: "mappages_loop R pt (a + PGSIZE) lst (pa + PGSIZE) perm = Inr (r, P')"
        using u Some V pa False by (simp add: R_def v_def)
      have IH: "grows R P' pt \<and> (r \<noteq> 0 \<longrightarrow> r = - 1 \<and> freelist P' = []) \<and>
        (r = 0 \<longrightarrow> Suc (vp a) \<le> vp lst \<and>
          (\<forall>x < MAXVA. pte_of P' pt x = (if Suc (vp a) \<le> vp x \<and> vp x \<le> vp lst
             then mapped_pte (a + PGSIZE) (pa + PGSIZE) perm x else pte_of R pt x)) \<and>
          (\<forall>x < MAXVA. Suc (vp a) \<le> vp x \<and> vp x \<le> vp lst \<longrightarrow> pte_of R pt x AND PTE_V = 0))"
        using 1(1) [OF _ w [symmetric] Some _ _ _, of R] na V pa False rec R aligned_next [OF a al(1)] al(2)
        by (simp add: R_def v_def vp_next [OF a])
      have m: "mapped_pte (a + PGSIZE) (pa + PGSIZE) perm x = mapped_pte a pa perm x" for x
        by (simp add: mapped_pte_def)
      have pt': "pte_of P' pt x = (if vp a \<le> vp x \<and> vp x \<le> vp lst then mapped_pte a pa perm x else pte_of P pt x)"
        if "r = 0" "x < MAXVA" for x
        using IH that Rx [OF that(2)] va [of x] m by (cases "vp x = vp a") auto
      have "pte_of P pt x AND PTE_V = 0" if "r = 0" "x < MAXVA" "vp a \<le> vp x" "vp x \<le> vp lst" for x
        using IH that Rx [OF that(2)] Vx [of x] by (cases "vp x = vp a") auto
      then show ?thesis using IH grows_trans [OF g] pt' by auto
    qed
  qed
qed

lemma mappages_loop_succeeds:
  assumes "pt_wf P pt" "pool_ok P" "unat a mod 4096 = 0" "unat lst mod 4096 = 0" "vp a \<le> vp lst" "lst < MAXVA"
    "\<forall>x < MAXVA. vp a \<le> vp x \<and> vp x \<le> vp lst \<longrightarrow> pte_of P pt x AND PTE_V = 0"
    "2 * Suc (vp lst - vp a) \<le> length (freelist P)"
  shows "\<exists>P'. mappages_loop P pt a lst pa perm = Inr (0, P')"
  using assms
proof (induction P pt a lst pa perm rule: mappages_loop.induct)
  case (1 P pt a lst pa perm)
  have a: "a < MAXVA" using 1(6,7) aligned_vp [OF 1(4)] aligned_vp [OF 1(5)] by (simp add: MAXVA_unat)
  then have na: "(MAXVA \<le> a) = False" by auto
  obtain w Q where w: "walk_loop P pt a 2 True = (w, Q)" by fastforce
  note A = walk_alloc [OF 1(2,3) w]
  obtain p where p: "w = Some p" using A(4) 1(9) by (cases w) auto
  obtain t where t: "tbl Q pt [PX 2 a, PX 1 a] = Some t" "p = (t, PX 0 a)" using A(3) [OF p] by blast
  have Q: "pt_wf Q pt" "pool_ok Q" using A(1) by (simp_all add: grows_def)
  have pa: "pte_at Q p AND PTE_V = 0" using t A(2) [of a] a 1(6,8) by (simp add: pte_of_def)
  define v where "v = PA2PTE pa OR perm OR PTE_V"
  define R where "R = set_pte Q p v"
  note S = set_leaf [OF Q t(1) a, where v = v, folded t(2) R_def]
  have R: "pt_wf R pt" "pool_ok R" using S(1) by (simp_all add: grows_def)
  have u: "mappages_loop P pt a lst pa perm =
    (if a = lst then Inr (0, R) else mappages_loop R pt (a + PGSIZE) lst (pa + PGSIZE) perm)"
    by (subst mappages_loop.simps) (use na w p pa in \<open>simp add: R_def v_def\<close>)
  show ?case
  proof (cases "a = lst")
    case False
    have s: "vp a < vp lst" using False 1(6) aligned_vp [OF 1(4)] aligned_vp [OF 1(5)]
      by (auto simp: word_unat_eq_iff)
    have "\<exists>P'. mappages_loop R pt (a + PGSIZE) lst (pa + PGSIZE) perm = Inr (0, P')"
    proof (rule 1(1) [OF _ w [symmetric] p _ R_def [unfolded v_def] False])
      show "pt_wf R pt" "pool_ok R" by (fact R)+
      show "\<forall>x < MAXVA. vp (a + PGSIZE) \<le> vp x \<and> vp x \<le> vp lst \<longrightarrow> pte_of R pt x AND PTE_V = 0"
        using S(2) A(2) 1(8) by (simp add: vp_next [OF a])
      show "2 * Suc (vp lst - vp (a + PGSIZE)) \<le> length (freelist R)"
        using A(5) 1(9) s by (simp add: R_def vp_next [OF a])
    qed (use na pa s 1(5,7) aligned_next [OF a 1(4)] in \<open>auto simp: vp_next [OF a]\<close>)
    then show ?thesis using u False by simp
  qed (use u in simp)
qed

text \<open>
  C12: when a range of pages is unmapped and the allocator has two pages per page of the range,
  \<open>mappages\<close> succeeds; afterwards \<open>walkaddr\<close> translates every address of the range to the
  corresponding physical page, and every other address as before.
\<close>

theorem mappages_maps:
  assumes "pt_wf P pt" "pool_ok P" "sz \<noteq> 0" "va + sz - 1 < MAXVA" "va \<le> va + sz - 1"
    "\<forall>x < MAXVA. vp va \<le> vp x \<and> vp x \<le> vp (va + sz - 1) \<longrightarrow> pte_of P pt x AND PTE_V = 0"
    "2 * Suc (vp (va + sz - 1) - vp va) \<le> length (freelist P)"
    "pa mod PGSIZE = 0" "perm < 1024" "perm AND PTE_U \<noteq> 0"
  shows "\<exists>P'. mappages P pt va sz pa perm = Inr (0, P') \<and> pt_wf P' pt \<and> pool_ok P' \<and>
    (\<forall>x < MAXVA. walkaddr P' pt x =
       (if vp va \<le> vp x \<and> vp x \<le> vp (va + sz - 1) then pa + (PGROUNDDOWN x - PGROUNDDOWN va)
        else walkaddr P pt x))"
proof -
  define a where "a = PGROUNDDOWN va"
  define l where "l = PGROUNDDOWN (va + sz - 1)"
  have al: "unat a mod 4096 = 0" "unat l mod 4096 = 0" by (simp_all add: a_def l_def PGROUNDDOWN_vp)
  have v: "vp a = vp va" "vp l = vp (va + sz - 1)" by (simp_all add: a_def l_def vp_PGROUNDDOWN)
  have le: "vp a \<le> vp l" using assms(5) by (simp add: v) (simp add: vp_def word_le_nat_alt div_le_mono)
  have lM: "l < MAXVA" using assms(4) by (simp add: l_def MAXVA_unat unat_PGROUNDDOWN)
  have "\<exists>P'. mappages_loop P pt a l pa perm = Inr (0, P')"
    by (rule mappages_loop_succeeds [OF assms(1,2) al le lM]) (use assms(6,7) v in simp_all)
  then obtain P' where P': "mappages_loop P pt a l pa perm = Inr (0, P')" by blast
  note M = mappages_loop_ok [OF P' assms(1,2) al]
  have w: "walkaddr P' pt x = (if vp a \<le> vp x \<and> vp x \<le> vp l then pa + (PGROUNDDOWN x - a) else walkaddr P pt x)"
    if x: "x < MAXVA" for x
  proof (cases "vp a \<le> vp x \<and> vp x \<le> vp l")
    case True
    then have "pte_of P' pt x = mapped_pte a pa perm x" using M x by simp
    moreover have "PGROUNDDOWN (pa + (PGROUNDDOWN x - a)) = pa + (PGROUNDDOWN x - a)"
      unfolding a_def by (rule PGROUNDDOWN_sum [OF assms(8)])
    moreover have "(MAXVA \<le> x) = False" using x by auto
    ultimately show ?thesis
      using True mapped_pte_walk [OF flags_take_bit [OF assms(9)] assms(10)] by (simp add: walkaddr_pte_of)
  next
    case False
    then have "pte_of P' pt x = pte_of P pt x" using M x by auto
    then show ?thesis using False by (simp only: walkaddr_pte_of if_False)
  qed
  have "mappages P pt va sz pa perm = Inr (0, P')" using P' assms(3) by (simp add: mappages_def a_def l_def)
  then show ?thesis using w M v by (auto simp: grows_def a_def [symmetric])
qed

section \<open>The empty page table\<close>

lemma empty_table:
  assumes "pg P pt = (\<lambda>_. 0)"
  shows "tbl P pt q = (if q = [] then Some pt else None)" "tables P pt = {pt}" "pte_of P pt x = 0"
    "pt \<notin> set (freelist P) \<Longrightarrow> pt_wf P pt"
proof -
  have z: "pte_at P (pt, i) = 0" for i using assms by (simp add: pte_at_def get64_def get32_def)
  show t: "tbl P pt q = (if q = [] then Some pt else None)" for q by (cases q) (simp_all add: tbl_Cons z)
  show T: "tables P pt = {pt}" by (auto simp: tables_def t path_ok_def intro: exI [of _ "[]"])
  show "pte_of P pt x = 0" by (simp add: pte_of_def t)
  show "pt \<notin> set (freelist P) \<Longrightarrow> pt_wf P pt" by (simp add: pt_wf_def t T)
qed

definition small_pool :: pool where
  "small_pool = \<lparr>freelist = [0x80110000, 0x80111000, 0x80112000, 0x80113000, 0x80114000, 0x80115000],
                refs = \<lambda>_. 0, pg = \<lambda>_ _. 0, pend = 0x80022000\<rparr>"

lemma small_pool_ok: "pool_ok small_pool" "pt_wf small_pool 0x80100000" "pte_of small_pool 0x80100000 x = 0"
  "length (freelist small_pool) = 6"
proof -
  show "pool_ok small_pool" by (simp add: pool_ok_def small_pool_def valid_page_def layout)
  show "pt_wf small_pool 0x80100000" "pte_of small_pool 0x80100000 x = 0"
    using empty_table [of small_pool "0x80100000"] by (simp_all add: small_pool_def)
  show "length (freelist small_pool) = 6" by (simp add: small_pool_def)
qed

theorem mappages_maps_witness:
  "\<exists>P'. mappages small_pool 0x80100000 0x1000 4096 0x80200000 (PTE_R OR PTE_U) = Inr (0, P') \<and>
     walkaddr P' 0x80100000 0x1234 = 0x80200000 \<and> walkaddr P' 0x80100000 0x5000 = 0"
proof -
  have v: "vp 0x1000 = 1" "vp 0x1FFF = 1" "vp 0x1234 = 1" "vp 0x5000 = 5" by (simp_all add: vp_def)
  have "\<exists>P'. mappages small_pool 0x80100000 0x1000 4096 0x80200000 (PTE_R OR PTE_U) = Inr (0, P') \<and>
    pt_wf P' 0x80100000 \<and> pool_ok P' \<and>
    (\<forall>x < MAXVA. walkaddr P' 0x80100000 x =
       (if vp 0x1000 \<le> vp x \<and> vp x \<le> vp (0x1000 + 4096 - 1) then 0x80200000 + (PGROUNDDOWN x - PGROUNDDOWN 0x1000)
        else walkaddr small_pool 0x80100000 x))"
    by (rule mappages_maps [OF small_pool_ok(2,1)])
      (simp_all add: MAXVA_def v small_pool_ok PTE_R_def PTE_U_def PGSIZE_def)
  moreover have "PGROUNDDOWN 0x1234 = 0x1000" "PGROUNDDOWN 0x1000 = 0x1000"
    by (simp_all add: PGROUNDDOWN_def PGSIZE_def)
  moreover have "(0x1234 :: u64) < MAXVA" "(0x5000 :: u64) < MAXVA" by (simp_all add: MAXVA_def)
  ultimately show ?thesis by (auto simp: v walkaddr_pte_of small_pool_ok)
qed

end
