(* ===== verification/VmCopy.thy ===== *)
theory VmCopy
  imports PageTable NetState
begin

text \<open>
  What \<open>copyout\<close>, \<open>copyin\<close> and \<open>copyinstr\<close> of \<^verbatim>\<open>kernel/vm.c\<close> do to the memory of a
  process. \<open>uview\<close> is the memory a page table gives its process, byte by byte; the page-wise
  loops of the kernel are shown to be the byte-wise copies \<^const>\<open>ucopyout_loop\<close> and
  \<^const>\<open>user_bytes\<close>, by which the network stack's model reaches user memory.
\<close>

section \<open>The memory of a process\<close>

definition uview :: "pool \<Rightarrow> addr \<Rightarrow> u64 \<Rightarrow> u8 option" where
  "uview P pt va =
     (let pa0 = walkaddr P pt va in if pa0 = 0 then None else Some (pg P pa0 (page_off va)))"

text \<open>No user page is a page of the table or free, and no page is mapped at two addresses.\<close>

definition space_ok :: "pool \<Rightarrow> addr \<Rightarrow> bool" where
  "space_ok P pt \<longleftrightarrow> pt_wf P pt \<and>
     (\<forall>x. walkaddr P pt x \<noteq> 0 \<longrightarrow> walkaddr P pt x \<notin> tables P pt \<union> set (freelist P)) \<and>
     (\<forall>x y. walkaddr P pt x \<noteq> 0 \<longrightarrow> walkaddr P pt x = walkaddr P pt y \<longrightarrow> vp x = vp y)"

lemma below_MAXVA_page: "PGROUNDDOWN va < MAXVA \<longleftrightarrow> va < MAXVA"
proof -
  have "4096 * (n div 4096) < 2 ^ 38 \<longleftrightarrow> n div 4096 < 2 ^ 26" for n :: nat by simp
  then have "4096 * (n div 4096) < 2 ^ 38 \<longleftrightarrow> n < 2 ^ 38" for n :: nat by (simp add: div_less_iff_less_mult)
  then show ?thesis by (simp add: MAXVA_unat PGROUNDDOWN_vp vp_def)
qed

lemma walkaddr_page: "walkaddr P pt (PGROUNDDOWN va) = walkaddr P pt va"
proof -
  have "pte_of P pt (PGROUNDDOWN va) = pte_of P pt va" by (rule pte_of_page) (rule vp_PGROUNDDOWN)
  then show ?thesis using below_MAXVA_page [of va] by (simp add: walkaddr_pte_of flip: not_less)
qed

lemma walkaddr_same_page: "vp x = vp y \<Longrightarrow> walkaddr P pt x = walkaddr P pt y"
proof -
  assume "vp x = vp y"
  then have "PGROUNDDOWN x = PGROUNDDOWN y" by (simp add: word_unat_eq_iff PGROUNDDOWN_vp)
  then show ?thesis by (metis walkaddr_page)
qed

lemma walkaddr_MAXVA: "walkaddr P pt va \<noteq> 0 \<Longrightarrow> va < MAXVA"
  by (auto simp: walkaddr_pte_of Let_def split: if_splits)

lemma unat_split: "unat va = 4096 * vp va + page_off va"
  by (simp add: vp_def page_off)

text \<open>The addresses a copy within one page reaches.\<close>

lemma in_page:
  assumes va: "va < MAXVA" and n: "page_off va + n \<le> 4096"
  shows "in_range va n y \<longleftrightarrow> vp y = vp va \<and> page_off va \<le> page_off y \<and> page_off y < page_off va + n"
    and "in_range va n y \<Longrightarrow> y = va + of_nat (page_off y - page_off va)"
proof -
  have "unat va + n \<le> 2 ^ 64" using va n by (simp add: MAXVA_unat)
  note r = in_range_unat [OF this, of y]
  have *: "4096 * a + b \<le> 4096 * c + d \<and> 4096 * c + d < 4096 * a + b + n \<longleftrightarrow> c = a \<and> b \<le> d \<and> d < b + n"
    if "b + n \<le> 4096" "b < 4096" "d < 4096" for a b c d :: nat
  proof
    assume h: "4096 * a + b \<le> 4096 * c + d \<and> 4096 * c + d < 4096 * a + b + n"
    then have "a < c + 1" "c < a + 1" using that by linarith+
    then show "c = a \<and> b \<le> d \<and> d < b + n" using h by simp
  qed simp
  show R: "in_range va n y \<longleftrightarrow> vp y = vp va \<and> page_off va \<le> page_off y \<and> page_off y < page_off va + n"
    unfolding r unat_split [of va] unat_split [of y] by (rule *) (use n page_off_less in simp_all)
  assume "in_range va n y"
  then have "unat y = unat va + (page_off y - page_off va)" using R unat_split [of va] unat_split [of y] by simp
  then have "(of_nat (unat y) :: u64) = of_nat (unat va + (page_off y - page_off va))" by simp
  then show "y = va + of_nat (page_off y - page_off va)" by (simp only: of_nat_add of_nat_unat ucast_id)
qed

lemma next_page:
  "va < MAXVA \<Longrightarrow> n = 4096 - page_off va \<Longrightarrow> PGROUNDDOWN va + PGSIZE = va + of_nat n"
proof -
  assume va: "va < MAXVA" and n: "n = 4096 - page_off va"
  have "unat va + n < 2 ^ 64" using va n by (simp add: MAXVA_unat)
  then have "unat (va + of_nat n) = unat va + n" using n by (simp add: unat_word_ariths unat_of_nat)
  also have "\<dots> = 4096 * vp va + 4096" using n page_off_less [of va] unat_split [of va] by simp
  also have "\<dots> = unat (PGROUNDDOWN va + PGSIZE)"
    using va by (simp add: MAXVA_next below_MAXVA_page PGROUNDDOWN_vp)
  finally show ?thesis by (simp add: word_unat_eq_iff)
qed

lemma uview_page:
  assumes "walkaddr P pt va \<noteq> 0" "in_range va n y" "page_off va + n \<le> 4096"
  shows "uview P pt y = Some (pg P (walkaddr P pt va) (page_off y))"
proof -
  have "vp y = vp va" using assms in_page(1) [OF walkaddr_MAXVA] by blast
  then have "walkaddr P pt y = walkaddr P pt va" by (rule walkaddr_same_page)
  then show ?thesis using assms(1) by (simp add: uview_def)
qed

section \<open>Writing user memory\<close>

text \<open>Translation depends only on the pages of the table.\<close>

lemma same_tables:
  assumes same: "\<forall>t \<in> tables P pt. pg P' t = pg P t"
  shows "tables P' pt = tables P pt" "walkaddr P' pt x = walkaddr P pt x"
    "pt_wf P pt \<Longrightarrow> set (freelist P') \<subseteq> set (freelist P) \<Longrightarrow> pt_wf P' pt" "pte_of P' pt x = pte_of P pt x"
proof -
  have e: "pte_at P' (s, i) = pte_at P (s, i)" if "s \<in> tables P pt" for s i
    using same that by (simp add: pte_at_def)
  have t: "tbl P' pt q = tbl P pt q" if "path_ok q" for q
  proof (rule tbl_frame)
    fix r s i rest
    assume "q = r @ i # rest" "tbl P pt r = Some s"
    moreover from this that have "path_ok r" by (auto simp: path_ok_def)
    ultimately show "pte_at P' (s, i) = pte_at P (s, i)" by (blast intro: e tablesI)
  qed
  show T: "tables P' pt = tables P pt" by (auto simp: tables_def t)
  show p: "pte_of P' pt x = pte_of P pt x" for x
    by (auto simp: pte_of_def t e dest!: tablesI [rotated] split: option.splits)
  then show "walkaddr P' pt x = walkaddr P pt x" by (simp add: walkaddr_pte_of)
  show "pt_wf P pt \<Longrightarrow> set (freelist P') \<subseteq> set (freelist P) \<Longrightarrow> pt_wf P' pt"
  proof -
    assume wf: "pt_wf P pt" and f: "set (freelist P') \<subseteq> set (freelist P)"
    have "p = q" if "path_ok p" "path_ok q" "tbl P' pt p = Some s" "tbl P' pt q = Some s" for p q s
      using pt_wf_unique [OF wf that(1,2)] that(3,4) by (simp add: t that(1,2))
    moreover have "tables P pt \<inter> set (freelist P') = {}" using pt_wf_free [OF wf] f by blast
    ultimately show "pt_wf P' pt" unfolding pt_wf_def T by blast
  qed
qed

lemma space_okD:
  assumes "space_ok P pt"
  shows "pt_wf P pt" "walkaddr P pt x \<noteq> 0 \<Longrightarrow> walkaddr P pt x \<notin> tables P pt"
    "walkaddr P pt x \<noteq> 0 \<Longrightarrow> walkaddr P pt y = walkaddr P pt x \<Longrightarrow> vp y = vp x"
    "walkaddr P pt x \<noteq> 0 \<Longrightarrow> walkaddr P pt x \<notin> set (freelist P)"
  using assms unfolding space_ok_def by (simp, simp, metis, simp)

lemma space_ok_same:
  assumes ok: "space_ok P pt" and same: "\<forall>t \<in> tables P pt. pg P' t = pg P t"
    and f: "set (freelist P') \<subseteq> set (freelist P)"
  shows "space_ok P' pt"
proof -
  note S = same_tables [OF same]
  have "pt_wf P' pt" by (rule S(3) [OF space_okD(1) [OF ok] f])
  moreover have "walkaddr P' pt x \<notin> tables P' pt \<union> set (freelist P')" if "walkaddr P' pt x \<noteq> 0" for x
    using that space_okD(2,4) [OF ok, of x] f by (auto simp: S(1,2))
  ultimately show ?thesis using space_okD(3) [OF ok] unfolding space_ok_def S(2) by metis
qed

lemma space_ok_write:
  assumes ok: "space_ok P pt" and w: "walkaddr P pt va \<noteq> 0"
  shows "space_ok (P\<lparr>pg := (pg P)(walkaddr P pt va := b)\<rparr>) pt"
  by (rule space_ok_same [OF ok]) (use space_okD(2) [OF ok w] in auto)

lemma uview_write:
  assumes ok: "space_ok P pt" and w: "walkaddr P pt va \<noteq> 0" and l: "page_off va + length bs \<le> 4096"
    and P': "P' = P\<lparr>pg := (pg P)(walkaddr P pt va := put_bytes (pg P (walkaddr P pt va)) (page_off va) bs)\<rparr>"
  shows "ucopyout_loop (uview P pt) va bs = (True, uview P' pt)"
proof -
  have va: "va < MAXVA" using w by (rule walkaddr_MAXVA)
  have W: "walkaddr P' pt x = walkaddr P pt x" for x
    by (rule same_tables(2)) (use space_okD(2) [OF ok w] in \<open>auto simp: P'\<close>)
  note same = space_okD(3) [OF ok w]
  have b: "pg P' z k = (if z = walkaddr P pt va then put_bytes (pg P z) (page_off va) bs k else pg P z k)" for z k
    by (simp add: P')
  have len: "length bs < 2 ^ 64" using l by simp
  have m: "\<forall>k < length bs. uview P pt (va + of_nat k) \<noteq> None"
    using uview_page [OF w in_range_offset l] len by simp
  note U = ucopyout_loop_ok [OF m len]
  have "snd (ucopyout_loop (uview P pt) va bs) y = uview P' pt y" for y
  proof (cases "in_range va (length bs) y")
    case True
    define k where "k = page_off y - page_off va"
    have y: "y = va + of_nat k" "k < length bs" "page_off va \<le> page_off y" "page_off y < page_off va + length bs"
      "vp y = vp va" using True in_page [OF va l, of y] by (auto simp: k_def)
    have "uview P' pt y = Some (bs ! k)"
      using w y(3,4) walkaddr_same_page [OF y(5), of P pt] by (simp add: uview_def W b put_bytes_apply k_def)
    then show ?thesis using U y(1,2) by auto
  next
    case False
    then have "walkaddr P pt y = walkaddr P pt va \<Longrightarrow> \<not> (page_off va \<le> page_off y \<and> page_off y < page_off va + length bs)"
      using in_page(1) [OF va l, of y] same by blast
    then have "uview P' pt y = uview P pt y" by (auto simp: uview_def W b put_bytes_apply Let_def)
    then show ?thesis using U False by simp
  qed
  then show ?thesis using U by (simp add: prod_eq_iff fun_eq_iff)
qed

lemma ucopyout_append:
  "ucopyout_loop u va (xs @ ys) =
     (case ucopyout_loop u va xs of
        (True, v) \<Rightarrow> ucopyout_loop v (va + of_nat (length xs)) ys
      | (False, v) \<Rightarrow> (False, v))"
  by (induction xs arbitrary: u va) (simp_all add: add.assoc split: option.split prod.split bool.split)

lemma copyout_uview:
  assumes "space_ok P pt"
  shows "space_ok (snd (copyout P pt va src)) pt \<and>
    ucopyout_loop (uview P pt) va src = (fst (copyout P pt va src) = 0, uview (snd (copyout P pt va src)) pt)"
  using assms
proof (induction P pt va src rule: copyout.induct)
  case (1 P pt va src)
  show ?case
  proof (cases "src = [] \<or> walkaddr P pt va = 0")
    case True
    then show ?thesis using 1(2)
      by (cases src) (auto simp: copyout.simps walkaddr_page Let_def uview_def)
  next
    case False
    define n where "n = min (4096 - page_off va) (length src)"
    define Q where "Q = P\<lparr>pg := (pg P)(walkaddr P pt va :=
      put_bytes (pg P (walkaddr P pt va)) (page_off va) (take n src))\<rparr>"
    have e: "copyout P pt va src = copyout Q pt (PGROUNDDOWN va + PGSIZE) (drop n src)"
      using False by (subst copyout.simps) (simp add: walkaddr_page Let_def n_def Q_def)
    have Q: "space_ok Q pt" unfolding Q_def using 1(2) False by (intro space_ok_write) simp_all
    have l: "length (take n src) = n" "page_off va + length (take n src) \<le> 4096"
      using page_off_less [of va] by (simp_all add: n_def)
    have u: "ucopyout_loop (uview P pt) va (take n src) = (True, uview Q pt)"
      using False by (intro uview_write [OF 1(2) _ l(2) Q_def]) simp
    have v: "drop n src = [] \<or> va + of_nat n = PGROUNDDOWN va + PGSIZE"
      using next_page [OF walkaddr_MAXVA] False by (auto simp: n_def min_def)
    have "ucopyout_loop (uview P pt) va src = ucopyout_loop (uview Q pt) (va + of_nat n) (drop n src)"
      using ucopyout_append [of "uview P pt" va "take n src" "drop n src"] by (simp only: u l append_take_drop_id) simp
    also have "\<dots> = ucopyout_loop (uview Q pt) (PGROUNDDOWN va + PGSIZE) (drop n src)" using v by auto
    finally have "ucopyout_loop (uview P pt) va src = ucopyout_loop (uview Q pt) (PGROUNDDOWN va + PGSIZE) (drop n src)" .
    then show ?thesis
      using 1(1) [OF _ refl refl _ refl refl, folded Q_def n_def] False Q
      by (simp only: e walkaddr_page) (simp add: n_def Q_def)
  qed
qed

text \<open>C4: \<open>copyout\<close> of \<^verbatim>\<open>kernel/vm.c\<close> refines the byte-wise copy into the memory of the process:
  it returns 0 exactly if every destination byte is mapped for user access, it then has
  written \<open>src\<close> at \<open>dstva\<close> and nothing else, on a failure it has written the bytes before the
  first unmapped one, and the address space stays well formed.\<close>

theorem copyout_refines:
  assumes "space_ok P pt" "copyout P pt dstva src = (r, P')"
  shows "ucopyout_loop (uview P pt) dstva src = (r = 0, uview P' pt) \<and> space_ok P' pt"
  using copyout_uview [OF assms(1), of dstva src] assms(2) by simp_all

section \<open>Reading user memory\<close>

lemma map_option_append [simp]:
  "map_option ((@) []) z = z" "map_option ((@) (a # xs)) z = map_option (\<lambda>ys. a # xs @ ys) z"
  by (cases z; simp)+

lemma those_append:
  "those (xs @ ys) = (case those xs of None \<Rightarrow> None | Some zs \<Rightarrow> map_option ((@) zs) (those ys))"
  by (induction xs) (simp_all add: option.map_comp comp_def split: option.split)

lemma user_bytes_append:
  "user_bytes u va (m + n) =
     (case user_bytes u va m of
        None \<Rightarrow> None | Some zs \<Rightarrow> map_option ((@) zs) (user_bytes u (va + of_nat m) n))"
proof -
  have "[0..<m + n] = [0..<m] @ map (\<lambda>k. k + m) [0..<n]" 
    using upt_add_eq_append [of 0 m n] map_add_upt [of m n] by (simp add: add.commute)
  then show ?thesis unfolding user_bytes_def by (simp only: map_append those_append map_map comp_def of_nat_add ac_simps)
qed

lemma page_off_add:
  assumes "va < MAXVA" "page_off va + k < 4096"
  shows "page_off (va + of_nat k) = page_off va + k"
proof -
  have "unat va + k < 2 ^ 64" "k < 2 ^ 64" using assms by (simp_all add: MAXVA_unat)
  then have "unat (va + of_nat k) = 4096 * vp va + (page_off va + k)"
    using unat_split [of va] by (simp add: unat_word_ariths unat_of_nat)
  then show ?thesis using assms(2) by (simp add: page_off [of "va + of_nat k"])
qed

lemma uview_offset:
  assumes "walkaddr P pt va \<noteq> 0" "page_off va + n \<le> 4096" "k < n"
  shows "uview P pt (va + of_nat k) = Some (pg P (walkaddr P pt va) (page_off va + k))"
  using uview_page [OF assms(1) in_range_offset assms(2), of k] page_off_add [OF walkaddr_MAXVA [OF assms(1)], of k]
    assms(2,3) by simp

lemma user_bytes_page:
  assumes "walkaddr P pt va \<noteq> 0" "page_off va + n \<le> 4096"
  shows "user_bytes (uview P pt) va n = Some (bytes_of (pg P (walkaddr P pt va)) (page_off va) n)"
  using uview_offset [OF assms] by (simp add: user_bytes_Some)

definition returned :: "int \<times> u8 list \<Rightarrow> u8 list option" where
  "returned r = (if fst r = 0 then Some (snd r) else None)"

lemma returned_append: "returned (fst r, bs @ snd r) = map_option ((@) bs) (returned r)"
  by (simp add: returned_def)

text \<open>C18: \<open>copyin\<close> of \<^verbatim>\<open>kernel/vm.c\<close> returns 0 exactly if the \<open>len\<close> bytes from \<open>srcva\<close> are all
  mapped for user access, and then the destination holds those bytes.\<close>

theorem copyin_refines: "returned (copyin P pt srcva len) = user_bytes (uview P pt) srcva len"
proof (induction P pt srcva len rule: copyin.induct)
  case (1 P pt va len)
  show ?case
  proof (cases "len = 0 \<or> walkaddr P pt va = 0")
    case True
    then show ?thesis
      by (cases len) (auto simp: copyin.simps walkaddr_page Let_def uview_def user_bytes_def returned_def
          upt_conv_Cons simp del: upt_Suc)
  next
    case False
    define n where "n = min (4096 - page_off va) len"
    have n: "page_off va + n \<le> 4096" "n + (len - n) = len" using page_off_less [of va] by (simp_all add: n_def)
    have v: "len - n = 0 \<or> va + of_nat n = PGROUNDDOWN va + PGSIZE"
      using next_page [OF walkaddr_MAXVA] False by (auto simp: n_def min_def)
    have "user_bytes (uview P pt) va (n + (len - n)) =
      map_option ((@) (bytes_of (pg P (walkaddr P pt va)) (page_off va) n))
        (user_bytes (uview P pt) (PGROUNDDOWN va + PGSIZE) (len - n))"
    proof -
      have "user_bytes (uview P pt) (va + of_nat n) (len - n) =
        user_bytes (uview P pt) (PGROUNDDOWN va + PGSIZE) (len - n)" using v by (auto simp: user_bytes_def)
      then show ?thesis using user_bytes_page [OF _ n(1)] False by (simp only: user_bytes_append) simp
    qed
    also have "user_bytes (uview P pt) (PGROUNDDOWN va + PGSIZE) (len - n) =
      returned (copyin P pt (PGROUNDDOWN va + PGSIZE) (len - n))"
      using 1 [OF _ refl refl _ n_def] False by (simp add: walkaddr_page)
    finally show ?thesis using False n(2)
      by (simp add: copyin.simps [of P pt va] walkaddr_page Let_def n_def case_prod_unfold returned_append)
  qed
qed

text \<open>The string that a process has at \<open>va\<close>, with its NUL, if it ends within \<open>n\<close> mapped bytes.\<close>

fun ustr :: "(addr \<Rightarrow> u8 option) \<Rightarrow> addr \<Rightarrow> nat \<Rightarrow> u8 list option" where
  "ustr u va 0 = None"
| "ustr u va (Suc n) =
     (case u va of
        None \<Rightarrow> None
      | Some b \<Rightarrow> if b = 0 then Some [0] else map_option ((#) b) (ustr u (va + 1) n))"

lemma ustr_page:
  assumes "\<forall>k < n. u (va + of_nat k) = Some (b (off + k))" "n \<le> mx"
  shows "ustr u va mx =
    (case copystr_page b off n of
       (True, bs) \<Rightarrow> Some bs | (False, bs) \<Rightarrow> map_option ((@) bs) (ustr u (va + of_nat n) (mx - n)))"
  using assms
proof (induction n arbitrary: va off mx)
  case (Suc n)
  obtain m where m: "mx = Suc m" "n \<le> m" using Suc.prems(2) by (cases mx) auto
  have h: "u va = Some (b off)" "\<forall>k < n. u (va + 1 + of_nat k) = Some (b (Suc off + k))"
    using Suc.prems(1) by (simp_all add: All_less_Suc2 add.assoc)
  show ?case using Suc.IH [OF h(2) m(2)]
    by (simp add: m h(1) add.assoc option.map_comp comp_def split: prod.split bool.split)
qed simp

text \<open>C17: \<open>copyinstr\<close> of \<^verbatim>\<open>kernel/vm.c\<close> returns 0 exactly if a NUL-terminated string of at most
  \<open>max\<close> bytes stands at \<open>srcva\<close> in mapped user memory, and the destination then holds it
  with its NUL.\<close>

theorem copyinstr_refines: "returned (copyinstr P pt srcva mx) = ustr (uview P pt) srcva mx"
proof (induction P pt srcva mx rule: copyinstr.induct)
  case (1 P pt va mx)
  show ?case
  proof (cases "mx = 0 \<or> walkaddr P pt va = 0")
    case True
    then show ?thesis
      by (cases mx) (auto simp: copyinstr.simps walkaddr_page Let_def uview_def returned_def)
  next
    case False
    define n where "n = min (4096 - page_off va) mx"
    have n: "page_off va + n \<le> 4096" "n \<le> mx" using page_off_less [of va] by (simp_all add: n_def)
    have v: "mx - n = 0 \<or> va + of_nat n = PGROUNDDOWN va + PGSIZE"
      using next_page [OF walkaddr_MAXVA] False by (auto simp: n_def min_def)
    define c where "c = copystr_page (pg P (walkaddr P pt va)) (page_off va) n"
    have "ustr (uview P pt) va mx =
      (case c of (True, bs) \<Rightarrow> Some bs
       | (False, bs) \<Rightarrow> map_option ((@) bs) (ustr (uview P pt) (va + of_nat n) (mx - n)))"
      unfolding c_def using False by (intro ustr_page) (simp_all add: n(2) uview_offset [OF _ n(1)])
    also have "ustr (uview P pt) (va + of_nat n) (mx - n) = ustr (uview P pt) (PGROUNDDOWN va + PGSIZE) (mx - n)"
      using v by auto
    finally have e: "ustr (uview P pt) va mx =
      (case c of (True, bs) \<Rightarrow> Some bs
       | (False, bs) \<Rightarrow> map_option ((@) bs) (ustr (uview P pt) (PGROUNDDOWN va + PGSIZE) (mx - n)))" .
    show ?thesis
    proof (cases c)
      case (Pair found bs)
      then have c: "copystr_page (pg P (walkaddr P pt va)) (page_off va) (min (4096 - page_off va) mx) = (found, bs)"
        by (simp add: c_def n_def)
      show ?thesis
      proof (cases found)
        case True
        then show ?thesis using c e Pair False
          by (simp add: copyinstr.simps [of P pt va] walkaddr_page returned_def)
      next
        case nf: False
        have "returned (copyinstr P pt (PGROUNDDOWN va + PGSIZE) (mx - n)) =
          ustr (uview P pt) (PGROUNDDOWN va + PGSIZE) (mx - n)"
          using 1 [OF _ refl refl _ n_def] False c nf by (simp add: walkaddr_page n_def)
        then show ?thesis using c e Pair False nf
          by (simp add: copyinstr.simps [of P pt va] walkaddr_page n_def Let_def case_prod_unfold returned_append)
      qed
    qed
  qed
qed

section \<open>Growing an address space\<close>

text \<open>Mapping one fresh page for the user.\<close>

lemma map_page:
  assumes ok: "space_ok P pt" "pool_ok P" and m: "mappages P pt a PGSIZE pa perm = Inr (0, P')"
    and al: "unat a mod 4096 = 0" and perm: "perm < 1024" "perm AND PTE_U \<noteq> 0"
    and pa: "pa mod PGSIZE = 0" "pa \<noteq> 0" "pa \<notin> tables P pt \<union> set (freelist P)" "\<And>x. walkaddr P pt x \<noteq> pa"
  shows "a < MAXVA" "grows P P' pt" "space_ok P' pt"
    "walkaddr P' pt x = (if vp x = vp a then pa else walkaddr P pt x)"
    "uview P' pt x = (if vp x = vp a then Some (pg P pa (page_off x)) else uview P pt x)"
proof -
  have a0: "PGROUNDDOWN a = a" by (rule PGROUNDDOWN_eq [OF al refl])
  have "vp (a + PGSIZE - 1) = vp a"
  proof -
    have "unat (a + 4095) = unat a + 4095"
      using al unsigned_less [where ?'a = nat, of a] by (subst unat_add_small) auto
    then show ?thesis using aligned_vp [OF al] by (simp add: vp_def [of "a + 4095"] PGSIZE_def add.commute [of 4095])
  qed
  then have l0: "PGROUNDDOWN (a + PGSIZE - 1) = a" by (rule PGROUNDDOWN_eq [OF al])
  have L: "mappages_loop P pt a a pa perm = Inr (0, P')"
    using m unfolding mappages_def a0 l0 by (simp add: PGSIZE_def)
  show aM: "a < MAXVA" using L by (auto simp: mappages_loop.simps [of P pt a] not_le split: if_splits)
  note M = mappages_loop_ok [OF L space_okD(1) [OF ok(1)] ok(2) al al]
  show g: "grows P P' pt" using M by blast
  have v: "vp a \<le> vp x \<and> vp x \<le> vp a \<longleftrightarrow> vp x = vp a" for x by auto
  have w: "walkaddr P' pt x = (if vp x = vp a then pa else walkaddr P pt x)" for x
  proof (cases "x < MAXVA")
    case True
    then have nx: "(MAXVA \<le> x) = False" by auto
    show ?thesis
    proof (cases "vp x = vp a")
      case vx: True
      have "pte_of P' pt x = mapped_pte a pa perm x" using M True by (simp add: v vx)
      moreover have "PGROUNDDOWN x - a = 0" using PGROUNDDOWN_eq [OF al vx] by simp
      ultimately show ?thesis
        using vx nx mapped_pte_walk [OF flags_take_bit [OF perm(1)] perm(2), of a pa x] PGROUNDDOWN_aligned [OF pa(1)]
        by (simp add: walkaddr_pte_of)
    next
      case vx: False
      have "pte_of P' pt x = pte_of P pt x" using M True by (simp add: v vx)
      then show ?thesis using vx by (simp add: walkaddr_pte_of)
    qed
  next
    case False
    then have "vp x \<noteq> vp a" using aM aligned_vp [OF al] unat_split [of x] page_off_less [of x] by (auto simp: MAXVA_unat)
    then show ?thesis using False by (simp add: walkaddr_pte_of not_less)
  qed
  then show "walkaddr P' pt x = (if vp x = vp a then pa else walkaddr P pt x)" .
  have fr: "x \<notin> tables P' pt \<union> set (freelist P')" if "x \<notin> tables P pt \<union> set (freelist P)" for x
    using that g unfolding grows_def by blast
  have "pt_wf P' pt" using g by (simp add: grows_def)
  moreover have "walkaddr P' pt x \<notin> tables P' pt \<union> set (freelist P')" if "walkaddr P' pt x \<noteq> 0" for x
    using that space_okD(2,4) [OF ok(1), of x] pa(3) by (intro fr) (auto simp: w)
  moreover have "vp x = vp y" if "walkaddr P' pt x \<noteq> 0" "walkaddr P' pt x = walkaddr P' pt y" for x y
    using that space_okD(3) [OF ok(1), of y x] pa(4) [of x] pa(4) [of y] by (auto simp: w split: if_splits)
  ultimately show "space_ok P' pt" unfolding space_ok_def by blast
  have pgs: "pg P' x = pg P x" if "x \<notin> tables P pt \<union> set (freelist P)" for x
    using that g by (simp add: grows_def)
  show "uview P' pt x = (if vp x = vp a then Some (pg P pa (page_off x)) else uview P pt x)"
    using pgs [OF pa(3)] pa(2) pgs [of "walkaddr P pt x"] space_okD(2,4) [OF ok(1), of x]
    by (auto simp: uview_def w Let_def)
qed

lemma kalloc_page:
  assumes ok: "space_ok P pt" "pool_ok P" and k: "pool_kalloc P = (pa, P1)" "pa \<noteq> 0"
    and Q: "freelist Q = freelist P1" "pend Q = pend P1" "\<And>z. z \<noteq> pa \<Longrightarrow> pg Q z = pg P1 z"
  shows "space_ok Q pt" "pool_ok Q" "pa mod PGSIZE = 0" "pa \<notin> tables Q pt \<union> set (freelist Q)"
    "walkaddr Q pt x \<noteq> pa" "uview Q pt x = uview P pt x" "pa \<in> set (freelist P)"
    "set (freelist Q) \<subseteq> set (freelist P)"
proof -
  obtain fs where f: "freelist P = pa # fs" "freelist Q = fs" "pend Q = pend P" "\<And>z. z \<noteq> pa \<Longrightarrow> pg Q z = pg P z"
    using k Q by (cases "freelist P") (auto simp: pool_kalloc_def)
  have mt: "pa \<notin> tables P pt" using pt_wf_free [OF space_okD(1) [OF ok(1)], of pa] f(1) by auto
  then have same: "\<forall>t \<in> tables P pt. pg Q t = pg P t" using f(4) by metis
  note S = same_tables [OF same]
  show sub: "set (freelist Q) \<subseteq> set (freelist P)" using f by auto
  show "space_ok Q pt" by (rule space_ok_same [OF ok(1) same sub])
  show "pool_ok Q" using ok(2) f by (simp add: pool_ok_def)
  show "pa mod PGSIZE = 0" using ok(2) f(1) by (auto simp: pool_ok_def valid_page_def)
  show "pa \<notin> tables Q pt \<union> set (freelist Q)" using mt ok(2) f(1,2) by (auto simp: S(1) pool_ok_def)
  show "pa \<in> set (freelist P)" using f(1) by simp
  have w: "walkaddr P pt x \<noteq> pa" using space_okD(4) [OF ok(1), of x] k(2) f(1) by auto
  then show "walkaddr Q pt x \<noteq> pa" by (simp add: S(2))
  show "uview Q pt x = uview P pt x" using f(4) [OF w] by (simp add: uview_def S(2) Let_def)
qed

lemma uvmalloc_loop_zeroed:
  assumes "uvmalloc_loop P pt a oldsz newsz xperm = Inr (n, P')" "n \<noteq> 0" "space_ok P pt" "pool_ok P"
    "unat a mod 4096 = 0" "xperm < 1024"
  shows "n = newsz \<and> space_ok P' pt \<and> pool_ok P' \<and>
    (\<forall>x. uview P' pt x = (if vp a \<le> vp x \<and> PGROUNDDOWN x < newsz then Some 0 else uview P pt x))"
  using assms
proof (induction P pt a oldsz newsz xperm rule: uvmalloc_loop.induct)
  case (1 P pt a oldsz newsz xperm)
  show ?case
  proof (cases "a \<ge> newsz")
    case True
    have "\<not> (vp a \<le> vp x \<and> PGROUNDDOWN x < newsz)" for x
      using True aligned_vp [OF 1(6)] PGROUNDDOWN_vp [of x] by (auto simp: word_less_nat_alt word_le_nat_alt)
    then show ?thesis using 1(2-5) True by (auto simp: uvmalloc_loop.simps)
  next
    case False
    obtain pa P1 where k: "pool_kalloc P = (pa, P1)" by fastforce
    define Q where "Q = zero_page P1 pa"
    have pa: "pa \<noteq> 0" using 1(2,3) False k
      by (auto simp: uvmalloc_loop.simps [of P pt a] bindE_eq_Inr split: prod.splits)
    obtain R where R: "mappages Q pt a PGSIZE pa (PTE_R OR PTE_U OR xperm) = Inr (0, R)"
      and rec: "uvmalloc_loop R pt (a + PGSIZE) oldsz newsz xperm = Inr (n, P')"
      using 1(2,3) False k pa
      by (auto simp: uvmalloc_loop.simps [of P pt a] bindE_eq_Inr Q_def split: prod.splits sum.splits if_splits)
    have Q: "freelist Q = freelist P1" "pend Q = pend P1" "\<And>z. z \<noteq> pa \<Longrightarrow> pg Q z = pg P1 z" by (simp_all add: Q_def)
    note K = kalloc_page [OF 1(4,5) k pa Q]
    have perm: "PTE_R OR PTE_U OR xperm < 1024" "(PTE_R OR PTE_U OR xperm) AND PTE_U \<noteq> 0"
    proof -
      have "take_bit 10 (PTE_R OR PTE_U OR xperm) = PTE_R OR PTE_U OR xperm"
        using flags_take_bit [OF 1(7)] by (simp add: PTE_R_def PTE_U_def)
      then have "unat (PTE_R OR PTE_U OR xperm) = unat (PTE_R OR PTE_U OR xperm) mod 1024"
        using unat_take_bit_mod [of 10 "PTE_R OR PTE_U OR xperm"] by simp
      then show "PTE_R OR PTE_U OR xperm < 1024" by (simp add: word_less_nat_alt mod_eq_self_iff_div_eq_0 eq_commute)
      show "(PTE_R OR PTE_U OR xperm) AND PTE_U \<noteq> 0" by (simp add: pte_bits bit_simps) (simp add: PTE_U_def)
    qed
    note M = map_page [OF K(1,2) R 1(6) perm K(3) pa K(4,5)]
    have R': "pool_ok R" using M(2) by (simp add: grows_def)
    have "uview R pt x = (if vp x = vp a then Some 0 else uview P pt x)" for x
      using M(5) [of x] K(6) [of x] by (simp add: Q_def)
    moreover have "n = newsz \<and> space_ok P' pt \<and> pool_ok P' \<and>
      (\<forall>x. uview P' pt x = (if Suc (vp a) \<le> vp x \<and> PGROUNDDOWN x < newsz then Some 0 else uview R pt x))"
      using 1(1) [OF False k [symmetric] pa R [unfolded Q_def] refl _ rec 1(3) M(3) R' aligned_next [OF M(1) 1(6)] 1(7)]
      by (simp add: vp_next [OF M(1)])
    moreover have "PGROUNDDOWN x < newsz" if "vp x = vp a" for x
      using False PGROUNDDOWN_eq [OF 1(6) that] by simp
    ultimately show ?thesis by (auto simp: Suc_le_eq)
  qed
qed

lemma PGROUNDUP_unat: "x \<le> MAXVA \<Longrightarrow> unat (PGROUNDUP x) = 4096 * ((unat x + 4095) div 4096)"
proof -
  assume "x \<le> MAXVA"
  then have "unat x \<le> 2 ^ 38" by (simp add: MAXVA_def word_le_nat_alt)
  then have "unat (x + 4095) = unat x + 4095" by (subst unat_add_small) auto
  moreover have "PGROUNDUP x = PGROUNDDOWN (x + 4095)" by (simp add: PGROUNDUP_def PGROUNDDOWN_def PGSIZE_def add.commute)
  ultimately show ?thesis by (simp add: PGROUNDDOWN_vp vp_def)
qed

text \<open>C16: when \<open>uvmalloc\<close> succeeds it returns the new size; the pages between the old and the
  new size are mapped and read as zeros, every other address of the process reads as before,
  and the address space stays well formed.\<close>

theorem uvmalloc_zeroed:
  assumes "space_ok P pt" "pool_ok P" "oldsz \<le> newsz" "oldsz \<le> MAXVA" "xperm < 1024"
    "uvmalloc P pt oldsz newsz xperm = Inr (n, P')" "n \<noteq> 0"
  shows "n = newsz \<and> space_ok P' pt \<and> pool_ok P' \<and>
    (\<forall>x. uview P' pt x =
       (if PGROUNDUP oldsz \<le> PGROUNDDOWN x \<and> PGROUNDDOWN x < newsz then Some 0 else uview P pt x))"
proof -
  have al: "unat (PGROUNDUP oldsz) mod 4096 = 0" by (simp add: PGROUNDUP_unat [OF assms(4)])
  have "uvmalloc_loop P pt (PGROUNDUP oldsz) (PGROUNDUP oldsz) newsz xperm = Inr (n, P')"
    using assms(3,6) by (simp add: uvmalloc_def not_less [symmetric])
  moreover have "vp (PGROUNDUP oldsz) \<le> vp x \<longleftrightarrow> PGROUNDUP oldsz \<le> PGROUNDDOWN x" for x
    using aligned_vp [OF al] by (simp add: word_le_nat_alt PGROUNDDOWN_vp)
  ultimately show ?thesis using uvmalloc_loop_zeroed [OF _ assms(7,1,2) al assms(5)] by simp
qed

section \<open>A one-page process\<close>

lemma small_space: "space_ok small_pool 0x80100000" "uview small_pool 0x80100000 x = None"
proof -
  have "walkaddr small_pool 0x80100000 x = 0" for x by (simp add: walkaddr_pte_of small_pool_ok(3))
  then show "space_ok small_pool 0x80100000" "uview small_pool 0x80100000 x = None"
    using small_pool_ok(2) by (simp_all add: space_ok_def uview_def)
qed

definition user_pool :: pool where
  "user_pool = (case uvmalloc small_pool 0x80100000 0 4096 PTE_W of Inr (_, P) \<Rightarrow> P | Inl _ \<Rightarrow> small_pool)"

lemma user_pool_alloc: "uvmalloc small_pool 0x80100000 0 4096 PTE_W = Inr (4096, user_pool)"
proof -
  have "case uvmalloc small_pool 0x80100000 0 4096 PTE_W of Inl _ \<Rightarrow> False | Inr (n, P) \<Rightarrow> n = 4096" by code_simp
  then show ?thesis by (auto simp: user_pool_def split: sum.splits)
qed

theorem uvmalloc_zeroed_witness:
  "uvmalloc small_pool 0x80100000 0 4096 PTE_W = Inr (4096, user_pool) \<and> uview user_pool 0x80100000 5 = Some 0"
proof -
  have "(4096 :: u64) = 4096 \<and> space_ok user_pool 0x80100000 \<and> pool_ok user_pool \<and>
    (\<forall>x. uview user_pool 0x80100000 x =
       (if PGROUNDUP 0 \<le> PGROUNDDOWN x \<and> PGROUNDDOWN x < 4096 then Some 0 else uview small_pool 0x80100000 x))"
    by (rule uvmalloc_zeroed [OF small_space(1) small_pool_ok(1) _ _ _ user_pool_alloc])
      (simp_all add: PTE_W_def)
  then show ?thesis using user_pool_alloc by (simp add: PGROUNDUP_def PGROUNDDOWN_def PGSIZE_def)
qed

lemma user_pool_ok: "space_ok user_pool 0x80100000" "pool_ok user_pool"
proof -
  have "uvmalloc_loop small_pool 0x80100000 0 0 4096 PTE_W = Inr (4096, user_pool)"
    using user_pool_alloc by (simp add: uvmalloc_def PGROUNDUP_def PGSIZE_def)
  from uvmalloc_loop_zeroed [OF this _ small_space(1) small_pool_ok(1)]
  show "space_ok user_pool 0x80100000" "pool_ok user_pool" by (simp_all add: PTE_W_def)
qed

text \<open>The second byte of the string lies beyond the last page of the process.\<close>

theorem copyout_refines_witness:
  "fst (copyout user_pool 0x80100000 0xFFF [7, 8]) = - 1 \<and>
   ucopyout_loop (uview user_pool 0x80100000) 0xFFF [7, 8] =
     (False, uview (snd (copyout user_pool 0x80100000 0xFFF [7, 8])) 0x80100000)"
proof -
  have "fst (copyout user_pool 0x80100000 0xFFF [7, 8]) = - 1" by code_simp
  moreover from this copyout_refines [OF user_pool_ok(1),
      of "0xFFF" "[7, 8]" "- 1" "snd (copyout user_pool 0x80100000 0xFFF [7, 8])"]
  have "ucopyout_loop (uview user_pool 0x80100000) 0xFFF [7, 8] =
     (False, uview (snd (copyout user_pool 0x80100000 0xFFF [7, 8])) 0x80100000)"
    by (cases "copyout user_pool 0x80100000 0xFFF [7, 8]") simp
  ultimately show ?thesis by blast
qed

end
