(* ===== verification/Spinlock.thy ===== *)
theory Spinlock
  imports Prelude
begin

text \<open>
  \<^verbatim>\<open>kernel/spinlock.c\<close>: the spin lock and the nesting of \<open>push_off\<close> and \<open>pop_off\<close>. The
  operations are split at their accesses to shared memory, and any number of CPUs run them
  interleaved, under sequential consistency (the fences of the code ask for no less); the
  atomic swap is one step. A CPU acquires and releases locks in any order it likes, and
  enables or disables interrupts when no \<open>push_off\<close> is pending. \<open>held\<close> records, for the
  statements only, which locks a CPU took with its swap and has not given back.
\<close>

section \<open>Locks and CPUs\<close>

record spinlock =
  locked :: u32
  lk_name :: string
  lk_cpu :: "nat option"

record cpu =
  noff :: int
  intena :: bool
  sie :: bool

definition initlock :: "spinlock \<Rightarrow> string \<Rightarrow> spinlock" where
  "initlock lk name = lk\<lparr>lk_name := name, locked := 0, lk_cpu := None\<rparr>"

definition holding :: "spinlock \<Rightarrow> nat \<Rightarrow> bool" where
  "holding lk me \<longleftrightarrow> locked lk \<noteq> 0 \<and> lk_cpu lk = Some me"

definition push_off :: "cpu \<Rightarrow> cpu" where
  "push_off c =
     (let old = sie c;
          c = c\<lparr>sie := False\<rparr>;
          c = (if noff c = 0 then c\<lparr>intena := old\<rparr> else c)
      in c\<lparr>noff := noff c + 1\<rparr>)"

definition pop_off :: "cpu \<Rightarrow> cpu result" where
  "pop_off c =
     (if sie c then Inl (Panic ''pop_off - interruptible'')
      else if noff c < 1 then Inl (Panic ''pop_off'')
      else
        let c = c\<lparr>noff := noff c - 1\<rparr>
        in Inr (if noff c = 0 \<and> intena c then c\<lparr>sie := True\<rparr> else c))"

section \<open>Interleaved execution\<close>

text \<open>
  Where a CPU stands: outside, in \<open>acquire\<close> (before each of the two reads of \<open>holding\<close>,
  before the swap, before \<open>lk->cpu\<close> is set), in \<open>release\<close> (before the two reads, before
  \<open>lk->cpu\<close> is cleared, before the atomic store, before \<open>pop_off\<close>), or stopped by a panic.
\<close>

datatype pc =
    Outside
  | AcqLocked nat | AcqCpu nat | Swap nat | SetCpu nat
  | RelLocked nat | RelCpu nat | ClearCpu nat | Unlock nat | PopOff
  | Stopped string

record smp =
  cpus :: "nat \<Rightarrow> cpu"
  locks :: "nat \<Rightarrow> spinlock"
  pcs :: "nat \<Rightarrow> pc"
  held :: "nat \<Rightarrow> nat set"

definition spin_go :: "nat \<Rightarrow> pc \<Rightarrow> smp \<Rightarrow> smp" where
  "spin_go c k s = s\<lparr>pcs := (pcs s)(c := k)\<rparr>"

definition set_lock :: "nat \<Rightarrow> spinlock \<Rightarrow> smp \<Rightarrow> smp" where
  "set_lock l v s = s\<lparr>locks := (locks s)(l := v)\<rparr>"

definition set_cpu :: "nat \<Rightarrow> cpu \<Rightarrow> smp \<Rightarrow> smp" where
  "set_cpu c v s = s\<lparr>cpus := (cpus s)(c := v)\<rparr>"

definition set_held :: "nat \<Rightarrow> nat set \<Rightarrow> smp \<Rightarrow> smp" where
  "set_held c H s = s\<lparr>held := (held s)(c := H)\<rparr>"

text \<open>The start of a call of \<open>acquire\<close>, and every later step of \<open>acquire\<close> and \<open>release\<close>.\<close>

definition acquire_call :: "nat \<Rightarrow> nat \<Rightarrow> smp \<Rightarrow> smp" where
  "acquire_call c l s = spin_go c (AcqLocked l) (set_cpu c (push_off (cpus s c)) s)"

definition acquire_step :: "nat \<Rightarrow> smp \<Rightarrow> smp" where
  "acquire_step c s =
     (case pcs s c of
        AcqLocked l \<Rightarrow> spin_go c (if locked (locks s l) \<noteq> 0 then AcqCpu l else Swap l) s
      | AcqCpu l \<Rightarrow> spin_go c (if lk_cpu (locks s l) = Some c then Stopped ''acquire'' else Swap l) s
      | Swap l \<Rightarrow>
          let s' = set_lock l ((locks s l)\<lparr>locked := 1\<rparr>) s
          in if locked (locks s l) \<noteq> 0 then s' else spin_go c (SetCpu l) (set_held c (insert l (held s c)) s')
      | SetCpu l \<Rightarrow> spin_go c Outside (set_lock l ((locks s l)\<lparr>lk_cpu := Some c\<rparr>) s)
      | _ \<Rightarrow> s)"

definition release_call :: "nat \<Rightarrow> nat \<Rightarrow> smp \<Rightarrow> smp" where
  "release_call c l s = spin_go c (RelLocked l) s"

definition release_step :: "nat \<Rightarrow> smp \<Rightarrow> smp" where
  "release_step c s =
     (case pcs s c of
        RelLocked l \<Rightarrow> spin_go c (if locked (locks s l) \<noteq> 0 then RelCpu l else Stopped ''release'') s
      | RelCpu l \<Rightarrow> spin_go c (if lk_cpu (locks s l) = Some c then ClearCpu l else Stopped ''release'') s
      | ClearCpu l \<Rightarrow> spin_go c (Unlock l) (set_lock l ((locks s l)\<lparr>lk_cpu := None\<rparr>) s)
      | Unlock l \<Rightarrow> spin_go c PopOff (set_held c (held s c - {l}) (set_lock l ((locks s l)\<lparr>locked := 0\<rparr>) s))
      | PopOff \<Rightarrow>
          (case pop_off (cpus s c) of
             Inl (Panic m) \<Rightarrow> spin_go c (Stopped m) s
           | Inl _ \<Rightarrow> spin_go c (Stopped '''') s
           | Inr v \<Rightarrow> spin_go c Outside (set_cpu c v s))
      | _ \<Rightarrow> s)"

inductive spin_step :: "smp \<Rightarrow> smp \<Rightarrow> bool" where
  acquire: "pcs s c = Outside \<Longrightarrow> spin_step s (acquire_call c l s)"
| release: "pcs s c = Outside \<Longrightarrow> spin_step s (release_call c l s)"
| in_acquire: "spin_step s (acquire_step c s)"
| in_release: "spin_step s (release_step c s)"
| interrupts: "pcs s c = Outside \<Longrightarrow> noff (cpus s c) = 0 \<Longrightarrow> spin_step s (set_cpu c ((cpus s c)\<lparr>sie := b\<rparr>) s)"

definition booted :: "smp \<Rightarrow> bool" where
  "booted s \<longleftrightarrow>
     (\<forall>c. pcs s c = Outside \<and> held s c = {} \<and> noff (cpus s c) = 0) \<and>
     (\<forall>l. \<exists>lk name. locks s l = initlock lk name)"

section \<open>The invariant\<close>

text \<open>How many entries of \<open>noff\<close> are not accounted for by a held lock.\<close>

fun extra :: "pc \<Rightarrow> int" where
  "extra (AcqLocked l) = 1"
| "extra (AcqCpu l) = 1"
| "extra (Swap l) = 1"
| "extra PopOff = 1"
| "extra _ = 0"

fun pc_ok :: "pc \<Rightarrow> nat set \<Rightarrow> bool" where
  "pc_ok (Swap l) H \<longleftrightarrow> l \<notin> H"
| "pc_ok (SetCpu l) H \<longleftrightarrow> l \<in> H"
| "pc_ok (ClearCpu l) H \<longleftrightarrow> l \<in> H"
| "pc_ok (Unlock l) H \<longleftrightarrow> l \<in> H"
| "pc_ok (Stopped m) H \<longleftrightarrow> m = ''acquire'' \<or> m = ''release''"
| "pc_ok _ H \<longleftrightarrow> True"

definition lock_inv :: "smp \<Rightarrow> nat \<Rightarrow> bool" where
  "lock_inv s l \<longleftrightarrow>
     (locked (locks s l) \<noteq> 0 \<longleftrightarrow> (\<exists>c. l \<in> held s c)) \<and>
     (\<forall>c d. l \<in> held s c \<longrightarrow> l \<in> held s d \<longrightarrow> c = d) \<and>
     (\<forall>c. lk_cpu (locks s l) = Some c \<longleftrightarrow> l \<in> held s c \<and> pcs s c \<notin> {SetCpu l, Unlock l})"

definition cpu_inv :: "smp \<Rightarrow> nat \<Rightarrow> bool" where
  "cpu_inv s c \<longleftrightarrow>
     finite (held s c) \<and> pc_ok (pcs s c) (held s c) \<and>
     ((\<exists>m. pcs s c = Stopped m) \<or> noff (cpus s c) = int (card (held s c)) + extra (pcs s c)) \<and>
     (noff (cpus s c) \<noteq> 0 \<longrightarrow> \<not> sie (cpus s c))"

definition smp_inv :: "smp \<Rightarrow> bool" where
  "smp_inv s \<longleftrightarrow> (\<forall>l. lock_inv s l) \<and> (\<forall>c. cpu_inv s c)"

lemmas smp_simps = spin_go_def set_lock_def set_cpu_def set_held_def

lemma smp_invD: "smp_inv s \<Longrightarrow> lock_inv s l" "smp_inv s \<Longrightarrow> cpu_inv s c"
  by (simp_all add: smp_inv_def)

lemma booted_inv: "booted s \<Longrightarrow> smp_inv s"
proof -
  assume b: "booted s"
  have "lock_inv s l" for l
  proof -
    obtain lk name where "locks s l = initlock lk name" using b unfolding booted_def by blast
    then show ?thesis using b by (simp add: booted_def lock_inv_def initlock_def)
  qed
  moreover have "cpu_inv s c" for c using b by (simp add: booted_def cpu_inv_def)
  ultimately show ?thesis by (simp add: smp_inv_def)
qed

lemma acquire_call_inv: "smp_inv s \<Longrightarrow> pcs s c = Outside \<Longrightarrow> smp_inv (acquire_call c l s)"
proof -
  assume inv: "smp_inv s" and pc: "pcs s c = Outside"
  have "lock_inv (acquire_call c l s) k" for k
    using smp_invD(1) [OF inv, of k] pc by (auto simp: lock_inv_def acquire_call_def smp_simps)
  moreover have "cpu_inv (acquire_call c l s) d" for d
    using smp_invD(2) [OF inv, of d] pc
    by (auto simp: cpu_inv_def acquire_call_def smp_simps push_off_def Let_def)
  ultimately show ?thesis by (simp add: smp_inv_def)
qed

lemma release_call_inv: "smp_inv s \<Longrightarrow> pcs s c = Outside \<Longrightarrow> smp_inv (release_call c l s)"
proof -
  assume inv: "smp_inv s" and pc: "pcs s c = Outside"
  have "lock_inv (release_call c l s) k" for k
    using smp_invD(1) [OF inv, of k] pc by (auto simp: lock_inv_def release_call_def smp_simps)
  moreover have "cpu_inv (release_call c l s) d" for d
    using smp_invD(2) [OF inv, of d] pc by (auto simp: cpu_inv_def release_call_def smp_simps)
  ultimately show ?thesis by (simp add: smp_inv_def)
qed

lemma acquire_step_inv: "smp_inv s \<Longrightarrow> smp_inv (acquire_step c s)"
proof -
  assume inv: "smp_inv s"
  have "lock_inv (acquire_step c s) k" for k
    using smp_invD(1) [OF inv, of k] smp_invD(2) [OF inv, of c]
    by (auto simp: lock_inv_def cpu_inv_def acquire_step_def smp_simps Let_def split: pc.splits if_splits)
  moreover have "cpu_inv (acquire_step c s) d" for d
    using smp_invD(2) [OF inv, of d] smp_invD(1) [OF inv]
    by (auto simp: lock_inv_def cpu_inv_def acquire_step_def smp_simps Let_def split: pc.splits if_splits)
  ultimately show ?thesis by (simp add: smp_inv_def)
qed

lemma pop_off_ok:
  assumes "noff v = int n + 1" "\<not> sie v"
  obtains w where "pop_off v = Inr w" "noff w = int n" "noff w \<noteq> 0 \<longrightarrow> \<not> sie w"
  using assms by (auto simp: pop_off_def Let_def)

lemma card_minus_one: "finite H \<Longrightarrow> l \<in> H \<Longrightarrow> int (card H - Suc 0) + 1 = int (card H)"
  using card_gt_0_iff [of H] by auto

lemma release_step_inv: "smp_inv s \<Longrightarrow> smp_inv (release_step c s)"
proof (cases "pcs s c = PopOff")
  case True
  assume inv: "smp_inv s"
  have "noff (cpus s c) = int (card (held s c)) + 1" "\<not> sie (cpus s c)"
    using smp_invD(2) [OF inv, of c] True by (simp_all add: cpu_inv_def)
  then obtain w where w: "pop_off (cpus s c) = Inr w" "noff w = int (card (held s c))" "noff w \<noteq> 0 \<longrightarrow> \<not> sie w"
    by (rule pop_off_ok)
  have "lock_inv (release_step c s) k" for k
    using smp_invD(1) [OF inv, of k] True w(1) by (auto simp: lock_inv_def release_step_def smp_simps)
  moreover have "cpu_inv (release_step c s) d" for d
    using smp_invD(2) [OF inv, of d] True w by (auto simp: cpu_inv_def release_step_def smp_simps)
  ultimately show ?thesis by (simp add: smp_inv_def)
next
  case False
  assume inv: "smp_inv s"
  have "lock_inv (release_step c s) k" for k
    using smp_invD(1) [OF inv, of k] smp_invD(2) [OF inv, of c] False
    by (auto simp: lock_inv_def cpu_inv_def release_step_def smp_simps split: pc.splits if_splits)
  moreover have "cpu_inv (release_step c s) d" for d
    using smp_invD(2) [OF inv, of d] smp_invD(1) [OF inv] False
    by (auto simp: lock_inv_def cpu_inv_def release_step_def smp_simps card_minus_one
        split: pc.splits if_splits)
  ultimately show ?thesis by (simp add: smp_inv_def)
qed

lemma interrupts_inv:
  "smp_inv s \<Longrightarrow> noff (cpus s c) = 0 \<Longrightarrow> smp_inv (set_cpu c ((cpus s c)\<lparr>sie := b\<rparr>) s)"
  by (auto simp: smp_inv_def lock_inv_def cpu_inv_def set_cpu_def)

lemma spin_step_inv: "spin_step s s' \<Longrightarrow> smp_inv s \<Longrightarrow> smp_inv s'"
  by (induction rule: spin_step.induct)
    (simp_all add: acquire_call_inv release_call_inv acquire_step_inv release_step_inv interrupts_inv)

lemma spin_steps_inv: "spin_step\<^sup>*\<^sup>* s s' \<Longrightarrow> smp_inv s \<Longrightarrow> smp_inv s'"
  by (induction rule: rtranclp_induct) (auto intro: spin_step_inv)

section \<open>Mutual exclusion\<close>

text \<open>
  C5: in every interleaving of \<open>acquire\<close> and \<open>release\<close> by any number of CPUs from the
  initialised state: no lock is held by two CPUs; \<open>holding\<close> tells exactly the locks a CPU
  holds wherever the code calls it; on a CPU outside these functions \<open>noff\<close> is the number of
  locks held, and interrupts are off while there are any; and no panic other than those of the
  tests of \<open>holding\<close> in \<open>acquire\<close> and \<open>release\<close> ever happens (in particular none in \<open>pop_off\<close>).
\<close>

theorem spinlock_safe:
  assumes "booted s0" "spin_step\<^sup>*\<^sup>* s0 s"
  shows "(l \<in> held s c \<and> l \<in> held s d \<longrightarrow> c = d) \<and>
    (pcs s c \<notin> {SetCpu l, Unlock l} \<longrightarrow> (holding (locks s l) c \<longleftrightarrow> l \<in> held s c)) \<and>
    (pcs s c = Outside \<longrightarrow> noff (cpus s c) = int (card (held s c)) \<and>
       (held s c \<noteq> {} \<longrightarrow> \<not> sie (cpus s c))) \<and>
    (\<forall>m. pcs s c = Stopped m \<longrightarrow> m = ''acquire'' \<or> m = ''release'')"
proof -
  have "smp_inv s" using spin_steps_inv [OF assms(2)] booted_inv [OF assms(1)] .
  then have L: "lock_inv s l" and C: "cpu_inv s c" by (rule smp_invD)+
  have "l \<in> held s c \<and> l \<in> held s d \<longrightarrow> c = d" using L unfolding lock_inv_def by blast
  moreover have "holding (locks s l) c \<longleftrightarrow> l \<in> held s c" if "pcs s c \<notin> {SetCpu l, Unlock l}"
    using L that unfolding lock_inv_def holding_def by metis
  moreover have "noff (cpus s c) = int (card (held s c)) \<and> (held s c \<noteq> {} \<longrightarrow> \<not> sie (cpus s c))"
    if "pcs s c = Outside" using C that by (auto simp: cpu_inv_def)
  ultimately show ?thesis using C by (auto simp: cpu_inv_def)
qed

definition two_cpus :: smp where
  "two_cpus = \<lparr>cpus = \<lambda>_. \<lparr>noff = 0, intena = False, sie = True\<rparr>,
               locks = \<lambda>_. initlock \<lparr>locked = 0, lk_name = [], lk_cpu = None\<rparr> ''kmem'',
               pcs = \<lambda>_. Outside, held = \<lambda>_. {}\<rparr>"

text \<open>CPU 0 holds lock 7 while CPU 1 spins on it.\<close>

definition contended :: smp where
  "contended = acquire_step 1 (acquire_step 1 (acquire_step 1 (acquire_call 1 7
     (acquire_step 0 (acquire_step 0 (acquire_step 0 (acquire_call 0 7 two_cpus)))))))"

lemma acquire_steps: "spin_step\<^sup>*\<^sup>* s t \<Longrightarrow> spin_step\<^sup>*\<^sup>* s (acquire_step c t)"
  by (rule rtranclp.rtrancl_into_rtrancl) (auto intro: spin_step.in_acquire)

lemma contended_reached: "spin_step\<^sup>*\<^sup>* two_cpus contended"
proof -
  define a where "a = acquire_step 0 (acquire_step 0 (acquire_step 0 (acquire_call 0 7 two_cpus)))"
  have 0: "spin_step\<^sup>*\<^sup>* two_cpus (acquire_call 0 7 two_cpus)"
    by (intro r_into_rtranclp spin_step.acquire) (simp add: two_cpus_def)
  have 1: "spin_step\<^sup>*\<^sup>* two_cpus a" unfolding a_def
    by (intro acquire_steps 0)
  have "pcs a 1 = Outside"
    by (simp add: a_def acquire_step_def acquire_call_def smp_simps two_cpus_def initlock_def)
  then have "spin_step\<^sup>*\<^sup>* two_cpus (acquire_call 1 7 a)"
    by (intro rtranclp.rtrancl_into_rtrancl [OF 1] spin_step.acquire)
  then show ?thesis unfolding contended_def a_def
    by (intro acquire_steps)
qed

theorem spinlock_safe_witness:
  "pcs contended 0 = Outside \<and> pcs contended 1 = Swap 7 \<and> holding (locks contended 7) 0 \<and>
   noff (cpus contended 0) = 1 \<and> \<not> sie (cpus contended 0)"
proof -
  have e: "pcs contended 0 = Outside" "pcs contended 1 = Swap 7" "held contended 0 = {7}"
    by (simp_all add: contended_def acquire_step_def acquire_call_def smp_simps two_cpus_def initlock_def)
  have "booted two_cpus" by (auto simp: booted_def two_cpus_def)
  from spinlock_safe [OF this contended_reached, of 7 0 0] show ?thesis using e by simp
qed

end
