(* ===== verification/Sleeplock.thy ===== *)
theory Sleeplock
  imports Prelude
begin

text \<open>
  \<^verbatim>\<open>kernel/sleeplock.c\<close> on top of \<open>sleep\<close>, \<open>wakeup\<close>, \<open>sched\<close> and \<open>scheduler\<close> of
  \<^verbatim>\<open>kernel/proc.c\<close>: the processes of the process table use one sleep lock, interleaved at the
  acquisitions and releases of the spin locks involved (the lock's own \<open>lk->lk\<close> and each
  process's \<open>p->lock\<close>), which exclude each other as shown for \<^verbatim>\<open>kernel/spinlock.c\<close>. A process
  that spins for a lock makes no progress in its step.
\<close>

section \<open>State\<close>

datatype procstate = UNUSED | USED | SLEEPING | RUNNABLE | RUNNING | ZOMBIE

definition NPROC :: nat where "NPROC = 64"

text \<open>\<open>sl_lk\<close> is the process that holds the spin lock inside the sleep lock.\<close>

record sleeplock =
  sl_locked :: u32
  sl_lk :: "nat option"
  sl_name :: string
  sl_pid :: int

definition initsleeplock :: "sleeplock \<Rightarrow> string \<Rightarrow> sleeplock" where
  "initsleeplock lk name = lk\<lparr>sl_lk := None, sl_name := name, sl_locked := 0, sl_pid := 0\<rparr>"

text \<open>
  Where a process stands: outside; in \<open>acquiresleep\<close> (\<open>A_\<close>); in the \<open>sleep\<close> it calls (\<open>S_\<close>,
  \<open>S_asleep\<close> being the time off the CPU); the owner of the lock; in \<open>releasesleep\<close> (\<open>R_\<close>, with
  the position of the loop of \<open>wakeup\<close>); in \<open>holdingsleep\<close> (\<open>H_\<close>, with whether it came from
  the owner).
\<close>

datatype spc =
    Idle
  | A_acquire | A_test | A_take | A_release
  | S_acquire | S_release | S_mark | S_sched | S_asleep | S_tidy | S_unlock | S_reacquire
  | Owner
  | R_acquire | R_clear | R_wakeup nat | R_release
  | H_acquire bool | H_test bool | H_release bool bool

record sys =
  slk :: sleeplock
  lkaddr :: addr
  pid_of :: "nat \<Rightarrow> int"
  pst :: "nat \<Rightarrow> procstate"
  pch :: "nat \<Rightarrow> addr"
  plock :: "nat \<Rightarrow> nat option"
  at :: "nat \<Rightarrow> spc"

definition sl_go :: "nat \<Rightarrow> spc \<Rightarrow> sys \<Rightarrow> sys" where
  "sl_go p k s = s\<lparr>at := (at s)(p := k)\<rparr>"

definition set_lk :: "nat option \<Rightarrow> sys \<Rightarrow> sys" where
  "set_lk h s = s\<lparr>slk := (slk s)\<lparr>sl_lk := h\<rparr>\<rparr>"

definition set_plock :: "nat \<Rightarrow> nat option \<Rightarrow> sys \<Rightarrow> sys" where
  "set_plock p h s = s\<lparr>plock := (plock s)(p := h)\<rparr>"

section \<open>The operations\<close>

text \<open>\<open>acquire(&lk->lk)\<close> and \<open>acquire(&p->lock)\<close>: no progress while another process has it.\<close>

definition take_lk :: "nat \<Rightarrow> spc \<Rightarrow> sys \<Rightarrow> sys" where
  "take_lk p k s = (if sl_lk (slk s) = None then sl_go p k (set_lk (Some p) s) else s)"

definition take_plock :: "nat \<Rightarrow> spc \<Rightarrow> sys \<Rightarrow> sys" where
  "take_plock p k s = (if plock s p = None then sl_go p k (set_plock p (Some p) s) else s)"

definition acquiresleep :: "nat \<Rightarrow> sys \<Rightarrow> sys" where
  "acquiresleep p s =
     (case at s p of
        A_acquire \<Rightarrow> take_lk p A_test s
      | A_test \<Rightarrow> sl_go p (if sl_locked (slk s) \<noteq> 0 then S_acquire else A_take) s
      | A_take \<Rightarrow> sl_go p A_release (s\<lparr>slk := (slk s)\<lparr>sl_locked := 1, sl_pid := pid_of s p\<rparr>\<rparr>)
      | A_release \<Rightarrow> sl_go p Owner (set_lk None s)
      | _ \<Rightarrow> s)"

text \<open>\<open>sleep(lk, &lk->lk)\<close>; at \<open>S_sched\<close> the scheduler has switched away and releases \<open>p->lock\<close>.\<close>

definition sleep :: "nat \<Rightarrow> sys \<Rightarrow> sys" where
  "sleep p s =
     (case at s p of
        S_acquire \<Rightarrow> take_plock p S_release s
      | S_release \<Rightarrow> sl_go p S_mark (set_lk None s)
      | S_mark \<Rightarrow> sl_go p S_sched (s\<lparr>pch := (pch s)(p := lkaddr s), pst := (pst s)(p := SLEEPING)\<rparr>)
      | S_sched \<Rightarrow> sl_go p S_asleep (set_plock p None s)
      | S_tidy \<Rightarrow> sl_go p S_unlock (s\<lparr>pch := (pch s)(p := 0)\<rparr>)
      | S_unlock \<Rightarrow> sl_go p S_reacquire (set_plock p None s)
      | S_reacquire \<Rightarrow> take_lk p A_test s
      | _ \<Rightarrow> s)"

text \<open>One trip of \<open>scheduler\<close> that finds process \<open>p\<close>: it switches to it holding \<open>p->lock\<close>.\<close>

definition schedule :: "nat \<Rightarrow> sys \<Rightarrow> sys" where
  "schedule p s =
     (if at s p = S_asleep \<and> plock s p = None \<and> pst s p = RUNNABLE
      then sl_go p S_tidy (set_plock p (Some p) (s\<lparr>pst := (pst s)(p := RUNNING)\<rparr>)) else s)"

text \<open>One trip of the loop of \<open>wakeup(lk)\<close>, by \<open>p\<close> at process \<open>i\<close>.\<close>

definition wakeup_one :: "nat \<Rightarrow> nat \<Rightarrow> sys \<Rightarrow> sys" where
  "wakeup_one p i s =
     (let next = (if Suc i < NPROC then R_wakeup (Suc i) else R_release)
      in if i = p then sl_go p next s
         else if plock s i \<noteq> None then s
         else sl_go p next
           (if pst s i = SLEEPING \<and> pch s i = lkaddr s then s\<lparr>pst := (pst s)(i := RUNNABLE)\<rparr> else s))"

definition releasesleep :: "nat \<Rightarrow> sys \<Rightarrow> sys" where
  "releasesleep p s =
     (case at s p of
        R_acquire \<Rightarrow> take_lk p R_clear s
      | R_clear \<Rightarrow> sl_go p (R_wakeup 0) (s\<lparr>slk := (slk s)\<lparr>sl_locked := 0, sl_pid := 0\<rparr>\<rparr>)
      | R_wakeup i \<Rightarrow> wakeup_one p i s
      | R_release \<Rightarrow> sl_go p Idle (set_lk None s)
      | _ \<Rightarrow> s)"

definition holdingsleep :: "nat \<Rightarrow> sys \<Rightarrow> sys" where
  "holdingsleep p s =
     (case at s p of
        H_acquire b \<Rightarrow> take_lk p (H_test b) s
      | H_test b \<Rightarrow> sl_go p (H_release b (sl_locked (slk s) \<noteq> 0 \<and> sl_pid (slk s) = pid_of s p)) s
      | H_release b r \<Rightarrow> sl_go p (if b then Owner else Idle) (set_lk None s)
      | _ \<Rightarrow> s)"

text \<open>\<open>kill\<close> makes a sleeping process runnable whatever it sleeps on.\<close>

definition kill_wake :: "nat \<Rightarrow> sys \<Rightarrow> sys" where
  "kill_wake p s =
     (if plock s p = None \<and> pst s p = SLEEPING then s\<lparr>pst := (pst s)(p := RUNNABLE)\<rparr> else s)"

inductive sl_step :: "sys \<Rightarrow> sys \<Rightarrow> bool" where
  call_acquire: "p < NPROC \<Longrightarrow> at s p = Idle \<Longrightarrow> sl_step s (sl_go p A_acquire s)"
| call_release: "p < NPROC \<Longrightarrow> at s p = Owner \<Longrightarrow> sl_step s (sl_go p R_acquire s)"
| call_holding: "p < NPROC \<Longrightarrow> at s p \<in> {Idle, Owner} \<Longrightarrow> sl_step s (sl_go p (H_acquire (at s p = Owner)) s)"
| acquiring: "p < NPROC \<Longrightarrow> sl_step s (acquiresleep p s)"
| sleeping: "p < NPROC \<Longrightarrow> sl_step s (sleep p s)"
| scheduling: "p < NPROC \<Longrightarrow> sl_step s (schedule p s)"
| releasing: "p < NPROC \<Longrightarrow> sl_step s (releasesleep p s)"
| holding: "p < NPROC \<Longrightarrow> sl_step s (holdingsleep p s)"
| killing: "p < NPROC \<Longrightarrow> sl_step s (kill_wake p s)"

definition started :: "sys \<Rightarrow> bool" where
  "started s \<longleftrightarrow>
     (\<exists>lk name. slk s = initsleeplock lk name) \<and> lkaddr s \<noteq> 0 \<and> inj_on (pid_of s) {..<NPROC} \<and>
     (\<forall>p. at s p = Idle \<and> plock s p = None \<and> pst s p = RUNNING)"

section \<open>The invariant\<close>

fun in_lk :: "spc \<Rightarrow> bool" where
  "in_lk A_test = True" | "in_lk A_take = True" | "in_lk A_release = True"
| "in_lk S_acquire = True" | "in_lk S_release = True"
| "in_lk R_clear = True" | "in_lk (R_wakeup i) = True" | "in_lk R_release = True"
| "in_lk (H_test b) = True" | "in_lk (H_release b r) = True"
| "in_lk _ = False"

fun in_plock :: "spc \<Rightarrow> bool" where
  "in_plock S_release = True" | "in_plock S_mark = True" | "in_plock S_sched = True"
| "in_plock S_tidy = True" | "in_plock S_unlock = True"
| "in_plock _ = False"

fun owner :: "spc \<Rightarrow> bool" where
  "owner A_release = True" | "owner Owner = True" | "owner R_acquire = True" | "owner R_clear = True"
| "owner (H_acquire b) = b" | "owner (H_test b) = b" | "owner (H_release b r) = b"
| "owner _ = False"

text \<open>A waker whose loop has yet to come to process \<open>p\<close>.\<close>

definition waker_before :: "sys \<Rightarrow> nat \<Rightarrow> bool" where
  "waker_before s p \<longleftrightarrow> (\<exists>q i. at s q = R_wakeup i \<and> i \<le> p)"

definition will_wake :: "sys \<Rightarrow> nat \<Rightarrow> bool" where
  "will_wake s p \<longleftrightarrow> sl_locked (slk s) \<noteq> 0 \<or> waker_before s p"

text \<open>
  What holds at each place, given whether the lock is taken (\<open>L\<close>), whether in the name of this
  process (\<open>M\<close>), whether a wake-up is to come (\<open>W\<close>), the state, and whether the channel of the
  process is the lock (\<open>C\<close>).
\<close>

fun pc_inv :: "spc \<Rightarrow> bool \<Rightarrow> bool \<Rightarrow> bool \<Rightarrow> procstate \<Rightarrow> bool \<Rightarrow> bool" where
  "pc_inv S_mark L M W st C \<longleftrightarrow> W \<and> st \<noteq> SLEEPING"
| "pc_inv S_sched L M W st C \<longleftrightarrow> W \<and> C"
| "pc_inv S_asleep L M W st C \<longleftrightarrow> (st = SLEEPING \<longrightarrow> C \<and> W)"
| "pc_inv S_acquire L M W st C \<longleftrightarrow> L \<and> st \<noteq> SLEEPING"
| "pc_inv S_release L M W st C \<longleftrightarrow> L \<and> st \<noteq> SLEEPING"
| "pc_inv A_take L M W st C \<longleftrightarrow> \<not> L \<and> st \<noteq> SLEEPING"
| "pc_inv (H_release b r) L M W st C \<longleftrightarrow> r = b \<and> (b \<longrightarrow> L \<and> M) \<and> st \<noteq> SLEEPING"
| "pc_inv k L M W st C \<longleftrightarrow> (owner k \<longrightarrow> L \<and> M) \<and> st \<noteq> SLEEPING"

definition proc_inv :: "sys \<Rightarrow> nat \<Rightarrow> bool" where
  "proc_inv s p \<longleftrightarrow>
     (p < NPROC \<or> at s p = Idle) \<and>
     (sl_lk (slk s) = Some p \<longleftrightarrow> in_lk (at s p)) \<and>
     plock s p = (if in_plock (at s p) then Some p else None) \<and>
     pc_inv (at s p) (sl_locked (slk s) \<noteq> 0) (sl_pid (slk s) = pid_of s p) (will_wake s p) (pst s p) (pch s p = lkaddr s)"

definition sleep_inv :: "sys \<Rightarrow> bool" where
  "sleep_inv s \<longleftrightarrow>
     inj_on (pid_of s) {..<NPROC} \<and> (\<forall>p. proc_inv s p) \<and>
     (sl_locked (slk s) \<noteq> 0 \<longrightarrow> (\<exists>p < NPROC. owner (at s p)))"

lemmas sys_simps = sl_go_def set_lk_def set_plock_def take_lk_def take_plock_def

lemma owner_pc_inv: "pc_inv k L M W st C \<Longrightarrow> owner k \<Longrightarrow> L \<and> M"
  by (cases k) auto

lemma pc_inv_mono: "pc_inv k L M W st C \<Longrightarrow> (W \<Longrightarrow> W') \<Longrightarrow> pc_inv k L M W' st C"
  by (cases k) auto

lemma sleep_invD:
  assumes "sleep_inv s"
  shows "proc_inv s p" "p < NPROC \<Longrightarrow> q < NPROC \<Longrightarrow> pid_of s p = pid_of s q \<Longrightarrow> p = q"
    "sl_locked (slk s) \<noteq> 0 \<Longrightarrow> \<exists>p < NPROC. owner (at s p)"
  using assms by (auto simp: sleep_inv_def dest: inj_onD)

lemma proc_invD:
  assumes "sleep_inv s"
  shows "at s p \<noteq> Idle \<Longrightarrow> p < NPROC" "sl_lk (slk s) = Some p \<longleftrightarrow> in_lk (at s p)"
    "plock s p = (if in_plock (at s p) then Some p else None)"
    "pc_inv (at s p) (sl_locked (slk s) \<noteq> 0) (sl_pid (slk s) = pid_of s p) (will_wake s p) (pst s p) (pch s p = lkaddr s)"
  using sleep_invD(1) [OF assms, of p] by (auto simp: proc_inv_def)

text \<open>Only one process is inside the spin lock, and only one owns the sleep lock.\<close>

lemma in_lk_unique: "sleep_inv s \<Longrightarrow> in_lk (at s p) \<Longrightarrow> in_lk (at s q) \<Longrightarrow> p = q"
  using proc_invD(2) [of s p] proc_invD(2) [of s q] by simp

lemma owner_unique:
  assumes "sleep_inv s" "owner (at s p)" "owner (at s q)"
  shows "p = q"
proof -
  have "at s p \<noteq> Idle" "at s q \<noteq> Idle" using assms(2,3) by auto
  moreover have "pid_of s p = pid_of s q"
    using owner_pc_inv [OF proc_invD(4) [OF assms(1)]] assms(2,3) by metis
  ultimately show ?thesis using sleep_invD(2) [OF assms(1)] proc_invD(1) [OF assms(1)] by blast
qed

text \<open>A step that neither moves a waker nor unlocks keeps what sleepers wait for.\<close>

lemma will_wake_same:
  assumes "will_wake s q" "sl_locked (slk s) \<noteq> 0 \<Longrightarrow> sl_locked (slk s') \<noteq> 0"
    "\<And>r i. at s r = R_wakeup i \<Longrightarrow> at s' r = R_wakeup i"
  shows "will_wake s' q"
  using assms unfolding will_wake_def waker_before_def by blast

text \<open>A step of process \<open>p\<close> that leaves the other processes and the lock's fields alone.\<close>

lemma own_step:
  assumes inv: "sleep_inv s" and p: "p < NPROC"
    and rest: "\<And>q. q \<noteq> p \<Longrightarrow> at s' q = at s q \<and> plock s' q = plock s q \<and> pst s' q = pst s q \<and> pch s' q = pch s q \<and>
        (sl_lk (slk s') = Some q \<longleftrightarrow> sl_lk (slk s) = Some q)"
    and same: "pid_of s' = pid_of s" "lkaddr s' = lkaddr s" "sl_locked (slk s') = sl_locked (slk s)"
      "sl_pid (slk s') = sl_pid (slk s)" "owner (at s' p) = owner (at s p)" "\<And>i. at s p \<noteq> R_wakeup i"
    and own: "(sl_lk (slk s') = Some p \<longleftrightarrow> in_lk (at s' p))" "plock s' p = (if in_plock (at s' p) then Some p else None)"
      "pc_inv (at s' p) (sl_locked (slk s) \<noteq> 0) (sl_pid (slk s) = pid_of s p) (will_wake s p) (pst s' p) (pch s' p = lkaddr s)"
  shows "sleep_inv s'"
proof -
  have w: "will_wake s' q" if "will_wake s q" for q
    using that by (rule will_wake_same) (use rest same(3,6) in \<open>metis+\<close>)
  have "proc_inv s' q" for q
  proof (cases "q = p")
    case True
    show ?thesis unfolding True proc_inv_def same using own p w [of p] pc_inv_mono [OF own(3) w] by simp
  next
    case False
    have "pc_inv (at s q) (sl_locked (slk s) \<noteq> 0) (sl_pid (slk s) = pid_of s q) (will_wake s' q) (pst s q) (pch s q = lkaddr s)"
      by (rule pc_inv_mono [OF proc_invD(4) [OF inv] w])
    then show ?thesis using rest [OF False] proc_invD(1-3) [OF inv, of q] by (auto simp: proc_inv_def same)
  qed
  moreover have "\<exists>q < NPROC. owner (at s' q)" if "sl_locked (slk s') \<noteq> 0"
    using sleep_invD(3) [OF inv] that rest same(3,5) by metis
  ultimately show ?thesis using inv by (simp add: sleep_inv_def same(1))
qed

lemma goto_inv:
  assumes inv: "sleep_inv s" and p: "p < NPROC" and "in_lk k = in_lk (at s p)" "in_plock k = in_plock (at s p)"
    "owner k = owner (at s p)" "\<And>i. at s p \<noteq> R_wakeup i"
    "pc_inv k (sl_locked (slk s) \<noteq> 0) (sl_pid (slk s) = pid_of s p) (will_wake s p) (pst s p) (pch s p = lkaddr s)"
  shows "sleep_inv (sl_go p k s)"
  using assms(3-7) proc_invD(2,3) [OF inv, of p] by (intro own_step [OF inv p]) (auto simp: sl_go_def)

lemma take_lk_inv:
  assumes inv: "sleep_inv s" and p: "p < NPROC" and "in_lk k" "in_plock k = in_plock (at s p)"
    "owner k = owner (at s p)" "\<And>i. at s p \<noteq> R_wakeup i"
    "pc_inv k (sl_locked (slk s) \<noteq> 0) (sl_pid (slk s) = pid_of s p) (will_wake s p) (pst s p) (pch s p = lkaddr s)"
  shows "sleep_inv (take_lk p k s)"
proof (cases "sl_lk (slk s) = None")
  case True
  then show ?thesis using assms(3-7) proc_invD(3) [OF inv, of p]
    by (intro own_step [OF inv p]) (auto simp: sys_simps)
next
  case False
  then show ?thesis using inv by (auto simp: take_lk_def)
qed

lemma drop_lk_inv:
  assumes inv: "sleep_inv s" and p: "p < NPROC" and "in_lk (at s p)" "\<not> in_lk k" "in_plock k = in_plock (at s p)"
    "owner k = owner (at s p)" "\<And>i. at s p \<noteq> R_wakeup i"
    "pc_inv k (sl_locked (slk s) \<noteq> 0) (sl_pid (slk s) = pid_of s p) (will_wake s p) (pst s p) (pch s p = lkaddr s)"
  shows "sleep_inv (sl_go p k (set_lk None s))"
  using assms(3-8) proc_invD(2,3) [OF inv, of p] by (intro own_step [OF inv p]) (auto simp: sys_simps)

lemma acquiresleep_inv:
  assumes inv: "sleep_inv s" and p: "p < NPROC"
  shows "sleep_inv (acquiresleep p s)"
proof (cases "at s p")
  case A_acquire
  then show ?thesis using proc_invD(4) [OF inv, of p] by (auto simp: acquiresleep_def intro!: take_lk_inv [OF inv p])
next
  case A_test
  then show ?thesis using proc_invD(4) [OF inv, of p] by (auto simp: acquiresleep_def intro!: goto_inv [OF inv p])
next
  case A_take
  define s' where "s' = acquiresleep p s"
  have s': "at s' = (at s)(p := A_release)" "sl_lk (slk s') = sl_lk (slk s)" "sl_locked (slk s') = 1"
    "sl_pid (slk s') = pid_of s p" "plock s' = plock s" "pst s' = pst s" "pch s' = pch s" "pid_of s' = pid_of s"
    "lkaddr s' = lkaddr s" using A_take by (simp_all add: s'_def acquiresleep_def sys_simps)
  have L: "sl_locked (slk s) = 0" "pst s p \<noteq> SLEEPING" using proc_invD(4) [OF inv, of p] A_take by simp_all
  have W: "will_wake s' q" for q using s'(3) by (simp add: will_wake_def)
  have "proc_inv s' q" for q
  proof (cases "q = p")
    case False
    have n: "\<not> owner (at s q)" "at s q \<noteq> A_take" "at s q \<noteq> S_acquire" "at s q \<noteq> S_release"
      using owner_pc_inv [OF proc_invD(4) [OF inv, of q]] L in_lk_unique [OF inv, of p q] A_take False by auto
    then have "pc_inv (at s q) True (pid_of s p = pid_of s q) True (pst s q) (pch s q = lkaddr s)"
      using proc_invD(4) [OF inv, of q] by (cases "at s q") auto
    then show ?thesis using proc_invD(1-3) [OF inv, of q] False W by (auto simp: proc_inv_def s')
  qed (use p L(2) proc_invD(2,3) [OF inv, of p] A_take in \<open>auto simp: proc_inv_def s'\<close>)
  moreover have "owner (at s' p)" by (simp add: s')
  ultimately show ?thesis unfolding s'_def [symmetric] using inv p s'(8) by (auto simp: sleep_inv_def)
next
  case A_release
  then show ?thesis using proc_invD(4) [OF inv, of p] by (auto simp: acquiresleep_def intro!: drop_lk_inv [OF inv p])
qed (use inv in \<open>simp_all add: acquiresleep_def\<close>)

lemma sleep_step_inv:
  assumes inv: "sleep_inv s" and p: "p < NPROC"
  shows "sleep_inv (sleep p s)"
proof (cases "at s p")
  case S_acquire
  then show ?thesis using proc_invD [OF inv, of p] inv
    by (auto simp: sleep_def sys_simps intro!: own_step [OF inv p] split: if_splits)
next
  case S_release
  then show ?thesis using proc_invD(4) [OF inv, of p]
    by (auto simp: sleep_def will_wake_def intro!: drop_lk_inv [OF inv p])
next
  case S_mark
  then show ?thesis using proc_invD [OF inv, of p]
    by (intro own_step [OF inv p]) (auto simp: sleep_def sys_simps)
next
  case S_sched
  then show ?thesis using proc_invD [OF inv, of p]
    by (intro own_step [OF inv p]) (auto simp: sleep_def sys_simps)
next
  case S_tidy
  then show ?thesis using proc_invD [OF inv, of p]
    by (intro own_step [OF inv p]) (auto simp: sleep_def sys_simps)
next
  case S_unlock
  then show ?thesis using proc_invD [OF inv, of p]
    by (intro own_step [OF inv p]) (auto simp: sleep_def sys_simps)
next
  case S_reacquire
  then show ?thesis using proc_invD(4) [OF inv, of p] by (auto simp: sleep_def intro!: take_lk_inv [OF inv p])
qed (use inv in \<open>simp_all add: sleep_def\<close>)

lemma schedule_inv:
  assumes inv: "sleep_inv s" and p: "p < NPROC"
  shows "sleep_inv (schedule p s)"
proof (cases "at s p = S_asleep \<and> plock s p = None \<and> pst s p = RUNNABLE")
  case True
  then show ?thesis using proc_invD [OF inv, of p]
    by (intro own_step [OF inv p]) (auto simp: schedule_def sys_simps)
qed (use inv in \<open>auto simp: schedule_def\<close>)

lemma kill_inv:
  assumes inv: "sleep_inv s" and p: "p < NPROC"
  shows "sleep_inv (kill_wake p s)"
proof (cases "plock s p = None \<and> pst s p = SLEEPING")
  case True
  have "at s p = S_asleep" using proc_invD(3,4) [OF inv, of p] True by (cases "at s p") auto
  then show ?thesis using proc_invD [OF inv, of p] True
    by (intro own_step [OF inv p]) (auto simp: kill_wake_def)
qed (use inv in \<open>auto simp: kill_wake_def\<close>)

lemma wakeup_one_inv:
  assumes inv: "sleep_inv s" and p: "p < NPROC" and a: "at s p = R_wakeup i"
  shows "sleep_inv (wakeup_one p i s)"
proof (cases "i \<noteq> p \<and> plock s i \<noteq> None")
  case True
  then show ?thesis using inv by (auto simp: wakeup_one_def Let_def)
next
  case False
  define k where "k = (if Suc i < NPROC then R_wakeup (Suc i) else R_release)"
  define s' where "s' = wakeup_one p i s"
  have s': "at s' = (at s)(p := k)" "slk s' = slk s" "plock s' = plock s" "pch s' = pch s" "pid_of s' = pid_of s"
    "lkaddr s' = lkaddr s" and
    st: "pst s' q = (if q = i \<and> i \<noteq> p \<and> pst s i = SLEEPING \<and> pch s i = lkaddr s then RUNNABLE else pst s q)" for q
    using False by (auto simp: s'_def wakeup_one_def k_def Let_def sl_go_def)
  have W: "will_wake s' q" if h: "will_wake s q" "q < NPROC" "q \<noteq> i" for q
  proof (cases "sl_locked (slk s) = 0")
    case True
    then obtain r j where r: "at s r = R_wakeup j" "j \<le> q" using h(1) by (auto simp: will_wake_def waker_before_def)
    then have "r = p" using in_lk_unique [OF inv, of r p] a by simp
    then have "Suc i \<le> q" using r a h(3) by simp
    then have "at s' p = R_wakeup (Suc i)" using h(2) by (simp add: s' k_def)
    then show ?thesis using \<open>Suc i \<le> q\<close> by (auto simp: will_wake_def waker_before_def)
  qed (simp add: will_wake_def s')
  have k: "in_lk k" "\<not> in_plock k" "\<not> owner k" "pc_inv k L M w z C \<longleftrightarrow> z \<noteq> SLEEPING" for L M w z C by (simp_all add: k_def)
  have "proc_inv s' q" for q
  proof (cases "q = p")
    case True
    then show ?thesis using p a proc_invD(2-4) [OF inv, of p] by (auto simp: proc_inv_def s' st k)
  next
    case qp: False
    have "pc_inv (at s q) (sl_locked (slk s) \<noteq> 0) (sl_pid (slk s) = pid_of s q) (will_wake s' q) (pst s' q) (pch s q = lkaddr s)"
    proof (cases "q = i")
      case True
      have n: "\<not> in_plock (at s i)" using False True qp proc_invD(3) [OF inv, of i] by (auto split: if_splits)
      then show ?thesis using proc_invD(4) [OF inv, of i] True qp st [of i]
        by (cases "at s i") (auto split: if_splits)
    next
      case qi: False
      show ?thesis
      proof (cases "at s q = Idle")
        case True
        then show ?thesis using proc_invD(4) [OF inv, of q] qi by (simp add: st)
      next
        case False
        then have "q < NPROC" using proc_invD(1) [OF inv] by blast
        then show ?thesis using pc_inv_mono [OF proc_invD(4) [OF inv, of q]] W [of q] qi by (simp add: st)
      qed
    qed
    then show ?thesis using qp proc_invD(1-3) [OF inv, of q] by (auto simp: proc_inv_def s')
  qed
  moreover have "\<exists>q < NPROC. owner (at s' q)" if l: "sl_locked (slk s') \<noteq> 0"
  proof -
    obtain q where "q < NPROC" "owner (at s q)" using sleep_invD(3) [OF inv] l s'(2) by auto
    moreover from this a have "q \<noteq> p" by auto
    ultimately show ?thesis using s'(1) by auto
  qed
  ultimately show ?thesis unfolding s'_def [symmetric] using inv s'(5) by (simp add: sleep_inv_def)
qed

lemma releasesleep_inv:
  assumes inv: "sleep_inv s" and p: "p < NPROC"
  shows "sleep_inv (releasesleep p s)"
proof (cases "at s p")
  case R_acquire
  then show ?thesis using proc_invD(4) [OF inv, of p] by (auto simp: releasesleep_def intro!: take_lk_inv [OF inv p])
next
  case R_clear
  define s' where "s' = releasesleep p s"
  have s': "at s' = (at s)(p := R_wakeup 0)" "sl_lk (slk s') = sl_lk (slk s)" "sl_locked (slk s') = 0"
    "plock s' = plock s" "pst s' = pst s" "pch s' = pch s" "pid_of s' = pid_of s" "lkaddr s' = lkaddr s"
    using R_clear by (simp_all add: s'_def releasesleep_def sys_simps)
  have W: "will_wake s' q" for q using s'(1) by (auto simp: will_wake_def waker_before_def)
  have "proc_inv s' q" for q
  proof (cases "q = p")
    case False
    have n: "\<not> owner (at s q)" "at s q \<noteq> A_take" "at s q \<noteq> S_acquire" "at s q \<noteq> S_release"
      using owner_unique [OF inv, of p q] in_lk_unique [OF inv, of p q] R_clear False by auto
    then have "pc_inv (at s q) False M True (pst s q) (pch s q = lkaddr s)" for M
      using proc_invD(4) [OF inv, of q] by (cases "at s q") auto
    then show ?thesis using proc_invD(1-3) [OF inv, of q] False W by (auto simp: proc_inv_def s')
  qed (use p proc_invD(2-4) [OF inv, of p] R_clear in \<open>auto simp: proc_inv_def s'\<close>)
  then show ?thesis unfolding s'_def [symmetric] using inv s'(3,7) by (auto simp: sleep_inv_def)
next
  case (R_wakeup i)
  then show ?thesis using wakeup_one_inv [OF inv p] by (simp add: releasesleep_def)
next
  case R_release
  then show ?thesis using proc_invD(4) [OF inv, of p] by (auto simp: releasesleep_def intro!: drop_lk_inv [OF inv p])
qed (use inv in \<open>simp_all add: releasesleep_def\<close>)

text \<open>The test of \<open>holdingsleep\<close> is right.\<close>

lemma holding_test:
  assumes inv: "sleep_inv s" and p: "p < NPROC"
  shows "sl_locked (slk s) \<noteq> 0 \<and> sl_pid (slk s) = pid_of s p \<longleftrightarrow> owner (at s p)"
proof
  assume l: "sl_locked (slk s) \<noteq> 0 \<and> sl_pid (slk s) = pid_of s p"
  then obtain q where q: "q < NPROC" "owner (at s q)" using sleep_invD(3) [OF inv] by blast
  then have "sl_pid (slk s) = pid_of s q" using owner_pc_inv [OF proc_invD(4) [OF inv, of q]] by blast
  then have "q = p" using l sleep_invD(2) [OF inv q(1) p] by simp
  then show "owner (at s p)" using q(2) by simp
next
  assume "owner (at s p)"
  then show "sl_locked (slk s) \<noteq> 0 \<and> sl_pid (slk s) = pid_of s p"
    using owner_pc_inv [OF proc_invD(4) [OF inv, of p]] by blast
qed

lemma holdingsleep_inv:
  assumes inv: "sleep_inv s" and p: "p < NPROC"
  shows "sleep_inv (holdingsleep p s)"
proof (cases "at s p")
  case (H_acquire b)
  then show ?thesis using proc_invD(4) [OF inv, of p] by (auto simp: holdingsleep_def intro!: take_lk_inv [OF inv p])
next
  case (H_test b)
  then show ?thesis using proc_invD(4) [OF inv, of p] holding_test [OF inv p]
    by (auto simp: holdingsleep_def intro!: goto_inv [OF inv p])
next
  case (H_release b r)
  then show ?thesis using proc_invD(4) [OF inv, of p] by (auto simp: holdingsleep_def intro!: drop_lk_inv [OF inv p])
qed (use inv in \<open>simp_all add: holdingsleep_def\<close>)

lemma sl_step_inv: "sl_step s s' \<Longrightarrow> sleep_inv s \<Longrightarrow> sleep_inv s'"
proof (induction rule: sl_step.induct)
  case (call_acquire p s)
  then show ?case using proc_invD(4) [of s p] by (auto intro!: goto_inv)
next
  case (call_release p s)
  then show ?case using proc_invD(4) [of s p] by (auto intro!: goto_inv)
next
  case (call_holding p s)
  then show ?case using proc_invD(4) [of s p] by (auto intro!: goto_inv)
qed (simp_all add: acquiresleep_inv sleep_step_inv schedule_inv releasesleep_inv holdingsleep_inv kill_inv)

lemma sl_steps_inv: "sl_step\<^sup>*\<^sup>* s s' \<Longrightarrow> sleep_inv s \<Longrightarrow> sleep_inv s'"
  by (induction rule: rtranclp_induct) (auto intro: sl_step_inv)

lemma started_inv: "started s \<Longrightarrow> sleep_inv s"
  by (auto simp: started_def sleep_inv_def proc_inv_def initsleeplock_def)

section \<open>Mutual exclusion and wake-ups\<close>

text \<open>
  C3: in every interleaving of \<open>acquiresleep\<close>, \<open>releasesleep\<close>, \<open>holdingsleep\<close>, the scheduler and
  \<open>kill\<close> from the initialised lock: at most one process owns the sleep lock; \<open>holdingsleep\<close>
  returns true exactly to the owner; and no wake-up is lost: while a process sleeps for the
  lock, the lock is taken or a releasing process has yet to come to it in \<open>wakeup\<close>.
\<close>

theorem sleeplock_safe:
  assumes "started s0" "sl_step\<^sup>*\<^sup>* s0 s"
  shows "(at s p = Owner \<and> at s q = Owner \<longrightarrow> p = q) \<and>
    (at s p = H_release b r \<longrightarrow> r = b) \<and>
    (pst s p = SLEEPING \<longrightarrow> sl_locked (slk s) \<noteq> 0 \<or> (\<exists>w i. at s w = R_wakeup i \<and> i \<le> p))"
proof -
  have inv: "sleep_inv s" using sl_steps_inv [OF assms(2)] started_inv [OF assms(1)] .
  have "at s p = Owner \<and> at s q = Owner \<longrightarrow> p = q" using owner_unique [OF inv, of p q] by simp
  moreover have "at s p = H_release b r \<longrightarrow> r = b" using proc_invD(4) [OF inv, of p] by auto
  moreover have "will_wake s p" if "pst s p = SLEEPING"
    using proc_invD(4) [OF inv, of p] that by (cases "at s p") auto
  ultimately show ?thesis by (simp add: will_wake_def waker_before_def)
qed

definition fresh_sys :: sys where
  "fresh_sys = \<lparr>slk = initsleeplock \<lparr>sl_locked = 0, sl_lk = None, sl_name = [], sl_pid = 0\<rparr> ''inode'',
     lkaddr = 0x80030000, pid_of = int, pst = \<lambda>_. RUNNING, pch = \<lambda>_. 0, plock = \<lambda>_. None, at = \<lambda>_. Idle\<rparr>"

text \<open>Process 2 owns the lock and process 5 sleeps for it.\<close>

definition taken_sys :: sys where
  "taken_sys = (acquiresleep 2 ^^ 4) (sl_go 2 A_acquire fresh_sys)"

definition waiting_sys :: sys where
  "waiting_sys = (sleep 5 ^^ 4) ((acquiresleep 5 ^^ 2) (sl_go 5 A_acquire taken_sys))"

lemma acquiresleep_steps: "sl_step\<^sup>*\<^sup>* s t \<Longrightarrow> p < NPROC \<Longrightarrow> sl_step\<^sup>*\<^sup>* s ((acquiresleep p ^^ n) t)"
  by (induction n) (auto intro: rtranclp.rtrancl_into_rtrancl sl_step.acquiring)

lemma sleep_steps: "sl_step\<^sup>*\<^sup>* s t \<Longrightarrow> p < NPROC \<Longrightarrow> sl_step\<^sup>*\<^sup>* s ((sleep p ^^ n) t)"
  by (induction n) (auto intro: rtranclp.rtrancl_into_rtrancl sl_step.sleeping)

lemma taken_sys: "at taken_sys 2 = Owner" "at taken_sys 5 = Idle"
  by (simp_all add: taken_sys_def fresh_sys_def initsleeplock_def acquiresleep_def sys_simps numeral_eq_Suc)

lemma waiting_reached: "sl_step\<^sup>*\<^sup>* fresh_sys waiting_sys"
proof -
  have "sl_step\<^sup>*\<^sup>* fresh_sys (sl_go 2 A_acquire fresh_sys)"
    by (intro r_into_rtranclp sl_step.call_acquire) (simp_all add: NPROC_def fresh_sys_def)
  then have "sl_step\<^sup>*\<^sup>* fresh_sys taken_sys" unfolding taken_sys_def by (rule acquiresleep_steps) (simp add: NPROC_def)
  then have "sl_step\<^sup>*\<^sup>* fresh_sys (sl_go 5 A_acquire taken_sys)"
    by (rule rtranclp.rtrancl_into_rtrancl) (auto intro!: sl_step.call_acquire simp: NPROC_def taken_sys)
  then show ?thesis unfolding waiting_sys_def by (intro sleep_steps acquiresleep_steps) (simp_all add: NPROC_def)
qed

theorem sleeplock_safe_witness: "pst waiting_sys 5 = SLEEPING \<and> sl_locked (slk waiting_sys) \<noteq> 0"
proof -
  have "started fresh_sys" by (auto simp: started_def fresh_sys_def)
  note S = sleeplock_safe [OF this waiting_reached, of 5]
  have e: "pst waiting_sys 5 = SLEEPING" "at waiting_sys w = (if w = 5 then S_asleep else if w = 2 then Owner else Idle)" for w
    by (simp_all add: waiting_sys_def taken_sys_def fresh_sys_def initsleeplock_def acquiresleep_def sleep_def
        sys_simps numeral_eq_Suc)
  then have "\<not> (\<exists>w i. at waiting_sys w = R_wakeup i \<and> i \<le> 5)" by simp
  then show ?thesis using S e(1) by blast
qed

end
