(* ===== verification/Bio.thy ===== *)
theory Bio
  imports Prelude
begin

text \<open>
  \<^verbatim>\<open>kernel/bio.c\<close>: the buffer cache. The buffers are numbered as in \<open>bcache.buf\<close>, the list head
  \<open>bcache.head\<close> is number \<open>NBUF\<close>, and \<open>prev\<close> and \<open>next\<close> are the pointers of the code. Blocks
  are the \<open>BSIZE\<close> bytes of a buffer. The operations run one after the other; a sleep lock
  that is taken makes the caller sleep, which ends the run. \<open>virtio_disk_rw\<close> is the transfer
  that the driver asks the device for; \<open>written\<close> records the writes in their order.
\<close>

section \<open>The cache\<close>

type_synonym block = "nat \<Rightarrow> u8"

definition BSIZE :: nat where "BSIZE = 1024"

definition NBUF :: nat where "NBUF = 30"

definition HEAD :: nat where "HEAD = NBUF"

record iobuf =
  b_valid :: bool
  b_dev :: u32
  b_blockno :: u32
  b_lock :: bool
  b_refcnt :: u32
  b_prev :: nat
  b_next :: nat
  b_data :: block

record bcache =
  bufs :: "nat \<Rightarrow> iobuf"
  disk :: "u32 \<Rightarrow> block"
  written :: "(u32 \<times> block) list"

definition upd_buf :: "nat \<Rightarrow> (iobuf \<Rightarrow> iobuf) \<Rightarrow> 'a bcache_scheme \<Rightarrow> 'a bcache_scheme" where
  "upd_buf b f s = s\<lparr>bufs := (bufs s)(b := f (bufs s b))\<rparr>"

definition set_prev :: "nat \<Rightarrow> nat \<Rightarrow> (nat \<Rightarrow> iobuf) \<Rightarrow> nat \<Rightarrow> iobuf" where
  "set_prev b v B = B(b := (B b)\<lparr>b_prev := v\<rparr>)"

definition set_next :: "nat \<Rightarrow> nat \<Rightarrow> (nat \<Rightarrow> iobuf) \<Rightarrow> nat \<Rightarrow> iobuf" where
  "set_next b v B = B(b := (B b)\<lparr>b_next := v\<rparr>)"

text \<open>The four assignments that put a buffer behind the head, and the two that take it out.\<close>

definition push_front :: "nat \<Rightarrow> (nat \<Rightarrow> iobuf) \<Rightarrow> nat \<Rightarrow> iobuf" where
  "push_front b B =
     (let B = set_next b (b_next (B HEAD)) B;
          B = set_prev b HEAD B;
          B = set_prev (b_next (B HEAD)) b B
      in set_next HEAD b B)"

definition unlink_buf :: "nat \<Rightarrow> (nat \<Rightarrow> iobuf) \<Rightarrow> nat \<Rightarrow> iobuf" where
  "unlink_buf b B =
     (let B = set_prev (b_next (B b)) (b_prev (B b)) B
      in set_next (b_prev (B b)) (b_next (B b)) B)"

definition binit_one :: "nat \<Rightarrow> (nat \<Rightarrow> iobuf) \<Rightarrow> nat \<Rightarrow> iobuf" where
  "binit_one b B = push_front b (B(b := (B b)\<lparr>b_lock := False\<rparr>))"

definition binit :: "'a bcache_scheme \<Rightarrow> 'a bcache_scheme" where
  "binit s =
     s\<lparr>bufs := fold binit_one [0..<NBUF]
                 (set_next HEAD HEAD (set_prev HEAD HEAD (bufs s)))\<rparr>"

text \<open>
  The two loops of \<open>bget\<close>, along \<open>next\<close> and along \<open>prev\<close>; a list of \<open>NBUF\<close> buffers needs
  \<open>NBUF + 1\<close> tests, which is the fuel given.
\<close>

fun bget_cached :: "nat \<Rightarrow> (nat \<Rightarrow> iobuf) \<Rightarrow> u32 \<Rightarrow> u32 \<Rightarrow> nat \<Rightarrow> nat option result" where
  "bget_cached 0 B dev blockno b = Inl Spins"
| "bget_cached (Suc k) B dev blockno b =
     (if b = HEAD then Inr None
      else if b_dev (B b) = dev \<and> b_blockno (B b) = blockno then Inr (Some b)
      else bget_cached k B dev blockno (b_next (B b)))"

fun bget_unused :: "nat \<Rightarrow> (nat \<Rightarrow> iobuf) \<Rightarrow> nat \<Rightarrow> nat option result" where
  "bget_unused 0 B b = Inl Spins"
| "bget_unused (Suc k) B b =
     (if b = HEAD then Inr None
      else if b_refcnt (B b) = 0 then Inr (Some b)
      else bget_unused k B (b_prev (B b)))"

text \<open>\<open>acquiresleep(&b->lock)\<close>\<close>

definition lock_buf :: "nat \<Rightarrow> 'a bcache_scheme \<Rightarrow> (nat \<times> 'a bcache_scheme) result" where
  "lock_buf b s = (if b_lock (bufs s b) then Inl Sleeps else Inr (b, upd_buf b (b_lock_update (\<lambda>_. True)) s))"

definition bget :: "u32 \<Rightarrow> u32 \<Rightarrow> 'a bcache_scheme \<Rightarrow> (nat \<times> 'a bcache_scheme) result" where
  "bget dev blockno s =
     bindE (bget_cached (Suc NBUF) (bufs s) dev blockno (b_next (bufs s HEAD))) (\<lambda>r.
       case r of
         Some b \<Rightarrow> lock_buf b (upd_buf b (\<lambda>x. x\<lparr>b_refcnt := b_refcnt x + 1\<rparr>) s)
       | None \<Rightarrow>
           bindE (bget_unused (Suc NBUF) (bufs s) (b_prev (bufs s HEAD))) (\<lambda>r.
             case r of
               None \<Rightarrow> Inl (Panic ''bget: no buffers'')
             | Some b \<Rightarrow>
                 lock_buf b (upd_buf b (\<lambda>x. x\<lparr>b_dev := dev, b_blockno := blockno, b_valid := False, b_refcnt := 1\<rparr>) s)))"

text \<open>The transfer of one block; the device is addressed by block number only.\<close>

definition virtio_disk_rw :: "nat \<Rightarrow> bool \<Rightarrow> 'a bcache_scheme \<Rightarrow> 'a bcache_scheme" where
  "virtio_disk_rw b wr s =
     (let x = bufs s b
      in if wr then s\<lparr>disk := (disk s)(b_blockno x := b_data x), written := written s @ [(b_blockno x, b_data x)]\<rparr>
         else upd_buf b (\<lambda>x. x\<lparr>b_data := disk s (b_blockno x)\<rparr>) s)"

definition bread :: "u32 \<Rightarrow> u32 \<Rightarrow> 'a bcache_scheme \<Rightarrow> (nat \<times> 'a bcache_scheme) result" where
  "bread dev blockno s =
     bindE (bget dev blockno s) (\<lambda>(b, s).
       if \<not> b_valid (bufs s b)
       then Inr (b, upd_buf b (b_valid_update (\<lambda>_. True)) (virtio_disk_rw b False s))
       else Inr (b, s))"

definition bwrite :: "nat \<Rightarrow> 'a bcache_scheme \<Rightarrow> 'a bcache_scheme result" where
  "bwrite b s = (if \<not> b_lock (bufs s b) then Inl (Panic ''bwrite'') else Inr (virtio_disk_rw b True s))"

definition brelse :: "nat \<Rightarrow> 'a bcache_scheme \<Rightarrow> 'a bcache_scheme result" where
  "brelse b s =
     (if \<not> b_lock (bufs s b) then Inl (Panic ''brelse'')
      else
        let s = upd_buf b (b_lock_update (\<lambda>_. False)) s;
            s = upd_buf b (\<lambda>x. x\<lparr>b_refcnt := b_refcnt x - 1\<rparr>) s
        in Inr (if b_refcnt (bufs s b) = 0 then s\<lparr>bufs := push_front b (unlink_buf b (bufs s))\<rparr> else s))"

definition bpin :: "nat \<Rightarrow> 'a bcache_scheme \<Rightarrow> 'a bcache_scheme" where
  "bpin b s = upd_buf b (\<lambda>x. x\<lparr>b_refcnt := b_refcnt x + 1\<rparr>) s"

definition bunpin :: "nat \<Rightarrow> 'a bcache_scheme \<Rightarrow> 'a bcache_scheme" where
  "bunpin b s = upd_buf b (\<lambda>x. x\<lparr>b_refcnt := b_refcnt x - 1\<rparr>) s"

section \<open>The list of buffers\<close>

fun blinks :: "(nat \<Rightarrow> iobuf) \<Rightarrow> nat list \<Rightarrow> bool" where
  "blinks B (x # y # zs) \<longleftrightarrow> b_next (B x) = y \<and> b_prev (B y) = x \<and> blinks B (y # zs)"
| "blinks B _ \<longleftrightarrow> True"

text \<open>The buffers in the order of the list, most recently used first.\<close>

definition lru :: "(nat \<Rightarrow> iobuf) \<Rightarrow> nat list \<Rightarrow> bool" where
  "lru B xs \<longleftrightarrow> distinct (HEAD # xs) \<and> blinks B (HEAD # xs @ [HEAD])"

lemma blinks_frame:
  assumes "\<And>x. x \<in> set (butlast zs) \<Longrightarrow> b_next (B' x) = b_next (B x)"
    "\<And>x. x \<in> set (tl zs) \<Longrightarrow> b_prev (B' x) = b_prev (B x)"
  shows "blinks B' zs = blinks B zs"
  using assms
proof (induction B zs rule: blinks.induct)
  case (1 B x y zs)
  have "blinks B' (y # zs) = blinks B (y # zs)"
    by (rule 1(1)) (use 1(2,3) in \<open>auto split: if_splits dest: in_set_butlastD\<close>)
  then show ?case using 1(2) [of x] 1(3) [of y] by simp
qed simp_all

lemma blinks_append: "blinks B (xs @ x # ys) \<longleftrightarrow> blinks B (xs @ [x]) \<and> blinks B (x # ys)"
proof (induction xs)
  case (Cons a xs)
  then show ?case by (cases xs; cases ys) auto
qed (cases ys; simp)

lemma links [simp]:
  "b_next (set_prev b v B x) = b_next (B x)" "b_prev (set_next b v B x) = b_prev (B x)"
  "b_prev (set_prev b v B x) = (if x = b then v else b_prev (B x))"
  "b_next (set_next b v B x) = (if x = b then v else b_next (B x))"
  by (simp_all add: set_prev_def set_next_def)

lemma lru_push_front:
  assumes "lru B xs" "b \<notin> set xs" "b \<noteq> HEAD"
  shows "lru (push_front b B) (b # xs)"
proof -
  obtain y ys where y: "xs @ [HEAD] = y # ys" by (cases xs) auto
  have n: "b_next (B HEAD) = y" "blinks B (y # ys)" using assms(1) y by (simp_all add: lru_def)
  have yb: "y \<noteq> b" using y assms(2,3) by (cases xs) auto
  have p: "b_next (push_front b B x) = (if x = HEAD then b else if x = b then y else b_next (B x))"
    "b_prev (push_front b B x) = (if x = y then b else if x = b then HEAD else b_prev (B x))" for x
    using n(1) assms(3) yb by (auto simp: push_front_def Let_def)
  have "blinks (push_front b B) (y # ys) = blinks B (y # ys)"
  proof (rule blinks_frame)
    have "butlast (y # ys) = xs" by (simp flip: y)
    then show "b_next (push_front b B x) = b_next (B x)" if "x \<in> set (butlast (y # ys))" for x
      using that assms by (auto simp: p lru_def)
    have "distinct (xs @ [HEAD])" "b \<notin> set (xs @ [HEAD])" using assms by (auto simp: lru_def)
    then have "distinct (y # ys)" "b \<notin> set (y # ys)" unfolding y by blast+
    then show "b_prev (push_front b B x) = b_prev (B x)" if "x \<in> set (tl (y # ys))" for x
      using that by (auto simp: p)
  qed
  then have "blinks (push_front b B) (HEAD # b # y # ys)" using n(2) yb assms(3) by (auto simp: p)
  then show ?thesis using assms y by (simp add: lru_def)
qed

lemma lru_unlink:
  assumes "lru B (xs @ b # ys)"
  shows "lru (unlink_buf b B) (xs @ ys)"
proof -
  obtain ws u where u: "HEAD # xs = ws @ [u]" using rev_exhaust [of "HEAD # xs"] by blast
  obtain v vs where v: "ys @ [HEAD] = v # vs" by (cases ys) auto
  have e: "HEAD # (xs @ b # ys) @ [HEAD] = ws @ u # b # v # vs" using u v by simp
  have c: "blinks B (ws @ [u])" "b_next (B u) = b" "b_prev (B b) = u" "b_next (B b) = v" "b_prev (B v) = b"
    "blinks B (v # vs)"
    using assms blinks_append [of B ws u "b # v # vs"] unfolding lru_def e by simp_all
  have d: "distinct (HEAD # xs @ b # ys)" using assms by (simp add: lru_def)
  have p: "b_next (unlink_buf b B x) = (if x = u then v else b_next (B x))"
    "b_prev (unlink_buf b B x) = (if x = v then u else b_prev (B x))" for x
    using c(3,4) d by (auto simp: unlink_buf_def Let_def)
  have dU: "distinct (ws @ [u])" unfolding u [symmetric] using d by simp
  have dV: "distinct (v # vs)" unfolding v [symmetric] using d by simp
  have "u \<in> set (HEAD # xs)" unfolding u by simp
  then have uy: "u \<notin> set ys" using d by auto
  have "blinks (unlink_buf b B) (ws @ [u]) = blinks B (ws @ [u])"
  proof (rule blinks_frame)
    show "b_next (unlink_buf b B x) = b_next (B x)" if "x \<in> set (butlast (ws @ [u]))" for x
      using that dU by (auto simp: p)
    have "v \<notin> set (tl (HEAD # xs))" using v d by (cases ys) auto
    then have "v \<notin> set (tl (ws @ [u]))" unfolding u .
    then show "b_prev (unlink_buf b B x) = b_prev (B x)" if "x \<in> set (tl (ws @ [u]))" for x
      using that by (auto simp: p)
  qed
  moreover have "blinks (unlink_buf b B) (v # vs) = blinks B (v # vs)"
  proof (rule blinks_frame)
    have "butlast (v # vs) = ys" by (simp flip: v)
    then show "b_next (unlink_buf b B x) = b_next (B x)" if "x \<in> set (butlast (v # vs))" for x
      using that uy by (auto simp: p)
    show "b_prev (unlink_buf b B x) = b_prev (B x)" if "x \<in> set (tl (v # vs))" for x
      using that dV by (auto simp: p)
  qed
  ultimately have "blinks (unlink_buf b B) (ws @ u # v # vs)"
    using c(1,6) blinks_append [of "unlink_buf b B" ws u "v # vs"] by (simp add: p)
  moreover have "HEAD # (xs @ ys) @ [HEAD] = ws @ u # v # vs" using u v by simp
  ultimately show ?thesis using d by (auto simp: lru_def)
qed

lemma bget_cached_list:
  "blinks B (ys @ [HEAD]) \<Longrightarrow> HEAD \<notin> set ys \<Longrightarrow> length ys < k \<Longrightarrow>
   bget_cached k B dev bn (hd (ys @ [HEAD])) = Inr (find (\<lambda>b. b_dev (B b) = dev \<and> b_blockno (B b) = bn) ys)"
proof (induction ys arbitrary: k)
  case Nil
  then show ?case by (cases k) auto
next
  case (Cons y ys)
  obtain j where j: "k = Suc j" using Cons.prems(3) by (cases k) auto
  have "b_next (B y) = hd (ys @ [HEAD])" "blinks B (ys @ [HEAD])" using Cons.prems(1) by (cases ys; simp)+
  then show ?case using Cons.IH [of j] Cons.prems j by auto
qed

lemma bget_unused_list:
  "blinks B (HEAD # ys) \<Longrightarrow> HEAD \<notin> set ys \<Longrightarrow> length ys < k \<Longrightarrow>
   bget_unused k B (last (HEAD # ys)) = Inr (find (\<lambda>b. b_refcnt (B b) = 0) (rev ys))"
proof (induction ys arbitrary: k rule: rev_induct)
  case Nil
  then show ?case by (cases k) auto
next
  case (snoc y ys)
  obtain j where j: "k = Suc j" using snoc.prems(3) by (cases k) auto
  obtain ws u where u: "HEAD # ys = ws @ [u]" using rev_exhaust [of "HEAD # ys"] by blast
  have e: "HEAD # ys @ [y] = ws @ u # [y]" using arg_cong [OF u, of "\<lambda>zs. zs @ [y]"] by simp
  have "blinks B (ws @ u # [y])" using snoc.prems(1) by (simp only: e)
  then have "blinks B (ws @ [u])" "b_prev (B y) = u" using blinks_append [of B ws u "[y]"] by simp_all
  moreover have "last (HEAD # ys) = u" unfolding u by simp
  ultimately have "b_prev (B y) = last (HEAD # ys)" "blinks B (HEAD # ys)" unfolding u by simp_all
  then show ?case using snoc.IH [of j] snoc.prems j by auto
qed

declare bget_cached.simps [simp del] bget_unused.simps [simp del]

section \<open>The contents of the cache\<close>

text \<open>
  Well-formed caches for one device \<open>dv\<close>: the list holds every buffer, no block has two
  buffers (buffers that were never used have device 0), and an unused buffer is unlocked and
  agrees with the disk.
\<close>

definition bcache_ok :: "u32 \<Rightarrow> 'a bcache_scheme \<Rightarrow> bool" where
  "bcache_ok dv s \<longleftrightarrow>
     (\<exists>xs. lru (bufs s) xs \<and> set xs = {..<NBUF}) \<and>
     (\<forall>i < NBUF. \<forall>j < NBUF. b_dev (bufs s i) = dv \<longrightarrow> b_dev (bufs s j) = dv \<longrightarrow>
        b_blockno (bufs s i) = b_blockno (bufs s j) \<longrightarrow> i = j) \<and>
     (\<forall>i < NBUF. b_dev (bufs s i) = dv \<or> b_dev (bufs s i) = 0 \<and> \<not> b_valid (bufs s i) \<and> b_refcnt (bufs s i) = 0) \<and>
     (\<forall>i < NBUF. b_refcnt (bufs s i) = 0 \<longrightarrow>
        \<not> b_lock (bufs s i) \<and> (b_valid (bufs s i) \<longrightarrow> b_data (bufs s i) = disk s (b_blockno (bufs s i))))"

text \<open>What a reader of block \<open>bn\<close> sees: the cached copy, or the block on the disk.\<close>

definition view :: "u32 \<Rightarrow> 'a bcache_scheme \<Rightarrow> u32 \<Rightarrow> block" where
  "view dv s bn =
     (case find (\<lambda>i. b_dev (bufs s i) = dv \<and> b_blockno (bufs s i) = bn \<and> b_valid (bufs s i)) [0..<NBUF] of
        Some i \<Rightarrow> b_data (bufs s i) | None \<Rightarrow> disk s bn)"

lemma find_upt_unique:
  assumes "i < n" "P i" "\<And>j. j < n \<Longrightarrow> P j \<Longrightarrow> j = i"
  shows "find P [0..<n] = Some i"
proof (cases "find P [0..<n]")
  case None
  then show ?thesis using assms(1,2) by (auto simp: find_None_iff)
next
  case (Some j)
  then have "j < n" "P j" by (auto simp: find_Some_iff)
  then show ?thesis using assms(3) Some by blast
qed

lemma bcache_okD:
  assumes "bcache_ok dv s"
  shows "\<exists>xs. lru (bufs s) xs \<and> set xs = {..<NBUF}"
    "i < NBUF \<Longrightarrow> j < NBUF \<Longrightarrow> b_dev (bufs s i) = dv \<Longrightarrow> b_dev (bufs s j) = dv \<Longrightarrow>
        b_blockno (bufs s i) = b_blockno (bufs s j) \<Longrightarrow> i = j"
    "i < NBUF \<Longrightarrow> b_dev (bufs s i) = dv \<or> b_dev (bufs s i) = 0 \<and> \<not> b_valid (bufs s i) \<and> b_refcnt (bufs s i) = 0"
    "i < NBUF \<Longrightarrow> b_refcnt (bufs s i) = 0 \<Longrightarrow> \<not> b_lock (bufs s i)"
    "i < NBUF \<Longrightarrow> b_refcnt (bufs s i) = 0 \<Longrightarrow> b_valid (bufs s i) \<Longrightarrow> b_data (bufs s i) = disk s (b_blockno (bufs s i))"
  using assms unfolding bcache_ok_def by auto

lemma view_cached:
  assumes "bcache_ok dv s" "i < NBUF" "b_dev (bufs s i) = dv" "b_blockno (bufs s i) = bn" "b_valid (bufs s i)"
  shows "view dv s bn = b_data (bufs s i)"
proof -
  have "find (\<lambda>i. b_dev (bufs s i) = dv \<and> b_blockno (bufs s i) = bn \<and> b_valid (bufs s i)) [0..<NBUF] = Some i"
    by (rule find_upt_unique) (use assms bcache_okD(2) [OF assms(1)] in auto)
  then show ?thesis by (simp add: view_def)
qed

lemma view_uncached:
  assumes "\<And>i. i < NBUF \<Longrightarrow> b_dev (bufs s i) = dv \<Longrightarrow> b_blockno (bufs s i) = bn \<Longrightarrow> \<not> b_valid (bufs s i)"
  shows "view dv s bn = disk s bn"
proof -
  have "find (\<lambda>i. b_dev (bufs s i) = dv \<and> b_blockno (bufs s i) = bn \<and> b_valid (bufs s i)) [0..<NBUF] = None"
    using assms by (auto simp: find_None_iff)
  then show ?thesis by (simp add: view_def)
qed

lemma blinks_cong: "(\<And>i. b_next (B' i) = b_next (B i) \<and> b_prev (B' i) = b_prev (B i)) \<Longrightarrow> blinks B' zs = blinks B zs"
  by (rule blinks_frame) simp_all

lemma lru_cong: "(\<And>i. b_next (B' i) = b_next (B i) \<and> b_prev (B' i) = b_prev (B i)) \<Longrightarrow> lru B' xs = lru B xs"
  unfolding lru_def using blinks_cong [of B' B] by blast

text \<open>The fields of a buffer other than its links.\<close>

definition core :: "iobuf \<Rightarrow> iobuf" where
  "core x = x\<lparr>b_prev := 0, b_next := 0\<rparr>"

lemma coreD:
  assumes "core x = core y"
  shows "b_valid x = b_valid y" "b_dev x = b_dev y" "b_blockno x = b_blockno y" "b_lock x = b_lock y"
    "b_refcnt x = b_refcnt y" "b_data x = b_data y"
  using assms by (auto simp: core_def iobuf.defs dest: arg_cong [where f = b_valid] arg_cong [where f = b_dev]
      arg_cong [where f = b_blockno] arg_cong [where f = b_lock] arg_cong [where f = b_refcnt] arg_cong [where f = b_data])

text \<open>A change of one buffer, which then is for a block that no other buffer has.\<close>

lemma ok_update:
  assumes ok: "bcache_ok dv s" and b: "b < NBUF" and links: "b_prev x = b_prev (bufs s b)" "b_next x = b_next (bufs s b)"
    and x: "b_dev x = dv" "b_refcnt x = 0 \<Longrightarrow> \<not> b_lock x \<and> (b_valid x \<longrightarrow> b_data x = disk s (b_blockno x))"
    and others: "\<And>j. j < NBUF \<Longrightarrow> j \<noteq> b \<Longrightarrow> b_dev (bufs s j) = dv \<Longrightarrow> b_blockno (bufs s j) \<noteq> b_blockno x"
  shows "bcache_ok dv (s\<lparr>bufs := (bufs s)(b := x)\<rparr>)"
proof -
  obtain xs where "lru (bufs s) xs" "set xs = {..<NBUF}" using bcache_okD(1) [OF ok] by blast
  moreover have "lru ((bufs s)(b := x)) xs = lru (bufs s) xs" by (rule lru_cong) (simp add: links)
  ultimately have "\<exists>xs. lru ((bufs s)(b := x)) xs \<and> set xs = {..<NBUF}" by blast
  moreover have "i = j" if "i < NBUF" "j < NBUF" "b_dev (((bufs s)(b := x)) i) = dv" "b_dev (((bufs s)(b := x)) j) = dv"
      "b_blockno (((bufs s)(b := x)) i) = b_blockno (((bufs s)(b := x)) j)" for i j
    using that others [of i] others [of j] bcache_okD(2) [OF ok, of i j] by (cases "i = b"; cases "j = b") auto
  moreover have "b_dev (((bufs s)(b := x)) i) = dv \<or>
      b_dev (((bufs s)(b := x)) i) = 0 \<and> \<not> b_valid (((bufs s)(b := x)) i) \<and> b_refcnt (((bufs s)(b := x)) i) = 0"
    if "i < NBUF" for i using x(1) bcache_okD(3) [OF ok that] by simp
  moreover have "\<not> b_lock (((bufs s)(b := x)) i) \<and>
      (b_valid (((bufs s)(b := x)) i) \<longrightarrow> b_data (((bufs s)(b := x)) i) = disk s (b_blockno (((bufs s)(b := x)) i)))"
    if "i < NBUF" "b_refcnt (((bufs s)(b := x)) i) = 0" for i
    using that x(2) bcache_okD(4,5) [OF ok that(1)] by (cases "i = b") simp_all
  ultimately show ?thesis unfolding bcache_ok_def by simp
qed

lemma view_update:
  assumes ok: "bcache_ok dv s" and b: "b < NBUF" and x: "b_dev x = dv"
    and others: "\<And>j. j < NBUF \<Longrightarrow> j \<noteq> b \<Longrightarrow> b_dev (bufs s j) = dv \<Longrightarrow> b_blockno (bufs s j) \<noteq> b_blockno x"
    and clean: "b_dev (bufs s b) = dv \<Longrightarrow> b_valid (bufs s b) \<Longrightarrow> b_blockno (bufs s b) \<noteq> b_blockno x \<Longrightarrow>
      b_data (bufs s b) = disk s (b_blockno (bufs s b))"
  shows "view dv (s\<lparr>bufs := (bufs s)(b := x)\<rparr>) n =
    (if n = b_blockno x then if b_valid x then b_data x else disk s n else view dv s n)"
proof (cases "n = b_blockno x")
  case True
  have "find (\<lambda>i. b_dev (((bufs s)(b := x)) i) = dv \<and> b_blockno (((bufs s)(b := x)) i) = n \<and> b_valid (((bufs s)(b := x)) i)) [0..<NBUF]
    = (if b_valid x then Some b else None)"
  proof (cases "b_valid x")
    case v: True
    have "find (\<lambda>i. b_dev (((bufs s)(b := x)) i) = dv \<and> b_blockno (((bufs s)(b := x)) i) = n \<and> b_valid (((bufs s)(b := x)) i)) [0..<NBUF] = Some b"
      by (rule find_upt_unique) (use True v x b others in \<open>auto split: if_splits\<close>)
    then show ?thesis using v by simp
  next
    case False
    then show ?thesis using True others by (auto simp: find_None_iff)
  qed
  then show ?thesis using True by (simp add: view_def)
next
  case False
  show ?thesis
  proof (cases "\<exists>i < NBUF. i \<noteq> b \<and> b_dev (bufs s i) = dv \<and> b_blockno (bufs s i) = n \<and> b_valid (bufs s i)")
    case True
    then obtain i where i: "i < NBUF" "i \<noteq> b" "b_dev (bufs s i) = dv" "b_blockno (bufs s i) = n" "b_valid (bufs s i)" by blast
    have "find (\<lambda>i. b_dev (((bufs s)(b := x)) i) = dv \<and> b_blockno (((bufs s)(b := x)) i) = n \<and> b_valid (((bufs s)(b := x)) i)) [0..<NBUF] = Some i"
    proof (rule find_upt_unique)
      fix j
      assume j: "j < NBUF" "b_dev (((bufs s)(b := x)) j) = dv \<and> b_blockno (((bufs s)(b := x)) j) = n \<and> b_valid (((bufs s)(b := x)) j)"
      then have "j \<noteq> b" using False by auto
      then show "j = i" using bcache_okD(2) [OF ok j(1) i(1)] j(2) i by simp
    qed (simp_all add: i)
    then show ?thesis using False i view_cached [OF ok i(1,3,4,5)] by (simp add: view_def)
  next
    case none: False
    have "find (\<lambda>i. b_dev (((bufs s)(b := x)) i) = dv \<and> b_blockno (((bufs s)(b := x)) i) = n \<and> b_valid (((bufs s)(b := x)) i)) [0..<NBUF] = None"
      using none False by (auto simp: find_None_iff)
    moreover have "view dv s n = disk s n"
    proof (cases "b_dev (bufs s b) = dv \<and> b_valid (bufs s b) \<and> b_blockno (bufs s b) = n")
      case True
      then show ?thesis using view_cached [OF ok b] clean False by auto
    next
      case nb: False
      show ?thesis by (rule view_uncached) (use none nb in blast)
    qed
    ultimately show ?thesis using False by (simp add: view_def)
  qed
qed

section \<open>The operations on well-formed caches\<close>

lemma set_buf_eq:
  "b_valid x = b_valid y \<Longrightarrow> b_dev x = b_dev y \<Longrightarrow> b_blockno x = b_blockno y \<Longrightarrow> b_lock x = b_lock y \<Longrightarrow>
   b_refcnt x = b_refcnt y \<Longrightarrow> b_prev x = b_prev y \<Longrightarrow> b_next x = b_next y \<Longrightarrow> b_data x = b_data y \<Longrightarrow>
   s\<lparr>bufs := B(b := x)\<rparr> = s\<lparr>bufs := B(b := y)\<rparr>"
  by (metis iobuf.equality old.unit.exhaust)

lemma lru_bounds: "lru B xs \<Longrightarrow> set xs = {..<NBUF} \<Longrightarrow> length xs < Suc NBUF \<and> HEAD \<notin> set xs"
  using distinct_card [of xs] by (simp add: lru_def)

lemma bget_lists:
  assumes "lru (bufs s) xs" "set xs = {..<NBUF}"
  shows "bget_cached (Suc NBUF) (bufs s) dev bn (b_next (bufs s HEAD)) =
      Inr (find (\<lambda>b. b_dev (bufs s b) = dev \<and> b_blockno (bufs s b) = bn) xs)"
    "bget_unused (Suc NBUF) (bufs s) (b_prev (bufs s HEAD)) = Inr (find (\<lambda>b. b_refcnt (bufs s b) = 0) (rev xs))"
proof -
  have c: "blinks (bufs s) (HEAD # xs @ [HEAD])" "HEAD \<notin> set xs" "length xs < Suc NBUF"
    using assms lru_bounds [OF assms] by (simp_all add: lru_def)
  have n: "b_next (bufs s HEAD) = hd (xs @ [HEAD])" "blinks (bufs s) (xs @ [HEAD])" using c(1) by (cases xs; simp)+
  show "bget_cached (Suc NBUF) (bufs s) dev bn (b_next (bufs s HEAD)) =
      Inr (find (\<lambda>b. b_dev (bufs s b) = dev \<and> b_blockno (bufs s b) = bn) xs)"
    unfolding n(1) by (rule bget_cached_list [OF n(2) c(2,3)])
  obtain ws u where u: "HEAD # xs = ws @ [u]" using rev_exhaust [of "HEAD # xs"] by blast
  have e: "HEAD # xs @ [HEAD] = ws @ u # [HEAD]" using arg_cong [OF u, of "\<lambda>zs. zs @ [HEAD]"] by simp
  have "blinks (bufs s) (ws @ u # [HEAD])" using c(1) by (simp only: e)
  then have p: "blinks (bufs s) (ws @ [u])" "b_prev (bufs s HEAD) = u"
    using blinks_append [of "bufs s" ws u "[HEAD]"] by simp_all
  have "last (HEAD # xs) = u" unfolding u by simp
  then show "bget_unused (Suc NBUF) (bufs s) (b_prev (bufs s HEAD)) = Inr (find (\<lambda>b. b_refcnt (bufs s b) = 0) (rev xs))"
    using bget_unused_list [of "bufs s" xs "Suc NBUF"] p c(2,3) unfolding u [symmetric] by simp
qed

text \<open>\<open>bread\<close> of a block that has a buffer, and of one that has not.\<close>

lemma bread_cached:
  assumes ok: "bcache_ok dv s" and b: "b < NBUF" "b_dev (bufs s b) = dv" "b_blockno (bufs s b) = bn"
    and l: "\<not> b_lock (bufs s b)"
  shows "bread dv bn s = Inr (b, s\<lparr>bufs := (bufs s)(b := (bufs s b)\<lparr>b_refcnt := b_refcnt (bufs s b) + 1, b_lock := True,
     b_valid := True, b_data := (if b_valid (bufs s b) then b_data (bufs s b) else disk s bn)\<rparr>)\<rparr>)"
proof -
  obtain xs where xs: "lru (bufs s) xs" "set xs = {..<NBUF}" using bcache_okD(1) [OF ok] by blast
  have "find (\<lambda>b. b_dev (bufs s b) = dv \<and> b_blockno (bufs s b) = bn) xs = Some b"
  proof (cases "find (\<lambda>b. b_dev (bufs s b) = dv \<and> b_blockno (bufs s b) = bn) xs")
    case None
    then show ?thesis using b xs(2) by (auto simp: find_None_iff)
  next
    case (Some i)
    then have "i \<in> set xs" "b_dev (bufs s i) = dv" "b_blockno (bufs s i) = bn" by (auto simp: find_Some_iff)
    then show ?thesis using Some bcache_okD(2) [OF ok, of i b] b xs(2) by auto
  qed
  then show ?thesis using l b by (cases "b_valid (bufs s b)")
    (auto simp: bread_def bget_def bget_lists [OF xs] lock_buf_def upd_buf_def virtio_disk_rw_def intro!: set_buf_eq)
qed

lemma bread_recycled:
  assumes ok: "bcache_ok dv s" and none: "\<And>i. i < NBUF \<Longrightarrow> b_dev (bufs s i) = dv \<Longrightarrow> b_blockno (bufs s i) \<noteq> bn"
    and free: "\<exists>i < NBUF. b_refcnt (bufs s i) = 0"
  obtains b where "b < NBUF" "b_refcnt (bufs s b) = 0"
    "bread dv bn s = Inr (b, s\<lparr>bufs := (bufs s)(b := (bufs s b)\<lparr>b_dev := dv, b_blockno := bn, b_valid := True, b_refcnt := 1,
      b_lock := True, b_data := disk s bn\<rparr>)\<rparr>)"
proof -
  obtain xs where xs: "lru (bufs s) xs" "set xs = {..<NBUF}" using bcache_okD(1) [OF ok] by blast
  have f: "find (\<lambda>b. b_dev (bufs s b) = dv \<and> b_blockno (bufs s b) = bn) xs = None"
    using none xs(2) by (auto simp: find_None_iff)
  obtain b where r: "find (\<lambda>b. b_refcnt (bufs s b) = 0) (rev xs) = Some b"
    using free xs(2) by (cases "find (\<lambda>b. b_refcnt (bufs s b) = 0) (rev xs)") (auto simp: find_None_iff)
  have b: "b < NBUF" "b_refcnt (bufs s b) = 0"
    using r xs(2) by (auto simp: find_Some_iff) (metis lessThan_iff nth_mem length_rev set_rev)
  have "\<not> b_lock (bufs s b)" using bcache_okD(4) [OF ok b] .
  then have "bread dv bn s = Inr (b, s\<lparr>bufs := (bufs s)(b := (bufs s b)\<lparr>b_dev := dv, b_blockno := bn, b_valid := True,
      b_refcnt := 1, b_lock := True, b_data := disk s bn\<rparr>)\<rparr>)"
    by (simp add: bread_def bget_def bget_lists [OF xs] f r lock_buf_def upd_buf_def virtio_disk_rw_def) (intro set_buf_eq; simp)
  then show ?thesis using that b by blast
qed

section \<open>The cache seen from outside\<close>

text \<open>
  What the users of the cache reason with: the contents of the blocks, the blocks on the disk,
  how often each block is referenced, which are locked, and how many buffers are unused.
\<close>

record acache =
  av :: "u32 \<Rightarrow> block"
  ad :: "u32 \<Rightarrow> block"
  ar :: "u32 \<Rightarrow> nat"
  al :: "u32 \<Rightarrow> bool"
  af :: nat

definition brefs :: "u32 \<Rightarrow> 'a bcache_scheme \<Rightarrow> u32 \<Rightarrow> nat" where
  "brefs dv s bn =
     (case find (\<lambda>i. b_dev (bufs s i) = dv \<and> b_blockno (bufs s i) = bn) [0..<NBUF] of
        None \<Rightarrow> 0 | Some i \<Rightarrow> unat (b_refcnt (bufs s i)))"

definition blocked :: "u32 \<Rightarrow> 'a bcache_scheme \<Rightarrow> u32 \<Rightarrow> bool" where
  "blocked dv s bn \<longleftrightarrow> (\<exists>i < NBUF. b_dev (bufs s i) = dv \<and> b_blockno (bufs s i) = bn \<and> b_lock (bufs s i))"

definition cache_abs :: "u32 \<Rightarrow> 'a bcache_scheme \<Rightarrow> acache" where
  "cache_abs dv s = \<lparr>av = view dv s, ad = disk s, ar = brefs dv s, al = blocked dv s,
     af = card {i. i < NBUF \<and> b_refcnt (bufs s i) = 0}\<rparr>"

text \<open>Buffer \<open>b\<close> is locked by the caller and holds block \<open>bn\<close>.\<close>

definition own :: "u32 \<Rightarrow> 'a bcache_scheme \<Rightarrow> u32 \<Rightarrow> nat \<Rightarrow> bool" where
  "own dv s bn b \<longleftrightarrow> b < NBUF \<and> b_dev (bufs s b) = dv \<and> b_blockno (bufs s b) = bn \<and> b_valid (bufs s b) \<and>
     b_lock (bufs s b) \<and> b_refcnt (bufs s b) \<noteq> 0"

lemma brefs_at:
  assumes "bcache_ok dv s" "i < NBUF" "b_dev (bufs s i) = dv" "b_blockno (bufs s i) = bn"
  shows "brefs dv s bn = unat (b_refcnt (bufs s i))" "blocked dv s bn = b_lock (bufs s i)"
proof -
  have u: "j = i" if "j < NBUF" "b_dev (bufs s j) = dv" "b_blockno (bufs s j) = bn" for j
    using bcache_okD(2) [OF assms(1) that(1) assms(2) that(2)] assms(3,4) that(3) by simp
  have "find (\<lambda>i. b_dev (bufs s i) = dv \<and> b_blockno (bufs s i) = bn) [0..<NBUF] = Some i"
    by (rule find_upt_unique) (use assms u in blast)+
  then show "brefs dv s bn = unat (b_refcnt (bufs s i))" by (simp add: brefs_def)
  show "blocked dv s bn = b_lock (bufs s i)" unfolding blocked_def using assms u by blast
qed

lemma brefs_none:
  assumes "\<And>i. i < NBUF \<Longrightarrow> b_dev (bufs s i) = dv \<Longrightarrow> b_blockno (bufs s i) \<noteq> bn"
  shows "brefs dv s bn = 0" "\<not> blocked dv s bn"
proof -
  have "find (\<lambda>i. b_dev (bufs s i) = dv \<and> b_blockno (bufs s i) = bn) [0..<NBUF] = None"
    using assms by (auto simp: find_None_iff)
  then show "brefs dv s bn = 0" by (simp add: brefs_def)
  show "\<not> blocked dv s bn" using assms by (auto simp: blocked_def)
qed

lemma brefs_update:
  assumes ok: "bcache_ok dv s" and ok': "bcache_ok dv s'" and s': "s' = s\<lparr>bufs := (bufs s)(b := x)\<rparr>" and b: "b < NBUF"
    and x: "b_dev x = dv" and old: "b_dev (bufs s b) = dv \<and> b_blockno (bufs s b) = b_blockno x \<or> b_refcnt (bufs s b) = 0"
  shows "brefs dv s' n = (if n = b_blockno x then unat (b_refcnt x) else brefs dv s n)"
    "blocked dv s' n = (if n = b_blockno x then b_lock x else blocked dv s n)"
proof -
  have "brefs dv s' n = (if n = b_blockno x then unat (b_refcnt x) else brefs dv s n) \<and>
    blocked dv s' n = (if n = b_blockno x then b_lock x else blocked dv s n)"
  proof (cases "n = b_blockno x")
    case True
    then show ?thesis using brefs_at [OF ok' b, of n] x by (simp add: s')
  next
    case False
    show ?thesis
    proof (cases "\<exists>i < NBUF. i \<noteq> b \<and> b_dev (bufs s i) = dv \<and> b_blockno (bufs s i) = n")
      case True
      then obtain i where i: "i < NBUF" "i \<noteq> b" "b_dev (bufs s i) = dv" "b_blockno (bufs s i) = n" by blast
      then show ?thesis using brefs_at [OF ok i(1,3,4)] brefs_at [OF ok' i(1), of n] False by (simp add: s')
    next
      case none: False
      have "brefs dv s' n = 0" "\<not> blocked dv s' n" by (rule brefs_none; use none False in \<open>auto simp: s' split: if_splits\<close>)+
      moreover have "brefs dv s n = 0 \<and> \<not> blocked dv s n"
      proof (cases "b_dev (bufs s b) = dv \<and> b_blockno (bufs s b) = n")
        case True
        then have "b_refcnt (bufs s b) = 0" using old False by auto
        then show ?thesis using brefs_at [OF ok b, of n] True bcache_okD(4) [OF ok b] by simp
      next
        case nb: False
        then show ?thesis using brefs_none [of s dv n] none by blast
      qed
      ultimately show ?thesis using False by simp
    qed
  qed
  then show "brefs dv s' n = (if n = b_blockno x then unat (b_refcnt x) else brefs dv s n)"
    "blocked dv s' n = (if n = b_blockno x then b_lock x else blocked dv s n)" by blast+
qed

lemma unused_update:
  assumes "b < NBUF"
  shows "card {i. i < NBUF \<and> b_refcnt (((bufs s)(b := x)) i) = 0} =
    card {i. i < NBUF \<and> b_refcnt (bufs s i) = 0} - (if b_refcnt (bufs s b) = 0 then 1 else 0)
      + (if b_refcnt x = 0 then 1 else 0)"
proof -
  define A where "A = {i. i < NBUF \<and> b_refcnt (bufs s i) = 0}"
  have A: "finite A" "b \<in> A \<longleftrightarrow> b_refcnt (bufs s b) = 0" using assms by (auto simp: A_def)
  have "{i. i < NBUF \<and> b_refcnt (((bufs s)(b := x)) i) = 0} = (if b_refcnt x = 0 then insert b (A - {b}) else A - {b})"
    using assms by (auto simp: A_def)
  moreover have "card (A - {b}) = card A - (if b_refcnt (bufs s b) = 0 then 1 else 0)"
    using A by (simp add: card_Diff_singleton_if)
  ultimately show ?thesis using A(1) unfolding A_def [symmetric] by (simp del: insert_Diff_single)
qed

text \<open>A change of a buffer that the caller owns, or of an unused one.\<close>

lemma abs_update:
  assumes ok: "bcache_ok dv s" and b: "b < NBUF" and links: "b_prev x = b_prev (bufs s b)" "b_next x = b_next (bufs s b)"
    and x: "b_dev x = dv" "b_refcnt x = 0 \<Longrightarrow> \<not> b_lock x \<and> (b_valid x \<longrightarrow> b_data x = disk s (b_blockno x))" "b_valid x"
    and s': "s' = s\<lparr>bufs := (bufs s)(b := x)\<rparr>"
    and old: "b_dev (bufs s b) = dv \<and> b_blockno (bufs s b) = b_blockno x \<or>
      b_refcnt (bufs s b) = 0 \<and> (\<forall>j < NBUF. b_dev (bufs s j) = dv \<longrightarrow> b_blockno (bufs s j) \<noteq> b_blockno x)"
  shows "bcache_ok dv s'"
    "cache_abs dv s' = (cache_abs dv s)\<lparr>av := (view dv s)(b_blockno x := b_data x),
       ar := (brefs dv s)(b_blockno x := unat (b_refcnt x)), al := (blocked dv s)(b_blockno x := b_lock x),
       af := af (cache_abs dv s) - (if brefs dv s (b_blockno x) = 0 then 1 else 0) + (if b_refcnt x = 0 then 1 else 0)\<rparr>"
proof -
  have o: "b_blockno (bufs s j) \<noteq> b_blockno x" if "j < NBUF" "j \<noteq> b" "b_dev (bufs s j) = dv" for j
    using old that bcache_okD(2) [OF ok that(1) b that(3)] by metis
  show ok': "bcache_ok dv s'" unfolding s' by (rule ok_update [OF ok b links x(1,2) o])
  have v: "view dv s' n = ((view dv s)(b_blockno x := b_data x)) n" for n
  proof -
    have c: "b_data (bufs s b) = disk s (b_blockno (bufs s b))"
      if "b_dev (bufs s b) = dv" "b_valid (bufs s b)" "b_blockno (bufs s b) \<noteq> b_blockno x"
      using old that bcache_okD(5) [OF ok b] by blast
    show ?thesis unfolding s' by (subst view_update [OF ok b x(1) o c]) (simp_all add: x(3))
  qed
  have r: "brefs dv s' n = ((brefs dv s)(b_blockno x := unat (b_refcnt x))) n"
    "blocked dv s' n = ((blocked dv s)(b_blockno x := b_lock x)) n" for n
    using brefs_update [OF ok ok' s' b x(1), of n] old by (simp_all only: fun_upd_apply) blast+
  have "b_refcnt (bufs s b) = 0 \<longleftrightarrow> brefs dv s (b_blockno x) = 0"
    using old
  proof
    assume "b_dev (bufs s b) = dv \<and> b_blockno (bufs s b) = b_blockno x"
    then have "brefs dv s (b_blockno x) = unat (b_refcnt (bufs s b))" by (intro brefs_at(1) [OF ok b]) simp_all
    then show ?thesis by (simp add: unat_eq_0)
  next
    assume "b_refcnt (bufs s b) = 0 \<and> (\<forall>j < NBUF. b_dev (bufs s j) = dv \<longrightarrow> b_blockno (bufs s j) \<noteq> b_blockno x)"
    then show ?thesis using brefs_none(1) [of s dv "b_blockno x"] by blast
  qed
  then show "cache_abs dv s' = (cache_abs dv s)\<lparr>av := (view dv s)(b_blockno x := b_data x),
       ar := (brefs dv s)(b_blockno x := unat (b_refcnt x)), al := (blocked dv s)(b_blockno x := b_lock x),
       af := af (cache_abs dv s) - (if brefs dv s (b_blockno x) = 0 then 1 else 0) + (if b_refcnt x = 0 then 1 else 0)\<rparr>"
    using v r unused_update [OF b, where x = x and s = s] unfolding cache_abs_def by (simp add: s' fun_eq_iff)
qed

text \<open>The links do not matter for what the users see.\<close>

lemma relink:
  assumes ok: "bcache_ok dv s" and same: "\<And>i. core (B i) = core (bufs s i)" and l: "lru B xs" "set xs = {..<NBUF}"
  shows "bcache_ok dv (s\<lparr>bufs := B\<rparr>)" "cache_abs dv (s\<lparr>bufs := B\<rparr>) = cache_abs dv s"
    "own dv (s\<lparr>bufs := B\<rparr>) n i = own dv s n i"
proof -
  note c = coreD [OF same]
  show "bcache_ok dv (s\<lparr>bufs := B\<rparr>)" using ok l unfolding bcache_ok_def by (simp add: c) blast
  show "own dv (s\<lparr>bufs := B\<rparr>) n i = own dv s n i" by (simp add: own_def c)
  have "view dv (s\<lparr>bufs := B\<rparr>) = view dv s" "brefs dv (s\<lparr>bufs := B\<rparr>) = brefs dv s"
    "blocked dv (s\<lparr>bufs := B\<rparr>) = blocked dv s" by (simp_all add: fun_eq_iff view_def brefs_def blocked_def c split: option.split)
  then show "cache_abs dv (s\<lparr>bufs := B\<rparr>) = cache_abs dv s" by (simp add: cache_abs_def c)
qed

lemma core_links [simp]: "core (x\<lparr>b_prev := v\<rparr>) = core x" "core (x\<lparr>b_next := v\<rparr>) = core x"
  by (simp_all add: core_def)

lemma core_relink [simp]: "core (push_front b B i) = core (B i)" "core (unlink_buf b B i) = core (B i)"
  by (simp_all add: push_front_def unlink_buf_def set_prev_def set_next_def Let_def)

definition set_data :: "nat \<Rightarrow> block \<Rightarrow> 'a bcache_scheme \<Rightarrow> 'a bcache_scheme" where
  "set_data b d s = upd_buf b (b_data_update (\<lambda>_. d)) s"

lemma own_at:
  assumes "bcache_ok dv s" "own dv s bn b"
  shows "b < NBUF" "b_data (bufs s b) = view dv s bn" "brefs dv s bn = unat (b_refcnt (bufs s b))" "blocked dv s bn"
    "brefs dv s bn \<noteq> 0"
  using assms view_cached [of dv s b bn] brefs_at [of dv s b bn] by (auto simp: own_def unat_eq_0)

lemma own_other:
  assumes "bcache_ok dv s" "own dv s bn b" "own dv s n i" "n \<noteq> bn"
  shows "i \<noteq> b"
  using assms by (auto simp: own_def)

text \<open>\<open>bread\<close>: the only failures are a locked buffer and a cache without unused buffers.\<close>

lemma bread_ok:
  assumes ok: "bcache_ok dv s" and free: "\<not> blocked dv s bn" "0 < brefs dv s bn \<or> 0 < af (cache_abs dv s)"
    and n: "brefs dv s bn < 2 ^ 32 - 1"
  obtains b s' where "bread dv bn s = Inr (b, s')" "bcache_ok dv s'" "own dv s' bn b"
    "cache_abs dv s' = (cache_abs dv s)\<lparr>ar := (brefs dv s)(bn := brefs dv s bn + 1), al := (blocked dv s)(bn := True),
       af := af (cache_abs dv s) - (if brefs dv s bn = 0 then 1 else 0)\<rparr>"
    "s' = s\<lparr>bufs := bufs s'\<rparr>" "\<forall>m i. own dv s m i \<longrightarrow> own dv s' m i"
proof (cases "\<exists>b < NBUF. b_dev (bufs s b) = dv \<and> b_blockno (bufs s b) = bn")
  case True
  then obtain b where b: "b < NBUF" "b_dev (bufs s b) = dv" "b_blockno (bufs s b) = bn" by blast
  note at = brefs_at [OF ok b]
  define x where "x = (bufs s b)\<lparr>b_refcnt := b_refcnt (bufs s b) + 1, b_lock := True,
     b_valid := True, b_data := (if b_valid (bufs s b) then b_data (bufs s b) else disk s bn)\<rparr>"
  define s' where "s' = s\<lparr>bufs := (bufs s)(b := x)\<rparr>"
  have r: "bread dv bn s = Inr (b, s')" using bread_cached [OF ok b] free(1) at by (simp add: s'_def x_def)
  have u: "unat (b_refcnt (bufs s b) + 1) = Suc (unat (b_refcnt (bufs s b)))"
    using n at by (simp add: unat_add_small)
  then have nz: "b_refcnt (bufs s b) + 1 \<noteq> 0" by (metis Zero_not_Suc unat_eq_zero)
  have x: "b_dev x = dv" "b_blockno x = bn" "b_refcnt x \<noteq> 0" "b_valid x" "b_lock x" "unat (b_refcnt x) = Suc (brefs dv s bn)"
    "b_prev x = b_prev (bufs s b)" "b_next x = b_next (bufs s b)" using b nz u at by (simp_all add: x_def)
  have d: "b_data x = view dv s bn"
  proof (cases "b_valid (bufs s b)")
    case True
    then show ?thesis using view_cached [OF ok b] by (simp add: x_def)
  next
    case False
    have "view dv s bn = disk s bn" by (rule view_uncached) (use False bcache_okD(2) [OF ok _ b(1)] b in auto)
    then show ?thesis using False by (simp add: x_def)
  qed
  note U = abs_update [OF ok b(1) x(7,8,1) _ x(4) s'_def]
  have ok': "bcache_ok dv s'" by (rule U(1)) (use x b in auto)
  have "cache_abs dv s' = (cache_abs dv s)\<lparr>av := (view dv s)(b_blockno x := b_data x),
       ar := (brefs dv s)(b_blockno x := unat (b_refcnt x)), al := (blocked dv s)(b_blockno x := b_lock x),
       af := af (cache_abs dv s) - (if brefs dv s (b_blockno x) = 0 then 1 else 0) + (if b_refcnt x = 0 then 1 else 0)\<rparr>"
    by (rule U(2)) (use x b in auto)
  then have a: "cache_abs dv s' = (cache_abs dv s)\<lparr>ar := (brefs dv s)(bn := brefs dv s bn + 1), al := (blocked dv s)(bn := True),
       af := af (cache_abs dv s) - (if brefs dv s bn = 0 then 1 else 0)\<rparr>"
    using x d by (simp add: cache_abs_def)
  show ?thesis
  proof (rule that [OF r ok' _ a])
    show "own dv s' bn b" using x b by (simp add: own_def s'_def)
    show "s' = s\<lparr>bufs := bufs s'\<rparr>" by (simp add: s'_def)
    show "\<forall>m i. own dv s m i \<longrightarrow> own dv s' m i" using x b by (auto simp: own_def s'_def)
  qed
next
  case False
  then have none: "\<And>i. i < NBUF \<Longrightarrow> b_dev (bufs s i) = dv \<Longrightarrow> b_blockno (bufs s i) \<noteq> bn" by blast
  have r0: "brefs dv s bn = 0" by (rule brefs_none [OF none])
  then have "card {i. i < NBUF \<and> b_refcnt (bufs s i) = 0} > 0" using free(2) by (simp add: cache_abs_def)
  then have fr: "\<exists>i < NBUF. b_refcnt (bufs s i) = 0" by (metis (mono_tags, lifting) Collect_empty_eq card.empty less_nat_zero_code)
  obtain b where b: "b < NBUF" "b_refcnt (bufs s b) = 0"
    "bread dv bn s = Inr (b, s\<lparr>bufs := (bufs s)(b := (bufs s b)\<lparr>b_dev := dv, b_blockno := bn, b_valid := True, b_refcnt := 1,
      b_lock := True, b_data := disk s bn\<rparr>)\<rparr>)" by (rule bread_recycled [OF ok _ fr, of bn]) (use none in blast)+
  define x where "x = (bufs s b)\<lparr>b_dev := dv, b_blockno := bn, b_valid := True, b_refcnt := 1, b_lock := True, b_data := disk s bn\<rparr>"
  define s' where "s' = s\<lparr>bufs := (bufs s)(b := x)\<rparr>"
  have r: "bread dv bn s = Inr (b, s')" using b(3) by (simp add: s'_def x_def)
  have x: "b_dev x = dv" "b_blockno x = bn" "b_refcnt x = 1" "b_valid x" "b_lock x" "b_data x = disk s bn"
    "b_prev x = b_prev (bufs s b)" "b_next x = b_next (bufs s b)" by (simp_all add: x_def)
  have d: "view dv s bn = disk s bn" by (rule view_uncached) (use none in blast)
  note U = abs_update [OF ok b(1) x(7,8,1) _ x(4) s'_def]
  have ok': "bcache_ok dv s'" by (rule U(1)) (use x b none in auto)
  have "cache_abs dv s' = (cache_abs dv s)\<lparr>av := (view dv s)(b_blockno x := b_data x),
       ar := (brefs dv s)(b_blockno x := unat (b_refcnt x)), al := (blocked dv s)(b_blockno x := b_lock x),
       af := af (cache_abs dv s) - (if brefs dv s (b_blockno x) = 0 then 1 else 0) + (if b_refcnt x = 0 then 1 else 0)\<rparr>"
    by (rule U(2)) (use x b none in auto)
  then have a: "cache_abs dv s' = (cache_abs dv s)\<lparr>ar := (brefs dv s)(bn := brefs dv s bn + 1), al := (blocked dv s)(bn := True),
       af := af (cache_abs dv s) - (if brefs dv s bn = 0 then 1 else 0)\<rparr>"
    using x d r0 by (simp add: cache_abs_def fun_eq_iff)
  show ?thesis
  proof (rule that [OF r ok' _ a])
    show "own dv s' bn b" using x b by (simp add: own_def s'_def)
    show "s' = s\<lparr>bufs := bufs s'\<rparr>" by (simp add: s'_def)
    show "\<forall>m i. own dv s m i \<longrightarrow> own dv s' m i" using b(2) by (auto simp: own_def s'_def)
  qed
qed

lemma bread_full:
  assumes ok: "bcache_ok dv s" and "brefs dv s bn = 0" "af (cache_abs dv s) = 0"
  shows "bread dv bn s = Inl (Panic ''bget: no buffers'')"
proof -
  obtain xs where xs: "lru (bufs s) xs" "set xs = {..<NBUF}" using bcache_okD(1) [OF ok] by blast
  have busy: "b_refcnt (bufs s i) \<noteq> 0" if "i < NBUF" for i using assms(3) that by (auto simp: cache_abs_def)
  have "\<not> (b_dev (bufs s i) = dv \<and> b_blockno (bufs s i) = bn)" if "i < NBUF" for i
    using brefs_at(1) [OF ok that, of bn] busy [OF that] assms(2) by (auto simp: unat_eq_0)
  then have "find (\<lambda>b. b_dev (bufs s b) = dv \<and> b_blockno (bufs s b) = bn) xs = None" using xs(2) by (auto simp: find_None_iff)
  moreover have "find (\<lambda>b. b_refcnt (bufs s b) = 0) (rev xs) = None" using busy xs(2) by (auto simp: find_None_iff)
  ultimately show ?thesis by (simp add: bread_def bget_def bget_lists [OF xs])
qed

text \<open>Changes of the data and of the reference count of an owned buffer.\<close>

lemma owned_update:
  assumes ok: "bcache_ok dv s" and o: "own dv s bn b" and x: "b_dev x = dv" "b_blockno x = bn" "b_valid x" "b_refcnt x \<noteq> 0"
      "b_prev x = b_prev (bufs s b)" "b_next x = b_next (bufs s b)" "b_lock x"
    and s': "s' = s\<lparr>bufs := (bufs s)(b := x)\<rparr>"
  shows "bcache_ok dv s'" "own dv s' bn b" "\<forall>m i. own dv s m i \<longrightarrow> own dv s' m i"
    "cache_abs dv s' = (cache_abs dv s)\<lparr>av := (view dv s)(bn := b_data x), ar := (brefs dv s)(bn := unat (b_refcnt x))\<rparr>"
proof -
  have b: "b < NBUF" "b_dev (bufs s b) = dv" "b_blockno (bufs s b) = bn" using o by (simp_all add: own_def)
  have al: "(blocked dv s)(bn := True) = blocked dv s" "brefs dv s bn \<noteq> 0" using own_at [OF ok o] by (auto simp: fun_eq_iff)
  note U = abs_update [OF ok b(1) x(5,6,1) _ x(3) s']
  show "bcache_ok dv s'" by (rule U(1)) (use x b in auto)
  have "cache_abs dv s' = (cache_abs dv s)\<lparr>av := (view dv s)(b_blockno x := b_data x),
       ar := (brefs dv s)(b_blockno x := unat (b_refcnt x)), al := (blocked dv s)(b_blockno x := b_lock x),
       af := af (cache_abs dv s) - (if brefs dv s (b_blockno x) = 0 then 1 else 0) + (if b_refcnt x = 0 then 1 else 0)\<rparr>"
    by (rule U(2)) (use x b in auto)
  then show "cache_abs dv s' = (cache_abs dv s)\<lparr>av := (view dv s)(bn := b_data x), ar := (brefs dv s)(bn := unat (b_refcnt x))\<rparr>"
    using x al by (simp add: cache_abs_def)
  show "own dv s' bn b" "\<forall>m i. own dv s m i \<longrightarrow> own dv s' m i" using x b by (auto simp: own_def s')
qed

lemma set_data_ok:
  assumes "bcache_ok dv s" "own dv s bn b"
  shows "bcache_ok dv (set_data b d s)" "own dv (set_data b d s) bn b" "\<forall>m i. own dv s m i \<longrightarrow> own dv (set_data b d s) m i"
    "cache_abs dv (set_data b d s) = (cache_abs dv s)\<lparr>av := (view dv s)(bn := d)\<rparr>"
proof -
  define x where "x = (bufs s b)\<lparr>b_data := d\<rparr>"
  have e: "set_data b d s = s\<lparr>bufs := (bufs s)(b := x)\<rparr>" by (simp add: set_data_def upd_buf_def x_def)
  have x: "b_dev x = dv" "b_blockno x = bn" "b_valid x" "b_refcnt x \<noteq> 0" "b_prev x = b_prev (bufs s b)"
    "b_next x = b_next (bufs s b)" "b_lock x" using assms(2) by (simp_all add: x_def own_def)
  note U = owned_update [OF assms x e]
  show "bcache_ok dv (set_data b d s)" "own dv (set_data b d s) bn b" "\<forall>m i. own dv s m i \<longrightarrow> own dv (set_data b d s) m i"
    by (fact U(1), fact U(2), fact U(3))
  have "(brefs dv s)(bn := unat (b_refcnt x)) = brefs dv s" using own_at(3) [OF assms] by (simp add: x_def fun_eq_iff)
  then show "cache_abs dv (set_data b d s) = (cache_abs dv s)\<lparr>av := (view dv s)(bn := d)\<rparr>"
    using U(4) by (simp add: x_def cache_abs_def)
qed

lemma bpin_ok:
  assumes "bcache_ok dv s" "own dv s bn b" "brefs dv s bn < 2 ^ 32 - 1"
  shows "bcache_ok dv (bpin b s)" "own dv (bpin b s) bn b" "\<forall>m i. own dv s m i \<longrightarrow> own dv (bpin b s) m i"
    "cache_abs dv (bpin b s) = (cache_abs dv s)\<lparr>ar := (brefs dv s)(bn := brefs dv s bn + 1)\<rparr>"
proof -
  define x where "x = (bufs s b)\<lparr>b_refcnt := b_refcnt (bufs s b) + 1\<rparr>"
  have e: "bpin b s = s\<lparr>bufs := (bufs s)(b := x)\<rparr>" by (simp add: bpin_def upd_buf_def x_def)
  have u: "unat (b_refcnt x) = Suc (brefs dv s bn)"
    using assms(3) own_at(3) [OF assms(1,2)] by (simp add: x_def unat_add_small)
  then have "b_refcnt x \<noteq> 0" by (metis Zero_not_Suc unat_eq_zero)
  then have x: "b_dev x = dv" "b_blockno x = bn" "b_valid x" "b_refcnt x \<noteq> 0" "b_prev x = b_prev (bufs s b)"
    "b_next x = b_next (bufs s b)" "b_lock x" using assms(2) by (simp_all add: x_def own_def)
  note U = owned_update [OF assms(1,2) x e]
  show "bcache_ok dv (bpin b s)" "own dv (bpin b s) bn b" "\<forall>m i. own dv s m i \<longrightarrow> own dv (bpin b s) m i"
    by (fact U(1), fact U(2), fact U(3))
  have "(view dv s)(bn := b_data x) = view dv s" using own_at(2) [OF assms(1,2)] by (simp add: x_def fun_eq_iff)
  then show "cache_abs dv (bpin b s) = (cache_abs dv s)\<lparr>ar := (brefs dv s)(bn := brefs dv s bn + 1)\<rparr>"
    using U(4) u by (simp add: cache_abs_def)
qed

lemma bunpin_ok:
  assumes "bcache_ok dv s" "own dv s bn b" "1 < brefs dv s bn"
  shows "bcache_ok dv (bunpin b s)" "own dv (bunpin b s) bn b" "\<forall>m i. own dv s m i \<longrightarrow> own dv (bunpin b s) m i"
    "cache_abs dv (bunpin b s) = (cache_abs dv s)\<lparr>ar := (brefs dv s)(bn := brefs dv s bn - 1)\<rparr>"
proof -
  define x where "x = (bufs s b)\<lparr>b_refcnt := b_refcnt (bufs s b) - 1\<rparr>"
  have e: "bunpin b s = s\<lparr>bufs := (bufs s)(b := x)\<rparr>" by (simp add: bunpin_def upd_buf_def x_def)
  have "b_refcnt (bufs s b) \<noteq> 0" using assms(2) by (simp add: own_def)
  then have u: "unat (b_refcnt x) = brefs dv s bn - 1"
    using own_at(3) [OF assms(1,2)] unat_minus_one by (simp add: x_def)
  then have "b_refcnt x \<noteq> 0" using assms(3) by auto
  then have x: "b_dev x = dv" "b_blockno x = bn" "b_valid x" "b_refcnt x \<noteq> 0" "b_prev x = b_prev (bufs s b)"
    "b_next x = b_next (bufs s b)" "b_lock x" using assms(2) by (simp_all add: x_def own_def)
  note U = owned_update [OF assms(1,2) x e]
  show "bcache_ok dv (bunpin b s)" "own dv (bunpin b s) bn b" "\<forall>m i. own dv s m i \<longrightarrow> own dv (bunpin b s) m i"
    by (fact U(1), fact U(2), fact U(3))
  have "(view dv s)(bn := b_data x) = view dv s" using own_at(2) [OF assms(1,2)] by (simp add: x_def fun_eq_iff)
  then show "cache_abs dv (bunpin b s) = (cache_abs dv s)\<lparr>ar := (brefs dv s)(bn := brefs dv s bn - 1)\<rparr>"
    using U(4) u by (simp add: cache_abs_def)
qed

lemma bwrite_ok:
  assumes ok: "bcache_ok dv s" and o: "own dv s bn b"
  obtains s' where "bwrite b s = Inr s'" "bcache_ok dv s'" "\<forall>m i. own dv s' m i = own dv s m i"
    "cache_abs dv s' = (cache_abs dv s)\<lparr>ad := (disk s)(bn := view dv s bn)\<rparr>"
    "s' = s\<lparr>disk := (disk s)(bn := view dv s bn), written := written s @ [(bn, view dv s bn)]\<rparr>"
proof -
  define s' where "s' = s\<lparr>disk := (disk s)(bn := view dv s bn), written := written s @ [(bn, view dv s bn)]\<rparr>"
  have b: "b < NBUF" "b_dev (bufs s b) = dv" "b_blockno (bufs s b) = bn" "b_valid (bufs s b)" "b_lock (bufs s b)"
    "b_refcnt (bufs s b) \<noteq> 0" using o by (simp_all add: own_def)
  have w: "bwrite b s = Inr s'" using b own_at(2) [OF ok o] by (simp add: bwrite_def virtio_disk_rw_def s'_def Let_def)
  have ok': "bcache_ok dv s'"
  proof -
    have "b_data (bufs s i) = ((disk s)(bn := view dv s bn)) (b_blockno (bufs s i))"
      if i: "i < NBUF" "b_refcnt (bufs s i) = 0" "b_valid (bufs s i)" for i
    proof -
      have "b_dev (bufs s i) = dv" using bcache_okD(3) [OF ok i(1)] i(3) by blast
      then have "b_blockno (bufs s i) \<noteq> bn" using bcache_okD(2) [OF ok i(1) b(1)] i(2) b by auto
      then show ?thesis using bcache_okD(5) [OF ok i] by simp
    qed
    then show ?thesis using ok unfolding bcache_ok_def by (simp add: s'_def)
  qed
  have v: "view dv s' n = view dv s n" for n
  proof (cases "n = bn")
    case True
    then show ?thesis using view_cached [OF ok' b(1), of n] own_at(2) [OF ok o] b by (simp add: s'_def)
  next
    case False
    then show ?thesis by (simp add: view_def s'_def split: option.split)
  qed
  have "cache_abs dv s' = (cache_abs dv s)\<lparr>ad := (disk s)(bn := view dv s bn)\<rparr>"
    using v by (simp add: cache_abs_def fun_eq_iff) (simp add: s'_def brefs_def blocked_def cong: option.case_cong)
  then show ?thesis using that [OF w ok'] by (simp add: s'_def own_def)
qed

lemma brelse_ok:
  assumes ok: "bcache_ok dv s" and o: "own dv s bn b" and clean: "brefs dv s bn = 1 \<longrightarrow> view dv s bn = disk s bn"
  obtains s' where "brelse b s = Inr s'" "bcache_ok dv s'" "\<forall>m i. m \<noteq> bn \<longrightarrow> own dv s m i \<longrightarrow> own dv s' m i"
    "cache_abs dv s' = (cache_abs dv s)\<lparr>ar := (brefs dv s)(bn := brefs dv s bn - 1), al := (blocked dv s)(bn := False),
       af := af (cache_abs dv s) + (if brefs dv s bn = 1 then 1 else 0)\<rparr>"
    "s' = s\<lparr>bufs := bufs s'\<rparr>"
proof -
  have b: "b < NBUF" "b_dev (bufs s b) = dv" "b_blockno (bufs s b) = bn" "b_valid (bufs s b)" "b_lock (bufs s b)"
    "b_refcnt (bufs s b) \<noteq> 0" using o by (simp_all add: own_def)
  define x where "x = (bufs s b)\<lparr>b_lock := False, b_refcnt := b_refcnt (bufs s b) - 1\<rparr>"
  define t where "t = s\<lparr>bufs := (bufs s)(b := x)\<rparr>"
  have u: "unat (b_refcnt x) = brefs dv s bn - 1" using own_at(3) [OF ok o] unat_minus_one [OF b(6)] by (simp add: x_def)
  have z: "b_refcnt x = 0 \<longleftrightarrow> brefs dv s bn = 1" using u own_at(5) [OF ok o] unat_eq_0 [of "b_refcnt x"] by auto
  have x: "b_dev x = dv" "b_blockno x = bn" "b_valid x" "\<not> b_lock x" "b_data x = view dv s bn"
    "b_prev x = b_prev (bufs s b)" "b_next x = b_next (bufs s b)"
    using b own_at(2) [OF ok o] by (simp_all add: x_def)
  note U = abs_update [OF ok b(1) x(6,7,1) _ x(3) t_def]
  have okt: "bcache_ok dv t" by (rule U(1)) (use x b z clean in auto)
  have "cache_abs dv t = (cache_abs dv s)\<lparr>av := (view dv s)(b_blockno x := b_data x),
       ar := (brefs dv s)(b_blockno x := unat (b_refcnt x)), al := (blocked dv s)(b_blockno x := b_lock x),
       af := af (cache_abs dv s) - (if brefs dv s (b_blockno x) = 0 then 1 else 0) + (if b_refcnt x = 0 then 1 else 0)\<rparr>"
    by (rule U(2)) (use x b z clean in auto)
  then have a: "cache_abs dv t = (cache_abs dv s)\<lparr>ar := (brefs dv s)(bn := brefs dv s bn - 1), al := (blocked dv s)(bn := False),
       af := af (cache_abs dv s) + (if brefs dv s bn = 1 then 1 else 0)\<rparr>"
    using x u z own_at(5) [OF ok o] by (simp add: cache_abs_def fun_eq_iff)
  have own: "\<forall>m i. m \<noteq> bn \<longrightarrow> own dv s m i \<longrightarrow> own dv t m i" using b by (auto simp: own_def t_def)
  have r: "brelse b s = Inr (if b_refcnt x = 0 then t\<lparr>bufs := push_front b (unlink_buf b (bufs t))\<rparr> else t)"
    using b(5) by (simp add: brelse_def upd_buf_def t_def x_def Let_def)
  show ?thesis
  proof (cases "b_refcnt x = 0")
    case False
    then show ?thesis using that [OF _ okt own a] r by (simp add: t_def)
  next
    case True
    obtain xs where xs: "lru (bufs t) xs" "set xs = {..<NBUF}" using bcache_okD(1) [OF okt] by blast
    obtain ys zs where yz: "xs = ys @ b # zs" using b(1) xs(2) split_list [of b xs] by auto
    have d: "b \<notin> set (ys @ zs)" "b \<noteq> HEAD" using xs(1) yz by (auto simp: lru_def)
    have l: "lru (push_front b (unlink_buf b (bufs t))) (b # ys @ zs)"
      using lru_push_front [OF lru_unlink d] xs(1) yz by blast
    have sl: "set (b # ys @ zs) = {..<NBUF}" using xs(2) yz by auto
    define B where "B = push_front b (unlink_buf b (bufs t))"
    have c: "core (B i) = core (bufs t i)" for i by (simp add: B_def)
    note R = relink [OF okt c l [folded B_def] sl]
    show ?thesis
    proof (rule that [of "t\<lparr>bufs := B\<rparr>"])
      show "brelse b s = Inr (t\<lparr>bufs := B\<rparr>)" using r True by (simp add: B_def)
      show "bcache_ok dv (t\<lparr>bufs := B\<rparr>)" by (rule R(1))
      show "\<forall>m i. m \<noteq> bn \<longrightarrow> own dv s m i \<longrightarrow> own dv (t\<lparr>bufs := B\<rparr>) m i" using own R(3) by blast
      show "cache_abs dv (t\<lparr>bufs := B\<rparr>) = (cache_abs dv s)\<lparr>ar := (brefs dv s)(bn := brefs dv s bn - 1),
        al := (blocked dv s)(bn := False), af := af (cache_abs dv s) + (if brefs dv s bn = 1 then 1 else 0)\<rparr>"
        using R(2) a by simp
      show "t\<lparr>bufs := B\<rparr> = s\<lparr>bufs := bufs (t\<lparr>bufs := B\<rparr>)\<rparr>" by (simp add: t_def)
    qed
  qed
qed

section \<open>Initialisation\<close>

text \<open>The buffers as the kernel image has them: all bytes zero.\<close>

definition zero_buf :: iobuf where
  "zero_buf = \<lparr>b_valid = False, b_dev = 0, b_blockno = 0, b_lock = False, b_refcnt = 0, b_prev = 0, b_next = 0, b_data = \<lambda>_. 0\<rparr>"

lemma lru_binit:
  fixes B :: "nat \<Rightarrow> iobuf"
  assumes "n \<le> NBUF"
  shows "lru (fold binit_one [0..<n] (set_next HEAD HEAD (set_prev HEAD HEAD B)))
    (rev [0..<n])"
  using assms
proof (induction n)
  case 0
  show ?case by (simp add: lru_def)
next
  case (Suc n)
  define C where "C = fold binit_one [0..<n] (set_next HEAD HEAD (set_prev HEAD HEAD B))"
  have "lru (C(n := (C n)\<lparr>b_lock := False\<rparr>)) (rev [0..<n]) = lru C (rev [0..<n])" by (rule lru_cong) simp
  then have "lru (C(n := (C n)\<lparr>b_lock := False\<rparr>)) (rev [0..<n])" using Suc by (simp add: C_def)
  then have "lru (push_front n (C(n := (C n)\<lparr>b_lock := False\<rparr>))) (n # rev [0..<n])"
    using Suc.prems by (intro lru_push_front) (auto simp: HEAD_def)
  then have "lru (binit_one n C) (n # rev [0..<n])" by (simp only: binit_one_def)
  then show ?case by (simp add: C_def)
qed

lemma core_lock: "core (x\<lparr>b_lock := v\<rparr>) = (core x)\<lparr>b_lock := v\<rparr>"
  by (simp add: core_def)

lemma core_binit:
  "core (B i) = core zero_buf \<Longrightarrow>
   core (fold binit_one bs B i) = core zero_buf"
proof (induction bs arbitrary: B)
  case (Cons b bs)
  have "core (binit_one b B i) = core zero_buf"
  proof (cases "i = b")
    case True
    then show ?thesis using Cons.prems by (simp add: binit_one_def core_lock) (simp add: core_def zero_buf_def)
  next
    case False
    then show ?thesis using Cons.prems by (simp add: binit_one_def)
  qed
  then show ?case using Cons.IH by simp
qed simp

lemma binit_ok:
  assumes "bufs s = (\<lambda>_. zero_buf)" "dv \<noteq> 0"
  shows "bcache_ok dv (binit s)" "cache_abs dv (binit s) = \<lparr>av = disk s, ad = disk s, ar = \<lambda>_. 0, al = \<lambda>_. False, af = NBUF\<rparr>"
proof -
  have "lru (bufs (binit s)) (rev [0..<NBUF])" unfolding binit_def using lru_binit [of NBUF "bufs s"] by simp
  moreover have "set (rev [0..<NBUF]) = {..<NBUF}" by auto
  ultimately have l: "\<exists>xs. lru (bufs (binit s)) xs \<and> set xs = {..<NBUF}" by blast
  have "core (bufs (binit s) i) = core zero_buf" for i
    using core_binit [of "set_next HEAD HEAD (set_prev HEAD HEAD (bufs s))" i "[0..<NBUF]"]
    by (simp add: binit_def assms(1) set_prev_def set_next_def)
  from coreD [OF this] have z: "\<not> b_valid (bufs (binit s) i)" "b_dev (bufs (binit s) i) = 0" "\<not> b_lock (bufs (binit s) i)"
    "b_refcnt (bufs (binit s) i) = 0" for i by (simp_all add: zero_buf_def)
  show "bcache_ok dv (binit s)" using l assms(2) unfolding bcache_ok_def by (simp add: z)
  have "view dv (binit s) = disk s" "brefs dv (binit s) = (\<lambda>_. 0)" "blocked dv (binit s) = (\<lambda>_. False)"
    using assms(2) view_uncached [of "binit s" dv] brefs_none [of "binit s" dv] by (simp_all add: z fun_eq_iff) (simp add: binit_def)
  moreover have "disk (binit s) = disk s" by (simp add: binit_def)
  ultimately show "cache_abs dv (binit s) = \<lparr>av = disk s, ad = disk s, ar = \<lambda>_. 0, al = \<lambda>_. False, af = NBUF\<rparr>"
    by (simp add: cache_abs_def z)
qed

text \<open>
  C11: in a well-formed cache, \<open>bread\<close> of an unlocked block panics exactly if every buffer is
  referenced and none of them is for the block; otherwise it returns a locked buffer with the
  current contents of the block, and the only effects that a user of the cache can see are that
  the block is locked and referenced once more: no block changes, on the disk or in the cache,
  whichever buffer was recycled.
\<close>

theorem bread_refines:
  assumes "bcache_ok dv s" "\<not> blocked dv s bn" "brefs dv s bn < 2 ^ 32 - 1"
  shows "if brefs dv s bn = 0 \<and> af (cache_abs dv s) = 0 then bread dv bn s = Inl (Panic ''bget: no buffers'')
    else \<exists>b s'. bread dv bn s = Inr (b, s') \<and> bcache_ok dv s' \<and> own dv s' bn b \<and> b_data (bufs s' b) = view dv s bn \<and>
      cache_abs dv s' = (cache_abs dv s)\<lparr>ar := (brefs dv s)(bn := brefs dv s bn + 1), al := (blocked dv s)(bn := True),
        af := af (cache_abs dv s) - (if brefs dv s bn = 0 then 1 else 0)\<rparr>"
proof (cases "brefs dv s bn = 0 \<and> af (cache_abs dv s) = 0")
  case True
  then show ?thesis using bread_full [OF assms(1)] by simp
next
  case False
  then have f: "0 < brefs dv s bn \<or> 0 < af (cache_abs dv s)" by auto
  obtain b s' where b: "bread dv bn s = Inr (b, s')" "bcache_ok dv s'" "own dv s' bn b"
    "cache_abs dv s' = (cache_abs dv s)\<lparr>ar := (brefs dv s)(bn := brefs dv s bn + 1), al := (blocked dv s)(bn := True),
       af := af (cache_abs dv s) - (if brefs dv s bn = 0 then 1 else 0)\<rparr>"
    by (rule bread_ok [OF assms(1,2) f assms(3)])
  have "view dv s' = view dv s" using b(4) by (simp add: cache_abs_def)
  then have "b_data (bufs s' b) = view dv s bn" using own_at(2) [OF b(2,3)] by simp
  then show ?thesis using b False by auto
qed

definition fresh_cache :: bcache where
  "fresh_cache = binit \<lparr>bufs = \<lambda>_. zero_buf, disk = \<lambda>n _. ucast n, written = []\<rparr>"

theorem bread_refines_witness:
  "\<exists>b s'. bread 1 7 fresh_cache = Inr (b, s') \<and> b_data (bufs s' b) 0 = 7"
proof -
  define z :: bcache where "z = \<lparr>bufs = \<lambda>_. zero_buf, disk = \<lambda>n _. ucast n, written = []\<rparr>"
  have z: "bufs z = (\<lambda>_. zero_buf)" "disk z = (\<lambda>n _. ucast n)" by (simp_all add: z_def)
  note B = binit_ok [OF z(1), of 1]
  have f: "fresh_cache = binit z" by (simp add: fresh_cache_def z_def)
  have a: "\<not> blocked 1 fresh_cache 7" "brefs 1 fresh_cache 7 = 0" "af (cache_abs 1 fresh_cache) = NBUF"
    "view 1 fresh_cache 7 = (\<lambda>_. 7)" using B(2) by (simp_all add: f z cache_abs_def fun_eq_iff)
  have "NBUF \<noteq> 0" by (simp add: NBUF_def)
  then show ?thesis using bread_refines [of 1 fresh_cache 7] B(1) a by (auto simp: f)
qed

end
