(* ===== verification/Log.thy ===== *)
theory Log
  imports Bio
begin

text \<open>
  \<^verbatim>\<open>kernel/log.c\<close>: the redo log. Its state extends that of the buffer cache; the in-memory
  header is the pair of \<open>lh_n\<close> and \<open>lh_block\<close>. Waiting in \<open>begin_op\<close> ends the run of the
  caller. The crash theorem looks at the writes of \<open>commit\<close> in their order: whatever prefix of
  them has reached the disk when the machine stops, recovery yields the old or the new
  contents of all blocks outside the log.
\<close>

section \<open>The log\<close>

definition LOGSIZE :: nat where "LOGSIZE = 30"

definition MAXOPBLOCKS :: int where "MAXOPBLOCKS = 10"

record logst = bcache +
  lg_start :: u32
  lg_size :: int
  outstanding :: int
  committing :: bool
  lg_dev :: u32
  lh_n :: int
  lh_block :: "u32 list"

fun forE :: "('i \<Rightarrow> 's \<Rightarrow> 's result) \<Rightarrow> 'i list \<Rightarrow> 's \<Rightarrow> 's result" where
  "forE f [] s = Inr s"
| "forE f (i # is) s = bindE (f i s) (forE f is)"

text \<open>The body of the loop of \<open>install_trans\<close>, and the loop.\<close>

definition install_one :: "bool \<Rightarrow> nat \<Rightarrow> 'a logst_scheme \<Rightarrow> 'a logst_scheme result" where
  "install_one recovering tail s =
     bindE (bread (lg_dev s) (lg_start s + of_nat tail + 1) s) (\<lambda>(lbuf, s).
     bindE (bread (lg_dev s) (lh_block s ! tail) s) (\<lambda>(dbuf, s).
     bindE (bwrite dbuf (set_data dbuf (b_data (bufs s lbuf)) s)) (\<lambda>s.
     bindE (brelse lbuf (if recovering then s else bunpin dbuf s)) (brelse dbuf))))"

definition install_trans :: "bool \<Rightarrow> 'a logst_scheme \<Rightarrow> 'a logst_scheme result" where
  "install_trans recovering s = forE (install_one recovering) [0..<nat (lh_n s)] s"

text \<open>
  The header block: the count, then the block numbers. A count above \<open>LOGSIZE\<close> makes
  \<open>read_head\<close> write past the end of the in-memory header.
\<close>

definition head_block :: "block \<Rightarrow> nat \<Rightarrow> u32" where
  "head_block d i = get32 d (4 + 4 * i)"

definition read_head :: "'a logst_scheme \<Rightarrow> 'a logst_scheme result" where
  "read_head s =
     bindE (bread (lg_dev s) (lg_start s) s) (\<lambda>(b, s).
       let d = b_data (bufs s b); n = sint (get32 d 0)
       in if n > int LOGSIZE then Inl OutOfBounds
          else brelse b (s\<lparr>lh_n := n,
                 lh_block := map (\<lambda>i. if int i < n then head_block d i else lh_block s ! i) [0..<LOGSIZE]\<rparr>))"

definition put_head :: "int \<Rightarrow> u32 list \<Rightarrow> block \<Rightarrow> block" where
  "put_head n bs d = fold (\<lambda>i d. put32 d (4 + 4 * i) (bs ! i)) [0..<nat n] (put32 d 0 (of_int n))"

definition write_head :: "'a logst_scheme \<Rightarrow> 'a logst_scheme result" where
  "write_head s =
     bindE (bread (lg_dev s) (lg_start s) s) (\<lambda>(b, s).
     bindE (bwrite b (set_data b (put_head (lh_n s) (lh_block s) (b_data (bufs s b))) s)) (brelse b))"

definition recover_from_log :: "'a logst_scheme \<Rightarrow> 'a logst_scheme result" where
  "recover_from_log s =
     bindE (read_head s) (\<lambda>s. bindE (install_trans True s) (\<lambda>s. write_head (s\<lparr>lh_n := 0\<rparr>)))"

text \<open>\<open>initlog\<close> with the fields \<open>logstart\<close> and \<open>nlog\<close> of the super block.\<close>

definition initlog :: "u32 \<Rightarrow> u32 \<Rightarrow> u32 \<Rightarrow> 'a logst_scheme \<Rightarrow> 'a logst_scheme result" where
  "initlog dev logstart nlog s =
     recover_from_log (s\<lparr>lg_start := logstart, lg_size := sint nlog, lg_dev := dev\<rparr>)"

definition write_log_one :: "nat \<Rightarrow> 'a logst_scheme \<Rightarrow> 'a logst_scheme result" where
  "write_log_one tail s =
     bindE (bread (lg_dev s) (lg_start s + of_nat tail + 1) s) (\<lambda>(to, s).
     bindE (bread (lg_dev s) (lh_block s ! tail) s) (\<lambda>(from, s).
     bindE (bwrite to (set_data to (b_data (bufs s from)) s)) (\<lambda>s.
     bindE (brelse from s) (brelse to))))"

definition write_log :: "'a logst_scheme \<Rightarrow> 'a logst_scheme result" where
  "write_log s = forE write_log_one [0..<nat (lh_n s)] s"

definition commit :: "'a logst_scheme \<Rightarrow> 'a logst_scheme result" where
  "commit s =
     (if lh_n s > 0 then
        bindE (write_log s) (\<lambda>s.
        bindE (write_head s) (\<lambda>s.
        bindE (install_trans False s) (\<lambda>s.
        write_head (s\<lparr>lh_n := 0\<rparr>))))
      else Inr s)"

definition begin_op :: "'a logst_scheme \<Rightarrow> 'a logst_scheme result" where
  "begin_op s =
     (if committing s then Inl Sleeps
      else if lh_n s + (outstanding s + 1) * MAXOPBLOCKS > int LOGSIZE then Inl Sleeps
      else Inr (s\<lparr>outstanding := outstanding s + 1\<rparr>))"

definition end_op :: "'a logst_scheme \<Rightarrow> 'a logst_scheme result" where
  "end_op s =
     (let s = s\<lparr>outstanding := outstanding s - 1\<rparr>
      in if committing s then Inl (Panic ''log.committing'')
         else if outstanding s = 0
              then bindE (commit (s\<lparr>committing := True\<rparr>)) (\<lambda>s. Inr (s\<lparr>committing := False\<rparr>))
              else Inr s)"

definition log_write :: "nat \<Rightarrow> 'a logst_scheme \<Rightarrow> 'a logst_scheme result" where
  "log_write b s =
     (if lh_n s \<ge> int LOGSIZE \<or> lh_n s \<ge> lg_size s - 1 then Inl (Panic ''too big a transaction'')
      else if outstanding s < 1 then Inl (Panic ''log_write outside of trans'')
      else
        let bn = b_blockno (bufs s b);
            i = (case find (\<lambda>i. lh_block s ! i = bn) [0..<nat (lh_n s)] of Some i \<Rightarrow> i | None \<Rightarrow> nat (lh_n s));
            s = s\<lparr>lh_block := (lh_block s)[i := bn]\<rparr>
        in Inr (if int i = lh_n s then (bpin b s)\<lparr>lh_n := lh_n s + 1\<rparr> else s))"

section \<open>One trip of each loop\<close>

definition logvars :: "'a logst_scheme \<Rightarrow> u32 \<times> int \<times> int \<times> bool \<times> u32 \<times> int \<times> u32 list" where
  "logvars s = (lg_start s, lg_size s, outstanding s, committing s, lg_dev s, lh_n s, lh_block s)"

lemma logvarsD:
  assumes "logvars s' = logvars s"
  shows "lg_start s' = lg_start s" "lg_dev s' = lg_dev s" "lh_n s' = lh_n s" "lh_block s' = lh_block s"
    "lg_size s' = lg_size s" "outstanding s' = outstanding s" "committing s' = committing s"
  using assms by (simp_all add: logvars_def)

lemma logvars_bufs [simp]: "logvars (s\<lparr>bufs := B\<rparr>) = logvars s"
  "logvars (s\<lparr>disk := D, written := W\<rparr>) = logvars s" "logvars (set_data b d s) = logvars s" "logvars (bunpin b s) = logvars s"
  "logvars (bpin b s) = logvars s"
  by (simp_all add: logvars_def set_data_def upd_buf_def bunpin_def bpin_def)

lemma cache_abs_simps [simp]:
  "av (cache_abs dv s) = view dv s" "ad (cache_abs dv s) = disk s" "ar (cache_abs dv s) = brefs dv s"
  "al (cache_abs dv s) = blocked dv s"
  by (simp_all add: cache_abs_def)

lemma cache_abs_eqD:
  assumes "cache_abs dv s = A"
  shows "view dv s = av A" "disk s = ad A" "brefs dv s = ar A" "blocked dv s = al A" "af (cache_abs dv s) = af A"
  using assms by auto

lemma written_frame [simp]: "written (set_data b d s) = written s" "written (bunpin b s) = written s"
  "disk (set_data b d s) = disk s" "disk (bunpin b s) = disk s"
  by (simp_all add: set_data_def upd_buf_def bunpin_def)

lemma frameD: "s' = s\<lparr>bufs := B\<rparr> \<Longrightarrow> written s' = written s" "s' = s\<lparr>bufs := B\<rparr> \<Longrightarrow> logvars s' = logvars s"
  by simp_all

text \<open>Reading two blocks, of which the second is in use.\<close>

lemma write_log_one_ok:
  fixes s :: "'a logst_scheme"
  assumes ok: "bcache_ok (lg_dev s) s" and lb: "lb = lg_start s + of_nat i + 1" and hb: "hb = lh_block s ! i"
    and ne: "lb \<noteq> hb" and L: "brefs (lg_dev s) s lb = 0" "\<not> blocked (lg_dev s) s lb"
    and H: "0 < brefs (lg_dev s) s hb" "brefs (lg_dev s) s hb < 2 ^ 32 - 1" "\<not> blocked (lg_dev s) s hb"
    and f: "0 < af (cache_abs (lg_dev s) s)"
  obtains s' where "write_log_one i s = Inr s'" "bcache_ok (lg_dev s) s'" "logvars s' = logvars s"
    "cache_abs (lg_dev s) s' = (cache_abs (lg_dev s) s)\<lparr>av := (view (lg_dev s) s)(lb := view (lg_dev s) s hb),
       ad := (disk s)(lb := view (lg_dev s) s hb)\<rparr>"
    "written s' = written s @ [(lb, view (lg_dev s) s hb)]"
proof -
  define dv where "dv = lg_dev s"
  note A = ok [folded dv_def] L [folded dv_def] H [folded dv_def] f [folded dv_def]
  obtain to s1 where 1: "bread dv lb s = Inr (to, s1)" "bcache_ok dv s1" "own dv s1 lb to"
    "cache_abs dv s1 = (cache_abs dv s)\<lparr>ar := (brefs dv s)(lb := brefs dv s lb + 1), al := (blocked dv s)(lb := True),
       af := af (cache_abs dv s) - (if brefs dv s lb = 0 then 1 else 0)\<rparr>" "s1 = s\<lparr>bufs := bufs s1\<rparr>"
    by (rule bread_ok [OF A(1) A(3)]) (use A in auto)
  note e1 = cache_abs_eqD [OF 1(4), simplified]
  obtain fb s2 where 2: "bread dv hb s1 = Inr (fb, s2)" "bcache_ok dv s2" "own dv s2 hb fb"
    "cache_abs dv s2 = (cache_abs dv s1)\<lparr>ar := (brefs dv s1)(hb := brefs dv s1 hb + 1), al := (blocked dv s1)(hb := True),
       af := af (cache_abs dv s1) - (if brefs dv s1 hb = 0 then 1 else 0)\<rparr>" "s2 = s1\<lparr>bufs := bufs s2\<rparr>"
      "\<forall>m i. own dv s1 m i \<longrightarrow> own dv s2 m i"
    by (rule bread_ok [OF 1(2), of hb]) (use A ne e1 in auto)
  note e2 = cache_abs_eqD [OF 2(4), simplified e1 fun_upd_apply, simplified]
  have d2: "b_data (bufs s2 fb) = view dv s hb" using own_at(2) [OF 2(2,3)] e2(1) e1(1) by simp
  have o2: "own dv s2 lb to" using 2(6) 1(3) by blast
  define s3 where "s3 = set_data to (view dv s hb) s2"
  note S3 = set_data_ok [OF 2(2) o2, of "view dv s hb", folded s3_def]
  note e3 = cache_abs_eqD [OF S3(4), simplified]
  obtain s4 where 4: "bwrite to s3 = Inr s4" "bcache_ok dv s4" "\<forall>m i. own dv s4 m i = own dv s3 m i"
    "cache_abs dv s4 = (cache_abs dv s3)\<lparr>ad := (disk s3)(lb := view dv s3 lb)\<rparr>"
    "s4 = s3\<lparr>disk := (disk s3)(lb := view dv s3 lb), written := written s3 @ [(lb, view dv s3 lb)]\<rparr>"
    by (rule bwrite_ok [OF S3(1,2)])
  note e4 = cache_abs_eqD [OF 4(4), simplified]
  have o4: "own dv s4 hb fb" "own dv s4 lb to" using 4(3) S3(2,3) 2(3) by blast+
  obtain s5 where 5: "brelse fb s4 = Inr s5" "bcache_ok dv s5" "\<forall>m i. m \<noteq> hb \<longrightarrow> own dv s4 m i \<longrightarrow> own dv s5 m i"
    "cache_abs dv s5 = (cache_abs dv s4)\<lparr>ar := (brefs dv s4)(hb := brefs dv s4 hb - 1), al := (blocked dv s4)(hb := False),
       af := af (cache_abs dv s4) + (if brefs dv s4 hb = 1 then 1 else 0)\<rparr>" "s5 = s4\<lparr>bufs := bufs s5\<rparr>"
    by (rule brelse_ok [OF 4(2) o4(1)]) (use A ne e1 e2 e3 e4 in auto)
  note e5 = cache_abs_eqD [OF 5(4), simplified]
  have o5: "own dv s5 lb to" using 5(3) o4(2) ne by blast
  obtain s6 where 6: "brelse to s5 = Inr s6" "bcache_ok dv s6"
    "cache_abs dv s6 = (cache_abs dv s5)\<lparr>ar := (brefs dv s5)(lb := brefs dv s5 lb - 1), al := (blocked dv s5)(lb := False),
       af := af (cache_abs dv s5) + (if brefs dv s5 lb = 1 then 1 else 0)\<rparr>" "s6 = s5\<lparr>bufs := bufs s6\<rparr>"
    by (rule brelse_ok [OF 5(2) o5]) (use A ne e1 e2 e3 e4 e5 in auto)
  note e6 = cache_abs_eqD [OF 6(3), simplified]
  have lv: "logvars s6 = logvars s" "logvars s1 = logvars s" "logvars s2 = logvars s"
    using frameD(2) [OF 6(4)] frameD(2) [OF 5(5)] frameD(2) [OF 1(5)] frameD(2) [OF 2(5)] by (simp_all add: 4(5) s3_def)
  have run: "write_log_one i s = Inr s6"
    using 1(1) 2(1) 4(1) 5(1) 6(1) d2 logvarsD(2,4) [OF lv(2)]
    by (simp add: write_log_one_def lb [symmetric] dv_def [symmetric] hb [symmetric] s3_def)
  have w: "written s6 = written s @ [(lb, view dv s hb)]"
    using frameD(1) [OF 6(4)] frameD(1) [OF 5(5)] frameD(1) [OF 1(5)] frameD(1) [OF 2(5)] e3(1) by (simp add: 4(5)) (simp add: s3_def)
  have "cache_abs dv s6 = (cache_abs dv s)\<lparr>av := (view dv s)(lb := view dv s hb), ad := (disk s)(lb := view dv s hb)\<rparr>"
    by (rule acache.equality) (use A ne e1 e2 e3 e4 e5 e6 in \<open>auto simp: fun_eq_iff\<close>)
  then show ?thesis using that run 6(2) lv(1) w by (simp add: dv_def)
qed

lemma unreferenced_clean:
  assumes ok: "bcache_ok dv s" and r: "brefs dv s bn = 0"
  shows "view dv s bn = disk s bn"
proof (cases "\<exists>i < NBUF. b_dev (bufs s i) = dv \<and> b_blockno (bufs s i) = bn \<and> b_valid (bufs s i)")
  case True
  then obtain i where i: "i < NBUF" "b_dev (bufs s i) = dv" "b_blockno (bufs s i) = bn" "b_valid (bufs s i)" by blast
  then have "b_refcnt (bufs s i) = 0" using r brefs_at(1) [OF ok i(1-3)] by (simp add: unat_eq_0)
  then show ?thesis using view_cached [OF ok i] bcache_okD(5) [OF ok i(1)] i by simp
next
  case False
  then show ?thesis by (intro view_uncached) blast
qed

lemma install_one_ok:
  fixes s :: "'a logst_scheme"
  assumes ok: "bcache_ok (lg_dev s) s" and lb: "lb = lg_start s + of_nat i + 1" and hb: "hb = lh_block s ! i"
    and ne: "lb \<noteq> hb" and L: "brefs (lg_dev s) s lb = 0" "\<not> blocked (lg_dev s) s lb"
    and H: "if rc then brefs (lg_dev s) s hb = 0 \<and> 1 < af (cache_abs (lg_dev s) s) else 0 < brefs (lg_dev s) s hb"
      "brefs (lg_dev s) s hb < 2 ^ 32 - 1" "\<not> blocked (lg_dev s) s hb"
    and f: "0 < af (cache_abs (lg_dev s) s)"
  obtains s' where "install_one rc i s = Inr s'" "bcache_ok (lg_dev s) s'" "logvars s' = logvars s"
    "cache_abs (lg_dev s) s' = (cache_abs (lg_dev s) s)\<lparr>av := (view (lg_dev s) s)(hb := view (lg_dev s) s lb),
       ad := (disk s)(hb := view (lg_dev s) s lb),
       ar := (brefs (lg_dev s) s)(hb := brefs (lg_dev s) s hb - (if rc then 0 else 1)),
       af := af (cache_abs (lg_dev s) s) + (if \<not> rc \<and> brefs (lg_dev s) s hb = 1 then 1 else 0)\<rparr>"
    "written s' = written s @ [(hb, view (lg_dev s) s lb)]"
proof -
  define dv where "dv = lg_dev s"
  note A = ok [folded dv_def] L [folded dv_def] H [folded dv_def] f [folded dv_def]
  obtain l s1 where 1: "bread dv lb s = Inr (l, s1)" "bcache_ok dv s1" "own dv s1 lb l"
    "cache_abs dv s1 = (cache_abs dv s)\<lparr>ar := (brefs dv s)(lb := brefs dv s lb + 1), al := (blocked dv s)(lb := True),
       af := af (cache_abs dv s) - (if brefs dv s lb = 0 then 1 else 0)\<rparr>" "s1 = s\<lparr>bufs := bufs s1\<rparr>"
    by (rule bread_ok [OF A(1) A(3)]) (use A in auto)
  note e1 = cache_abs_eqD [OF 1(4), simplified]
  obtain d s2 where 2: "bread dv hb s1 = Inr (d, s2)" "bcache_ok dv s2" "own dv s2 hb d"
    "cache_abs dv s2 = (cache_abs dv s1)\<lparr>ar := (brefs dv s1)(hb := brefs dv s1 hb + 1), al := (blocked dv s1)(hb := True),
       af := af (cache_abs dv s1) - (if brefs dv s1 hb = 0 then 1 else 0)\<rparr>" "s2 = s1\<lparr>bufs := bufs s2\<rparr>"
      "\<forall>m i. own dv s1 m i \<longrightarrow> own dv s2 m i"
    by (rule bread_ok [OF 1(2), of hb]) (use A ne e1 in \<open>auto split: if_splits\<close>)
  note e2 = cache_abs_eqD [OF 2(4), simplified]
  have o2: "own dv s2 lb l" using 2(6) 1(3) by blast
  have d2: "b_data (bufs s2 l) = view dv s lb" using own_at(2) [OF 2(2) o2] e2(1) e1(1) by simp
  define s3 where "s3 = set_data d (view dv s lb) s2"
  note S3 = set_data_ok [OF 2(2,3), of "view dv s lb", folded s3_def]
  note e3 = cache_abs_eqD [OF S3(4), simplified]
  obtain s4 where 4: "bwrite d s3 = Inr s4" "bcache_ok dv s4" "\<forall>m i. own dv s4 m i = own dv s3 m i"
    "cache_abs dv s4 = (cache_abs dv s3)\<lparr>ad := (disk s3)(hb := view dv s3 hb)\<rparr>"
    "s4 = s3\<lparr>disk := (disk s3)(hb := view dv s3 hb), written := written s3 @ [(hb, view dv s3 hb)]\<rparr>"
    by (rule bwrite_ok [OF S3(1,2)])
  note e4 = cache_abs_eqD [OF 4(4), simplified]
  have o4: "own dv s4 lb l" "own dv s4 hb d" using 4(3) S3(2,3) o2 by blast+
  define s5 where "s5 = (if rc then s4 else bunpin d s4)"
  have 5: "bcache_ok dv s5" "own dv s5 lb l" "own dv s5 hb d"
    "cache_abs dv s5 = (cache_abs dv s4)\<lparr>ar := (brefs dv s4)(hb := brefs dv s4 hb - (if rc then 0 else 1))\<rparr>"
  proof -
    have "1 < brefs dv s4 hb" if "\<not> rc" using that A ne e1 e2 e3 e4 by auto
    then have "bcache_ok dv s5 \<and> own dv s5 lb l \<and> own dv s5 hb d \<and>
      cache_abs dv s5 = (cache_abs dv s4)\<lparr>ar := (brefs dv s4)(hb := brefs dv s4 hb - (if rc then 0 else 1))\<rparr>"
      using bunpin_ok [OF 4(2) o4(2)] o4 4(2) by (cases rc) (auto simp: s5_def cache_abs_def)
    then show "bcache_ok dv s5" "own dv s5 lb l" "own dv s5 hb d"
      "cache_abs dv s5 = (cache_abs dv s4)\<lparr>ar := (brefs dv s4)(hb := brefs dv s4 hb - (if rc then 0 else 1))\<rparr>" by blast+
  qed
  note e5 = cache_abs_eqD [OF 5(4), simplified]
  have cl: "view dv s lb = disk s lb" by (rule unreferenced_clean [OF A(1,2)])
  obtain s6 where 6: "brelse l s5 = Inr s6" "bcache_ok dv s6" "\<forall>m i. m \<noteq> lb \<longrightarrow> own dv s5 m i \<longrightarrow> own dv s6 m i"
    "cache_abs dv s6 = (cache_abs dv s5)\<lparr>ar := (brefs dv s5)(lb := brefs dv s5 lb - 1), al := (blocked dv s5)(lb := False),
       af := af (cache_abs dv s5) + (if brefs dv s5 lb = 1 then 1 else 0)\<rparr>" "s6 = s5\<lparr>bufs := bufs s6\<rparr>"
    by (rule brelse_ok [OF 5(1,2)]) (use A ne e1 e2 e3 e4 e5 cl in auto)
  note e6 = cache_abs_eqD [OF 6(4), simplified]
  have o6: "own dv s6 hb d" using 6(3) 5(3) ne by simp
  obtain s7 where 7: "brelse d s6 = Inr s7" "bcache_ok dv s7"
    "cache_abs dv s7 = (cache_abs dv s6)\<lparr>ar := (brefs dv s6)(hb := brefs dv s6 hb - 1), al := (blocked dv s6)(hb := False),
       af := af (cache_abs dv s6) + (if brefs dv s6 hb = 1 then 1 else 0)\<rparr>" "s7 = s6\<lparr>bufs := bufs s7\<rparr>"
    by (rule brelse_ok [OF 6(2) o6]) (use A ne e1 e2 e3 e4 e5 e6 in auto)
  note e7 = cache_abs_eqD [OF 7(3), simplified]
  have lv: "logvars s7 = logvars s" "logvars s1 = logvars s"
    using frameD(2) [OF 7(4)] frameD(2) [OF 6(5)] frameD(2) [OF 1(5)] frameD(2) [OF 2(5)] by (simp_all add: s5_def 4(5) s3_def)
  have run: "install_one rc i s = Inr s7"
    using 1(1) 2(1) 4(1) 6(1) 7(1) d2 logvarsD(2,4) [OF lv(2)]
    by (simp add: install_one_def lb [symmetric] dv_def [symmetric] hb [symmetric] s3_def s5_def)
  have w: "written s7 = written s @ [(hb, view dv s lb)]"
    using frameD(1) [OF 7(4)] frameD(1) [OF 6(5)] frameD(1) [OF 1(5)] frameD(1) [OF 2(5)] e3(1) e1(1) e2(1)
    by (simp add: s5_def 4(5)) (simp add: s3_def)
  have "cache_abs dv s7 = (cache_abs dv s)\<lparr>av := (view dv s)(hb := view dv s lb), ad := (disk s)(hb := view dv s lb),
       ar := (brefs dv s)(hb := brefs dv s hb - (if rc then 0 else 1)),
       af := af (cache_abs dv s) + (if \<not> rc \<and> brefs dv s hb = 1 then 1 else 0)\<rparr>"
    by (rule acache.equality) (use A ne e1 e2 e3 e4 e5 e6 e7 in \<open>auto simp: fun_eq_iff split: if_splits\<close>)
  then show ?thesis using that run 7(2) lv(1) w by (simp add: dv_def)
qed

end
