(* ===== verification/LogCrash.thy ===== *)
theory LogCrash
  imports Log
begin

text \<open>
  What \<open>commit\<close> writes to the disk and in which order, and what recovery makes of a disk on
  which only a part of these writes has arrived.
\<close>

section \<open>Sequences of block writes\<close>

definition apply_writes :: "(u32 \<times> block) list \<Rightarrow> (u32 \<Rightarrow> block) \<Rightarrow> u32 \<Rightarrow> block" where
  "apply_writes ws d = fold (\<lambda>(b, v) d. d(b := v)) ws d"

lemma apply_writes_simps [simp]:
  "apply_writes [] d = d" "apply_writes (w # ws) d = apply_writes ws (d(fst w := snd w))"
  "apply_writes (us @ ws) d = apply_writes ws (apply_writes us d)"
  by (simp_all add: apply_writes_def case_prod_beta)

lemma apply_writes_other: "b \<notin> fst ` set ws \<Longrightarrow> apply_writes ws d b = d b"
  by (induction ws arbitrary: d) auto

lemma apply_writes_map:
  assumes "distinct (map f [0..<k])" "i < k"
  shows "apply_writes (map (\<lambda>i. (f i, g i)) [0..<k]) d (f i) = g i"
  using assms
proof (induction k arbitrary: d)
  case (Suc k)
  show ?case
  proof (cases "i = k")
    case False
    have "i < k" "f i \<in> f ` {0..<k}" using Suc.prems(2) False by auto
    moreover have "f k \<notin> f ` {0..<k}" using Suc.prems(1) by simp
    ultimately have "f i \<noteq> f k" by metis
    then show ?thesis using Suc False by simp
  qed simp
qed simp

lemma forE_append: "forE f (xs @ ys) s = bindE (forE f xs s) (forE f ys)"
proof (induction xs arbitrary: s)
  case (Cons x xs)
  then show ?case by (cases "f x s") simp_all
qed simp

section \<open>The layout of the log\<close>

definition in_log :: "u32 \<Rightarrow> u32 \<Rightarrow> bool" where
  "in_log st b \<longleftrightarrow> unat st \<le> unat b \<and> unat b \<le> unat st + LOGSIZE"

definition logged :: "'a logst_scheme \<Rightarrow> u32 list" where
  "logged s = take (nat (lh_n s)) (lh_block s)"

definition log_layout :: "'a logst_scheme \<Rightarrow> bool" where
  "log_layout s \<longleftrightarrow> unat (lg_start s) + LOGSIZE < 2 ^ 32 \<and> 0 \<le> lh_n s \<and> lh_n s \<le> int LOGSIZE \<and>
     length (lh_block s) = LOGSIZE \<and> distinct (logged s) \<and> (\<forall>b \<in> set (logged s). \<not> in_log (lg_start s) b)"

definition lblock :: "u32 \<Rightarrow> nat \<Rightarrow> u32" where
  "lblock st i = st + of_nat i + 1"

lemma log_layoutD:
  assumes "log_layout s"
  shows "unat (lg_start s) + LOGSIZE < 2 ^ 32" "nat (lh_n s) \<le> LOGSIZE" "length (logged s) = nat (lh_n s)"
    "distinct (logged s)" "b \<in> set (logged s) \<Longrightarrow> \<not> in_log (lg_start s) b" "i < nat (lh_n s) \<Longrightarrow> lh_block s ! i = logged s ! i"
  using assms by (auto simp: log_layout_def logged_def min_def)

lemma unat_lblock: "unat st + LOGSIZE < 2 ^ 32 \<Longrightarrow> i < LOGSIZE \<Longrightarrow> unat (lblock st i) = unat st + i + 1"
  unfolding lblock_def by (simp add: unat_word_ariths unat_of_nat LOGSIZE_def)

lemma lblock_in_log: "unat st + LOGSIZE < 2 ^ 32 \<Longrightarrow> i < LOGSIZE \<Longrightarrow> in_log st (lblock st i) \<and> lblock st i \<noteq> st"
  using unat_lblock [of st i] by (auto simp: in_log_def word_unat_eq_iff)

lemma lblock_inj: "unat st + LOGSIZE < 2 ^ 32 \<Longrightarrow> k \<le> LOGSIZE \<Longrightarrow> distinct (map (lblock st) [0..<k])"
  using unat_lblock [of st] by (auto simp: distinct_map inj_on_def word_unat_eq_iff)

text \<open>
  A transaction that is ready to commit: the blocks of the log are not in use, the logged blocks
  are pinned and not locked, and one buffer at least is unused. In recovery (\<open>rc\<close>) the logged
  blocks are not in use either, and two buffers are needed.
\<close>

definition tx_ok :: "bool \<Rightarrow> 'a logst_scheme \<Rightarrow> bool" where
  "tx_ok rc s \<longleftrightarrow> bcache_ok (lg_dev s) s \<and> log_layout s \<and>
     (\<forall>b. in_log (lg_start s) b \<longrightarrow> brefs (lg_dev s) s b = 0 \<and> \<not> blocked (lg_dev s) s b) \<and>
     (\<forall>b \<in> set (logged s). (if rc then brefs (lg_dev s) s b = 0 else 0 < brefs (lg_dev s) s b) \<and>
        brefs (lg_dev s) s b < 2 ^ 32 - 1 \<and> \<not> blocked (lg_dev s) s b) \<and>
     (if rc then 1 else 0) < af (cache_abs (lg_dev s) s)"

definition log_writes :: "'a logst_scheme \<Rightarrow> (u32 \<times> block) list" where
  "log_writes s = map (\<lambda>i. (lblock (lg_start s) i, view (lg_dev s) s (logged s ! i))) [0..<nat (lh_n s)]"

definition home_writes :: "'a logst_scheme \<Rightarrow> (u32 \<times> block) list" where
  "home_writes s = map (\<lambda>i. (logged s ! i, view (lg_dev s) s (lblock (lg_start s) i))) [0..<nat (lh_n s)]"

lemma write_log_ok:
  fixes s :: "'a logst_scheme"
  assumes tx: "tx_ok False s" and k: "k \<le> nat (lh_n s)"
  shows "\<exists>s'. forE write_log_one [0..<k] s = Inr s' \<and> bcache_ok (lg_dev s) s' \<and> logvars s' = logvars s \<and>
    cache_abs (lg_dev s) s' = (cache_abs (lg_dev s) s)\<lparr>av := apply_writes (take k (log_writes s)) (view (lg_dev s) s),
      ad := apply_writes (take k (log_writes s)) (disk s)\<rparr> \<and>
    written s' = written s @ take k (log_writes s)"
  using k
proof (induction k)
  case 0
  have "cache_abs (lg_dev s) s = (cache_abs (lg_dev s) s)\<lparr>av := view (lg_dev s) s, ad := disk s\<rparr>" by (simp add: cache_abs_def)
  then show ?case using tx by (simp add: tx_ok_def)
next
  case (Suc k)
  define dv where "dv = lg_dev s"
  define lb where "lb = lblock (lg_start s) k"
  define hb where "hb = logged s ! k"
  define W where "W = take k (log_writes s)"
  have L: "log_layout s" using tx by (simp add: tx_ok_def)
  note D = log_layoutD [OF L]
  have kn: "k < nat (lh_n s)" "k < LOGSIZE" using Suc.prems D(2) by auto
  obtain s1 where 1: "forE write_log_one [0..<k] s = Inr s1" "bcache_ok dv s1" "logvars s1 = logvars s"
    "cache_abs dv s1 = (cache_abs dv s)\<lparr>av := apply_writes W (view dv s), ad := apply_writes W (disk s)\<rparr>"
    "written s1 = written s @ W" using Suc by (auto simp: dv_def W_def)
  note e = cache_abs_eqD [OF 1(4), simplified]
  note v = logvarsD [OF 1(3)]
  have hL: "hb \<in> set (logged s)" using kn D(3) by (simp add: hb_def)
  have in_l: "in_log (lg_start s) lb" using lblock_in_log [OF D(1) kn(2)] by (simp add: lb_def)
  have ne: "lb \<noteq> hb" using in_l D(5) [OF hL] by auto
  have "hb \<notin> fst ` set W" using D(1,2,5) hL lblock_in_log kn by (force simp: W_def log_writes_def take_map)
  then have vh: "view dv s1 hb = view dv s hb" by (simp add: e(1) apply_writes_other)
  have R: "brefs dv s lb = 0" "\<not> blocked dv s lb" "0 < brefs dv s hb" "brefs dv s hb < 2 ^ 32 - 1" "\<not> blocked dv s hb"
    "0 < af (cache_abs dv s)" using tx in_l hL by (auto simp: tx_ok_def dv_def)
  obtain s2 where 2: "write_log_one k s1 = Inr s2" "bcache_ok dv s2" "logvars s2 = logvars s1"
    "cache_abs dv s2 = (cache_abs dv s1)\<lparr>av := (view dv s1)(lb := view dv s1 hb), ad := (disk s1)(lb := view dv s1 hb)\<rparr>"
    "written s2 = written s1 @ [(lb, view dv s1 hb)]"
    by (rule write_log_one_ok [of s1 lb k hb, unfolded v(2), folded dv_def])
      (use 1(2) R ne e v D(6) [OF kn(1)] in \<open>auto simp: lb_def hb_def lblock_def\<close>)
  have t: "take (Suc k) (log_writes s) = W @ [(lb, view dv s hb)]"
    using kn by (simp add: W_def log_writes_def take_Suc_conv_app_nth lb_def hb_def dv_def)
  have "forE write_log_one [0..<Suc k] s = Inr s2" using 1(1) 2(1) by (simp add: forE_append)
  moreover have "cache_abs dv s2 = (cache_abs dv s)\<lparr>av := apply_writes (take (Suc k) (log_writes s)) (view dv s),
      ad := apply_writes (take (Suc k) (log_writes s)) (disk s)\<rparr>"
    unfolding 2(4) 1(4) vh t by (simp add: e fun_upd_def)
  ultimately show ?case using 2(2,3,5) 1(3,5) vh by (intro exI [of _ s2]) (simp add: t dv_def fun_upd_def)
qed

text \<open>The write of the header, whatever it holds.\<close>

lemma write_head_ok:
  fixes s :: "'a logst_scheme"
  assumes ok: "bcache_ok (lg_dev s) s" and r: "brefs (lg_dev s) s (lg_start s) = 0" "\<not> blocked (lg_dev s) s (lg_start s)"
    and f: "0 < af (cache_abs (lg_dev s) s)"
    and d: "d = put_head (lh_n s) (lh_block s) (view (lg_dev s) s (lg_start s))"
  obtains s' where "write_head s = Inr s'" "bcache_ok (lg_dev s) s'" "logvars s' = logvars s"
    "cache_abs (lg_dev s) s' = (cache_abs (lg_dev s) s)\<lparr>av := (view (lg_dev s) s)(lg_start s := d),
       ad := (disk s)(lg_start s := d)\<rparr>"
    "written s' = written s @ [(lg_start s, d)]"
proof -
  define dv where "dv = lg_dev s"
  define st where "st = lg_start s"
  note A = ok [folded dv_def] r [folded dv_def st_def] f [folded dv_def] d [folded dv_def st_def]
  obtain b s1 where 1: "bread dv st s = Inr (b, s1)" "bcache_ok dv s1" "own dv s1 st b"
    "cache_abs dv s1 = (cache_abs dv s)\<lparr>ar := (brefs dv s)(st := brefs dv s st + 1), al := (blocked dv s)(st := True),
       af := af (cache_abs dv s) - (if brefs dv s st = 0 then 1 else 0)\<rparr>" "s1 = s\<lparr>bufs := bufs s1\<rparr>"
    by (rule bread_ok [OF A(1) A(3)]) (use A in auto)
  note e1 = cache_abs_eqD [OF 1(4), simplified]
  have d1: "b_data (bufs s1 b) = view dv s st" using own_at(2) [OF 1(2,3)] e1(1) by simp
  define s2 where "s2 = set_data b d s1"
  note S2 = set_data_ok [OF 1(2,3), of d, folded s2_def]
  note e2 = cache_abs_eqD [OF S2(4), simplified]
  obtain s3 where 3: "bwrite b s2 = Inr s3" "bcache_ok dv s3" "\<forall>m i. own dv s3 m i = own dv s2 m i"
    "cache_abs dv s3 = (cache_abs dv s2)\<lparr>ad := (disk s2)(st := view dv s2 st)\<rparr>"
    "s3 = s2\<lparr>disk := (disk s2)(st := view dv s2 st), written := written s2 @ [(st, view dv s2 st)]\<rparr>"
    by (rule bwrite_ok [OF S2(1,2)])
  note e3 = cache_abs_eqD [OF 3(4), simplified]
  have o3: "own dv s3 st b" using 3(3) S2(2) by blast
  obtain s4 where 4: "brelse b s3 = Inr s4" "bcache_ok dv s4"
    "cache_abs dv s4 = (cache_abs dv s3)\<lparr>ar := (brefs dv s3)(st := brefs dv s3 st - 1), al := (blocked dv s3)(st := False),
       af := af (cache_abs dv s3) + (if brefs dv s3 st = 1 then 1 else 0)\<rparr>" "s4 = s3\<lparr>bufs := bufs s4\<rparr>"
    by (rule brelse_ok [OF 3(2) o3]) (use A e1 e2 e3 in auto)
  note e4 = cache_abs_eqD [OF 4(3), simplified]
  have lv: "logvars s4 = logvars s" "logvars s1 = logvars s"
    using frameD(2) [OF 4(4)] frameD(2) [OF 1(5)] by (simp_all add: 3(5) s2_def)
  have run: "write_head s = Inr s4"
    using 1(1) 3(1) 4(1) d1 A(5) logvarsD(3,4) [OF lv(2)]
    by (simp add: write_head_def dv_def [symmetric] st_def [symmetric] s2_def)
  have w: "written s4 = written s @ [(st, d)]"
    using frameD(1) [OF 4(4)] frameD(1) [OF 1(5)] e2(1) by (simp add: 3(5)) (simp add: s2_def)
  have "cache_abs dv s4 = (cache_abs dv s)\<lparr>av := (view dv s)(st := d), ad := (disk s)(st := d)\<rparr>"
    by (rule acache.equality) (use A e1 e2 e3 e4 in \<open>auto simp: fun_eq_iff\<close>)
  then show ?thesis using that run 4(2) lv(1) w by (simp add: dv_def st_def)
qed

text \<open>The loop that installs the logged blocks at home.\<close>

lemma install_trans_ok:
  fixes s :: "'a logst_scheme"
  assumes tx: "tx_ok rc s" and k: "k \<le> nat (lh_n s)"
  shows "\<exists>s'. forE (install_one rc) [0..<k] s = Inr s' \<and> bcache_ok (lg_dev s) s' \<and> logvars s' = logvars s \<and>
    view (lg_dev s) s' = apply_writes (take k (home_writes s)) (view (lg_dev s) s) \<and>
    disk s' = apply_writes (take k (home_writes s)) (disk s) \<and>
    brefs (lg_dev s) s' = (\<lambda>b. brefs (lg_dev s) s b - (if \<not> rc \<and> b \<in> set (take k (logged s)) then 1 else 0)) \<and>
    blocked (lg_dev s) s' = blocked (lg_dev s) s \<and> af (cache_abs (lg_dev s) s) \<le> af (cache_abs (lg_dev s) s') \<and>
    written s' = written s @ take k (home_writes s)"
  using k
proof (induction k)
  case 0
  then show ?case using tx by (simp add: tx_ok_def)
next
  case (Suc k)
  define dv where "dv = lg_dev s"
  define lb where "lb = lblock (lg_start s) k"
  define hb where "hb = logged s ! k"
  define W where "W = take k (home_writes s)"
  define T where "T = set (take k (logged s))"
  have L: "log_layout s" using tx by (simp add: tx_ok_def)
  note D = log_layoutD [OF L]
  have kn: "k < nat (lh_n s)" "k < LOGSIZE" using Suc.prems D(2) by auto
  obtain s1 where 1: "forE (install_one rc) [0..<k] s = Inr s1" "bcache_ok dv s1" "logvars s1 = logvars s"
    and e: "view dv s1 = apply_writes W (view dv s)" "disk s1 = apply_writes W (disk s)"
    "brefs dv s1 = (\<lambda>b. brefs dv s b - (if \<not> rc \<and> b \<in> T then 1 else 0))" "blocked dv s1 = blocked dv s"
    "af (cache_abs dv s) \<le> af (cache_abs dv s1)" and w: "written s1 = written s @ W"
    using Suc by (auto simp: dv_def W_def T_def)
  note v = logvarsD [OF 1(3)]
  have t: "take (Suc k) (home_writes s) = W @ [(hb, view dv s lb)]" "set (take (Suc k) (logged s)) = insert hb T"
    using kn D(3) by (simp_all add: W_def T_def home_writes_def take_Suc_conv_app_nth lb_def hb_def dv_def)
  have hL: "hb \<in> set (logged s)" using kn D(3) by (simp add: hb_def)
  have hT: "hb \<notin> T" using D(4) kn D(3) by (auto simp: T_def hb_def in_set_conv_nth nth_eq_iff_index_eq)
  have in_l: "in_log (lg_start s) lb" using lblock_in_log [OF D(1) kn(2)] by (simp add: lb_def)
  have lT: "lb \<notin> set (logged s)" "lb \<notin> T" using in_l D(5) by (auto simp: T_def dest: in_set_takeD)
  have ne: "lb \<noteq> hb" using lT hL by auto
  have "fst ` set W \<subseteq> set (logged s)" using D(3) kn(1) by (auto simp: W_def home_writes_def take_map)
  then have vl: "view dv s1 lb = view dv s lb" using lT by (auto simp: e(1) intro: apply_writes_other)
  have R: "brefs dv s lb = 0" "\<not> blocked dv s lb" "if rc then brefs dv s hb = 0 else 0 < brefs dv s hb"
    "brefs dv s hb < 2 ^ 32 - 1" "\<not> blocked dv s hb"
    "(if rc then 1 else 0) < af (cache_abs dv s)" using tx in_l hL by (auto simp: tx_ok_def dv_def)
  obtain s2 where 2: "install_one rc k s1 = Inr s2" "bcache_ok dv s2" "logvars s2 = logvars s1"
    "cache_abs dv s2 = (cache_abs dv s1)\<lparr>av := (view dv s1)(hb := view dv s1 lb), ad := (disk s1)(hb := view dv s1 lb),
       ar := (brefs dv s1)(hb := brefs dv s1 hb - (if rc then 0 else 1)),
       af := af (cache_abs dv s1) + (if \<not> rc \<and> brefs dv s1 hb = 1 then 1 else 0)\<rparr>"
    "written s2 = written s1 @ [(hb, view dv s1 lb)]"
    by (rule install_one_ok [of s1 lb k hb rc, unfolded v(2), folded dv_def])
      (use 1(2) R ne hT lT e v D(6) [OF kn(1)] in \<open>auto simp: lb_def hb_def lblock_def split: if_splits\<close>)
  note e2 = cache_abs_eqD [OF 2(4), simplified]
  have "forE (install_one rc) [0..<Suc k] s = Inr s2" using 1(1) 2(1) by (simp add: forE_append)
  moreover have "view dv s2 = apply_writes (take (Suc k) (home_writes s)) (view dv s)"
    "disk s2 = apply_writes (take (Suc k) (home_writes s)) (disk s)" by (simp_all only: t e2 vl) (simp_all add: e)
  moreover have "brefs dv s2 = (\<lambda>b. brefs dv s b - (if \<not> rc \<and> b \<in> set (take (Suc k) (logged s)) then 1 else 0))"
    using hT by (auto simp only: t e2) (auto simp: e fun_eq_iff)
  moreover have "blocked dv s2 = blocked dv s" "af (cache_abs dv s) \<le> af (cache_abs dv s2)" using e2(4,5) e(4,5) by auto
  ultimately show ?case using 2(2,3,5) 1(3) w vl by (intro exI [of _ s2]) (simp add: t(1) dv_def del: take_append)
qed

section \<open>The writes of a commit\<close>

definition head_is :: "block \<Rightarrow> u32 list \<Rightarrow> bool" where
  "head_is d bs \<longleftrightarrow> sint (get32 d 0) = int (length bs) \<and> (\<forall>i < length bs. head_block d i = bs ! i)"

lemma get32_fold_put32: "k + 4 \<le> 4 \<Longrightarrow> get32 (fold (\<lambda>i d. put32 d (4 + 4 * i) (f i)) [0..<n] d) k = get32 d k"
  by (induction n) (simp_all add: get32_put32_other)

lemma head_fold_put32: "i < n \<Longrightarrow> get32 (fold (\<lambda>i d. put32 d (4 + 4 * i) (f i)) [0..<n] d) (4 + 4 * i) = f i"
proof (induction n)
  case (Suc n)
  show ?case
  proof (cases "i = n")
    case False
    then show ?thesis using Suc by (simp add: get32_put32_other)
  qed simp
qed simp

lemma put_head_is:
  assumes "log_layout s"
  shows "head_is (put_head (lh_n s) (lh_block s) d) (logged s)"
proof -
  note D = log_layoutD [OF assms]
  have n: "0 \<le> lh_n s" "lh_n s \<le> 30" using assms by (auto simp: log_layout_def LOGSIZE_def)
  have "sint (of_int (lh_n s) :: u32) = lh_n s" using n by (intro sint_of_int_small) auto
  then show ?thesis using n(1) D(3,6) get32_fold_put32 [of 0]
    by (simp add: head_is_def put_head_def head_block_def head_fold_put32)
qed

lemma layout_cong: "logvars s' = logvars s \<Longrightarrow> log_layout s' = log_layout s \<and> logged s' = logged s"
  by (simp add: log_layout_def logged_def logvars_def)

lemma cache_cong:
  assumes "bufs s' = bufs s" "disk s' = disk s"
  shows "cache_abs dv s' = cache_abs dv s \<and> bcache_ok dv s' = bcache_ok dv s"
proof -
  have "view dv s' = view dv s" "brefs dv s' = brefs dv s" "blocked dv s' = blocked dv s"
    by (intro ext; simp only: view_def brefs_def blocked_def assms)+
  then show ?thesis by (simp add: cache_abs_def bcache_ok_def assms)
qed

lemma tx_ok_cong:
  assumes "tx_ok rc s" "bcache_ok (lg_dev s) s'" "logvars s' = logvars s" "brefs (lg_dev s) s' = brefs (lg_dev s) s"
    "blocked (lg_dev s) s' = blocked (lg_dev s) s" "af (cache_abs (lg_dev s) s') = af (cache_abs (lg_dev s) s)"
  shows "tx_ok rc s'"
  using assms layout_cong [OF assms(3)] logvarsD(1,2) [OF assms(3)] by (simp add: tx_ok_def)

definition new_home :: "'a logst_scheme \<Rightarrow> (u32 \<times> block) list" where
  "new_home s = map (\<lambda>b. (b, view (lg_dev s) s b)) (logged s)"

lemma start_in_log: "in_log st st" by (simp add: in_log_def)

lemma home_writes_logged:
  assumes L: "log_layout s" and "logvars s' = logvars s"
    and v: "view (lg_dev s) s' = (apply_writes (log_writes s) (view (lg_dev s) s))(lg_start s := d)"
  shows "home_writes s' = new_home s"
proof -
  note D = log_layoutD [OF L]
  note c = layout_cong [OF assms(2)] logvarsD [OF assms(2)]
  have "view (lg_dev s) s' (lblock (lg_start s) i) = view (lg_dev s) s (logged s ! i)" if "i < nat (lh_n s)" for i
    using that D(2) lblock_in_log [OF D(1), of i] apply_writes_map [OF lblock_inj [OF D(1,2)] that]
    by (simp add: v log_writes_def)
  then show ?thesis using D(3) by (simp add: home_writes_def new_home_def c list_eq_iff_nth_eq)
qed

lemma commit_ok:
  fixes s :: "'a logst_scheme"
  assumes tx: "tx_ok False s" and n: "0 < lh_n s"
  obtains s' d d' where "commit s = Inr s'" "head_is d (logged s)" "head_is d' []"
    "written s' = written s @ log_writes s @ [(lg_start s, d)] @ new_home s @ [(lg_start s, d')]"
    "lh_n s' = 0" "lg_start s' = lg_start s" "lg_dev s' = lg_dev s" "bcache_ok (lg_dev s) s'"
    "disk s' = apply_writes (log_writes s @ [(lg_start s, d)] @ new_home s @ [(lg_start s, d')]) (disk s)"
    "log_layout s'" "brefs (lg_dev s) s' = (\<lambda>b. brefs (lg_dev s) s b - (if b \<in> set (logged s) then 1 else 0))"
    "blocked (lg_dev s) s' = blocked (lg_dev s) s" "lg_size s' = lg_size s" "outstanding s' = outstanding s"
proof -
  define dv where "dv = lg_dev s"
  define st where "st = lg_start s"
  have L: "log_layout s" using tx by (simp add: tx_ok_def)
  note D = log_layoutD [OF L]
  have le: "length (log_writes s) = nat (lh_n s)" by (simp add: log_writes_def)
  obtain s1 where 1: "write_log s = Inr s1" "bcache_ok dv s1" "logvars s1 = logvars s"
    "cache_abs dv s1 = (cache_abs dv s)\<lparr>av := apply_writes (log_writes s) (view dv s), ad := apply_writes (log_writes s) (disk s)\<rparr>"
    "written s1 = written s @ log_writes s"
    using write_log_ok [OF tx, of "nat (lh_n s)"] by (auto simp: write_log_def dv_def le)
  note e1 = cache_abs_eqD [OF 1(4), simplified]
  note v1 = logvarsD [OF 1(3)] layout_cong [OF 1(3)]
  have tx1: "tx_ok False s1" by (rule tx_ok_cong [OF tx]) (use 1 e1 in \<open>simp_all add: dv_def\<close>)
  define d where "d = put_head (lh_n s1) (lh_block s1) (view dv s1 st)"
  have d: "head_is d (logged s)" using put_head_is [of s1] v1 L by (simp add: d_def)
  obtain s2 where 2: "write_head s1 = Inr s2" "bcache_ok dv s2" "logvars s2 = logvars s1"
    "cache_abs dv s2 = (cache_abs dv s1)\<lparr>av := (view dv s1)(st := d), ad := (disk s1)(st := d)\<rparr>"
    "written s2 = written s1 @ [(st, d)]"
    by (rule write_head_ok [of s1 d, unfolded v1(1,2), folded dv_def st_def])
      (use tx1 start_in_log in \<open>auto simp: tx_ok_def v1 dv_def st_def d_def\<close>)
  note e2 = cache_abs_eqD [OF 2(4), simplified]
  note v2 = logvarsD [OF 2(3)] layout_cong [OF 2(3)]
  have tx2: "tx_ok False s2" by (rule tx_ok_cong [OF tx1]) (use 2 e2 v1 in \<open>simp_all add: dv_def\<close>)
  have h: "home_writes s2 = new_home s" by (rule home_writes_logged [OF L]) (use 2 1 e2 e1 in \<open>simp_all add: dv_def st_def\<close>)
  have lh: "length (new_home s) = nat (lh_n s)" using D(3) by (simp add: new_home_def)
  obtain s3 where 3: "install_trans False s2 = Inr s3" "bcache_ok dv s3" "logvars s3 = logvars s2"
    "disk s3 = apply_writes (new_home s) (disk s2)"
    "brefs dv s3 = (\<lambda>b. brefs dv s2 b - (if b \<in> set (logged s) then 1 else 0))" "blocked dv s3 = blocked dv s2"
    "af (cache_abs dv s2) \<le> af (cache_abs dv s3)" "written s3 = written s2 @ new_home s"
    using install_trans_ok [OF tx2, of "nat (lh_n s2)"] D(3) by (auto simp: install_trans_def h v2 v1 lh dv_def)
  note v3 = logvarsD [OF 3(3)] layout_cong [OF 3(3)]
  define u where "u = s3\<lparr>lh_n := 0\<rparr>"
  have cu: "cache_abs dv u = cache_abs dv s3" "bcache_ok dv u = bcache_ok dv s3"
    using cache_cong [of u s3] by (simp_all add: u_def)
  define d' where "d' = put_head 0 (lh_block u) (view dv u st)"
  have Lu: "log_layout u" "logged u = []" using L v3 v2 v1 by (auto simp: log_layout_def u_def logged_def)
  then have d': "head_is d' []" using put_head_is [of u] by (simp add: d'_def u_def)
  have "lg_dev u = dv" "lg_start u = st" "lh_n u = 0" using v3 v2 v1 by (simp_all add: u_def dv_def st_def)
  note vu = this
  have ru: "brefs dv u st = 0" "\<not> blocked dv u st" "0 < af (cache_abs dv u)"
    using cache_abs_eqD [OF cu(1)] 3(5-7) tx2 start_in_log [of st] v2 v1 by (auto simp: tx_ok_def dv_def st_def)
  obtain s4 where 4: "write_head u = Inr s4" "bcache_ok dv s4" "logvars s4 = logvars u"
    "cache_abs dv s4 = (cache_abs dv u)\<lparr>av := (view dv u)(st := d'), ad := (disk u)(st := d')\<rparr>"
    "written s4 = written u @ [(st, d')]"
    by (rule write_head_ok [of u d', unfolded vu]) (use cu 3(2) ru in \<open>auto simp: d'_def\<close>)
  have "commit s = Inr s4" using n 1(1) 2(1) 3(1) 4(1) by (simp add: commit_def u_def)
  moreover have "written s4 = written s @ log_writes s @ [(st, d)] @ new_home s @ [(st, d')]"
    using 4(5) 3(8) 2(5) 1(5) by (simp add: u_def)
  moreover have "disk s4 = apply_writes (log_writes s @ [(st, d)] @ new_home s @ [(st, d')]) (disk s)"
    using cache_abs_eqD(2) [OF 4(4)] 3(4) e2(2) e1(2) by (simp add: u_def)
  moreover have "brefs dv s4 = (\<lambda>b. brefs dv s b - (if b \<in> set (logged s) then 1 else 0))" "blocked dv s4 = blocked dv s"
    using cache_abs_eqD(3,4) [OF 4(4)] cache_abs_eqD(3,4) [OF cu(1)] 3(5,6) e2(3,4) e1(3,4) by simp_all
  moreover have "lg_size u = lg_size s" "outstanding u = outstanding s" using v3 v2 v1 by (simp_all add: u_def)
  ultimately show ?thesis using that [OF _ d d', of s4] 4(2) logvarsD [OF 4(3)] vu Lu(1) layout_cong [OF 4(3)] by (simp add: dv_def st_def)
qed

section \<open>Recovery\<close>

lemma read_head_ok:
  fixes s :: "'a logst_scheme"
  assumes ok: "bcache_ok (lg_dev s) s" and r: "brefs (lg_dev s) s (lg_start s) = 0" "\<not> blocked (lg_dev s) s (lg_start s)"
    and f: "0 < af (cache_abs (lg_dev s) s)" and h: "head_is (view (lg_dev s) s (lg_start s)) bs" "length bs \<le> LOGSIZE"
  obtains s' where "read_head s = Inr s'" "cache_abs (lg_dev s) s' = cache_abs (lg_dev s) s" "bcache_ok (lg_dev s) s'"
    "written s' = written s" "lg_dev s' = lg_dev s" "lg_start s' = lg_start s" "lh_n s' = int (length bs)"
    "logged s' = bs" "length (lh_block s') = LOGSIZE"
proof -
  define dv where "dv = lg_dev s"
  define st where "st = lg_start s"
  note A = ok [folded dv_def] r [folded dv_def st_def] f [folded dv_def] h [folded dv_def st_def]
  obtain b s1 where 1: "bread dv st s = Inr (b, s1)" "bcache_ok dv s1" "own dv s1 st b"
    "cache_abs dv s1 = (cache_abs dv s)\<lparr>ar := (brefs dv s)(st := brefs dv s st + 1), al := (blocked dv s)(st := True),
       af := af (cache_abs dv s) - (if brefs dv s st = 0 then 1 else 0)\<rparr>" "s1 = s\<lparr>bufs := bufs s1\<rparr>"
    by (rule bread_ok [OF A(1) A(3)]) (use A in auto)
  note e1 = cache_abs_eqD [OF 1(4), simplified]
  have d1: "b_data (bufs s1 b) = view dv s st" using own_at(2) [OF 1(2,3)] e1(1) by simp
  define B where "B = map (\<lambda>i. if i < length bs then head_block (view dv s st) i else lh_block s1 ! i) [0..<LOGSIZE]"
  define s2 where "s2 = s1\<lparr>lh_n := int (length bs), lh_block := B\<rparr>"
  have c2: "cache_abs dv s2 = cache_abs dv s1" "bcache_ok dv s2" using cache_cong [of s2 s1] 1(2) by (simp_all add: s2_def)
  have o2: "own dv s2 st b" using 1(3) by (simp add: own_def s2_def)
  note e2 = cache_abs_eqD [OF c2(1), simplified]
  obtain s3 where 3: "brelse b s2 = Inr s3" "bcache_ok dv s3"
    "cache_abs dv s3 = (cache_abs dv s2)\<lparr>ar := (brefs dv s2)(st := brefs dv s2 st - 1), al := (blocked dv s2)(st := False),
       af := af (cache_abs dv s2) + (if brefs dv s2 st = 1 then 1 else 0)\<rparr>" "s3 = s2\<lparr>bufs := bufs s3\<rparr>"
    by (rule brelse_ok [OF c2(2) o2]) (use A e1 e2 unreferenced_clean [OF A(1,2)] in auto)
  have n: "sint (get32 (view dv s st) 0) = int (length bs)" using A(5) by (simp add: head_is_def)
  have "read_head s = Inr s3"
    using 1(1) 3(1) A(6) unfolding read_head_def dv_def [symmetric] st_def [symmetric]
    by (simp add: d1 n s2_def B_def)
  moreover have "cache_abs dv s3 = cache_abs dv s"
    by (rule acache.equality) (use A e1 e2 cache_abs_eqD [OF 3(3), simplified] in \<open>auto simp: fun_eq_iff\<close>)
  moreover have "logvars s3 = logvars s2" "written s3 = written s" using frameD [OF 3(4)] frameD(1) [OF 1(5)] by (simp_all add: s2_def)
  moreover have "lg_dev s2 = dv" "lg_start s2 = st" using logvarsD(1,2) [OF frameD(2) [OF 1(5)]]
    by (simp_all add: s2_def dv_def st_def)
  moreover have "take (length bs) B = bs" "length B = LOGSIZE"
    using A(5,6) by (auto simp: B_def head_is_def list_eq_iff_nth_eq)
  ultimately show ?thesis using that [of s3] 3(2) logvarsD [of s3 s2] layout_cong [of s3 s2]
    by (simp add: dv_def st_def s2_def logged_def)
qed

text \<open>The machine after a reset: the disk keeps its blocks, memory is that of the kernel image.\<close>

definition boot :: "(u32 \<Rightarrow> block) \<Rightarrow> logst" where
  "boot D = binit \<lparr>bufs = \<lambda>_. zero_buf, disk = D, written = [], lg_start = 0, lg_size = 0, outstanding = 0,
     committing = False, lg_dev = 0, lh_n = 0, lh_block = replicate LOGSIZE 0\<rparr>"

lemma recovery_ok:
  assumes dv: "dv \<noteq> 0" and st: "unat st + LOGSIZE < 2 ^ 32" and h: "head_is (D st) bs" "length bs \<le> LOGSIZE"
    and bs: "distinct bs" "\<forall>b \<in> set bs. \<not> in_log st b"
  obtains r d where "initlog dv st nlog (boot D) = Inr r" "head_is d []" "lh_n r = 0" "bcache_ok dv r"
    "written r = map (\<lambda>i. (bs ! i, D (lblock st i))) [0..<length bs] @ [(st, d)]" "disk r = apply_writes (written r) D"
proof -
  define z where "z = \<lparr>bufs = \<lambda>_. zero_buf, disk = D, written = [], lg_start = 0, lg_size = 0, outstanding = 0,
     committing = False, lg_dev = 0, lh_n = 0, lh_block = replicate LOGSIZE 0 :: u32 list\<rparr>"
  have Z: "bufs z = (\<lambda>_. zero_buf)" "boot D = binit z" "disk z = D" by (simp_all add: z_def boot_def)
  define s where "s = (boot D)\<lparr>lg_start := st, lg_size := sint nlog, lg_dev := dv\<rparr>"
  have c: "cache_abs dv s = cache_abs dv (boot D)" "bcache_ok dv s = bcache_ok dv (boot D)"
    using cache_cong [of s "boot D"] by (simp_all add: s_def)
  have ok: "bcache_ok dv s" using c(2) binit_ok(1) [OF Z(1) dv] by (simp add: Z)
  have ab: "cache_abs dv s = \<lparr>av = D, ad = D, ar = \<lambda>_. 0, al = \<lambda>_. False, af = NBUF\<rparr>"
    using c(1) binit_ok(2) [OF Z(1) dv] by (simp add: Z)
  note e = cache_abs_eqD [OF ab, simplified]
  have v: "lg_dev s = dv" "lg_start s = st" "written s = []" by (simp_all add: s_def boot_def binit_def)
  obtain s1 where 1: "read_head s = Inr s1" "cache_abs dv s1 = cache_abs dv s" "bcache_ok dv s1"
    "written s1 = written s" "lg_dev s1 = dv" "lg_start s1 = st" "lh_n s1 = int (length bs)" "logged s1 = bs" "length (lh_block s1) = LOGSIZE"
    by (rule read_head_ok [of s bs, unfolded v]) (use ok e h v(3) in \<open>auto simp: NBUF_def\<close>)
  note e1 = cache_abs_eqD [OF 1(2) [unfolded ab], simplified]
  have L1: "log_layout s1" using st h(2) bs 1 by (auto simp: log_layout_def)
  have tx1: "tx_ok True s1" using L1 1(3,5) e1 by (auto simp: tx_ok_def NBUF_def)
  define W where "W = map (\<lambda>i. (bs ! i, D (lblock st i))) [0..<length bs]"
  have W: "home_writes s1 = W" by (simp add: home_writes_def W_def 1 e1)
  obtain s2 where 2: "install_trans True s1 = Inr s2" "bcache_ok dv s2" "logvars s2 = logvars s1" "disk s2 = apply_writes W D"
    "brefs dv s2 = brefs dv s1" "blocked dv s2 = blocked dv s1" "af (cache_abs dv s1) \<le> af (cache_abs dv s2)" "written s2 = W"
    using install_trans_ok [OF tx1, of "nat (lh_n s1)"] e1 v(3) 1(4,5,7) by (auto simp: install_trans_def W W_def)
  define u where "u = s2\<lparr>lh_n := 0\<rparr>"
  have cu: "cache_abs dv u = cache_abs dv s2" "bcache_ok dv u" using cache_cong [of u s2] 2(2) by (simp_all add: u_def)
  have vu: "lg_dev u = dv" "lg_start u = st" "lh_n u = 0" using logvarsD [OF 2(3)] 1 by (simp_all add: u_def)
  have Lu: "log_layout u" "logged u = []" using L1 logvarsD [OF 2(3)] by (auto simp: log_layout_def u_def logged_def)
  define d where "d = put_head 0 (lh_block u) (view dv u st)"
  have d: "head_is d []" using put_head_is [OF Lu(1)] Lu(2) vu(3) by (simp add: d_def)
  note eu = cache_abs_eqD [OF cu(1), simplified]
  obtain s3 where 3: "write_head u = Inr s3" "bcache_ok dv s3" "logvars s3 = logvars u"
    "cache_abs dv s3 = (cache_abs dv u)\<lparr>av := (view dv u)(st := d), ad := (disk u)(st := d)\<rparr>" "written s3 = written u @ [(st, d)]"
    by (rule write_head_ok [of u d, unfolded vu]) (use cu(2) eu 2(5-7) e1 in \<open>auto simp: d_def NBUF_def\<close>)
  have "initlog dv st nlog (boot D) = Inr s3" using 1(1) 2(1) 3(1) by (simp add: initlog_def recover_from_log_def s_def u_def)
  moreover have "disk s3 = apply_writes (W @ [(st, d)]) D" using cache_abs_eqD(2) [OF 3(4)] 2(4) by (simp add: u_def)
  moreover have "written s3 = W @ [(st, d)]" using 3(5) 2(8) by (simp add: u_def)
  ultimately show ?thesis using that [OF _ d, of s3] 3(2) logvarsD(3) [OF 3(3)] vu by (simp add: W_def)
qed

section \<open>Crashes\<close>

text \<open>
  The disks that a machine can have which starts from disk \<open>D\<close> and stops, any number of times,
  somewhere in the writes of its recovery.
\<close>

inductive crashes :: "u32 \<Rightarrow> u32 \<Rightarrow> u32 \<Rightarrow> (u32 \<Rightarrow> block) \<Rightarrow> (u32 \<Rightarrow> block) \<Rightarrow> bool" for dv st nlog D where
  none: "crashes dv st nlog D D"
| again: "crashes dv st nlog D D' \<Longrightarrow> initlog dv st nlog (boot D') = Inr r \<Longrightarrow>
    crashes dv st nlog D (apply_writes (take k (written r)) D')"

text \<open>
  The disk between transactions, with contents \<open>c\<close> outside the log; and after the commit point,
  with the new contents of the blocks \<open>bs\<close> in the log and the other blocks in place.
\<close>

definition quiet :: "u32 \<Rightarrow> (u32 \<Rightarrow> block) \<Rightarrow> (u32 \<Rightarrow> block) \<Rightarrow> bool" where
  "quiet st c D \<longleftrightarrow> head_is (D st) [] \<and> (\<forall>b. \<not> in_log st b \<longrightarrow> D b = c b)"

definition committed :: "u32 \<Rightarrow> u32 list \<Rightarrow> (u32 \<Rightarrow> block) \<Rightarrow> (u32 \<Rightarrow> block) \<Rightarrow> bool" where
  "committed st bs c D \<longleftrightarrow> head_is (D st) bs \<and> (\<forall>i < length bs. D (lblock st i) = c (bs ! i)) \<and>
     (\<forall>b. \<not> in_log st b \<longrightarrow> b \<notin> set bs \<longrightarrow> D b = c b)"

definition log_area :: "u32 \<Rightarrow> u32 list \<Rightarrow> bool" where
  "log_area st bs \<longleftrightarrow> unat st + LOGSIZE < 2 ^ 32 \<and> length bs \<le> LOGSIZE \<and> distinct bs \<and> (\<forall>b \<in> set bs. \<not> in_log st b)"

lemma quiet_write: "quiet st c D \<Longrightarrow> head_is d [] \<Longrightarrow> quiet st c (D(st := d))"
  by (auto simp: quiet_def start_in_log)

lemma quiet_log_write:
  assumes "quiet st c D" "\<forall>w \<in> set ws. in_log st (fst w) \<and> fst w \<noteq> st"
  shows "quiet st c (apply_writes ws D)"
proof -
  have "apply_writes ws D b = D b" if "\<not> in_log st b \<or> b = st" for b using assms(2) that by (intro apply_writes_other) auto
  then show ?thesis using assms(1) by (simp add: quiet_def)
qed

lemma committed_homes:
  assumes "committed st bs c D" "log_area st bs" "fst ` set ws \<subseteq> set bs"
  shows "committed st bs c (apply_writes ws D)"
proof -
  have "apply_writes ws D b = D b" if "in_log st b \<or> b \<notin> set bs" for b
    using assms that by (intro apply_writes_other) (auto simp: log_area_def)
  then show ?thesis using assms(1,2) start_in_log [of st] lblock_in_log [of st] by (simp add: committed_def log_area_def)
qed

lemma committed_installed:
  assumes "committed st bs c D" "log_area st bs" "head_is d []"
  shows "quiet st c ((apply_writes (map (\<lambda>i. (bs ! i, c (bs ! i))) [0..<length bs]) D)(st := d))"
proof -
  have "apply_writes (map (\<lambda>i. (bs ! i, c (bs ! i))) [0..<length bs]) D b = c b" if b: "\<not> in_log st b" for b
  proof (cases "b \<in> set bs")
    case True
    then obtain i where "i < length bs" "b = bs ! i" by (auto simp: in_set_conv_nth)
    moreover have "distinct (map ((!) bs) [0..<length bs])" using assms(2) by (simp add: map_nth log_area_def)
    ultimately show ?thesis using apply_writes_map [of "(!) bs" "length bs" i "\<lambda>i. c (bs ! i)" D] by simp
  next
    case False
    then have "b \<notin> fst ` set (map (\<lambda>i. (bs ! i, c (bs ! i))) [0..<length bs])" by auto
    then show ?thesis using False b assms(1) by (simp add: apply_writes_other committed_def)
  qed
  then show ?thesis using assms(3) start_in_log [of st] by (auto simp: quiet_def)
qed

lemma recover_quiet:
  assumes "quiet st c D" "dv \<noteq> 0" "unat st + LOGSIZE < 2 ^ 32"
  obtains r where "initlog dv st nlog (boot D) = Inr r" "lh_n r = 0" "bcache_ok dv r" "quiet st c (disk r)"
    "\<And>k. quiet st c (apply_writes (take k (written r)) D)"
proof -
  obtain r d where r: "initlog dv st nlog (boot D) = Inr r" "head_is d []" "lh_n r = 0" "bcache_ok dv r"
    "written r = [(st, d)]" "disk r = apply_writes (written r) D"
    by (rule recovery_ok [OF assms(2,3), of D "[]" nlog]) (use assms(1) in \<open>auto simp: quiet_def\<close>)
  then have "quiet st c (apply_writes (take k (written r)) D)" for k
    using quiet_write [OF assms(1) r(2)] assms(1) by (cases k) simp_all
  then show ?thesis using that r quiet_write [OF assms(1) r(2)] by simp
qed

lemma recover_committed:
  assumes c: "committed st bs c D" and "dv \<noteq> 0" and l: "log_area st bs"
  obtains r where "initlog dv st nlog (boot D) = Inr r" "lh_n r = 0" "bcache_ok dv r" "quiet st c (disk r)"
    "\<And>k. committed st bs c (apply_writes (take k (written r)) D) \<or> quiet st c (apply_writes (take k (written r)) D)"
proof -
  define W where "W = map (\<lambda>i. (bs ! i, c (bs ! i))) [0..<length bs]"
  have W: "map (\<lambda>i. (bs ! i, D (lblock st i))) [0..<length bs] = W" using c by (simp add: W_def committed_def)
  obtain r d where r: "initlog dv st nlog (boot D) = Inr r" "head_is d []" "lh_n r = 0" "bcache_ok dv r"
    "written r = W @ [(st, d)]" "disk r = apply_writes (written r) D"
    by (rule recovery_ok [OF assms(2), of st D bs nlog]) (use c l W in \<open>auto simp: committed_def log_area_def\<close>)
  have q: "quiet st c (apply_writes (written r) D)" using committed_installed [OF c l r(2)] by (simp add: r(5) W_def)
  have "fst ` set (take k W) \<subseteq> set bs" for k by (auto simp: W_def take_map dest: in_set_takeD)
  then have "committed st bs c (apply_writes (take k (written r)) D) \<or> quiet st c (apply_writes (take k (written r)) D)" for k
    using committed_homes [OF c l, of "take k W"] q r(5) by (cases "k \<le> length W") auto
  then show ?thesis using that r q by simp
qed

lemma crashes_quiet:
  assumes "crashes dv st nlog D D'" "quiet st c D" "dv \<noteq> 0" "unat st + LOGSIZE < 2 ^ 32"
  shows "quiet st c D'"
  using assms(1)
proof induction
  case none
  show ?case by (rule assms)
next
  case (again D' r k)
  obtain r' where "initlog dv st nlog (boot D') = Inr r'" "\<And>k. quiet st c (apply_writes (take k (written r')) D')"
    by (rule recover_quiet [OF again.IH assms(3,4), of nlog]) blast
  then show ?case using again.hyps(2) by simp
qed

lemma crashes_committed:
  assumes "crashes dv st nlog D D'" "committed st bs c D \<or> quiet st c D" "dv \<noteq> 0" "log_area st bs"
  shows "committed st bs c D' \<or> quiet st c D'"
  using assms(1)
proof induction
  case none
  show ?case by (rule assms)
next
  case (again D' r k)
  from again.IH show ?case
  proof
    assume "committed st bs c D'"
    then obtain r' where "initlog dv st nlog (boot D') = Inr r'"
      "\<And>k. committed st bs c (apply_writes (take k (written r')) D') \<or> quiet st c (apply_writes (take k (written r')) D')"
      by (rule recover_committed [OF _ assms(3,4), of _ _ nlog]) blast
    then show ?thesis using again.hyps(2) by simp
  next
    assume q: "quiet st c D'"
    have "unat st + LOGSIZE < 2 ^ 32" using assms(4) by (simp add: log_area_def)
    then obtain r' where "initlog dv st nlog (boot D') = Inr r'" "\<And>k. quiet st c (apply_writes (take k (written r')) D')"
      by (rule recover_quiet [OF q assms(3), of nlog]) blast
    then show ?thesis using again.hyps(2) by simp
  qed
qed

lemma committed_after_head:
  assumes tx: "tx_ok False s" and d: "head_is d (logged s)"
  shows "committed (lg_start s) (logged s) (\<lambda>b. if b \<in> set (logged s) then view (lg_dev s) s b else disk s b)
    ((apply_writes (log_writes s) (disk s))(lg_start s := d))"
proof -
  have L: "log_layout s" using tx by (simp add: tx_ok_def)
  note D = log_layoutD [OF L]
  have "fst ` set (log_writes s) = lblock (lg_start s) ` {0..<nat (lh_n s)}" by (force simp: log_writes_def)
  then have "apply_writes (log_writes s) (disk s) b = disk s b" if "\<not> in_log (lg_start s) b" for b
    using that lblock_in_log [OF D(1)] D(2) by (intro apply_writes_other) auto
  moreover have "apply_writes (log_writes s) (disk s) (lblock (lg_start s) i) = view (lg_dev s) s (logged s ! i)"
    if "i < nat (lh_n s)" for i unfolding log_writes_def by (rule apply_writes_map [OF lblock_inj [OF D(1,2)] that])
  moreover have "lblock (lg_start s) i \<noteq> lg_start s" if "i < nat (lh_n s)" for i
    using that lblock_in_log [OF D(1), of i] D(2) by simp
  ultimately show ?thesis using d D(3) start_in_log [of "lg_start s"] by (auto simp: committed_def)
qed

lemma commit_prefix:
  assumes tx: "tx_ok False s" and q: "head_is (disk s (lg_start s)) []" and d: "head_is d (logged s)" "head_is d' []"
    and c: "c = (\<lambda>b. if b \<in> set (logged s) then view (lg_dev s) s b else disk s b)"
    and D: "D = apply_writes (take k (log_writes s @ [(lg_start s, d)] @ new_home s @ [(lg_start s, d')])) (disk s)"
  shows "if k \<le> nat (lh_n s) then quiet (lg_start s) (disk s) D
    else committed (lg_start s) (logged s) c D \<or> quiet (lg_start s) c D"
proof -
  define st where "st = lg_start s"
  have L: "log_layout s" using tx by (simp add: tx_ok_def)
  note LD = log_layoutD [OF L]
  have len: "length (log_writes s) = nat (lh_n s)" by (simp add: log_writes_def)
  have area: "log_area st (logged s)" using L LD(2,3) by (auto simp: log_layout_def log_area_def st_def)
  show ?thesis
  proof (cases "k \<le> nat (lh_n s)")
    case True
    have "quiet st (disk s) (disk s)" using q by (simp add: quiet_def st_def)
    moreover have "\<forall>w \<in> set (take k (log_writes s)). in_log st (fst w) \<and> fst w \<noteq> st"
      using lblock_in_log [OF LD(1)] LD(2) by (auto simp: log_writes_def st_def take_map dest!: in_set_takeD)
    ultimately have "quiet st (disk s) D" using True len quiet_log_write [of st "disk s" "disk s" "take k (log_writes s)"] by (simp add: D)
    then show ?thesis using True by (simp add: st_def)
  next
    case False
    define E where "E = (apply_writes (log_writes s) (disk s))(st := d)"
    have cE: "committed st (logged s) c E" using committed_after_head [OF tx d(1)] by (simp add: E_def st_def c)
    define j where "j = k - nat (lh_n s) - 1"
    have k: "k - nat (lh_n s) = Suc j" using False by (simp add: j_def)
    have DE: "D = apply_writes (take j (new_home s @ [(st, d')])) E"
      using False by (simp add: D len k E_def st_def)
    have H: "new_home s = map (\<lambda>i. (logged s ! i, c (logged s ! i))) [0..<length (logged s)]"
      by (rule nth_equalityI) (simp_all add: new_home_def c)
    have "committed st (logged s) c D \<or> quiet st c D"
    proof (cases "j \<le> length (new_home s)")
      case True
      have "fst ` set (take j (new_home s)) \<subseteq> set (logged s)" using set_take_subset [of j "new_home s"] by (auto simp: new_home_def)
      then show ?thesis using committed_homes [OF cE area] True by (simp add: DE)
    next
      case False
      then show ?thesis using committed_installed [OF cE area d(2)] by (simp add: DE H)
    qed
    then show ?thesis using False by (simp add: st_def)
  qed
qed

text \<open>
  C2: the log makes a transaction atomic. \<open>commit\<close> of a prepared transaction returns; if the
  machine stops after any number \<open>k\<close> of its disk writes, and then again any number of times
  during recovery, a recovery that runs to its end leaves an empty log and, outside the log,
  the old contents of every block if the header had not been written, and the new contents of
  every logged block otherwise.
\<close>

theorem commit_crash_safe:
  assumes "tx_ok False s" "0 < lh_n s" "lg_dev s \<noteq> 0" "head_is (disk s (lg_start s)) []"
  shows "\<exists>s'. commit s = Inr s' \<and> lh_n s' = 0 \<and>
    (\<forall>k D. crashes (lg_dev s) (lg_start s) nlog (apply_writes (take k (drop (length (written s)) (written s'))) (disk s)) D \<longrightarrow>
      (\<exists>r. initlog (lg_dev s) (lg_start s) nlog (boot D) = Inr r \<and> lh_n r = 0 \<and> head_is (disk r (lg_start s)) [] \<and>
        (\<forall>b. \<not> in_log (lg_start s) b \<longrightarrow>
           disk r b = (if nat (lh_n s) < k \<and> b \<in> set (logged s) then view (lg_dev s) s b else disk s b))))"
proof -
  define st where "st = lg_start s"
  define c where "c = (\<lambda>b. if b \<in> set (logged s) then view (lg_dev s) s b else disk s b)"
  have L: "log_layout s" using assms(1) by (simp add: tx_ok_def)
  have area: "log_area st (logged s)" "unat st + LOGSIZE < 2 ^ 32"
    using L log_layoutD(2,3) [OF L] by (auto simp: log_layout_def log_area_def st_def)
  obtain s' d d' where s': "commit s = Inr s'" "head_is d (logged s)" "head_is d' []"
    "written s' = written s @ log_writes s @ [(st, d)] @ new_home s @ [(st, d')]" "lh_n s' = 0"
    by (rule commit_ok [OF assms(1,2)]) (simp add: st_def)
  have rec: "\<exists>r. initlog (lg_dev s) st nlog (boot D) = Inr r \<and> lh_n r = 0 \<and> quiet st (if nat (lh_n s) < k then c else disk s) (disk r)"
    if D: "crashes (lg_dev s) st nlog (apply_writes (take k (drop (length (written s)) (written s'))) (disk s)) D" for k D
  proof -
    note P = commit_prefix [OF assms(1,4) s'(2,3) c_def refl, of k, folded st_def]
    have E: "drop (length (written s)) (written s') = log_writes s @ [(st, d)] @ new_home s @ [(st, d')]" by (simp add: s'(4))
    show ?thesis
    proof (cases "k \<le> nat (lh_n s)")
      case True
      then have "quiet st (disk s) D" using crashes_quiet [OF D _ assms(3) area(2)] P by (simp add: E)
      then obtain r where "initlog (lg_dev s) st nlog (boot D) = Inr r" "lh_n r = 0" "quiet st (disk s) (disk r)"
        by (rule recover_quiet [OF _ assms(3) area(2)])
      then show ?thesis using True by simp
    next
      case False
      then have "committed st (logged s) c D \<or> quiet st c D" using crashes_committed [OF D _ assms(3) area(1)] P by (simp only: E if_False)
      then obtain r where "initlog (lg_dev s) st nlog (boot D) = Inr r" "lh_n r = 0" "quiet st c (disk r)"
        using recover_committed [OF _ assms(3) area(1), of c D nlog] recover_quiet [of st c D, OF _ assms(3) area(2), of nlog] by metis
      then show ?thesis using False by auto
    qed
  qed
  show ?thesis
  proof (intro exI [of _ s'] conjI allI impI s'(1,5))
    fix k D
    assume "crashes (lg_dev s) (lg_start s) nlog (apply_writes (take k (drop (length (written s)) (written s'))) (disk s)) D"
    from rec [OF this [folded st_def]] show "\<exists>r. initlog (lg_dev s) (lg_start s) nlog (boot D) = Inr r \<and> lh_n r = 0 \<and>
      head_is (disk r (lg_start s)) [] \<and> (\<forall>b. \<not> in_log (lg_start s) b \<longrightarrow>
           disk r b = (if nat (lh_n s) < k \<and> b \<in> set (logged s) then view (lg_dev s) s b else disk s b))"
      by (auto simp: quiet_def st_def c_def)
  qed
qed

section \<open>Adding a block to a transaction\<close>

lemma find_logged:
  assumes "log_layout s"
  shows "bn \<in> set (logged s) \<Longrightarrow> \<exists>i < nat (lh_n s). find (\<lambda>i. lh_block s ! i = bn) [0..<nat (lh_n s)] = Some i \<and> lh_block s ! i = bn"
    "bn \<notin> set (logged s) \<Longrightarrow> find (\<lambda>i. lh_block s ! i = bn) [0..<nat (lh_n s)] = None"
proof -
  note D = log_layoutD [OF assms]
  have iff: "bn \<in> set (logged s) \<longleftrightarrow> (\<exists>i < nat (lh_n s). lh_block s ! i = bn)" using D(3,6) by (auto simp: in_set_conv_nth)
  show "find (\<lambda>i. lh_block s ! i = bn) [0..<nat (lh_n s)] = None" if "bn \<notin> set (logged s)"
    using that by (auto simp: find_None_iff iff)
  show "\<exists>i < nat (lh_n s). find (\<lambda>i. lh_block s ! i = bn) [0..<nat (lh_n s)] = Some i \<and> lh_block s ! i = bn"
    if "bn \<in> set (logged s)"
  proof (cases "find (\<lambda>i. lh_block s ! i = bn) [0..<nat (lh_n s)]")
    case None
    then show ?thesis using that by (auto simp: find_None_iff iff)
  next
    case (Some i)
    then have "i < nat (lh_n s)" "lh_block s ! i = bn" by (auto simp: find_Some_iff)
    then show ?thesis using Some by simp
  qed
qed

text \<open>
  The use of the log that the comment at \<open>log_write\<close> describes: read a block, change it,
  \<open>log_write\<close> and release it.
\<close>

definition log_update :: "u32 \<Rightarrow> block \<Rightarrow> 'a logst_scheme \<Rightarrow> 'a logst_scheme result" where
  "log_update bn v s = bindE (bread (lg_dev s) bn s) (\<lambda>(b, s). bindE (log_write b (set_data b v s)) (brelse b))"

definition log_room :: "'a logst_scheme \<Rightarrow> u32 \<Rightarrow> bool" where
  "log_room s bn \<longleftrightarrow> lh_n s < int LOGSIZE \<and> lh_n s < lg_size s - 1 \<and> 1 \<le> outstanding s \<and> 1 < af (cache_abs (lg_dev s) s) \<and>
     \<not> in_log (lg_start s) bn \<and> \<not> blocked (lg_dev s) s bn \<and> brefs (lg_dev s) s bn < 2 ^ 32 - 3"

lemma log_write_ok:
  fixes s :: "'a logst_scheme"
  assumes L: "log_layout s" and ok: "bcache_ok dv s" and o: "own dv s bn b" and n: "lh_n s < int LOGSIZE" "lh_n s < lg_size s - 1"
    and out: "1 \<le> outstanding s" and r: "brefs dv s bn < 2 ^ 32 - 1"
  obtains s' where "log_write b s = Inr s'" "bcache_ok dv s'" "own dv s' bn b" "written s' = written s"
    "cache_abs dv s' = (cache_abs dv s)\<lparr>ar := (brefs dv s)(bn := brefs dv s bn + (if bn \<in> set (logged s) then 0 else 1))\<rparr>"
    "logged s' = (if bn \<in> set (logged s) then logged s else logged s @ [bn])" "lh_n s' = int (length (logged s'))"
    "length (lh_block s') = LOGSIZE" "lg_start s' = lg_start s" "lg_dev s' = lg_dev s" "lg_size s' = lg_size s" "outstanding s' = outstanding s" "committing s' = committing s"
    "logst.more s' = logst.more s" "\<forall>m i. own dv s m i \<longrightarrow> own dv s' m i"
proof -
  note D = log_layoutD [OF L]
  have bn: "b_blockno (bufs s b) = bn" using o by (simp add: own_def)
  have len: "length (lh_block s) = LOGSIZE" "0 \<le> lh_n s" using L by (simp_all add: log_layout_def)
  show ?thesis
  proof (cases "bn \<in> set (logged s)")
    case True
    obtain i where i: "i < nat (lh_n s)" "find (\<lambda>i. lh_block s ! i = bn) [0..<nat (lh_n s)] = Some i" "lh_block s ! i = bn"
      using find_logged(1) [OF L True] by blast
    have "(lh_block s)[i := bn] = lh_block s" using i(3) list_update_id [of "lh_block s" i] by simp
    then have "log_write b s = Inr s" using n out i by (simp add: log_write_def bn)
    moreover have "cache_abs dv s = (cache_abs dv s)\<lparr>ar := (brefs dv s)(bn := brefs dv s bn)\<rparr>" by (simp add: cache_abs_def)
    ultimately show ?thesis using that [of s] True ok o len D(3) by simp
  next
    case False
    define k where "k = nat (lh_n s)"
    define u where "u = s\<lparr>lh_block := (lh_block s)[k := bn]\<rparr>"
    have u: "cache_abs dv u = cache_abs dv s" "bcache_ok dv u" "own dv u bn b"
      using cache_cong [of u s] ok o by (simp_all add: u_def own_def)
    note eu = cache_abs_eqD [OF u(1), simplified]
    have "brefs dv u bn < 2 ^ 32 - 1" using r by (simp add: eu)
    note P = bpin_ok [OF u(2,3) this]
    define w where "w = (bpin b u)\<lparr>lh_n := lh_n s + 1\<rparr>"
    have cw: "cache_abs dv w = cache_abs dv (bpin b u)" "bcache_ok dv w" "own dv w bn b"
      using cache_cong [of w "bpin b u"] P by (simp_all add: w_def own_def)
    have ow: "\<forall>m i. own dv s m i \<longrightarrow> own dv w m i" "logst.more w = logst.more s"
      using P(3) by (auto simp: w_def own_def u_def bpin_def upd_buf_def)
    have run: "log_write b s = Inr w"
      using n out len find_logged(2) [OF L False] by (simp add: log_write_def bn w_def u_def k_def)
    have lw: "lh_block w = (lh_block s)[k := bn]" "lh_n w = int (Suc k)" "written w = written s" "lg_start w = lg_start s"
      "lg_dev w = lg_dev s" "lg_size w = lg_size s" "outstanding w = outstanding s" "committing w = committing s"
      using len by (simp_all add: w_def bpin_def upd_buf_def u_def k_def)
    have "k < LOGSIZE" using n by (simp add: k_def LOGSIZE_def)
    moreover have "nat (lh_n w) = Suc k" by (simp only: lw nat_int)
    ultimately have g: "logged w = logged s @ [bn]"
      using len(1) by (simp add: logged_def lw(1) take_Suc_conv_app_nth k_def [symmetric])
    then have "lh_n w = int (length (logged w))" using D(3) lw(2) by (simp add: k_def)
    then show ?thesis using that [OF run cw(2,3)] False g lw len P cw(1) eu u(1) ow by simp
  qed
qed

lemma log_update_ok:
  fixes s :: "'a logst_scheme"
  assumes tx: "tx_ok False s" and room: "log_room s bn"
  obtains s' where "log_update bn v s = Inr s'" "tx_ok False s'" "view (lg_dev s) s' = (view (lg_dev s) s)(bn := v)"
    "disk s' = disk s" "written s' = written s" "logged s' = (if bn \<in> set (logged s) then logged s else logged s @ [bn])"
    "lg_dev s' = lg_dev s" "lg_start s' = lg_start s" "lg_size s' = lg_size s" "outstanding s' = outstanding s" "committing s' = committing s"
    "blocked (lg_dev s) s' = blocked (lg_dev s) s"
    "brefs (lg_dev s) s' = (brefs (lg_dev s) s)(bn := brefs (lg_dev s) s bn + (if bn \<in> set (logged s) then 0 else 1))"
    "af (cache_abs (lg_dev s) s) \<le> af (cache_abs (lg_dev s) s') + (if brefs (lg_dev s) s bn = 0 then 1 else 0)"
proof -
  define dv where "dv = lg_dev s"
  have L: "log_layout s" and ok: "bcache_ok dv s" using tx by (simp_all add: tx_ok_def dv_def)
  have R: "lh_n s < int LOGSIZE" "lh_n s < lg_size s - 1" "1 \<le> outstanding s" "1 < af (cache_abs dv s)"
    "\<not> in_log (lg_start s) bn" "\<not> blocked dv s bn" "brefs dv s bn < 2 ^ 32 - 3" using room by (simp_all add: log_room_def dv_def)
  have T: "0 < brefs dv s b" if "b \<in> set (logged s)" for b using tx that by (simp add: tx_ok_def dv_def)
  obtain b s1 where 1: "bread dv bn s = Inr (b, s1)" "bcache_ok dv s1" "own dv s1 bn b"
    "cache_abs dv s1 = (cache_abs dv s)\<lparr>ar := (brefs dv s)(bn := brefs dv s bn + 1), al := (blocked dv s)(bn := True),
       af := af (cache_abs dv s) - (if brefs dv s bn = 0 then 1 else 0)\<rparr>" "s1 = s\<lparr>bufs := bufs s1\<rparr>"
    by (rule bread_ok [OF ok R(6)]) (use R in auto)
  note e1 = cache_abs_eqD [OF 1(4), simplified]
  define s2 where "s2 = set_data b v s1"
  note S2 = set_data_ok [OF 1(2,3), of v, folded s2_def]
  note e2 = cache_abs_eqD [OF S2(4), simplified]
  have v2: "logvars s2 = logvars s" "written s2 = written s" using frameD [OF 1(5)] by (simp_all add: s2_def)
  note v = logvarsD [OF v2(1)] layout_cong [OF v2(1)]
  obtain s3 where 3: "log_write b s2 = Inr s3" "bcache_ok dv s3" "own dv s3 bn b" "written s3 = written s2"
    "cache_abs dv s3 = (cache_abs dv s2)\<lparr>ar := (brefs dv s2)(bn := brefs dv s2 bn + (if bn \<in> set (logged s2) then 0 else 1))\<rparr>"
    "logged s3 = (if bn \<in> set (logged s2) then logged s2 else logged s2 @ [bn])" "lh_n s3 = int (length (logged s3))"
    "length (lh_block s3) = LOGSIZE" "lg_start s3 = lg_start s2" "lg_dev s3 = lg_dev s2" "lg_size s3 = lg_size s2" "outstanding s3 = outstanding s2" "committing s3 = committing s2"
    by (rule log_write_ok [OF _ S2(1,2)]) (use L R v e1 e2 in auto)
  note e3 = cache_abs_eqD [OF 3(5), simplified]
  have n1: "brefs dv s3 bn \<noteq> 1" using T [of bn] e1 e2 e3 v by auto
  obtain s4 where 4: "brelse b s3 = Inr s4" "bcache_ok dv s4"
    "cache_abs dv s4 = (cache_abs dv s3)\<lparr>ar := (brefs dv s3)(bn := brefs dv s3 bn - 1), al := (blocked dv s3)(bn := False),
       af := af (cache_abs dv s3) + (if brefs dv s3 bn = 1 then 1 else 0)\<rparr>" "s4 = s3\<lparr>bufs := bufs s4\<rparr>"
    by (rule brelse_ok [OF 3(2,3)]) (use n1 in auto)
  note e4 = cache_abs_eqD [OF 4(3), simplified]
  note v4 = logvarsD [OF frameD(2) [OF 4(4)]] layout_cong [OF frameD(2) [OF 4(4)]]
  have run: "log_update bn v s = Inr s4" using 1(1) 3(1) 4(1) by (simp add: log_update_def dv_def [symmetric] s2_def)
  have g: "logged s4 = (if bn \<in> set (logged s) then logged s else logged s @ [bn])" using 3(6) v v4 by simp
  have br: "brefs dv s4 = (brefs dv s)(bn := brefs dv s bn + (if bn \<in> set (logged s) then 0 else 1))"
    and bl: "blocked dv s4 = blocked dv s" and vw: "view dv s4 = (view dv s)(bn := v)" and dk: "disk s4 = disk s"
    using e1 e2 e3 e4 v R(6) by (auto simp: fun_eq_iff)
  have af: "af (cache_abs dv s) \<le> af (cache_abs dv s4) + (if brefs dv s bn = 0 then 1 else 0)" "0 < af (cache_abs dv s4)"
    using e1(5) e2(5) e3(5) e4(5) R(4) by auto
  have sv: "lg_start s4 = lg_start s" "lg_dev s4 = dv" "lg_size s4 = lg_size s" "outstanding s4 = outstanding s" "committing s4 = committing s" "written s4 = written s"
    "lh_n s4 = int (length (logged s4))" "length (lh_block s4) = LOGSIZE"
    using 3 v v4 v2(2) frameD(1) [OF 4(4)] by (simp_all add: dv_def)
  have "distinct (logged s)" "\<forall>b \<in> set (logged s). \<not> in_log (lg_start s) b" using L by (simp_all add: log_layout_def)
  moreover have "length (logged s4) \<le> LOGSIZE" using log_layoutD(2,3) [OF L] R(1) by (auto simp: g LOGSIZE_def)
  ultimately have L4: "log_layout s4" using log_layoutD(1) [OF L] R(5) unfolding log_layout_def sv by (simp add: g)
  have tx': "\<forall>b. in_log (lg_start s) b \<longrightarrow> brefs dv s b = 0 \<and> \<not> blocked dv s b"
    "\<forall>b \<in> set (logged s). 0 < brefs dv s b \<and> brefs dv s b < 2 ^ 32 - 1 \<and> \<not> blocked dv s b"
    using tx by (simp_all add: tx_ok_def dv_def)
  have "tx_ok False s4" unfolding tx_ok_def sv using L4 4(2) af(2) tx' R(5-7) by (auto simp: br bl g)
  then show ?thesis using that [OF run] g br bl vw dk af sv by (simp add: dv_def)
qed

section \<open>Whole transactions\<close>

text \<open>The file system between system calls: an empty log and no buffer in use.\<close>

definition log_idle :: "'a logst_scheme \<Rightarrow> bool" where
  "log_idle s \<longleftrightarrow> bcache_ok (lg_dev s) s \<and> log_layout s \<and> lh_n s = 0 \<and> outstanding s = 0 \<and> \<not> committing s \<and>
     MAXOPBLOCKS + 1 < lg_size s \<and> (\<forall>b. brefs (lg_dev s) s b = 0 \<and> \<not> blocked (lg_dev s) s b)"

definition log_updates :: "(u32 \<times> block) list \<Rightarrow> 'a logst_scheme \<Rightarrow> 'a logst_scheme result" where
  "log_updates ws s = forE (\<lambda>(b, v). log_update b v) ws s"

lemma all_unused:
  assumes "bcache_ok dv s" "\<And>b. brefs dv s b = 0"
  shows "af (cache_abs dv s) = NBUF"
proof -
  have "b_refcnt (bufs s i) = 0" if "i < NBUF" for i
  proof (cases "b_dev (bufs s i) = dv")
    case True
    then show ?thesis using brefs_at(1) [OF assms(1) that True refl] assms(2) by (simp add: unat_eq_0)
  next
    case False
    then show ?thesis using bcache_okD(3) [OF assms(1) that] by simp
  qed
  then have "{i. i < NBUF \<and> b_refcnt (bufs s i) = 0} = {..<NBUF}" by auto
  then show ?thesis by (simp add: cache_abs_def)
qed

lemma log_updates_ok:
  fixes s :: "'a logst_scheme"
  assumes "tx_ok False s" "lh_n s + int (length ws) \<le> MAXOPBLOCKS" "MAXOPBLOCKS + 1 < lg_size s" "1 \<le> outstanding s"
    "length ws < af (cache_abs (lg_dev s) s)" "\<forall>w \<in> set ws. \<not> in_log (lg_start s) (fst w)"
    "\<forall>b. \<not> blocked (lg_dev s) s b" "\<forall>b. brefs (lg_dev s) s b = (if b \<in> set (logged s) then 1 else 0)"
  shows "\<exists>s'. log_updates ws s = Inr s' \<and> tx_ok False s' \<and> view (lg_dev s) s' = apply_writes ws (view (lg_dev s) s) \<and>
    disk s' = disk s \<and> written s' = written s \<and> set (logged s') = set (logged s) \<union> fst ` set ws \<and>
    lg_dev s' = lg_dev s \<and> lg_start s' = lg_start s \<and> lg_size s' = lg_size s \<and> outstanding s' = outstanding s \<and> committing s' = committing s \<and>
    (\<forall>b. \<not> blocked (lg_dev s) s' b) \<and> (\<forall>b. brefs (lg_dev s) s' b = (if b \<in> set (logged s') then 1 else 0))"
  using assms
proof (induction ws arbitrary: s)
  case Nil
  then show ?case by (simp add: log_updates_def)
next
  case (Cons w ws)
  obtain bn v where w: "w = (bn, v)" by (cases w)
  have "log_room s bn" using Cons.prems w by (auto simp: log_room_def MAXOPBLOCKS_def LOGSIZE_def)
  note U = log_update_ok [OF Cons.prems(1) this, of v]
  obtain s1 where 1: "log_update bn v s = Inr s1" "tx_ok False s1" "view (lg_dev s) s1 = (view (lg_dev s) s)(bn := v)"
    "disk s1 = disk s" "written s1 = written s" "logged s1 = (if bn \<in> set (logged s) then logged s else logged s @ [bn])"
    and v: "lg_dev s1 = lg_dev s" "lg_start s1 = lg_start s" "lg_size s1 = lg_size s" "outstanding s1 = outstanding s" "committing s1 = committing s"
    and b: "blocked (lg_dev s) s1 = blocked (lg_dev s) s"
    "brefs (lg_dev s) s1 = (brefs (lg_dev s) s)(bn := brefs (lg_dev s) s bn + (if bn \<in> set (logged s) then 0 else 1))"
    "af (cache_abs (lg_dev s) s) \<le> af (cache_abs (lg_dev s) s1) + (if brefs (lg_dev s) s bn = 0 then 1 else 0)"
    by (rule U)
  have len: "lh_n s1 = int (length (logged s1))" "lh_n s = int (length (logged s))"
    using 1(2) Cons.prems(1) log_layoutD(3) [of s1] log_layoutD(3) [of s] by (auto simp: tx_ok_def log_layout_def)
  have "\<exists>s'. log_updates ws s1 = Inr s' \<and> tx_ok False s' \<and> view (lg_dev s1) s' = apply_writes ws (view (lg_dev s1) s1) \<and>
    disk s' = disk s1 \<and> written s' = written s1 \<and> set (logged s') = set (logged s1) \<union> fst ` set ws \<and>
    lg_dev s' = lg_dev s1 \<and> lg_start s' = lg_start s1 \<and> lg_size s' = lg_size s1 \<and> outstanding s' = outstanding s1 \<and> committing s' = committing s1 \<and>
    (\<forall>b. \<not> blocked (lg_dev s1) s' b) \<and> (\<forall>b. brefs (lg_dev s1) s' b = (if b \<in> set (logged s') then 1 else 0))"
    by (rule Cons.IH [OF 1(2)]) (use Cons.prems b v len in \<open>auto simp: 1(6) split: if_splits\<close>)
  then obtain s' where s': "log_updates ws s1 = Inr s'" "tx_ok False s'" "view (lg_dev s) s' = apply_writes ws (view (lg_dev s) s1)"
    "disk s' = disk s1" "written s' = written s1" "set (logged s') = set (logged s1) \<union> fst ` set ws"
    "lg_dev s' = lg_dev s" "lg_start s' = lg_start s" "lg_size s' = lg_size s" "outstanding s' = outstanding s" "committing s' = committing s"
    "\<forall>b. \<not> blocked (lg_dev s) s' b" "\<forall>b. brefs (lg_dev s) s' b = (if b \<in> set (logged s') then 1 else 0)"
    by (auto simp: v)
  have "log_updates (w # ws) s = Inr s'" using 1(1) s'(1) by (simp add: log_updates_def w)
  moreover have "set (logged s') = set (logged s) \<union> fst ` set (w # ws)" using s'(6) 1(6) w by auto
  moreover have "view (lg_dev s) s' = apply_writes (w # ws) (view (lg_dev s) s)" using s'(3) 1(3) w by simp
  ultimately show ?case using s'(2,4,5,7-13) 1(4,5) by (intro exI [of _ s']) simp
qed

lemma commit_disk:
  assumes tx: "tx_ok False s" and d: "head_is d (logged s)" "head_is d' []"
  shows "quiet (lg_start s) (\<lambda>b. if b \<in> set (logged s) then view (lg_dev s) s b else disk s b)
    (apply_writes (log_writes s @ [(lg_start s, d)] @ new_home s @ [(lg_start s, d')]) (disk s))"
proof -
  have L: "log_layout s" using tx by (simp add: tx_ok_def)
  have area: "log_area (lg_start s) (logged s)" using L log_layoutD(2,3) [OF L] by (auto simp: log_layout_def log_area_def)
  define c where "c = (\<lambda>b. if b \<in> set (logged s) then view (lg_dev s) s b else disk s b)"
  have "new_home s = map (\<lambda>i. (logged s ! i, c (logged s ! i))) [0..<length (logged s)]"
    by (rule nth_equalityI) (simp_all add: new_home_def c_def)
  then show ?thesis using committed_installed [OF committed_after_head [OF tx d(1), folded c_def] area d(2)] by (simp add: c_def [symmetric])
qed

lemma idle_begin:
  assumes "log_idle s"
  obtains s' where "begin_op s = Inr s'" "tx_ok False s'" "logged s' = []" "lh_n s' = 0" "outstanding s' = 1" "\<not> committing s'"
    "lg_dev s' = lg_dev s" "lg_start s' = lg_start s" "lg_size s' = lg_size s" "cache_abs (lg_dev s) s' = cache_abs (lg_dev s) s"
    "written s' = written s"
proof -
  define s' where "s' = s\<lparr>outstanding := 1\<rparr>"
  have c: "cache_abs (lg_dev s) s' = cache_abs (lg_dev s) s" "bcache_ok (lg_dev s) s'"
    using cache_cong [of s' s] assms by (simp_all add: s'_def log_idle_def)
  note e = cache_abs_eqD [OF c(1), simplified]
  have r: "begin_op s = Inr s'" using assms by (simp add: begin_op_def log_idle_def s'_def MAXOPBLOCKS_def LOGSIZE_def)
  have L: "log_layout s'" "logged s' = []" using assms by (simp_all add: log_idle_def log_layout_def logged_def s'_def)
  have "af (cache_abs (lg_dev s) s) = NBUF" using assms by (intro all_unused) (auto simp: log_idle_def)
  moreover have "lg_dev s' = lg_dev s" "lg_start s' = lg_start s" by (simp_all add: s'_def)
  ultimately have "tx_ok False s'" using assms L c by (simp add: tx_ok_def e log_idle_def NBUF_def)
  then show ?thesis using that [OF r] L(2) c(1) assms by (simp add: s'_def log_idle_def)
qed

lemma end_op_commits:
  fixes s :: "'a logst_scheme"
  assumes tx: "tx_ok False s" and o: "outstanding s = 1" "\<not> committing s" and sz: "MAXOPBLOCKS + 1 < lg_size s"
    and b: "\<forall>b. \<not> blocked (lg_dev s) s b" "\<forall>b. brefs (lg_dev s) s b = (if b \<in> set (logged s) then 1 else 0)"
  obtains s' where "end_op s = Inr s'" "log_idle s'" "lg_dev s' = lg_dev s" "lg_start s' = lg_start s"
    "\<forall>b. \<not> in_log (lg_start s) b \<longrightarrow> disk s' b = (if b \<in> set (logged s) then view (lg_dev s) s b else disk s b)"
proof -
  define u where "u = s\<lparr>outstanding := 0, committing := True\<rparr>"
  have c: "cache_abs (lg_dev s) u = cache_abs (lg_dev s) s" "bcache_ok (lg_dev s) u = bcache_ok (lg_dev s) s"
    using cache_cong [of u s] by (simp_all add: u_def)
  note e = cache_abs_eqD [OF c(1), simplified]
  have u: "lg_dev u = lg_dev s" "lg_start u = lg_start s" "logged u = logged s" "log_layout u = log_layout s" "lh_n u = lh_n s"
    "lg_size u = lg_size s" "outstanding u = 0"
    by (simp_all add: u_def logged_def log_layout_def)
  have txu: "tx_ok False u" using tx by (simp add: tx_ok_def u e c)
  obtain w where w: "commit u = Inr w" "bcache_ok (lg_dev s) w" "lh_n w = 0" "lg_start w = lg_start s" "lg_dev w = lg_dev s"
    "log_layout w" "\<forall>b. brefs (lg_dev s) w b = 0" "\<forall>b. \<not> blocked (lg_dev s) w b" "lg_size w = lg_size s" "outstanding w = 0"
    "\<forall>b. \<not> in_log (lg_start s) b \<longrightarrow> disk w b = (if b \<in> set (logged s) then view (lg_dev s) s b else disk s b)"
  proof (cases "0 < lh_n s")
    case True
    then have n: "0 < lh_n u" by (simp add: u)
    obtain w d d' where w: "commit u = Inr w" "head_is d (logged u)" "head_is d' []" "lh_n w = 0" "lg_start w = lg_start u" "lg_dev w = lg_dev u"
      "bcache_ok (lg_dev u) w" "disk w = apply_writes (log_writes u @ [(lg_start u, d)] @ new_home u @ [(lg_start u, d')]) (disk u)"
      "log_layout w" "brefs (lg_dev u) w = (\<lambda>b. brefs (lg_dev u) u b - (if b \<in> set (logged u) then 1 else 0))"
      "blocked (lg_dev u) w = blocked (lg_dev u) u" "lg_size w = lg_size u" "outstanding w = outstanding u"
      by (rule commit_ok [OF txu n])
    have "quiet (lg_start s) (\<lambda>b. if b \<in> set (logged s) then view (lg_dev s) s b else disk s b) (disk w)"
      using commit_disk [OF txu w(2,3)] unfolding w(8) u e(1,2) .
    then show ?thesis using that [OF w(1)] w b u e by (auto simp: quiet_def)
  next
    case False
    have "0 \<le> lh_n s" using tx by (simp add: tx_ok_def log_layout_def)
    then have z: "lh_n s = 0" "logged s = []" using False by (simp_all add: logged_def)
    then have "commit u = Inr u" by (simp add: commit_def u)
    then show ?thesis using that [of u] txu z b u e by (simp add: tx_ok_def)
  qed
  define v where "v = w\<lparr>committing := False\<rparr>"
  have cv: "cache_abs (lg_dev s) v = cache_abs (lg_dev s) w" "bcache_ok (lg_dev s) v"
    using cache_cong [of v w] w(2) by (simp_all add: v_def)
  have "log_layout v" using w(6) by (simp add: log_layout_def logged_def v_def)
  then have "log_idle v" using cv w sz cache_abs_eqD [OF cv(1), simplified] by (simp add: log_idle_def v_def)
  moreover have "end_op s = Inr v" using w(1) o by (simp add: end_op_def u_def v_def)
  ultimately show ?thesis using that w by (simp add: v_def)
qed


text \<open>A disk with an empty log at block 2.\<close>

definition demo_disk :: "u32 \<Rightarrow> block" where
  "demo_disk n = (\<lambda>_. if n = 2 then 0 else ucast n)"

definition demo_log :: logst where
  "demo_log = (boot demo_disk)\<lparr>lg_start := 2, lg_size := 31, lg_dev := 1\<rparr>"

lemma demo_idle: "log_idle demo_log" "lg_dev demo_log = 1" "lg_start demo_log = 2" "disk demo_log = demo_disk" "written demo_log = []"
proof -
  define z where "z = \<lparr>bufs = \<lambda>_. zero_buf, disk = demo_disk, written = [], lg_start = 0, lg_size = 0, outstanding = 0,
     committing = False, lg_dev = 0, lh_n = 0, lh_block = replicate LOGSIZE 0 :: u32 list\<rparr>"
  have Z: "bufs z = (\<lambda>_. zero_buf)" "boot demo_disk = binit z" by (simp_all add: z_def boot_def)
  have c: "cache_abs 1 demo_log = cache_abs 1 (binit z)" "bcache_ok 1 demo_log = bcache_ok 1 (binit z)"
    using cache_cong [of demo_log "binit z"] by (simp_all add: demo_log_def Z)
  note B = binit_ok [OF Z(1), of 1]
  note e = cache_abs_eqD [OF c(1) [unfolded B(2) [OF one_neq_zero]], simplified]
  show v: "lg_dev demo_log = 1" "lg_start demo_log = 2" "disk demo_log = demo_disk" "written demo_log = []"
    by (simp_all add: demo_log_def boot_def binit_def)
  show "log_idle demo_log" using B(1) c(2) unfolding log_idle_def v log_layout_def logged_def e
    by (simp add: demo_log_def boot_def binit_def LOGSIZE_def MAXOPBLOCKS_def)
qed


theorem commit_crash_safe_witness:
  "\<exists>s s' r. bindE (begin_op demo_log) (log_update 40 (\<lambda>_. 9)) = Inr s \<and> commit s = Inr s' \<and>
     initlog 1 2 31 (boot (apply_writes (take 2 (drop (length (written s)) (written s'))) (disk s))) = Inr r \<and> disk r 40 0 = 9"
proof -
  obtain s1 where 1: "begin_op demo_log = Inr s1" "tx_ok False s1" "logged s1 = []" "lh_n s1 = 0" "outstanding s1 = 1" "\<not> committing s1"
    "lg_dev s1 = 1" "lg_start s1 = 2" "lg_size s1 = 31" "cache_abs 1 s1 = cache_abs 1 demo_log" "written s1 = []"
    by (rule idle_begin [OF demo_idle(1)]) (simp add: demo_idle, simp add: demo_log_def)
  have i: "bcache_ok 1 demo_log" "\<And>b. brefs 1 demo_log b = 0" "\<And>b. \<not> blocked 1 demo_log b"
    using demo_idle(1) by (simp_all add: log_idle_def demo_idle)
  note e1 = cache_abs_eqD [OF 1(10), simplified]
  have "\<not> in_log 2 40" by (simp add: in_log_def LOGSIZE_def)
  then have "log_room s1 40" using 1 i e1 all_unused [OF i(1,2)] by (simp add: log_room_def LOGSIZE_def NBUF_def)
  then obtain s where s: "log_update 40 (\<lambda>_. 9) s1 = Inr s" "tx_ok False s" "view 1 s = (view 1 s1)(40 := \<lambda>_. 9)" "disk s = disk s1"
    "logged s = [40]" "lg_dev s = 1" "lg_start s = 2"
    using log_update_ok [OF 1(2), of 40 "\<lambda>_. 9"] 1 by (metis append_Nil empty_iff list.set(1))
  have L: "log_layout s" using s(2) by (simp add: tx_ok_def)
  have n: "nat (lh_n s) = 1" using log_layoutD(3) [OF L] s(5) by simp
  have hd: "head_is (disk s 2) []" using s(4) e1(2) by (simp add: demo_idle demo_disk_def head_is_def get32_def)
  have "0 < lh_n s" using n by simp
  then obtain s' where s': "commit s = Inr s'" "\<forall>k D. crashes 1 2 31 (apply_writes (take k (drop (length (written s)) (written s'))) (disk s)) D \<longrightarrow>
      (\<exists>r. initlog 1 2 31 (boot D) = Inr r \<and> lh_n r = 0 \<and> head_is (disk r 2) [] \<and>
        (\<forall>b. \<not> in_log 2 b \<longrightarrow> disk r b = (if 1 < k \<and> b \<in> set (logged s) then view 1 s b else disk s b)))"
    using commit_crash_safe [OF s(2), of 31, unfolded s(6,7) n] hd by auto
  from s'(2) [rule_format, OF crashes.none, of 2] obtain r where
    "initlog 1 2 31 (boot (apply_writes (take 2 (drop (length (written s)) (written s'))) (disk s))) = Inr r"
    "disk r 40 = view 1 s 40" using \<open>\<not> in_log 2 40\<close> s(5) by auto
  then show ?thesis using 1(1) s(1,3) s'(1) by auto
qed

end
