(* ===== verification/Fs.thy ===== *)
theory Fs
  imports LogCrash Vm
begin

text \<open>
  \<^verbatim>\<open>kernel/fs.c\<close>: the block allocator, the inode table, the contents of inodes, directories and
  path names, on top of the log and the buffer cache. The state extends that of the log by the
  super block, the table of inodes, the memory and page table of the calling process and its
  current directory. An inode pointer is an index into the table, a null pointer is \<open>None\<close>.
  A kernel address as source or destination of a copy stands for the bytes there: \<open>readi\<close>
  returns the bytes it has read, and \<open>writei\<close> takes a list of bytes instead of an address.
\<close>

section \<open>Data\<close>

definition NDIRECT :: nat where "NDIRECT = 12"
definition NINDIRECT :: nat where "NINDIRECT = 256"
definition MAXFILE :: nat where "MAXFILE = NDIRECT + NINDIRECT"
definition NINODE :: nat where "NINODE = 50"
definition FSMAGIC :: u32 where "FSMAGIC = 0x10203040"
definition DIRSIZ :: nat where "DIRSIZ = 14"
definition IPB :: nat where "IPB = 16"
definition BPB :: nat where "BPB = 8192"
definition T_DIR :: u16 where "T_DIR = 1"
definition T_FILE :: u16 where "T_FILE = 2"
definition T_DEVICE :: u16 where "T_DEVICE = 3"
definition ROOTDEV :: u32 where "ROOTDEV = 1"
definition ROOTINO :: u32 where "ROOTINO = 1"

record superblock =
  sb_magic :: u32
  sb_size :: u32
  sb_nblocks :: u32
  sb_ninodes :: u32
  sb_nlog :: u32
  sb_logstart :: u32
  sb_inodestart :: u32
  sb_bmapstart :: u32

record inode =
  i_dev :: u32
  i_inum :: u32
  i_ref :: int
  i_lock :: bool
  i_valid :: bool
  i_type :: u16
  i_major :: u16
  i_minor :: u16
  i_nlink :: u16
  i_size :: u32
  i_addrs :: "nat \<Rightarrow> u32"

record fsst = logst +
  sb :: superblock
  itable :: "nat \<Rightarrow> inode"
  umem_pool :: pool
  upagetable :: addr
  cwd :: nat

definition upd_ip :: "nat \<Rightarrow> (inode \<Rightarrow> inode) \<Rightarrow> 'a fsst_scheme \<Rightarrow> 'a fsst_scheme" where
  "upd_ip ip f s = s\<lparr>itable := (itable s)(ip := f (itable s ip))\<rparr>"

definition IBLOCK :: "u32 \<Rightarrow> superblock \<Rightarrow> u32" where
  "IBLOCK i b = i div of_nat IPB + sb_inodestart b"

definition BBLOCK :: "u32 \<Rightarrow> superblock \<Rightarrow> u32" where
  "BBLOCK b x = b div of_nat BPB + sb_bmapstart x"

section \<open>The super block\<close>

definition superblock_of :: "block \<Rightarrow> superblock" where
  "superblock_of d = \<lparr>sb_magic = get32 d 0, sb_size = get32 d 4, sb_nblocks = get32 d 8, sb_ninodes = get32 d 12,
     sb_nlog = get32 d 16, sb_logstart = get32 d 20, sb_inodestart = get32 d 24, sb_bmapstart = get32 d 28\<rparr>"

definition readsb :: "u32 \<Rightarrow> 'a fsst_scheme \<Rightarrow> 'a fsst_scheme result" where
  "readsb dev s = bindE (bread dev 1 s) (\<lambda>(bp, s). brelse bp (s\<lparr>sb := superblock_of (b_data (bufs s bp))\<rparr>))"

definition fsinit :: "u32 \<Rightarrow> 'a fsst_scheme \<Rightarrow> 'a fsst_scheme result" where
  "fsinit dev s =
     bindE (readsb dev s) (\<lambda>s.
       if sb_magic (sb s) \<noteq> FSMAGIC then Inl (Panic ''invalid file system'')
       else initlog dev (sb_logstart (sb s)) (sb_nlog (sb s)) s)"

section \<open>Blocks\<close>

definition bzero :: "u32 \<Rightarrow> u32 \<Rightarrow> 'a fsst_scheme \<Rightarrow> 'a fsst_scheme result" where
  "bzero dev bno s =
     bindE (bread dev bno s) (\<lambda>(bp, s).
     bindE (log_write bp (set_data bp (fill (b_data (bufs s bp)) 0 0 BSIZE) s)) (brelse bp))"

definition bitmap_bit :: "block \<Rightarrow> nat \<Rightarrow> bool" where
  "bitmap_bit d bi \<longleftrightarrow> bit (d (bi div 8)) (bi mod 8)"

definition set_bitmap :: "block \<Rightarrow> nat \<Rightarrow> bool \<Rightarrow> block" where
  "set_bitmap d bi v = d(bi div 8 := (if v then d (bi div 8) OR push_bit (bi mod 8) 1
     else d (bi div 8) AND NOT (push_bit (bi mod 8) 1)))"

text \<open>
  The inner loop of \<open>balloc\<close> looks for a clear bit in one bitmap block; the outer loop runs over
  the bitmap blocks, of which \<open>m\<close> are left.
\<close>

definition balloc_scan :: "block \<Rightarrow> nat \<Rightarrow> nat \<Rightarrow> nat option" where
  "balloc_scan d b sz = find (\<lambda>bi. \<not> bitmap_bit d bi) [0..<min BPB (sz - b)]"

fun balloc_loop :: "u32 \<Rightarrow> nat \<Rightarrow> nat \<Rightarrow> 'a fsst_scheme \<Rightarrow> (u32 \<times> 'a fsst_scheme) result" where
  "balloc_loop dev 0 b s = Inr (0, s)"
| "balloc_loop dev (Suc m) b s =
     bindE (bread dev (BBLOCK (of_nat b) (sb s)) s) (\<lambda>(bp, s).
       case balloc_scan (b_data (bufs s bp)) b (unat (sb_size (sb s))) of
         Some bi \<Rightarrow>
           bindE (log_write bp (set_data bp (set_bitmap (b_data (bufs s bp)) bi True) s)) (\<lambda>s.
           bindE (brelse bp s) (\<lambda>s.
           bindE (bzero dev (of_nat (b + bi)) s) (\<lambda>s. Inr (of_nat (b + bi), s))))
       | None \<Rightarrow> bindE (brelse bp s) (balloc_loop dev m (b + BPB)))"

definition balloc :: "u32 \<Rightarrow> 'a fsst_scheme \<Rightarrow> (u32 \<times> 'a fsst_scheme) result" where
  "balloc dev s = balloc_loop dev ((unat (sb_size (sb s)) + BPB - 1) div BPB) 0 s"

definition bfree :: "u32 \<Rightarrow> u32 \<Rightarrow> 'a fsst_scheme \<Rightarrow> 'a fsst_scheme result" where
  "bfree dev b s =
     bindE (bread dev (BBLOCK b (sb s)) s) (\<lambda>(bp, s).
       let bi = unat b mod BPB; d = b_data (bufs s bp)
       in if \<not> bitmap_bit d bi then Inl (Panic ''freeing free block'')
          else bindE (log_write bp (set_data bp (set_bitmap d bi False) s)) (brelse bp))"

section \<open>Inodes\<close>

definition iinit :: "'a fsst_scheme \<Rightarrow> 'a fsst_scheme" where
  "iinit s = s\<lparr>itable := (\<lambda>i. if i < NINODE then (itable s i)\<lparr>i_lock := False\<rparr> else itable s i)\<rparr>"

definition iget :: "u32 \<Rightarrow> u32 \<Rightarrow> 'a fsst_scheme \<Rightarrow> (nat \<times> 'a fsst_scheme) result" where
  "iget dev inum s =
     (case find (\<lambda>i. i_ref (itable s i) > 0 \<and> i_dev (itable s i) = dev \<and> i_inum (itable s i) = inum) [0..<NINODE] of
        Some ip \<Rightarrow> Inr (ip, upd_ip ip (\<lambda>x. x\<lparr>i_ref := i_ref x + 1\<rparr>) s)
      | None \<Rightarrow>
          case find (\<lambda>i. i_ref (itable s i) = 0) [0..<NINODE] of
            None \<Rightarrow> Inl (Panic ''iget: no inodes'')
          | Some ip \<Rightarrow> Inr (ip, upd_ip ip (\<lambda>x. x\<lparr>i_dev := dev, i_inum := inum, i_ref := 1, i_valid := False\<rparr>) s))"

text \<open>The disk inode \<open>dip\<close> lies at offset \<open>dinode_off inum\<close> of its block.\<close>

definition dinode_off :: "u32 \<Rightarrow> nat" where
  "dinode_off inum = 64 * (unat inum mod IPB)"

fun ialloc_loop :: "u32 \<Rightarrow> u16 \<Rightarrow> nat \<Rightarrow> nat \<Rightarrow> 'a fsst_scheme \<Rightarrow> (nat option \<times> 'a fsst_scheme) result" where
  "ialloc_loop dev type 0 inum s = Inr (None, s)"
| "ialloc_loop dev type (Suc m) inum s =
     bindE (bread dev (IBLOCK (of_nat inum) (sb s)) s) (\<lambda>(bp, s).
       let d = b_data (bufs s bp); k = dinode_off (of_nat inum)
       in if get16 d k = 0 then
            bindE (log_write bp (set_data bp (put16 (fill d k 0 64) k type) s)) (\<lambda>s.
            bindE (brelse bp s) (\<lambda>s.
            bindE (iget dev (of_nat inum) s) (\<lambda>(ip, s). Inr (Some ip, s))))
          else bindE (brelse bp s) (ialloc_loop dev type m (Suc inum)))"

definition ialloc :: "u32 \<Rightarrow> u16 \<Rightarrow> 'a fsst_scheme \<Rightarrow> (nat option \<times> 'a fsst_scheme) result" where
  "ialloc dev type s = ialloc_loop dev type (unat (sb_ninodes (sb s)) - 1) 1 s"

definition put_addrs :: "(nat \<Rightarrow> u32) \<Rightarrow> nat \<Rightarrow> block \<Rightarrow> block" where
  "put_addrs a k d = fold (\<lambda>i d. put32 d (k + 4 * i) (a i)) [0..<NDIRECT + 1] d"

definition put_dinode :: "inode \<Rightarrow> nat \<Rightarrow> block \<Rightarrow> block" where
  "put_dinode x k d =
     put_addrs (i_addrs x) (k + 12)
       (put32 (put16 (put16 (put16 (put16 d k (i_type x)) (k + 2) (i_major x)) (k + 4) (i_minor x)) (k + 6) (i_nlink x))
          (k + 8) (i_size x))"

definition iupdate :: "nat \<Rightarrow> 'a fsst_scheme \<Rightarrow> 'a fsst_scheme result" where
  "iupdate ip s =
     bindE (bread (i_dev (itable s ip)) (IBLOCK (i_inum (itable s ip)) (sb s)) s) (\<lambda>(bp, s).
     bindE (log_write bp (set_data bp
              (put_dinode (itable s ip) (dinode_off (i_inum (itable s ip))) (b_data (bufs s bp))) s)) (brelse bp))"

definition idup :: "nat \<Rightarrow> 'a fsst_scheme \<Rightarrow> 'a fsst_scheme" where
  "idup ip s = upd_ip ip (\<lambda>x. x\<lparr>i_ref := i_ref x + 1\<rparr>) s"

definition load_dinode :: "block \<Rightarrow> nat \<Rightarrow> inode \<Rightarrow> inode" where
  "load_dinode d k x = x\<lparr>i_type := get16 d k, i_major := get16 d (k + 2), i_minor := get16 d (k + 4),
     i_nlink := get16 d (k + 6), i_size := get32 d (k + 8),
     i_addrs := (\<lambda>i. if i < NDIRECT + 1 then get32 d (k + 12 + 4 * i) else i_addrs x i)\<rparr>"

definition ilock :: "nat option \<Rightarrow> 'a fsst_scheme \<Rightarrow> 'a fsst_scheme result" where
  "ilock p s =
     (case p of
        None \<Rightarrow> Inl (Panic ''ilock'')
      | Some ip \<Rightarrow>
          if i_ref (itable s ip) < 1 then Inl (Panic ''ilock'')
          else if i_lock (itable s ip) then Inl Sleeps
          else
            let s = upd_ip ip (\<lambda>x. x\<lparr>i_lock := True\<rparr>) s
            in if i_valid (itable s ip) then Inr s
               else
                 bindE (bread (i_dev (itable s ip)) (IBLOCK (i_inum (itable s ip)) (sb s)) s) (\<lambda>(bp, s).
                 bindE (brelse bp (upd_ip ip (load_dinode (b_data (bufs s bp)) (dinode_off (i_inum (itable s ip)))) s)) (\<lambda>s.
                   let s = upd_ip ip (\<lambda>x. x\<lparr>i_valid := True\<rparr>) s
                   in if i_type (itable s ip) = 0 then Inl (Panic ''ilock: no type'') else Inr s)))"

definition iunlock :: "nat option \<Rightarrow> 'a fsst_scheme \<Rightarrow> 'a fsst_scheme result" where
  "iunlock p s =
     (case p of
        None \<Rightarrow> Inl (Panic ''iunlock'')
      | Some ip \<Rightarrow>
          if \<not> i_lock (itable s ip) \<or> i_ref (itable s ip) < 1 then Inl (Panic ''iunlock'')
          else Inr (upd_ip ip (\<lambda>x. x\<lparr>i_lock := False\<rparr>) s))"

definition trunc_direct :: "nat \<Rightarrow> nat \<Rightarrow> 'a fsst_scheme \<Rightarrow> 'a fsst_scheme result" where
  "trunc_direct ip i s =
     (if i_addrs (itable s ip) i \<noteq> 0
      then bindE (bfree (i_dev (itable s ip)) (i_addrs (itable s ip) i) s) (\<lambda>s.
             Inr (upd_ip ip (\<lambda>x. x\<lparr>i_addrs := (i_addrs x)(i := 0)\<rparr>) s))
      else Inr s)"

definition trunc_indirect :: "nat \<Rightarrow> nat \<Rightarrow> nat \<Rightarrow> 'a fsst_scheme \<Rightarrow> 'a fsst_scheme result" where
  "trunc_indirect ip bp j s =
     (let a = get32 (b_data (bufs s bp)) (4 * j)
      in if a \<noteq> 0 then bfree (i_dev (itable s ip)) a s else Inr s)"

definition itrunc :: "nat \<Rightarrow> 'a fsst_scheme \<Rightarrow> 'a fsst_scheme result" where
  "itrunc ip s =
     bindE (forE (trunc_direct ip) [0..<NDIRECT] s) (\<lambda>s.
     bindE (if i_addrs (itable s ip) NDIRECT \<noteq> 0
            then bindE (bread (i_dev (itable s ip)) (i_addrs (itable s ip) NDIRECT) s) (\<lambda>(bp, s).
                 bindE (forE (trunc_indirect ip bp) [0..<NINDIRECT] s) (\<lambda>s.
                 bindE (brelse bp s) (\<lambda>s.
                 bindE (bfree (i_dev (itable s ip)) (i_addrs (itable s ip) NDIRECT) s) (\<lambda>s.
                   Inr (upd_ip ip (\<lambda>x. x\<lparr>i_addrs := (i_addrs x)(NDIRECT := 0)\<rparr>) s)))))
            else Inr s) (\<lambda>s.
       iupdate ip (upd_ip ip (\<lambda>x. x\<lparr>i_size := 0\<rparr>) s)))"

definition iput :: "nat \<Rightarrow> 'a fsst_scheme \<Rightarrow> 'a fsst_scheme result" where
  "iput ip s =
     bindE (if i_ref (itable s ip) = 1 \<and> i_valid (itable s ip) \<and> i_nlink (itable s ip) = 0
            then if i_lock (itable s ip) then Inl Sleeps
                 else
                   bindE (itrunc ip (upd_ip ip (\<lambda>x. x\<lparr>i_lock := True\<rparr>) s)) (\<lambda>s.
                   bindE (iupdate ip (upd_ip ip (\<lambda>x. x\<lparr>i_type := 0\<rparr>) s)) (\<lambda>s.
                     Inr (upd_ip ip (\<lambda>x. x\<lparr>i_valid := False, i_lock := False\<rparr>) s)))
            else Inr s)
       (\<lambda>s. Inr (upd_ip ip (\<lambda>x. x\<lparr>i_ref := i_ref x - 1\<rparr>) s))"

definition iunlockput :: "nat \<Rightarrow> 'a fsst_scheme \<Rightarrow> 'a fsst_scheme result" where
  "iunlockput ip s = bindE (iunlock (Some ip) s) (iput ip)"

section \<open>Inode contents\<close>

text \<open>The entry \<open>i\<close> of the address array, which is allocated if it is 0.\<close>

definition bmap_entry :: "nat \<Rightarrow> nat \<Rightarrow> 'a fsst_scheme \<Rightarrow> (u32 \<times> 'a fsst_scheme) result" where
  "bmap_entry ip i s =
     (let a = i_addrs (itable s ip) i
      in if a \<noteq> 0 then Inr (a, s)
         else bindE (balloc (i_dev (itable s ip)) s) (\<lambda>(a, s).
                Inr (a, if a = 0 then s else upd_ip ip (\<lambda>x. x\<lparr>i_addrs := (i_addrs x)(i := a)\<rparr>) s)))"

definition bmap :: "nat \<Rightarrow> nat \<Rightarrow> 'a fsst_scheme \<Rightarrow> (u32 \<times> 'a fsst_scheme) result" where
  "bmap ip bn s =
     (if bn < NDIRECT then bmap_entry ip bn s
      else if bn - NDIRECT < NINDIRECT then
        bindE (bmap_entry ip NDIRECT s) (\<lambda>(a, s).
          if a = 0 then Inr (0, s)
          else
            bindE (bread (i_dev (itable s ip)) a s) (\<lambda>(bp, s).
              let k = 4 * (bn - NDIRECT); a = get32 (b_data (bufs s bp)) k
              in if a \<noteq> 0 then bindE (brelse bp s) (\<lambda>s. Inr (a, s))
                 else
                   bindE (balloc (i_dev (itable s ip)) s) (\<lambda>(a, s).
                   bindE (if a \<noteq> 0 then log_write bp (set_data bp (put32 (b_data (bufs s bp)) k a) s) else Inr s) (\<lambda>s.
                   bindE (brelse bp s) (\<lambda>s. Inr (a, s))))))
      else Inl (Panic ''bmap: out of range''))"

record stat =
  st_dev :: u32
  st_ino :: u32
  st_type :: u16
  st_nlink :: u16
  st_size :: u64

definition stati :: "nat \<Rightarrow> 'a fsst_scheme \<Rightarrow> stat" where
  "stati ip s = (let x = itable s ip in
     \<lparr>st_dev = i_dev x, st_ino = i_inum x, st_type = i_type x, st_nlink = i_nlink x, st_size = ucast (i_size x)\<rparr>)"

text \<open>
  \<open>either_copyout\<close> and \<open>either_copyin\<close>. A copy to a kernel address has no effect on this state; a copy
  from a user address that fails has copied the bytes before the failing page.
\<close>

definition either_copyout :: "bool \<Rightarrow> u64 \<Rightarrow> u8 list \<Rightarrow> 'a fsst_scheme \<Rightarrow> int \<times> 'a fsst_scheme" where
  "either_copyout user_dst dst bs s =
     (if user_dst
      then case copyout (umem_pool s) (upagetable s) dst bs of (r, P) \<Rightarrow> (r, s\<lparr>umem_pool := P\<rparr>)
      else (0, s))"

datatype src = User u64 | Kernel "u8 list"

fun src_add :: "src \<Rightarrow> nat \<Rightarrow> src" where
  "src_add (User a) m = User (a + of_nat m)"
| "src_add (Kernel bs) m = Kernel (drop m bs)"

fun either_copyin :: "src \<Rightarrow> nat \<Rightarrow> 'a fsst_scheme \<Rightarrow> int \<times> u8 list" where
  "either_copyin (User a) len s = copyin (umem_pool s) (upagetable s) a len"
| "either_copyin (Kernel bs) len s = (0, take len bs)"

text \<open>
  The loops of \<open>readi\<close> and \<open>writei\<close>. Their tests rule out a wrap-around of \<open>off + n\<close>, so the
  counters are natural numbers. \<open>readi\<close> also returns the bytes it has copied.
\<close>

function readi_loop :: "nat \<Rightarrow> bool \<Rightarrow> u64 \<Rightarrow> nat \<Rightarrow> nat \<Rightarrow> nat \<Rightarrow> u8 list \<Rightarrow> 'a fsst_scheme \<Rightarrow> ((int \<times> u8 list) \<times> 'a fsst_scheme) result" where
  "readi_loop ip user_dst dst off n tot acc s =
     (if tot < n then
        bindE (bmap ip (off div BSIZE) s) (\<lambda>(a, s).
          if a = 0 then Inr ((int tot, acc), s)
          else
            bindE (bread (i_dev (itable s ip)) a s) (\<lambda>(bp, s).
              let m = min (n - tot) (BSIZE - off mod BSIZE);
                  bs = bytes_of (b_data (bufs s bp)) (off mod BSIZE) m
              in case either_copyout user_dst dst bs s of
                   (r, s) \<Rightarrow>
                     if r = - 1 then bindE (brelse bp s) (\<lambda>s. Inr ((- 1, acc), s))
                     else bindE (brelse bp s)
                            (readi_loop ip user_dst (dst + of_nat m) (off + m) n (tot + m) (acc @ bs))))
      else Inr ((int tot, acc), s))"
  by pat_completeness auto
termination
  by (relation "measure (\<lambda>(ip, user_dst, dst, off, n, tot, acc, s). n - tot)") (auto simp: BSIZE_def)

declare readi_loop.simps [simp del]

definition readi :: "nat \<Rightarrow> bool \<Rightarrow> u64 \<Rightarrow> u32 \<Rightarrow> u32 \<Rightarrow> 'a fsst_scheme \<Rightarrow> ((int \<times> u8 list) \<times> 'a fsst_scheme) result" where
  "readi ip user_dst dst off n s =
     (if off > i_size (itable s ip) \<or> off + n < off then Inr ((0, []), s)
      else
        let n = (if off + n > i_size (itable s ip) then i_size (itable s ip) - off else n)
        in readi_loop ip user_dst dst (unat off) (unat n) 0 [] s)"

function writei_loop :: "nat \<Rightarrow> src \<Rightarrow> nat \<Rightarrow> nat \<Rightarrow> nat \<Rightarrow> 'a fsst_scheme \<Rightarrow> (nat \<times> nat \<times> 'a fsst_scheme) result" where
  "writei_loop ip src off n tot s =
     (if tot < n then
        bindE (bmap ip (off div BSIZE) s) (\<lambda>(a, s).
          if a = 0 then Inr (tot, off, s)
          else
            bindE (bread (i_dev (itable s ip)) a s) (\<lambda>(bp, s).
              let m = min (n - tot) (BSIZE - off mod BSIZE)
              in case either_copyin src m s of
                   (r, bs) \<Rightarrow>
                     let s = set_data bp (put_bytes (b_data (bufs s bp)) (off mod BSIZE) bs) s
                     in if r = - 1 then bindE (brelse bp s) (\<lambda>s. Inr (tot, off, s))
                        else bindE (log_write bp s) (\<lambda>s.
                             bindE (brelse bp s) (writei_loop ip (src_add src m) (off + m) n (tot + m)))))
      else Inr (tot, off, s))"
  by pat_completeness auto
termination
  by (relation "measure (\<lambda>(ip, src, off, n, tot, s). n - tot)") (auto simp: BSIZE_def)

declare writei_loop.simps [simp del]

definition writei :: "nat \<Rightarrow> src \<Rightarrow> u32 \<Rightarrow> u32 \<Rightarrow> 'a fsst_scheme \<Rightarrow> (int \<times> 'a fsst_scheme) result" where
  "writei ip src off n s =
     (if off > i_size (itable s ip) \<or> off + n < off then Inr (- 1, s)
      else if unat (off + n) > MAXFILE * BSIZE then Inr (- 1, s)
      else
        bindE (writei_loop ip src (unat off) (unat n) 0 s) (\<lambda>(tot, off, s).
          let s = (if off > unat (i_size (itable s ip)) then upd_ip ip (\<lambda>x. x\<lparr>i_size := of_nat off\<rparr>) s else s)
          in bindE (iupdate ip s) (\<lambda>s. Inr (int tot, s))))"

section \<open>Directories\<close>

text \<open>
  \<open>strncmp\<close> on two character arrays given up to their terminating 0 or their end, and the fields of
  a directory entry of 16 bytes.
\<close>

fun strncmp_list :: "nat \<Rightarrow> u8 list \<Rightarrow> u8 list \<Rightarrow> int" where
  "strncmp_list 0 p q = 0"
| "strncmp_list (Suc n) p q =
     (let a = (if p = [] then 0 else hd p); b = (if q = [] then 0 else hd q)
      in if a \<noteq> 0 \<and> a = b then strncmp_list n (tl p) (tl q) else uint a - uint b)"

definition namecmp :: "u8 list \<Rightarrow> u8 list \<Rightarrow> int" where
  "namecmp p q = strncmp_list DIRSIZ p q"

definition de_inum :: "u8 list \<Rightarrow> u16" where
  "de_inum de = get16 (\<lambda>i. de ! i) 0"

definition de_name :: "u8 list \<Rightarrow> u8 list" where
  "de_name de = drop 2 de"

definition dirent :: "u8 list \<Rightarrow> u16 \<Rightarrow> u8 list" where
  "dirent name inum = bytes_of (put16 (\<lambda>_. 0) 0 inum) 0 2 @ take DIRSIZ (name @ replicate DIRSIZ 0)"

function dirlookup_loop :: "nat \<Rightarrow> u8 list \<Rightarrow> nat \<Rightarrow> nat \<Rightarrow> 'a fsst_scheme \<Rightarrow> ((nat \<times> nat) option \<times> 'a fsst_scheme) result" where
  "dirlookup_loop dp name sz off s =
     (if off < sz then
        bindE (readi dp False 0 (of_nat off) 16 s) (\<lambda>((r, de), s).
          if r \<noteq> 16 then Inl (Panic ''dirlookup read'')
          else if de_inum de = 0 then dirlookup_loop dp name sz (off + 16) s
          else if namecmp name (de_name de) = 0
               then bindE (iget (i_dev (itable s dp)) (ucast (de_inum de)) s) (\<lambda>(ip, s). Inr (Some (ip, off), s))
               else dirlookup_loop dp name sz (off + 16) s)
      else Inr (None, s))"
  by pat_completeness auto
termination
  by (relation "measure (\<lambda>(dp, name, sz, off, s). sz - off)") auto

declare dirlookup_loop.simps [simp del]

text \<open>\<open>dirlookup\<close> returns the inode and the offset it stores through \<open>poff\<close>.\<close>

definition dirlookup :: "nat \<Rightarrow> u8 list \<Rightarrow> 'a fsst_scheme \<Rightarrow> ((nat \<times> nat) option \<times> 'a fsst_scheme) result" where
  "dirlookup dp name s =
     (if i_type (itable s dp) \<noteq> T_DIR then Inl (Panic ''dirlookup not DIR'')
      else dirlookup_loop dp name (unat (i_size (itable s dp))) 0 s)"

function dirlink_slot :: "nat \<Rightarrow> nat \<Rightarrow> nat \<Rightarrow> 'a fsst_scheme \<Rightarrow> (nat \<times> 'a fsst_scheme) result" where
  "dirlink_slot dp sz off s =
     (if off < sz then
        bindE (readi dp False 0 (of_nat off) 16 s) (\<lambda>((r, de), s).
          if r \<noteq> 16 then Inl (Panic ''dirlink read'')
          else if de_inum de = 0 then Inr (off, s)
          else dirlink_slot dp sz (off + 16) s)
      else Inr (off, s))"
  by pat_completeness auto
termination
  by (relation "measure (\<lambda>(dp, sz, off, s). sz - off)") auto

declare dirlink_slot.simps [simp del]

definition dirlink :: "nat \<Rightarrow> u8 list \<Rightarrow> u32 \<Rightarrow> 'a fsst_scheme \<Rightarrow> (int \<times> 'a fsst_scheme) result" where
  "dirlink dp name inum s =
     bindE (dirlookup dp name s) (\<lambda>(found, s).
       case found of
         Some (ip, off) \<Rightarrow> bindE (iput ip s) (\<lambda>s. Inr (- 1, s))
       | None \<Rightarrow>
           bindE (dirlink_slot dp (unat (i_size (itable s dp))) 0 s) (\<lambda>(off, s).
           bindE (writei dp (Kernel (dirent name (ucast inum))) (of_nat off) 16 s) (\<lambda>(r, s).
             Inr (if r \<noteq> 16 then - 1 else 0, s))))"

section \<open>Paths\<close>

text \<open>
  Paths without the terminating 0; the name is that of at most \<open>DIRSIZ\<close> characters that
  \<open>skipelem\<close> leaves in the array.
\<close>

definition slash :: u8 where "slash = 47"

definition skipelem :: "u8 list \<Rightarrow> (u8 list \<times> u8 list) option" where
  "skipelem path =
     (let path = dropWhile (\<lambda>c. c = slash) path
      in if path = [] then None
         else
           let s = takeWhile (\<lambda>c. c \<noteq> slash) path;
               path = dropWhile (\<lambda>c. c \<noteq> slash) path
           in Some (take DIRSIZ s, dropWhile (\<lambda>c. c = slash) path))"

lemma skipelem_shorter: "skipelem path = Some (name, rest) \<Longrightarrow> length rest < length path"
proof -
  assume a: "skipelem path = Some (name, rest)"
  define p where "p = dropWhile (\<lambda>c. c = slash) path"
  have p: "p \<noteq> []" "rest = dropWhile (\<lambda>c. c = slash) (dropWhile (\<lambda>c. c \<noteq> slash) p)"
    using a by (auto simp: skipelem_def p_def Let_def split: if_splits)
  obtain c cs where c: "p = c # cs" using p(1) by (cases p) auto
  have "c \<noteq> slash" using hd_dropWhile [of "\<lambda>c. c = slash" path] p(1) c by (simp add: p_def [symmetric])
  then have "rest = dropWhile (\<lambda>c. c = slash) (dropWhile (\<lambda>c. c \<noteq> slash) cs)" by (simp add: p(2) c)
  then have "length rest \<le> length cs" using length_dropWhile_le order_trans by metis
  moreover have "length p \<le> length path" by (simp add: p_def length_dropWhile_le)
  ultimately show "length rest < length path" using c by simp
qed

function namex_loop :: "u8 list \<Rightarrow> bool \<Rightarrow> u8 list \<Rightarrow> nat \<Rightarrow> 'a fsst_scheme \<Rightarrow> ((nat \<times> u8 list) option \<times> 'a fsst_scheme) result" where
  "namex_loop path parent name ip s =
     (case skipelem path of
        None \<Rightarrow> if parent then bindE (iput ip s) (\<lambda>s. Inr (None, s)) else Inr (Some (ip, name), s)
      | Some (name, rest) \<Rightarrow>
          bindE (ilock (Some ip) s) (\<lambda>s.
            if i_type (itable s ip) \<noteq> T_DIR then bindE (iunlockput ip s) (\<lambda>s. Inr (None, s))
            else if parent \<and> rest = [] then bindE (iunlock (Some ip) s) (\<lambda>s. Inr (Some (ip, name), s))
            else
              bindE (dirlookup ip name s) (\<lambda>(found, s).
                case found of
                  None \<Rightarrow> bindE (iunlockput ip s) (\<lambda>s. Inr (None, s))
                | Some (nxt, off) \<Rightarrow> bindE (iunlockput ip s) (namex_loop rest parent name nxt))))"
  by pat_completeness auto
termination
  by (relation "measure (\<lambda>(path, parent, name, ip, s). length path)") (auto dest: skipelem_shorter)

declare namex_loop.simps [simp del]

definition namex :: "u8 list \<Rightarrow> bool \<Rightarrow> 'a fsst_scheme \<Rightarrow> ((nat \<times> u8 list) option \<times> 'a fsst_scheme) result" where
  "namex path parent s =
     bindE (if path \<noteq> [] \<and> hd path = slash then iget ROOTDEV ROOTINO s else Inr (cwd s, idup (cwd s) s))
       (\<lambda>(ip, s). namex_loop path parent [] ip s)"

definition namei :: "u8 list \<Rightarrow> 'a fsst_scheme \<Rightarrow> (nat option \<times> 'a fsst_scheme) result" where
  "namei path s = bindE (namex path False s) (\<lambda>(r, s). Inr (map_option fst r, s))"

definition nameiparent :: "u8 list \<Rightarrow> 'a fsst_scheme \<Rightarrow> ((nat \<times> u8 list) option \<times> 'a fsst_scheme) result" where
  "nameiparent path s = namex path True s"

end
