(* ===== verification/Tx.thy ===== *)
theory Tx
  imports LogCrash
begin

text \<open>
  The contract between the log and the file system. Inside a transaction the file system sees
  the contents of the blocks, the list of the blocks it has logged and the set of the blocks
  it holds locked. The locale states what reading, changing, logging and releasing a block do
  to these three; the log and the buffer cache satisfy it as long as the log has room and not
  all buffers are in use.
\<close>

locale block_store =
  fixes acquire :: "u32 \<Rightarrow> 's \<Rightarrow> (nat \<times> 's) result"
    and modify :: "nat \<Rightarrow> block \<Rightarrow> 's \<Rightarrow> 's"
    and append :: "nat \<Rightarrow> 's \<Rightarrow> 's result"
    and release :: "nat \<Rightarrow> 's \<Rightarrow> 's result"
    and data :: "'s \<Rightarrow> nat \<Rightarrow> block"
    and inv :: "'s \<Rightarrow> (u32 \<Rightarrow> block) \<Rightarrow> u32 list \<Rightarrow> u32 set \<Rightarrow> bool"
    and holds :: "'s \<Rightarrow> u32 \<Rightarrow> nat \<Rightarrow> bool"
    and usable :: "'s \<Rightarrow> u32 \<Rightarrow> bool"
    and rest :: "'s \<Rightarrow> 'r"
    and base :: "'s \<Rightarrow> u32 \<Rightarrow> block"
    and room :: "'s \<Rightarrow> nat"
    and nbuf :: nat
  assumes acquire: "inv s V L H \<Longrightarrow> usable s b \<Longrightarrow> b \<notin> H \<Longrightarrow> card (set L \<union> H) < nbuf \<Longrightarrow>
      \<exists>p s'. acquire b s = Inr (p, s') \<and> inv s' V L (insert b H) \<and> holds s' b p \<and> rest s' = rest s \<and> base s' = base s \<and>
        (\<forall>c q. holds s c q \<longrightarrow> holds s' c q)"
    and data: "inv s V L H \<Longrightarrow> holds s b p \<Longrightarrow> data s p = V b \<and> b \<in> H"
    and modify: "inv s V L H \<Longrightarrow> holds s b p \<Longrightarrow> inv (modify p v s) (V(b := v)) L H \<and> rest (modify p v s) = rest s \<and>
      base (modify p v s) = base s \<and> (\<forall>c q. holds s c q \<longrightarrow> holds (modify p v s) c q)"
    and append: "inv s V L H \<Longrightarrow> holds s b p \<Longrightarrow> length L < room s \<Longrightarrow>
      \<exists>s'. append p s = Inr s' \<and> inv s' V (if b \<in> set L then L else L @ [b]) H \<and> rest s' = rest s \<and> base s' = base s \<and>
        (\<forall>c q. holds s c q \<longrightarrow> holds s' c q)"
    and release: "inv s V L H \<Longrightarrow> holds s b p \<Longrightarrow> b \<in> set L \<or> V b = base s b \<Longrightarrow>
      \<exists>s'. release p s = Inr s' \<and> inv s' V L (H - {b}) \<and> rest s' = rest s \<and> base s' = base s \<and>
        (\<forall>c q. c \<noteq> b \<longrightarrow> holds s c q \<longrightarrow> holds s' c q)"
    and clean: "inv s V L H \<Longrightarrow> b \<notin> set L \<Longrightarrow> b \<notin> H \<Longrightarrow> V b = base s b"
    and usable_rest: "rest s' = rest s \<Longrightarrow> usable s' = usable s \<and> room s' = room s"
    and inv_finite: "inv s V L H \<Longrightarrow> finite H"
begin

text \<open>Reading a block and giving it back leaves everything as it was.\<close>

lemma read_block:
  assumes "inv s V L H" "usable s b" "b \<notin> H" "card (set L \<union> H) < nbuf"
  obtains p s1 where "acquire b s = Inr (p, s1)" "data s1 p = V b" "inv s1 V L (insert b H)" "holds s1 b p" "rest s1 = rest s"
    "base s1 = base s" "\<forall>c q. holds s c q \<longrightarrow> holds s1 c q" "b \<in> set L \<or> V b = base s1 b"
proof -
  obtain p s1 where 1: "acquire b s = Inr (p, s1)" "inv s1 V L (insert b H)" "holds s1 b p" "rest s1 = rest s" "base s1 = base s"
    "\<forall>c q. holds s c q \<longrightarrow> holds s1 c q" using acquire [OF assms] by blast
  moreover have "b \<in> set L \<or> V b = base s1 b" using clean [OF assms(1) _ assms(3)] 1(5) by auto
  ultimately show ?thesis using that data [OF 1(2,3)] by blast
qed

lemma close_block:
  assumes "inv s V L (insert b H)" "b \<notin> H" "holds s b p" "b \<in> set L \<or> V b = base s b"
  obtains s' where "release p s = Inr s'" "inv s' V L H" "rest s' = rest s" "base s' = base s"
    "\<forall>c q. c \<noteq> b \<longrightarrow> holds s c q \<longrightarrow> holds s' c q"
proof -
  obtain s' where "release p s = Inr s'" "inv s' V L (insert b H - {b})" "rest s' = rest s" "base s' = base s"
    "\<forall>c q. c \<noteq> b \<longrightarrow> holds s c q \<longrightarrow> holds s' c q" using release [OF assms(1,3,4)] by blast
  then show ?thesis using that assms(2) by simp
qed

lemma read_release:
  assumes "inv s V L H" "usable s b" "b \<notin> H" "card (set L \<union> H) < nbuf"
  obtains p s1 s2 where "acquire b s = Inr (p, s1)" "data s1 p = V b" "rest s1 = rest s" "release p s1 = Inr s2" "inv s2 V L H"
    "rest s2 = rest s" "base s2 = base s" "\<forall>c q. holds s c q \<longrightarrow> holds s2 c q"
proof -
  obtain p s1 where 1: "acquire b s = Inr (p, s1)" "data s1 p = V b" "inv s1 V L (insert b H)" "holds s1 b p" "rest s1 = rest s"
    "base s1 = base s" "\<forall>c q. holds s c q \<longrightarrow> holds s1 c q" "b \<in> set L \<or> V b = base s1 b"
    by (rule read_block [OF assms])
  obtain s2 where 2: "release p s1 = Inr s2" "inv s2 V L H" "rest s2 = rest s1" "base s2 = base s1"
    "\<forall>c q. c \<noteq> b \<longrightarrow> holds s1 c q \<longrightarrow> holds s2 c q" by (rule close_block [OF 1(3) assms(3) 1(4,8)])
  have "\<forall>c q. holds s c q \<longrightarrow> holds s2 c q" using 1(7) 2(5) data [OF assms(1)] assms(3) by metis
  then show ?thesis using that 1 2 by metis
qed

text \<open>Changing a held block and logging the change.\<close>

lemma change_block:
  assumes "inv s V L H" "holds s b p" "length L < room s"
  obtains s1 where "append p (modify p v s) = Inr s1" "inv s1 (V(b := v)) (if b \<in> set L then L else L @ [b]) H" "rest s1 = rest s"
    "base s1 = base s" "\<forall>c q. holds s c q \<longrightarrow> holds s1 c q"
proof -
  note M = modify [OF assms(1,2), of v]
  have "length L < room (modify p v s)" using usable_rest [of "modify p v s" s] M assms(3) by simp
  then obtain s1 where s1: "append p (modify p v s) = Inr s1" "inv s1 (V(b := v)) (if b \<in> set L then L else L @ [b]) H"
    "rest s1 = rest (modify p v s)" "base s1 = base (modify p v s)" "\<forall>c q. holds (modify p v s) c q \<longrightarrow> holds s1 c q"
    using append [of "modify p v s" "V(b := v)" L H b p] M assms(2) by blast
  have "rest s1 = rest s" "base s1 = base s" using s1(3,4) M by auto
  moreover have "\<forall>c q. holds s c q \<longrightarrow> holds s1 c q" using s1(5) M by blast
  ultimately show ?thesis using that s1(1,2) by blast
qed

text \<open>A whole read-modify-log-release cycle; \<open>f\<close> computes the new contents from the old.\<close>

lemma update_block:
  assumes "inv s V L H" "usable s b" "b \<notin> H" "card (set L \<union> H) < nbuf" "length L < room s"
  obtains p s1 s2 s3 where "acquire b s = Inr (p, s1)" "data s1 p = V b" "rest s1 = rest s" "append p (modify p v s1) = Inr s2"
    "release p s2 = Inr s3" "inv s3 (V(b := v)) (if b \<in> set L then L else L @ [b]) H" "rest s3 = rest s" "base s3 = base s"
    "\<forall>c q. holds s c q \<longrightarrow> holds s3 c q"
proof -
  obtain p s1 where 1: "acquire b s = Inr (p, s1)" "data s1 p = V b" "inv s1 V L (insert b H)" "holds s1 b p" "rest s1 = rest s"
    "base s1 = base s" "\<forall>c q. holds s c q \<longrightarrow> holds s1 c q" "b \<in> set L \<or> V b = base s1 b"
    by (rule read_block [OF assms(1-4)])
  have r: "length L < room s1" using usable_rest [OF 1(5)] assms(5) by simp
  obtain s2 where 2: "append p (modify p v s1) = Inr s2" "inv s2 (V(b := v)) (if b \<in> set L then L else L @ [b]) (insert b H)"
    "rest s2 = rest s1" "base s2 = base s1" "\<forall>c q. holds s1 c q \<longrightarrow> holds s2 c q" by (rule change_block [OF 1(3,4) r])
  have "holds s2 b p" using 2(5) 1(4) by blast
  moreover have "b \<in> set (if b \<in> set L then L else L @ [b])" by simp
  ultimately obtain s3 where 3: "release p s2 = Inr s3" "inv s3 (V(b := v)) (if b \<in> set L then L else L @ [b]) H"
    "rest s3 = rest s2" "base s3 = base s2" "\<forall>c q. c \<noteq> b \<longrightarrow> holds s2 c q \<longrightarrow> holds s3 c q"
    using close_block [OF 2(2) assms(3)] by metis
  have "\<forall>c q. holds s c q \<longrightarrow> holds s3 c q" using 1(7) 2(5) 3(5) data [OF assms(1)] assms(3) by metis
  moreover have "rest s3 = rest s" "base s3 = base s" using 1(5,6) 2(3,4) 3(3,4) by auto
  ultimately show ?thesis using that 1(1,2,5) 2(1) 3(1,2) by blast
qed

end

section \<open>The log is a block store\<close>

definition tx_inv :: "'a logst_scheme \<Rightarrow> (u32 \<Rightarrow> block) \<Rightarrow> u32 list \<Rightarrow> u32 set \<Rightarrow> bool" where
  "tx_inv s V L H \<longleftrightarrow> bcache_ok (lg_dev s) s \<and> log_layout s \<and> view (lg_dev s) s = V \<and> logged s = L \<and> 1 \<le> outstanding s \<and>
     finite H \<and> (\<forall>b \<in> H. \<not> in_log (lg_start s) b) \<and> (\<forall>b. blocked (lg_dev s) s b \<longleftrightarrow> b \<in> H) \<and>
     (\<forall>b. brefs (lg_dev s) s b = (if b \<in> set L then 1 else 0) + (if b \<in> H then 1 else 0))"

definition tx_acquire :: "u32 \<Rightarrow> 'a logst_scheme \<Rightarrow> (nat \<times> 'a logst_scheme) result" where
  "tx_acquire b s = bread (lg_dev s) b s"

definition tx_data :: "'a logst_scheme \<Rightarrow> nat \<Rightarrow> block" where
  "tx_data s p = b_data (bufs s p)"

definition tx_holds :: "'a logst_scheme \<Rightarrow> u32 \<Rightarrow> nat \<Rightarrow> bool" where
  "tx_holds s b p \<longleftrightarrow> own (lg_dev s) s b p"

definition tx_usable :: "'a logst_scheme \<Rightarrow> u32 \<Rightarrow> bool" where
  "tx_usable s b \<longleftrightarrow> \<not> in_log (lg_start s) b"

definition tx_rest :: "'a logst_scheme \<Rightarrow> u32 \<times> int \<times> int \<times> bool \<times> u32 \<times> (u32 \<times> block) list \<times> 'a" where
  "tx_rest s = (lg_start s, lg_size s, outstanding s, committing s, lg_dev s, written s, logst.more s)"

definition tx_room :: "'a logst_scheme \<Rightarrow> nat" where
  "tx_room s = min LOGSIZE (nat (lg_size s - 1))"

lemma unused_count:
  assumes ok: "bcache_ok dv s"
  shows "af (cache_abs dv s) + card {b. 0 < brefs dv s b} = NBUF"
proof -
  define U where "U = {i. i < NBUF \<and> b_refcnt (bufs s i) \<noteq> 0}"
  have dev: "b_dev (bufs s i) = dv" if "i \<in> U" for i using bcache_okD(3) [OF ok, of i] that by (auto simp: U_def)
  have "{b. 0 < brefs dv s b} = (\<lambda>i. b_blockno (bufs s i)) ` U"
  proof (intro equalityI subsetI)
    fix b assume "b \<in> {b. 0 < brefs dv s b}"
    then have p: "0 < brefs dv s b" by simp
    then obtain i where i: "i < NBUF" "b_dev (bufs s i) = dv" "b_blockno (bufs s i) = b" using brefs_none(1) [of s dv b] by force
    then have "b_refcnt (bufs s i) \<noteq> 0" using brefs_at(1) [OF ok i] p by auto
    then show "b \<in> (\<lambda>i. b_blockno (bufs s i)) ` U" using i by (auto simp: U_def)
  next
    fix b assume "b \<in> (\<lambda>i. b_blockno (bufs s i)) ` U"
    then obtain i where i: "i \<in> U" "b = b_blockno (bufs s i)" by blast
    then show "b \<in> {b. 0 < brefs dv s b}" using brefs_at(1) [OF ok _ dev [OF i(1)], of b]
      by (auto simp: U_def unat_gt_0)
  qed
  moreover have "inj_on (\<lambda>i. b_blockno (bufs s i)) U"
    using bcache_okD(2) [OF ok] dev by (auto simp: inj_on_def U_def)
  ultimately have c: "card {b. 0 < brefs dv s b} = card U" by (simp add: card_image)
  have "{..<NBUF} = {i. i < NBUF \<and> b_refcnt (bufs s i) = 0} \<union> U" "finite U" by (auto simp: U_def)
  moreover have "card ({i. i < NBUF \<and> b_refcnt (bufs s i) = 0} \<union> U) = card {i. i < NBUF \<and> b_refcnt (bufs s i) = 0} + card U"
    by (rule card_Un_disjoint) (auto simp: U_def)
  ultimately have "card {i. i < NBUF \<and> b_refcnt (bufs s i) = 0} + card U = NBUF" by (metis card_lessThan)
  then show ?thesis using c by (simp add: cache_abs_def)
qed

lemma tx_unused:
  assumes "tx_inv s V L H"
  shows "af (cache_abs (lg_dev s) s) + card (set L \<union> H) = NBUF"
proof -
  have "{b. 0 < brefs (lg_dev s) s b} = set L \<union> H" using assms by (auto simp: tx_inv_def)
  then show ?thesis using unused_count [of "lg_dev s" s] assms by (simp add: tx_inv_def)
qed

lemma restD:
  assumes "tx_rest s' = tx_rest s"
  shows "lg_start s' = lg_start s" "lg_size s' = lg_size s" "outstanding s' = outstanding s" "lg_dev s' = lg_dev s" "logst.more s' = logst.more s"
  using assms by (simp_all add: tx_rest_def)

lemma rest_frame: "s' = s\<lparr>bufs := B\<rparr> \<Longrightarrow> tx_rest s' = tx_rest s"
  by (simp add: tx_rest_def)

lemma tx_acquire_ok:
  fixes s :: "'a logst_scheme"
  assumes i: "tx_inv s V L H" and u: "tx_usable s b" "b \<notin> H" "card (set L \<union> H) < NBUF"
  shows "\<exists>p s'. tx_acquire b s = Inr (p, s') \<and> tx_inv s' V L (insert b H) \<and> tx_holds s' b p \<and> tx_rest s' = tx_rest s \<and>
    disk s' = disk s \<and> (\<forall>c q. tx_holds s c q \<longrightarrow> tx_holds s' c q)"
proof -
  define dv where "dv = lg_dev s"
  have I: "bcache_ok dv s" "log_layout s" "view dv s = V" "logged s = L" "1 \<le> outstanding s" "finite H"
    "\<forall>b \<in> H. \<not> in_log (lg_start s) b" "\<forall>b. blocked dv s b \<longleftrightarrow> b \<in> H"
    "\<forall>b. brefs dv s b = (if b \<in> set L then 1 else 0) + (if b \<in> H then 1 else 0)" using i by (simp_all add: tx_inv_def dv_def)
  have f: "0 < af (cache_abs dv s)" using tx_unused [OF i] u(3) by (simp add: dv_def)
  obtain p s1 where 1: "bread dv b s = Inr (p, s1)" "bcache_ok dv s1" "own dv s1 b p"
    "cache_abs dv s1 = (cache_abs dv s)\<lparr>ar := (brefs dv s)(b := brefs dv s b + 1), al := (blocked dv s)(b := True),
       af := af (cache_abs dv s) - (if brefs dv s b = 0 then 1 else 0)\<rparr>" "s1 = s\<lparr>bufs := bufs s1\<rparr>"
    "\<forall>m i. own dv s m i \<longrightarrow> own dv s1 m i"
    by (rule bread_ok [OF I(1), of b]) (use I(8,9) u(2) f in auto)
  note e1 = cache_abs_eqD [OF 1(4), simplified]
  have r: "tx_rest s1 = tx_rest s" "logvars s1 = logvars s" by (rule rest_frame [OF 1(5)], rule frameD(2) [OF 1(5)])
  note v = restD [OF r(1)] layout_cong [OF r(2)]
  have "tx_inv s1 V L (insert b H)" unfolding tx_inv_def v dv_def [symmetric]
    using I 1(2) u e1 v(6) by (auto simp: tx_usable_def)
  then show ?thesis using 1(1,3,6) r(1) v e1(2) by (auto simp: tx_acquire_def tx_holds_def dv_def)
qed

lemma tx_modify_ok:
  fixes s :: "'a logst_scheme"
  assumes i: "tx_inv s V L H" and h: "tx_holds s b p"
  shows "tx_inv (set_data p v s) (V(b := v)) L H \<and> tx_rest (set_data p v s) = tx_rest s \<and> disk (set_data p v s) = disk s \<and>
    (\<forall>c q. tx_holds s c q \<longrightarrow> tx_holds (set_data p v s) c q)"
proof -
  define t where "t = set_data p v s"
  have ok: "bcache_ok (lg_dev s) s" "own (lg_dev s) s b p" using i h by (simp_all add: tx_inv_def tx_holds_def)
  note S = set_data_ok [OF ok, of v, folded t_def]
  note e = cache_abs_eqD [OF S(4), simplified]
  have t: "t = s\<lparr>bufs := bufs t\<rparr>" by (simp add: t_def set_data_def upd_buf_def)
  have r: "tx_rest t = tx_rest s" "logvars t = logvars s" by (rule rest_frame [OF t], rule frameD(2) [OF t])
  note v = restD [OF r(1)] layout_cong [OF r(2)]
  have "tx_inv t (V(b := v)) L H" using i S(1) e by (simp add: tx_inv_def v)
  then show ?thesis using S(3) r(1) v e(2) by (simp add: tx_holds_def t_def [symmetric])
qed

lemma tx_append_ok:
  fixes s :: "'a logst_scheme"
  assumes i: "tx_inv s V L H" and h: "tx_holds s b p" and n: "length L < tx_room s"
  shows "\<exists>s'. log_write p s = Inr s' \<and> tx_inv s' V (if b \<in> set L then L else L @ [b]) H \<and> tx_rest s' = tx_rest s \<and> disk s' = disk s \<and>
    (\<forall>c q. tx_holds s c q \<longrightarrow> tx_holds s' c q)"
proof -
  define dv where "dv = lg_dev s"
  have I: "bcache_ok dv s" "log_layout s" "view dv s = V" "logged s = L" "1 \<le> outstanding s" "finite H"
    "\<forall>b \<in> H. \<not> in_log (lg_start s) b" "\<forall>b. blocked dv s b \<longleftrightarrow> b \<in> H"
    "\<forall>b. brefs dv s b = (if b \<in> set L then 1 else 0) + (if b \<in> H then 1 else 0)" using i by (simp_all add: tx_inv_def dv_def)
  have o: "own dv s b p" using h by (simp add: tx_holds_def dv_def)
  have l: "lh_n s = int (length L)" using log_layoutD(3) [OF I(2)] I(2,4) by (simp add: log_layout_def)
  have b: "b \<in> H" using own_at [OF I(1) o] I(8) o by (auto simp: own_def blocked_def)
  obtain s' where s': "log_write p s = Inr s'" "bcache_ok dv s'" "own dv s' b p" "written s' = written s"
    "cache_abs dv s' = (cache_abs dv s)\<lparr>ar := (brefs dv s)(b := brefs dv s b + (if b \<in> set (logged s) then 0 else 1))\<rparr>"
    "logged s' = (if b \<in> set (logged s) then logged s else logged s @ [b])" "lh_n s' = int (length (logged s'))"
    "length (lh_block s') = LOGSIZE" "lg_start s' = lg_start s" "lg_dev s' = lg_dev s" "lg_size s' = lg_size s" "outstanding s' = outstanding s"
    "committing s' = committing s" "logst.more s' = logst.more s" "\<forall>m i. own dv s m i \<longrightarrow> own dv s' m i"
    by (rule log_write_ok [OF I(2,1) o]) (use n l I(5,9) in \<open>auto simp: tx_room_def\<close>)
  note e = cache_abs_eqD [OF s'(5), simplified]
  have "length (logged s') \<le> LOGSIZE" using n I(4) by (auto simp: s'(6) tx_room_def)
  moreover have "distinct L" "\<forall>c \<in> set L. \<not> in_log (lg_start s) c" using I(2,4) by (auto simp: log_layout_def)
  ultimately have "log_layout s'" using log_layoutD(1) [OF I(2)] I(4,7) b unfolding log_layout_def s'(6-9) by auto
  then have "tx_inv s' V (if b \<in> set L then L else L @ [b]) H"
    using I s'(2,6) e b unfolding tx_inv_def s'(9,10,12) dv_def [symmetric] by auto
  moreover have "tx_rest s' = tx_rest s" using s' by (simp add: tx_rest_def)
  ultimately show ?thesis using s'(1,10,15) e(2) by (simp add: tx_holds_def dv_def)
qed

lemma tx_release_ok:
  fixes s :: "'a logst_scheme"
  assumes i: "tx_inv s V L H" and h: "tx_holds s b p" and c: "b \<in> set L \<or> V b = disk s b"
  shows "\<exists>s'. brelse p s = Inr s' \<and> tx_inv s' V L (H - {b}) \<and> tx_rest s' = tx_rest s \<and> disk s' = disk s \<and>
    (\<forall>c q. c \<noteq> b \<longrightarrow> tx_holds s c q \<longrightarrow> tx_holds s' c q)"
proof -
  define dv where "dv = lg_dev s"
  have I: "bcache_ok dv s" "log_layout s" "view dv s = V" "logged s = L" "1 \<le> outstanding s" "finite H"
    "\<forall>b \<in> H. \<not> in_log (lg_start s) b" "\<forall>b. blocked dv s b \<longleftrightarrow> b \<in> H"
    "\<forall>b. brefs dv s b = (if b \<in> set L then 1 else 0) + (if b \<in> H then 1 else 0)" using i by (simp_all add: tx_inv_def dv_def)
  have o: "own dv s b p" using h by (simp add: tx_holds_def dv_def)
  have b: "b \<in> H" using I(8) o by (auto simp: own_def blocked_def)
  obtain s' where s': "brelse p s = Inr s'" "bcache_ok dv s'" "\<forall>m i. m \<noteq> b \<longrightarrow> own dv s m i \<longrightarrow> own dv s' m i"
    "cache_abs dv s' = (cache_abs dv s)\<lparr>ar := (brefs dv s)(b := brefs dv s b - 1), al := (blocked dv s)(b := False),
       af := af (cache_abs dv s) + (if brefs dv s b = 1 then 1 else 0)\<rparr>" "s' = s\<lparr>bufs := bufs s'\<rparr>"
    by (rule brelse_ok [OF I(1) o]) (use I(3,9) c b in auto)
  note e = cache_abs_eqD [OF s'(4), simplified]
  have r: "tx_rest s' = tx_rest s" "logvars s' = logvars s" by (rule rest_frame [OF s'(5)], rule frameD(2) [OF s'(5)])
  note v = restD [OF r(1)] layout_cong [OF r(2)]
  have "tx_inv s' V L (H - {b})" using I s'(2) e b v(6) unfolding tx_inv_def v dv_def [symmetric] by auto
  then show ?thesis using s'(1,3) r(1) v e(2) by (simp add: tx_holds_def dv_def)
qed

interpretation log_store: block_store tx_acquire set_data log_write brelse tx_data tx_inv tx_holds tx_usable tx_rest disk tx_room NBUF
proof
  fix s :: "'a logst_scheme" and V L H b p
  assume i: "tx_inv s V L H"
  show "finite H" using i by (simp add: tx_inv_def)
  show "V b = disk s b" if "b \<notin> set L" "b \<notin> H"
    using i that unreferenced_clean [of "lg_dev s" s b] by (auto simp: tx_inv_def)
  assume h: "tx_holds s b p"
  show "tx_data s p = V b \<and> b \<in> H"
    using i h own_at(2) [of "lg_dev s" s b p] by (auto simp: tx_inv_def tx_holds_def tx_data_def own_def blocked_def)
next
  show "tx_usable s' = tx_usable s \<and> tx_room s' = tx_room s" if "tx_rest s' = tx_rest s" for s' s :: "'a logst_scheme"
    using restD [OF that] by (simp add: tx_usable_def tx_room_def fun_eq_iff)
qed (fact tx_acquire_ok tx_modify_ok tx_append_ok tx_release_ok)+

end
