(* ===== verification/FsAlloc.thy ===== *)
theory FsAlloc
  imports Fs Tx
begin

text \<open>
  The block allocator of \<^verbatim>\<open>kernel/fs.c\<close> inside a transaction: \<open>balloc\<close> finds a block whose bit is
  clear, sets the bit and zeroes the block, and changes nothing else.
\<close>

section \<open>Frames\<close>

lemma fs_rest:
  fixes s :: "'a fsst_scheme"
  assumes "tx_rest s' = tx_rest s"
  shows "itable s' = itable s" "sb s' = sb s" "umem_pool s' = umem_pool s" "upagetable s' = upagetable s" "cwd s' = cwd s"
    "lg_dev s' = lg_dev s" "lg_start s' = lg_start s" "tx_room s' = tx_room s" "tx_usable s' = tx_usable s"
proof -
  have "logst.more s' = logst.more s" by (rule restD(5) [OF assms])
  then show "itable s' = itable s" "sb s' = sb s" "umem_pool s' = umem_pool s" "upagetable s' = upagetable s" "cwd s' = cwd s"
    by (cases s; cases s'; simp)+
qed (use restD [OF assms] in \<open>simp_all add: tx_room_def tx_usable_def fun_eq_iff\<close>)

lemma upd_ip_cache [simp]:
  "bufs (upd_ip ip f s) = bufs s" "disk (upd_ip ip f s) = disk s" "lg_dev (upd_ip ip f s) = lg_dev s" "sb (upd_ip ip f s) = sb s"
  "lg_start (upd_ip ip f s) = lg_start s" "tx_room (upd_ip ip f s) = tx_room s" "tx_usable (upd_ip ip f s) = tx_usable s"
  "logged (upd_ip ip f s) = logged s" "log_layout (upd_ip ip f s) = log_layout s" "outstanding (upd_ip ip f s) = outstanding s"
  "itable (upd_ip ip f s) = (itable s)(ip := f (itable s ip))" "umem_pool (upd_ip ip f s) = umem_pool s"
  "upagetable (upd_ip ip f s) = upagetable s" "cwd (upd_ip ip f s) = cwd s"
  by (simp_all add: upd_ip_def tx_room_def tx_usable_def logged_def log_layout_def fun_eq_iff)

lemma tx_upd_ip [simp]: "tx_inv (upd_ip ip f s) V L H = tx_inv s V L H" "tx_holds (upd_ip ip f s) = tx_holds s"
proof -
  have c: "cache_abs dv (upd_ip ip f s) = cache_abs dv s" "bcache_ok dv (upd_ip ip f s) = bcache_ok dv s" for dv
    using cache_cong [of "upd_ip ip f s" s dv] by simp_all
  note e = cache_abs_eqD [OF c(1), simplified]
  show "tx_inv (upd_ip ip f s) V L H = tx_inv s V L H" by (simp add: tx_inv_def c(2) e)
  show "tx_holds (upd_ip ip f s) = tx_holds s" by (simp add: tx_holds_def own_def fun_eq_iff)
qed

section \<open>The bitmap\<close>

lemma bitmap_set_bitmap:
  "bitmap_bit (set_bitmap d i v) j \<longleftrightarrow> (if i = j then v else bitmap_bit d j)"
proof (cases "i div 8 = j div 8")
  case True
  have b: "i mod 8 < 8" "j mod 8 < 8" by auto
  have "i = j \<longleftrightarrow> i mod 8 = j mod 8" using True by (metis div_mult_mod_eq)
  then show ?thesis using True b by (auto simp: bitmap_bit_def set_bitmap_def bit_simps)
next
  case False
  then show ?thesis by (auto simp: bitmap_bit_def set_bitmap_def)
qed

definition in_use :: "superblock \<Rightarrow> (u32 \<Rightarrow> block) \<Rightarrow> u32 \<Rightarrow> bool" where
  "in_use x V b \<longleftrightarrow> bitmap_bit (V (BBLOCK b x)) (unat b mod BPB)"

text \<open>
  The geometry that \<^verbatim>\<open>mkfs\<close> lays out: bitmap and inode blocks lie outside the log, and the blocks of
  the bitmap and of the inodes and block 0 are marked in use.
\<close>

definition bitmap_blocks :: "superblock \<Rightarrow> u32 set" where
  "bitmap_blocks x = {BBLOCK b x | b. unat b < unat (sb_size x)}"

definition inode_blocks :: "superblock \<Rightarrow> u32 set" where
  "inode_blocks x = {IBLOCK i x | i. unat i < unat (sb_ninodes x)}"

definition meta :: "superblock \<Rightarrow> u32 set" where
  "meta x = bitmap_blocks x \<union> inode_blocks x"

definition geometry :: "'a fsst_scheme \<Rightarrow> bool" where
  "geometry s \<longleftrightarrow> unat (sb_size (sb s)) + BPB < 2 ^ 32 \<and> unat (sb_bmapstart (sb s)) + unat (sb_size (sb s)) div BPB < 2 ^ 32 \<and>
     (\<forall>b \<in> meta (sb s). tx_usable s b) \<and> bitmap_blocks (sb s) \<inter> inode_blocks (sb s) = {}"

definition free_ok :: "'a fsst_scheme \<Rightarrow> (u32 \<Rightarrow> block) \<Rightarrow> bool" where
  "free_ok s V \<longleftrightarrow> (\<forall>b. unat b < unat (sb_size (sb s)) \<longrightarrow> \<not> in_use (sb s) V b \<longrightarrow> tx_usable s b \<and> b \<notin> meta (sb s) \<and> b \<noteq> 0)"

lemma unat_u32: "unat (x :: u32) < 2 ^ 32"
proof -
  have "unat x < 2 ^ LENGTH(32)" by (rule unsigned_less)
  then show ?thesis by simp
qed

lemma div_u32: "n < 2 ^ 32 \<Longrightarrow> n div BPB < (2 ^ 32 :: nat)"
  by (rule le_less_trans [OF div_le_dividend])

lemma unat_nat32: "n < 2 ^ 32 \<Longrightarrow> unat (of_nat n :: u32) = n"
  by (simp add: unat_of_nat_small)

lemma BBLOCK_nat:
  assumes "n < 2 ^ 32"
  shows "BBLOCK (of_nat n) x = of_nat (n div BPB) + sb_bmapstart x"
proof -
  have "unat (of_nat n div of_nat BPB :: u32) = n div BPB" using assms by (simp add: unat_div unat_of_nat BPB_def)
  moreover have "unat (of_nat (n div BPB) :: u32) = n div BPB"
    using div_u32 [OF assms] by (rule unat_nat32)
  ultimately have "(of_nat n div of_nat BPB :: u32) = of_nat (n div BPB)" by (simp add: word_unat_eq_iff)
  then show ?thesis by (simp add: BBLOCK_def)
qed

lemma BBLOCK_eq:
  assumes "geometry s" "unat a < unat (sb_size (sb s))" "unat b < unat (sb_size (sb s))"
  shows "BBLOCK a (sb s) = BBLOCK b (sb s) \<longleftrightarrow> unat a div BPB = unat b div BPB"
proof -
  have a: "BBLOCK a (sb s) = of_nat (unat a div BPB) + sb_bmapstart (sb s)" for a
    using BBLOCK_nat [of "unat a" "sb s"] unat_u32 [of a] by simp
  have "unat x div BPB < 2 ^ 32" for x :: u32 by (rule div_u32 [OF unat_u32])
  then have "(of_nat (unat a div BPB) :: u32) = of_nat (unat b div BPB) \<longleftrightarrow> unat a div BPB = unat b div BPB"
    by (metis unat_nat32)
  then show ?thesis by (simp add: a)
qed

text \<open>Setting or clearing the bit of \<open>a\<close> changes only the state of \<open>a\<close>.\<close>

lemma in_use_set_bitmap:
  assumes g: "geometry s" and "unat a < unat (sb_size (sb s))" "unat b < unat (sb_size (sb s))"
  shows "in_use (sb s) (V(BBLOCK a (sb s) := set_bitmap (V (BBLOCK a (sb s))) (unat a mod BPB) v)) b \<longleftrightarrow>
    (if b = a then v else in_use (sb s) V b)"
proof (cases "BBLOCK b (sb s) = BBLOCK a (sb s)")
  case True
  then have "unat a div BPB = unat b div BPB" using BBLOCK_eq [OF g assms(3,2)] by simp
  then have "unat a mod BPB = unat b mod BPB \<longleftrightarrow> unat a = unat b" by (metis div_mult_mod_eq)
  then have "unat a mod BPB = unat b mod BPB \<longleftrightarrow> a = b" by (simp add: word_unat_eq_iff)
  then show ?thesis using True by (auto simp: in_use_def bitmap_set_bitmap)
next
  case False
  then show ?thesis by (auto simp: in_use_def)
qed

section \<open>Allocation\<close>

lemma tx_acquire_bread: "dv = lg_dev s \<Longrightarrow> bread dv b s = tx_acquire b s"
  by (simp add: tx_acquire_def)

lemma tx_data_bufs: "b_data (bufs s p) = tx_data s p"
  by (simp add: tx_data_def)

lemmas tx_fold = tx_acquire_bread tx_data_bufs

lemma bzero_ok:
  fixes s :: "'a fsst_scheme"
  assumes "tx_inv s V L H" "tx_usable s b" "b \<notin> H" "card (set L \<union> H) < NBUF" "length L < tx_room s" "dv = lg_dev s"
  obtains s' where "bzero dv b s = Inr s'" "tx_inv s' (V(b := fill (V b) 0 0 BSIZE)) (if b \<in> set L then L else L @ [b]) H"
    "tx_rest s' = tx_rest s" "disk s' = disk s" "\<forall>c q. tx_holds s c q \<longrightarrow> tx_holds s' c q"
proof -
  obtain p s1 s2 s3 where u: "tx_acquire b s = Inr (p, s1)" "tx_data s1 p = V b" "tx_rest s1 = tx_rest s"
    "log_write p (set_data p (fill (V b) 0 0 BSIZE) s1) = Inr s2" "brelse p s2 = Inr s3"
    "tx_inv s3 (V(b := fill (V b) 0 0 BSIZE)) (if b \<in> set L then L else L @ [b]) H" "tx_rest s3 = tx_rest s" "disk s3 = disk s"
    "\<forall>c q. tx_holds s c q \<longrightarrow> tx_holds s3 c q"
    by (rule log_store.update_block [OF assms(1-5)])
  have "bzero dv b s = Inr s3" using u(1,2,4,5) by (simp add: bzero_def tx_fold assms(6))
  then show ?thesis using that u by blast
qed

definition add_log :: "u32 \<Rightarrow> u32 list \<Rightarrow> u32 list" where
  "add_log b L = (if b \<in> set L then L else L @ [b])"

lemma add_log [simp]: "set (add_log b L) = insert b (set L)" "length (add_log b L) \<le> Suc (length L)" "length L \<le> length (add_log b L)"
  by (auto simp: add_log_def)

text \<open>What is left of the state and the log when \<open>balloc\<close> has handed out block \<open>a\<close>.\<close>

definition balloc_view :: "superblock \<Rightarrow> u32 \<Rightarrow> (u32 \<Rightarrow> block) \<Rightarrow> u32 \<Rightarrow> block" where
  "balloc_view x a V = V(BBLOCK a x := set_bitmap (V (BBLOCK a x)) (unat a mod BPB) True, a := fill (V a) 0 0 BSIZE)"

definition balloc_spec :: "'a fsst_scheme \<Rightarrow> (u32 \<Rightarrow> block) \<Rightarrow> u32 list \<Rightarrow> u32 set \<Rightarrow> u32 \<Rightarrow> 'a fsst_scheme \<Rightarrow> bool" where
  "balloc_spec s V L H a s' \<longleftrightarrow> tx_rest s' = tx_rest s \<and> disk s' = disk s \<and> (\<forall>c q. tx_holds s c q \<longrightarrow> tx_holds s' c q) \<and>
     (if a = 0 then tx_inv s' V L H
      else unat a < unat (sb_size (sb s)) \<and> \<not> in_use (sb s) V a \<and>
        tx_inv s' (balloc_view (sb s) a V) (add_log a (add_log (BBLOCK a (sb s)) L)) H)"

lemma balloc_scanD:
  shows "balloc_scan d b sz = Some i \<Longrightarrow> i < BPB \<and> b + i < sz \<and> \<not> bitmap_bit d i"
    and "balloc_scan d b sz = None \<Longrightarrow> i < BPB \<Longrightarrow> b + i < sz \<Longrightarrow> bitmap_bit d i"
  by (auto simp: balloc_scan_def find_Some_iff find_None_iff)

lemma bitmap_usable:
  assumes "geometry s" "n < unat (sb_size (sb s))"
  shows "tx_usable s (BBLOCK (of_nat n) (sb s))" "BBLOCK (of_nat n) (sb s) \<in> bitmap_blocks (sb s)"
    "unat (of_nat n :: u32) = n"
proof -
  show "unat (of_nat n :: u32) = n" using assms unat_u32 [of "sb_size (sb s)"] by (intro unat_nat32) simp
  then show *: "BBLOCK (of_nat n) (sb s) \<in> bitmap_blocks (sb s)" using assms(2) by (auto simp: bitmap_blocks_def)
  show "tx_usable s (BBLOCK (of_nat n) (sb s))" using assms(1) * by (auto simp: geometry_def meta_def)
qed

lemma geometry_rest: "tx_rest s' = tx_rest s \<Longrightarrow> geometry s' = geometry s \<and> free_ok s' V = free_ok s V"
  using fs_rest [of s' s] by (simp add: geometry_def free_ok_def)

lemma balloc_found:
  fixes s :: "'a fsst_scheme"
  assumes i: "tx_inv s1 V L (insert bm H)" "tx_holds s1 bm p" "bm \<notin> H" and r: "tx_rest s1 = tx_rest s" and dv: "dv = lg_dev s"
    and g: "geometry s" "free_ok s V" and n: "n < unat (sb_size (sb s))" "bm = BBLOCK (of_nat n) (sb s)" "\<not> in_use (sb s) V (of_nat n)"
    and H: "\<forall>b \<in> H. unat b < unat (sb_size (sb s)) \<longrightarrow> in_use (sb s) V b"
    and c: "card (set L \<union> H) + 1 < NBUF" "length L + 1 < tx_room s"
  obtains s2 s3 s4 where "log_write p (set_data p (set_bitmap (V bm) (n mod BPB) True) s1) = Inr s2" "brelse p s2 = Inr s3"
    "bzero dv (of_nat n) s3 = Inr s4" "tx_inv s4 (balloc_view (sb s) (of_nat n) V) (add_log (of_nat n) (add_log bm L)) H"
    "tx_rest s4 = tx_rest s" "disk s4 = disk s1" "\<forall>c q. c \<noteq> bm \<longrightarrow> tx_holds s1 c q \<longrightarrow> tx_holds s4 c q" "of_nat n \<noteq> (0 :: u32)"
proof -
  define a where "a = (of_nat n :: u32)"
  have a: "unat a = n" using bitmap_usable(3) [OF g(1) n(1)] by (simp add: a_def)
  have fa: "tx_usable s a" "a \<notin> meta (sb s)" "a \<noteq> 0" using g(2) n(1,3) a by (simp_all add: free_ok_def a_def)
  have aH: "a \<notin> H" using H n(1,3) a by (auto simp: a_def)
  have am: "a \<noteq> bm" using fa(2) bitmap_usable(2) [OF g(1) n(1)] n(2) by (auto simp: meta_def)
  define W where "W = V(bm := set_bitmap (V bm) (n mod BPB) True)"
  have "length L < tx_room s1" using c(2) fs_rest(8) [OF r] by simp
  then obtain s2 where 2: "log_write p (set_data p (set_bitmap (V bm) (n mod BPB) True) s1) = Inr s2"
    "tx_inv s2 W (if bm \<in> set L then L else L @ [bm]) (insert bm H)" "tx_rest s2 = tx_rest s1" "disk s2 = disk s1"
    "\<forall>c q. tx_holds s1 c q \<longrightarrow> tx_holds s2 c q" unfolding W_def by (rule log_store.change_block [OF i(1,2)])
  note i2 = 2(2) [folded add_log_def]
  have "tx_holds s2 bm p" using 2(5) i(2) by blast
  then obtain s3 where 3: "brelse p s2 = Inr s3" "tx_inv s3 W (add_log bm L) H" "tx_rest s3 = tx_rest s2" "disk s3 = disk s2"
    "\<forall>c q. c \<noteq> bm \<longrightarrow> tx_holds s2 c q \<longrightarrow> tx_holds s3 c q" by (rule log_store.close_block [OF i2 i(3)]) simp
  have r3: "tx_rest s3 = tx_rest s" using 3(3) 2(3) r by simp
  note f3 = fs_rest [OF r3]
  have fH: "finite H" using log_store.inv_finite [OF 3(2)] .
  have "card (set (add_log bm L) \<union> H) \<le> card (set L \<union> H) + 1" using fH by (simp add: card_insert_le_m1 card_insert_if)
  then have c3: "card (set (add_log bm L) \<union> H) < NBUF" using c(1) by simp
  have l3: "length (add_log bm L) < tx_room s3" by (rule le_less_trans [OF add_log(2)]) (use c(2) f3(8) in simp)
  have u3: "tx_usable s3 a" using fa(1) f3(9) by simp
  obtain s4 where 4: "bzero dv a s3 = Inr s4" "tx_inv s4 (W(a := fill (W a) 0 0 BSIZE)) (if a \<in> set (add_log bm L) then add_log bm L else add_log bm L @ [a]) H"
    "tx_rest s4 = tx_rest s3" "disk s4 = disk s3" "\<forall>c q. tx_holds s3 c q \<longrightarrow> tx_holds s4 c q"
    by (rule bzero_ok [OF 3(2) u3 aH c3 l3, of dv]) (simp add: dv f3)
  have "W(a := fill (W a) 0 0 BSIZE) = balloc_view (sb s) a V"
    using am n(2) by (simp add: W_def balloc_view_def a_def [symmetric] a)
  then have i4: "tx_inv s4 (balloc_view (sb s) a V) (add_log a (add_log bm L)) H" using 4(2) by (simp add: add_log_def [of a])
  show ?thesis
  proof (rule that [OF 2(1) 3(1) 4(1) [unfolded a_def] i4 [unfolded a_def]])
    show "tx_rest s4 = tx_rest s" using 4(3) r3 by simp
    show "disk s4 = disk s1" using 4(4) 3(4) 2(4) by simp
    show "\<forall>c q. c \<noteq> bm \<longrightarrow> tx_holds s1 c q \<longrightarrow> tx_holds s4 c q" using 2(5) 3(5) 4(5) by blast
    show "of_nat n \<noteq> (0 :: u32)" using fa(3) by (simp add: a_def)
  qed
qed

text \<open>The loop over the bitmap blocks, from block \<open>k\<close> of the bitmap on.\<close>

definition nbitmap :: "superblock \<Rightarrow> nat" where
  "nbitmap x = (unat (sb_size x) + BPB - 1) div BPB"

definition alloc_pre :: "'a fsst_scheme \<Rightarrow> (u32 \<Rightarrow> block) \<Rightarrow> u32 list \<Rightarrow> u32 set \<Rightarrow> bool" where
  "alloc_pre s V L H \<longleftrightarrow> geometry s \<and> free_ok s V \<and> H \<inter> bitmap_blocks (sb s) = {} \<and>
     (\<forall>b \<in> H. unat b < unat (sb_size (sb s)) \<longrightarrow> in_use (sb s) V b) \<and>
     card (set L \<union> H) + 1 < NBUF \<and> length L + 1 < tx_room s"

lemma alloc_pre_rest: "tx_rest s' = tx_rest s \<Longrightarrow> alloc_pre s' V L H = alloc_pre s V L H"
  using fs_rest [of s' s] geometry_rest [of s' s V] by (simp add: alloc_pre_def)

lemma nbitmap_less: "k < nbitmap x \<longleftrightarrow> k * BPB < unat (sb_size x)"
proof -
  have "k < (n + BPB - 1) div BPB \<longleftrightarrow> k * BPB < n" for n
    by (simp add: BPB_def less_eq_div_iff_mult_less_eq [of 8192, symmetric] Suc_le_eq [symmetric]) (auto simp: less_eq_div_iff_mult_less_eq)
  then show ?thesis by (simp add: nbitmap_def)
qed

lemma balloc_loop_ok:
  fixes s :: "'a fsst_scheme"
  assumes "tx_inv s V L H" "alloc_pre s V L H" "dv = lg_dev s" "k + m = nbitmap (sb s)"
  shows "\<exists>a s'. balloc_loop dv m (k * BPB) s = Inr (a, s') \<and> balloc_spec s V L H a s' \<and>
    (a = 0 \<longrightarrow> (\<forall>n. k * BPB \<le> n \<longrightarrow> n < unat (sb_size (sb s)) \<longrightarrow> in_use (sb s) V (of_nat n)))"
  using assms
proof (induction m arbitrary: k s)
  case 0
  have "\<not> k * BPB < unat (sb_size (sb s))" using nbitmap_less [of k "sb s"] 0(4) by simp
  then show ?case using 0 by (simp add: balloc_spec_def)
next
  case (Suc m)
  define sz where "sz = unat (sb_size (sb s))"
  define b where "b = k * BPB"
  define bm where "bm = BBLOCK (of_nat b) (sb s)"
  have A: "geometry s" "free_ok s V" "H \<inter> bitmap_blocks (sb s) = {}" "\<forall>b \<in> H. unat b < sz \<longrightarrow> in_use (sb s) V b"
    "card (set L \<union> H) + 1 < NBUF" "length L + 1 < tx_room s" using Suc.prems(2) by (simp_all add: alloc_pre_def sz_def)
  have bs: "b < sz" using nbitmap_less [of k "sb s"] Suc.prems(4) by (simp add: b_def sz_def)
  note U = bitmap_usable [OF A(1) bs [unfolded sz_def], folded bm_def]
  have bH: "bm \<notin> H" using A(3) U(2) by auto
  have cH: "card (set L \<union> H) < NBUF" using A(5) by simp
  obtain p s1 where 1: "tx_acquire bm s = Inr (p, s1)" "tx_data s1 p = V bm" "tx_inv s1 V L (insert bm H)" "tx_holds s1 bm p"
    "tx_rest s1 = tx_rest s" "disk s1 = disk s" "\<forall>c q. tx_holds s c q \<longrightarrow> tx_holds s1 c q" "bm \<in> set L \<or> V bm = disk s1 bm"
    by (rule log_store.read_block [OF Suc.prems(1) U(1) bH cH])
  note f1 = fs_rest [OF 1(5)]
  have hs: "c \<noteq> bm" if "tx_holds s c q" for c q using log_store.data [OF Suc.prems(1) that] bH by auto
  have size32: "sz < 2 ^ 32" using unat_u32 by (simp add: sz_def)
  have at: "BBLOCK (of_nat n) (sb s) = bm \<and> (in_use (sb s) V (of_nat n) \<longleftrightarrow> bitmap_bit (V bm) (n - b))"
    if n: "b \<le> n" "n < b + BPB" "n < sz" for n
  proof -
    have "n div BPB = k" "n mod BPB = n - b"
      using n(1,2) by (simp_all add: b_def div_nat_eqI mod_nat_eqI mult.commute)
    moreover have "b div BPB = k" by (simp add: b_def BPB_def)
    moreover have "BBLOCK (of_nat n) (sb s) = of_nat (n div BPB) + sb_bmapstart (sb s)" using n(3) size32 by (intro BBLOCK_nat) simp
    moreover have "bm = of_nat (b div BPB) + sb_bmapstart (sb s)" unfolding bm_def using bs size32 by (intro BBLOCK_nat) simp
    moreover have "unat (of_nat n :: u32) = n" using n(3) size32 by (intro unat_nat32) simp
    ultimately show ?thesis by (simp add: in_use_def)
  qed
  show ?case
  proof (cases "balloc_scan (V bm) b sz")
    case (Some i)
    note S = balloc_scanD(1) [OF Some]
    have n: "b + i < unat (sb_size (sb s))" using S by (simp add: sz_def)
    have ib: "(b + i) mod BPB = i" using S by (simp add: b_def)
    have ai: "bm = BBLOCK (of_nat (b + i)) (sb s)" "\<not> in_use (sb s) V (of_nat (b + i))" using at [of "b + i"] S by simp_all
    obtain s2 s3 s4 where 4: "log_write p (set_data p (set_bitmap (V bm) ((b + i) mod BPB) True) s1) = Inr s2" "brelse p s2 = Inr s3"
      "bzero dv (of_nat (b + i)) s3 = Inr s4" "tx_inv s4 (balloc_view (sb s) (of_nat (b + i)) V) (add_log (of_nat (b + i)) (add_log bm L)) H"
      "tx_rest s4 = tx_rest s" "disk s4 = disk s1" "\<forall>c q. c \<noteq> bm \<longrightarrow> tx_holds s1 c q \<longrightarrow> tx_holds s4 c q" "of_nat (b + i) \<noteq> (0 :: u32)"
      by (rule balloc_found [OF 1(3,4) bH 1(5) Suc.prems(3) A(1,2) n ai A(4) [unfolded sz_def] A(5,6)])
    have "balloc_loop dv (Suc m) (k * BPB) s = Inr (of_nat (b + i), s4)"
      using 1(1,2) 4(1-3) Some Suc.prems(3) f1(2) by (simp add: tx_fold bm_def [symmetric] b_def [symmetric] sz_def ib)
    moreover have "balloc_spec s V L H (of_nat (b + i)) s4"
      using 4 1(6,7) hs n bitmap_usable(3) [OF A(1) n] ai by (auto simp: balloc_spec_def)
    ultimately show ?thesis using 4(8) by blast
  next
    case None
    obtain s2 where 2: "brelse p s1 = Inr s2" "tx_inv s2 V L H" "tx_rest s2 = tx_rest s1" "disk s2 = disk s1"
      "\<forall>c q. c \<noteq> bm \<longrightarrow> tx_holds s1 c q \<longrightarrow> tx_holds s2 c q" by (rule log_store.close_block [OF 1(3) bH 1(4,8)])
    have r2: "tx_rest s2 = tx_rest s" using 2(3) 1(5) by simp
    note f2 = fs_rest [OF r2]
    have "\<exists>a s'. balloc_loop dv m (Suc k * BPB) s2 = Inr (a, s') \<and> balloc_spec s2 V L H a s' \<and>
      (a = 0 \<longrightarrow> (\<forall>n. Suc k * BPB \<le> n \<longrightarrow> n < unat (sb_size (sb s2)) \<longrightarrow> in_use (sb s2) V (of_nat n)))"
      by (rule Suc.IH [OF 2(2)]) (use Suc.prems(2-4) alloc_pre_rest [OF r2] f2 in auto)
    then obtain a s' where a: "balloc_loop dv m (b + BPB) s2 = Inr (a, s')" "balloc_spec s2 V L H a s'"
      "a = 0 \<longrightarrow> (\<forall>n. b + BPB \<le> n \<longrightarrow> n < sz \<longrightarrow> in_use (sb s) V (of_nat n))" by (auto simp: b_def sz_def f2 add.commute)
    have "balloc_loop dv (Suc m) (k * BPB) s = Inr (a, s')"
      using 1(1,2) 2(1) a(1) None Suc.prems(3) f1(2) by (simp add: tx_fold bm_def [symmetric] b_def [symmetric] sz_def)
    moreover have "balloc_spec s V L H a s'" using a(2) r2 2(4,5) 1(6,7) hs f2 by (auto simp: balloc_spec_def)
    moreover have "in_use (sb s) V (of_nat n)" if "a = 0" "b \<le> n" "n < sz" for n
      using a(3) that at [of n] balloc_scanD(2) [OF None, of "n - b"] by (cases "n < b + BPB") auto
    ultimately show ?thesis by (auto simp: b_def sz_def)
  qed
qed

lemma balloc_ok:
  fixes s :: "'a fsst_scheme"
  assumes "tx_inv s V L H" "alloc_pre s V L H" "dv = lg_dev s"
  obtains a s' where "balloc dv s = Inr (a, s')" "balloc_spec s V L H a s'"
    "a = 0 \<longrightarrow> (\<forall>b. unat b < unat (sb_size (sb s)) \<longrightarrow> in_use (sb s) V b)"
proof -
  obtain a s' where a: "balloc dv s = Inr (a, s')" "balloc_spec s V L H a s'"
    "a = 0 \<longrightarrow> (\<forall>n. n < unat (sb_size (sb s)) \<longrightarrow> in_use (sb s) V (of_nat n))"
    using balloc_loop_ok [OF assms, of 0 "nbitmap (sb s)"] by (auto simp: balloc_def nbitmap_def)
  have "in_use (sb s) V b" if "a = 0" "unat b < unat (sb_size (sb s))" for b
    using a(3) that by (metis of_nat_unat ucast_id)
  then show ?thesis using that a(1,2) by blast
qed

lemma in_use_balloc:
  assumes g: "geometry s" and a: "unat a < unat (sb_size (sb s))" "a \<notin> meta (sb s)" and b: "unat b < unat (sb_size (sb s))"
  shows "in_use (sb s) (balloc_view (sb s) a V) b \<longleftrightarrow> b = a \<or> in_use (sb s) V b"
proof -
  have "BBLOCK b (sb s) \<noteq> a" using a(2) b by (auto simp: meta_def bitmap_blocks_def)
  then have "in_use (sb s) (balloc_view (sb s) a V) b \<longleftrightarrow>
    in_use (sb s) (V(BBLOCK a (sb s) := set_bitmap (V (BBLOCK a (sb s))) (unat a mod BPB) True)) b"
    by (simp add: in_use_def balloc_view_def)
  then show ?thesis using in_use_set_bitmap [OF g a(1) b] by simp
qed

lemma free_ok_balloc:
  assumes "geometry s" "free_ok s V" "unat a < unat (sb_size (sb s))" "a \<notin> meta (sb s)"
  shows "free_ok s (balloc_view (sb s) a V)"
  using assms in_use_balloc [OF assms(1,3,4)] by (simp add: free_ok_def)

end
