(* ===== verification/FsMap.thy ===== *)
theory FsMap
  imports FsAlloc
begin

text \<open>
  The block map of an inode (\<open>bmap\<close> in \<^verbatim>\<open>kernel/fs.c\<close>) as a function from the index of a block in
  the file to the number of a disk block, and the effect of \<open>bmap\<close> on it: it adds zeroed
  blocks that no one used, and keeps all others with their contents.
\<close>

section \<open>The blocks of a file\<close>

definition fblk :: "(u32 \<Rightarrow> block) \<Rightarrow> inode \<Rightarrow> nat \<Rightarrow> u32" where
  "fblk V x n = (if n < NDIRECT then i_addrs x n
     else if i_addrs x NDIRECT = 0 then 0 else get32 (V (i_addrs x NDIRECT)) (4 * (n - NDIRECT)))"

definition fblks :: "(u32 \<Rightarrow> block) \<Rightarrow> inode \<Rightarrow> u32 set" where
  "fblks V x = (insert (i_addrs x NDIRECT) (fblk V x ` {..<MAXFILE})) - {0}"

definition data_blk :: "'a fsst_scheme \<Rightarrow> (u32 \<Rightarrow> block) \<Rightarrow> u32 \<Rightarrow> bool" where
  "data_blk s V a \<longleftrightarrow> unat a < unat (sb_size (sb s)) \<and> in_use (sb s) V a \<and> tx_usable s a \<and> a \<notin> meta (sb s)"

definition file_ok :: "'a fsst_scheme \<Rightarrow> (u32 \<Rightarrow> block) \<Rightarrow> inode \<Rightarrow> bool" where
  "file_ok s V x \<longleftrightarrow> (\<forall>a \<in> fblks V x. data_blk s V a) \<and>
     (\<forall>m < MAXFILE. \<forall>n < MAXFILE. fblk V x m = fblk V x n \<longrightarrow> fblk V x m \<noteq> 0 \<longrightarrow> m = n) \<and>
     (\<forall>m < MAXFILE. fblk V x m \<noteq> 0 \<longrightarrow> fblk V x m \<noteq> i_addrs x NDIRECT)"

lemma file_okD:
  assumes "file_ok s V x"
  shows "a \<in> fblks V x \<Longrightarrow> data_blk s V a" "m < MAXFILE \<Longrightarrow> n < MAXFILE \<Longrightarrow> fblk V x m = fblk V x n \<Longrightarrow> fblk V x m \<noteq> 0 \<Longrightarrow> m = n"
    "m < MAXFILE \<Longrightarrow> fblk V x m \<noteq> 0 \<Longrightarrow> fblk V x m \<noteq> i_addrs x NDIRECT"
    "m < MAXFILE \<Longrightarrow> fblk V x m \<noteq> 0 \<Longrightarrow> fblk V x m \<in> fblks V x" "i_addrs x NDIRECT \<noteq> 0 \<Longrightarrow> i_addrs x NDIRECT \<in> fblks V x"
  using assms by (auto simp: file_ok_def fblks_def)

lemma fblk_cong:
  assumes "\<forall>a \<in> fblks V x. V' a = V a"
  shows "fblk V' x = fblk V x"
proof
  fix n
  have "i_addrs x NDIRECT \<noteq> 0 \<longrightarrow> V' (i_addrs x NDIRECT) = V (i_addrs x NDIRECT)" using assms by (simp add: fblks_def)
  then show "fblk V' x n = fblk V x n" by (auto simp: fblk_def)
qed

lemma fblks_cong: "fblk V' x = fblk V x \<Longrightarrow> fblks V' x = fblks V x"
  by (simp add: fblks_def)

text \<open>What stays the same when the file of \<open>ip\<close> grows.\<close>

definition fs_frame :: "nat \<Rightarrow> 'a fsst_scheme \<Rightarrow> 'a fsst_scheme \<Rightarrow> bool" where
  "fs_frame ip s s' \<longleftrightarrow> lg_dev s' = lg_dev s \<and> lg_start s' = lg_start s \<and> sb s' = sb s \<and> disk s' = disk s \<and> umem_pool s' = umem_pool s \<and>
     upagetable s' = upagetable s \<and> tx_room s' = tx_room s \<and> tx_usable s' = tx_usable s \<and> (\<forall>j. j \<noteq> ip \<longrightarrow> itable s' j = itable s j) \<and>
     (\<exists>A. itable s' ip = (itable s ip)\<lparr>i_addrs := A\<rparr>)"

definition grows :: "nat \<Rightarrow> 'a fsst_scheme \<Rightarrow> (u32 \<Rightarrow> block) \<Rightarrow> 'a fsst_scheme \<Rightarrow> (u32 \<Rightarrow> block) \<Rightarrow> bool" where
  "grows ip s V s' V' \<longleftrightarrow> fs_frame ip s s' \<and> free_ok s' V' \<and> file_ok s' V' (itable s' ip) \<and>
     fblks V (itable s ip) \<subseteq> fblks V' (itable s' ip) \<and>
     (\<forall>m < MAXFILE. fblk V (itable s ip) m \<noteq> 0 \<longrightarrow>
        fblk V' (itable s' ip) m = fblk V (itable s ip) m \<and> V' (fblk V (itable s ip) m) = V (fblk V (itable s ip) m)) \<and>
     (\<forall>m < MAXFILE. fblk V (itable s ip) m = 0 \<longrightarrow> fblk V' (itable s' ip) m \<noteq> 0 \<longrightarrow>
        (\<forall>k < BSIZE. V' (fblk V' (itable s' ip) m) k = 0)) \<and>
     (\<forall>b. unat b < unat (sb_size (sb s)) \<longrightarrow> in_use (sb s) V b \<longrightarrow> in_use (sb s) V' b) \<and>
     (\<forall>c. c \<notin> fblks V' (itable s' ip) \<longrightarrow> c \<notin> bitmap_blocks (sb s) \<longrightarrow> V' c = V c)"

lemma fs_frame_rest: "tx_rest s' = tx_rest s \<Longrightarrow> disk s' = disk s \<Longrightarrow> fs_frame ip s s'"
proof -
  assume r: "tx_rest s' = tx_rest s" "disk s' = disk s"
  have "\<exists>A. itable s ip = (itable s ip)\<lparr>i_addrs := A\<rparr>" by (rule exI [of _ "i_addrs (itable s ip)"]) simp
  then show ?thesis using fs_rest [OF r(1)] r(2) by (simp add: fs_frame_def)
qed

lemma fs_frame_refl: "fs_frame ip s s"
  by (rule fs_frame_rest) simp_all

lemma fs_frame_trans: "fs_frame ip s t \<Longrightarrow> fs_frame ip t u \<Longrightarrow> fs_frame ip s u"
  by (auto simp: fs_frame_def)

lemma growsD:
  assumes "grows ip s V s' V'"
  shows "fs_frame ip s s'" "free_ok s' V'" "file_ok s' V' (itable s' ip)" "fblks V (itable s ip) \<subseteq> fblks V' (itable s' ip)"
    "m < MAXFILE \<Longrightarrow> fblk V (itable s ip) m \<noteq> 0 \<Longrightarrow> fblk V' (itable s' ip) m = fblk V (itable s ip) m"
    "m < MAXFILE \<Longrightarrow> fblk V (itable s ip) m \<noteq> 0 \<Longrightarrow> V' (fblk V (itable s ip) m) = V (fblk V (itable s ip) m)"
    "m < MAXFILE \<Longrightarrow> fblk V (itable s ip) m = 0 \<Longrightarrow> fblk V' (itable s' ip) m \<noteq> 0 \<Longrightarrow> k < BSIZE \<Longrightarrow> V' (fblk V' (itable s' ip) m) k = 0"
    "unat b < unat (sb_size (sb s)) \<Longrightarrow> in_use (sb s) V b \<Longrightarrow> in_use (sb s) V' b"
    "c \<notin> fblks V' (itable s' ip) \<Longrightarrow> c \<notin> bitmap_blocks (sb s) \<Longrightarrow> V' c = V c"
  using assms by (auto simp: grows_def)

lemma file_grows_refl: "free_ok s V \<Longrightarrow> file_ok s V (itable s ip) \<Longrightarrow> grows ip s V s V"
  by (simp add: grows_def fs_frame_refl)

lemma file_grows_trans:
  assumes 1: "grows ip s V t W" and 2: "grows ip t W u X"
  shows "grows ip s V u X"
proof -
  note D = growsD [OF 1] and E = growsD [OF 2]
  have sb: "sb t = sb s" using D(1) by (simp add: fs_frame_def)
  have "fblk X (itable u ip) m = fblk V (itable s ip) m \<and> X (fblk V (itable s ip) m) = V (fblk V (itable s ip) m)"
    if "m < MAXFILE" "fblk V (itable s ip) m \<noteq> 0" for m
    using D(5,6) [OF that] E(5,6) [OF that(1)] that(2) by simp
  moreover have "X (fblk X (itable u ip) m) k = 0"
    if "m < MAXFILE" "fblk V (itable s ip) m = 0" "fblk X (itable u ip) m \<noteq> 0" "k < BSIZE" for m k
  proof (cases "fblk W (itable t ip) m = 0")
    case True
    then show ?thesis using E(7) that by blast
  next
    case False
    then show ?thesis using E(5,6) [OF that(1) False] D(7) [OF that(1,2) False that(4)] by simp
  qed
  moreover have "X c = V c" if "c \<notin> fblks X (itable u ip)" "c \<notin> bitmap_blocks (sb s)" for c
    using that E(4,9) D(9) by (metis sb subsetD)
  ultimately show ?thesis
    using fs_frame_trans [OF D(1) E(1)] D(4,8) E(2,3,4,8) unfolding grows_def sb by blast
qed

section \<open>Adding a block\<close>

text \<open>The state in which a file operation runs.\<close>

definition file_ctx :: "nat \<Rightarrow> 'a fsst_scheme \<Rightarrow> (u32 \<Rightarrow> block) \<Rightarrow> u32 list \<Rightarrow> bool" where
  "file_ctx ip s V L \<longleftrightarrow> tx_inv s V L {} \<and> geometry s \<and> free_ok s V \<and> file_ok s V (itable s ip) \<and> i_dev (itable s ip) = lg_dev s"

definition log_space :: "'a fsst_scheme \<Rightarrow> u32 list \<Rightarrow> nat \<Rightarrow> bool" where
  "log_space s L n \<longleftrightarrow> length L + n < tx_room s \<and> length L + n < NBUF"

lemma fblk_zero_block:
  assumes "\<forall>k < BSIZE. d k = 0" "n < NINDIRECT"
  shows "get32 d (4 * n) = 0"
  using assms by (simp add: get32_def BSIZE_def NINDIRECT_def)

lemma fresh_block:
  assumes g: "geometry s" and fr: "free_ok s V" and fi: "file_ok s V x" and a: "unat a < unat (sb_size (sb s))" "\<not> in_use (sb s) V a"
    and W: "W = balloc_view (sb s) a V"
  shows "a \<noteq> 0" "a \<notin> fblks V x" "\<forall>c \<in> fblks V x. W c = V c" "data_blk s W a" "\<forall>k < BSIZE. W a k = 0" "free_ok s W"
    "\<forall>c. c \<noteq> a \<longrightarrow> c \<notin> bitmap_blocks (sb s) \<longrightarrow> W c = V c" "\<forall>b. data_blk s V b \<longrightarrow> data_blk s W b"
    "\<forall>b. unat b < unat (sb_size (sb s)) \<longrightarrow> in_use (sb s) V b \<longrightarrow> in_use (sb s) W b" "file_ok s W x" "fblk W x = fblk V x"
proof -
  have f: "tx_usable s a" "a \<notin> meta (sb s)" "a \<noteq> 0" using fr a by (simp_all add: free_ok_def)
  note U = in_use_balloc [OF g a(1) f(2), of _ V, folded W]
  have bm: "BBLOCK a (sb s) \<in> bitmap_blocks (sb s)" using a(1) by (auto simp: bitmap_blocks_def)
  show "a \<noteq> 0" by (rule f)
  show n: "a \<notin> fblks V x" using file_okD(1) [OF fi, of a] a(2) by (auto simp: data_blk_def)
  show "\<forall>c. c \<noteq> a \<longrightarrow> c \<notin> bitmap_blocks (sb s) \<longrightarrow> W c = V c" using bm by (auto simp: W balloc_view_def)
  moreover have "c \<noteq> a \<and> c \<notin> bitmap_blocks (sb s)" if "c \<in> fblks V x" for c
    using n file_okD(1) [OF fi that] that by (auto simp: data_blk_def meta_def)
  ultimately show c: "\<forall>c \<in> fblks V x. W c = V c" by blast
  show "data_blk s W a" using f a(1) U [OF a(1)] by (simp add: data_blk_def)
  show "\<forall>k < BSIZE. W a k = 0" by (simp add: W balloc_view_def fill_apply)
  show "free_ok s W" unfolding W by (rule free_ok_balloc [OF g fr a(1) f(2)])
  show d: "\<forall>b. data_blk s V b \<longrightarrow> data_blk s W b" using U by (simp add: data_blk_def)
  show "\<forall>b. unat b < unat (sb_size (sb s)) \<longrightarrow> in_use (sb s) V b \<longrightarrow> in_use (sb s) W b" using U by simp
  show k: "fblk W x = fblk V x" by (rule fblk_cong [OF c])
  show "file_ok s W x" using fi d fblks_cong [OF k] by (simp add: file_ok_def k)
qed

lemma bmap_entry_grows:
  fixes s :: "'a fsst_scheme"
  assumes x: "x = itable s ip" and g: "geometry s" and fr: "free_ok s V" and fi: "file_ok s V x"
    and a: "unat a < unat (sb_size (sb s))" "\<not> in_use (sb s) V a"
    and W: "W = balloc_view (sb s) a V" and z: "i_addrs x i = 0" and i: "i \<le> NDIRECT" and r: "tx_rest t = tx_rest s" "disk t = disk s"
    and u: "u = upd_ip ip (\<lambda>x. x\<lparr>i_addrs := (i_addrs x)(i := a)\<rparr>) t"
  shows "grows ip s V u W"
proof -
  note F = fresh_block [OF g fr fi a W]
  note f = fs_rest [OF r(1)]
  define y where "y = x\<lparr>i_addrs := (i_addrs x)(i := a)\<rparr>"
  have iu: "itable u = (itable s)(ip := y)" by (simp add: u f y_def x)
  have frame: "fs_frame ip s u" using f r(2) by (auto simp: fs_frame_def u x)
  have fy: "fblk W y n = (if i < NDIRECT \<and> n = i then a else fblk V x n)" if "n < MAXFILE" for n
  proof (cases "i = NDIRECT")
    case True
    then have "get32 (W a) (4 * (n - NDIRECT)) = 0" if "\<not> n < NDIRECT"
      using that \<open>n < MAXFILE\<close> F(5) by (intro fblk_zero_block) (auto simp: MAXFILE_def)
    moreover have "fblk V x n = 0" if "\<not> n < NDIRECT" using True z that by (simp add: fblk_def)
    ultimately show ?thesis using True F(1) by (auto simp: fblk_def y_def)
  next
    case False
    have "W (i_addrs x NDIRECT) = V (i_addrs x NDIRECT)" if "i_addrs x NDIRECT \<noteq> 0" using F(3) file_okD(5) [OF fi that] by simp
    then show ?thesis using False i by (auto simp: fblk_def y_def)
  qed
  have oldz: "fblk V x i = 0" if "i < NDIRECT" using z that by (simp add: fblk_def)
  have ind: "i_addrs y NDIRECT = (if i = NDIRECT then a else i_addrs x NDIRECT)" by (simp add: y_def)
  have bl: "fblks W y = insert a (fblks V x)"
  proof -
    have "fblk W y ` {..<MAXFILE} - {0} = (if i < NDIRECT then {a} else {}) \<union> (fblk V x ` {..<MAXFILE} - {0})"
      using fy oldz F(1) by (auto simp: image_iff MAXFILE_def split: if_splits)
    moreover have "fblks V x = ({i_addrs x NDIRECT} - {0}) \<union> (fblk V x ` {..<MAXFILE} - {0})" for V x by (auto simp: fblks_def)
    ultimately have "fblks W y = ({i_addrs y NDIRECT} - {0}) \<union> ((if i < NDIRECT then {a} else {}) \<union> (fblk V x ` {..<MAXFILE} - {0}))"
      "fblks V x = ({i_addrs x NDIRECT} - {0}) \<union> (fblk V x ` {..<MAXFILE} - {0})" by simp_all
    then show ?thesis using ind i z F(1) by auto
  qed
  have ok: "file_ok u W y"
  proof -
    have db: "data_blk u W b = data_blk s W b" for b by (simp add: data_blk_def u f)
    have "fblk V x m \<noteq> a" if "m < MAXFILE" for m using F(1,2) that by (auto simp: fblks_def)
    moreover have "i_addrs x NDIRECT \<noteq> a" using F(1,2) by (auto simp: fblks_def)
    moreover have "i_addrs x NDIRECT = 0" if "i = NDIRECT" using z that by simp
    ultimately show ?thesis using fi F(4,8) unfolding file_ok_def bl db by (auto simp: fy ind F(1))
  qed
  show ?thesis unfolding grows_def iu fun_upd_same x [symmetric] bl
  proof (intro conjI allI impI frame)
    show "free_ok u W" using F(6) by (simp add: free_ok_def u f)
    show "file_ok u W y" by (rule ok)
    show "fblks V x \<subseteq> insert a (fblks V x)" by blast
  next
    fix m assume m: "m < MAXFILE" "fblk V x m \<noteq> 0"
    then show "fblk W y m = fblk V x m" using fy [OF m(1)] oldz by auto
    show "W (fblk V x m) = V (fblk V x m)" using F(3) file_okD(4) [OF fi m] by blast
  next
    fix m k assume m: "m < MAXFILE" "fblk V x m = 0" "fblk W y m \<noteq> 0" "k < BSIZE"
    then show "W (fblk W y m) k = 0" using fy [OF m(1)] F(5) by (auto split: if_splits)
  next
    fix b assume "unat b < unat (sb_size (sb s))" "in_use (sb s) V b"
    then show "in_use (sb s) W b" using F(9) by blast
  next
    fix c assume "c \<notin> insert a (fblks V x)" "c \<notin> bitmap_blocks (sb s)"
    then show "W c = V c" using F(7) by blast
  qed
qed

lemma bmap_indirect_grows:
  fixes s :: "'a fsst_scheme"
  assumes x: "x = itable s ip" and g: "geometry s" and fr: "free_ok s V" and fi: "file_ok s V x"
    and a: "unat a < unat (sb_size (sb s))" "\<not> in_use (sb s) V a"
    and d: "d = i_addrs x NDIRECT" "d \<noteq> 0" and j: "j < NINDIRECT" "get32 (V d) (4 * j) = 0"
    and X: "X = (balloc_view (sb s) a V)(d := put32 (V d) (4 * j) a)" and r: "tx_rest u = tx_rest s" "disk u = disk s"
  shows "grows ip s V u X" "fblk X x (NDIRECT + j) = a"
proof -
  define W where "W = balloc_view (sb s) a V"
  note F = fresh_block [OF g fr fi a W_def]
  note f = fs_rest [OF r(1)]
  have iu: "itable u = itable s" by (simp add: f)
  have frame: "fs_frame ip s u" by (rule fs_frame_rest [OF r])
  have dX: "X d = put32 (V d) (4 * j) a" "\<And>c. c \<noteq> d \<Longrightarrow> X c = W c" by (simp_all add: X W_def)
  have din: "d \<in> fblks V x" using file_okD(5) [OF fi] d by simp
  have da: "d \<noteq> a" using F(2) din by auto
  have dbm: "d \<notin> bitmap_blocks (sb s)" "unat d < unat (sb_size (sb s))" using file_okD(1) [OF fi din] by (auto simp: data_blk_def meta_def)
  have fX: "fblk X x n = (if n = NDIRECT + j then a else fblk V x n)" if "n < MAXFILE" for n
  proof (cases "n < NDIRECT")
    case False
    have "get32 (put32 (V d) (4 * j) a) (4 * (n - NDIRECT)) = get32 (V d) (4 * (n - NDIRECT))" if "n \<noteq> NDIRECT + j"
    proof -
      have "n - NDIRECT < j \<or> j < n - NDIRECT" using that False by arith
      then have "4 * (n - NDIRECT) + 4 \<le> 4 * j \<or> 4 * j + 4 \<le> 4 * (n - NDIRECT)" by arith
      then show ?thesis by (rule get32_put32_other)
    qed
    then show ?thesis using False d dX(1) by (auto simp: fblk_def)
  qed (simp add: fblk_def)
  then show "fblk X x (NDIRECT + j) = a" using j(1) by (simp add: MAXFILE_def)
  have oldz: "fblk V x (NDIRECT + j) = 0" using d j by (simp add: fblk_def)
  have bl: "fblks X x = insert a (fblks V x)"
  proof -
    have "fblk X x ` {..<MAXFILE} - {0} = insert a (fblk V x ` {..<MAXFILE} - {0})"
      using fX oldz F(1) j(1) by (auto simp: image_iff MAXFILE_def split: if_splits)
    moreover have "fblks V x = ({i_addrs x NDIRECT} - {0}) \<union> (fblk V x ` {..<MAXFILE} - {0})" for V x by (auto simp: fblks_def)
    ultimately show ?thesis by simp
  qed
  have Xold: "X c = V c" if "c \<in> fblks V x" "c \<noteq> d" for c using F(3) dX(2) that by simp
  have iuse: "in_use (sb s) X b = in_use (sb s) W b" if "unat b < unat (sb_size (sb s))" for b
  proof -
    have "BBLOCK b (sb s) \<noteq> d" using dbm(1) that by (auto simp: bitmap_blocks_def)
    then show ?thesis by (simp add: in_use_def dX(2))
  qed
  have ok: "file_ok u X x"
  proof -
    have db: "data_blk u X b = data_blk s W b" for b using iuse by (auto simp: data_blk_def f)
    have "fblk V x m \<noteq> a" if "m < MAXFILE" for m using F(1,2) that by (auto simp: fblks_def)
    moreover have "i_addrs x NDIRECT \<noteq> a" using da d by auto
    ultimately show ?thesis using fi F(4,8) unfolding file_ok_def bl db by (auto simp: fX F(1))
  qed
  show "grows ip s V u X" unfolding grows_def iu x [symmetric] bl
  proof (intro conjI allI impI frame)
    show "free_ok u X" using F(6) iuse by (simp add: free_ok_def f)
    show "file_ok u X x" by (rule ok)
    show "fblks V x \<subseteq> insert a (fblks V x)" by blast
  next
    fix m assume m: "m < MAXFILE" "fblk V x m \<noteq> 0"
    then show "fblk X x m = fblk V x m" using fX [OF m(1)] oldz by auto
    show "X (fblk V x m) = V (fblk V x m)" using Xold file_okD(3,4) [OF fi m] d by blast
  next
    fix m k assume m: "m < MAXFILE" "fblk V x m = 0" "fblk X x m \<noteq> 0" "k < BSIZE"
    then show "X (fblk X x m) k = 0" using fX [OF m(1)] F(5) da dX(2) by (auto split: if_splits)
  next
    fix b assume "unat b < unat (sb_size (sb s))" "in_use (sb s) V b"
    then show "in_use (sb s) X b" using F(9) iuse by blast
  next
    fix c assume "c \<notin> insert a (fblks V x)" "c \<notin> bitmap_blocks (sb s)"
    then have "c \<noteq> d" "W c = V c" using F(7) din by auto
    then show "X c = V c" using dX(2) by simp
  qed
qed

section \<open>The effect of \<open>bmap\<close>\<close>

definition full :: "'a fsst_scheme \<Rightarrow> (u32 \<Rightarrow> block) \<Rightarrow> bool" where
  "full s V \<longleftrightarrow> (\<forall>b. unat b < unat (sb_size (sb s)) \<longrightarrow> in_use (sb s) V b)"

lemma file_ctxD:
  assumes "file_ctx ip s V L"
  shows "tx_inv s V L {}" "geometry s" "free_ok s V" "file_ok s V (itable s ip)" "i_dev (itable s ip) = lg_dev s"
  using assms by (simp_all add: file_ctx_def)

lemma ctx_grows:
  assumes "file_ctx ip s V L" "grows ip s V s' V'" "tx_inv s' V' L' {}"
  shows "file_ctx ip s' V' L'"
proof -
  have "fs_frame ip s s'" by (rule growsD(1) [OF assms(2)])
  then have "geometry s' = geometry s" "i_dev (itable s' ip) = i_dev (itable s ip)" "lg_dev s' = lg_dev s"
    by (auto simp: fs_frame_def geometry_def)
  then show ?thesis using assms growsD(2,3) [OF assms(2)] by (simp add: file_ctx_def)
qed

lemma card_logged: "card (set L \<union> H) \<le> length L + card H"
  by (rule le_trans [OF card_Un_le]) (simp add: card_length)

lemma bmap_entry_ok:
  fixes s :: "'a fsst_scheme"
  assumes c: "file_ctx ip s V L" and l: "log_space s L 1" and i: "i \<le> NDIRECT"
  obtains a s' V' L' where "bmap_entry ip i s = Inr (a, s')" "file_ctx ip s' V' L'" "grows ip s V s' V'" "length L' \<le> length L + 2"
    "a = i_addrs (itable s' ip) i" "a = 0 \<longrightarrow> full s' V'"
proof (cases "i_addrs (itable s ip) i = 0")
  case False
  then have "bmap_entry ip i s = Inr (i_addrs (itable s ip) i, s)" by (simp add: bmap_entry_def Let_def)
  then show ?thesis using that c False file_grows_refl [OF file_ctxD(3) [OF c] file_ctxD(4) [OF c]] by auto
next
  case True
  note C = file_ctxD [OF c]
  have "card (set L \<union> {}) + 1 < NBUF" using l card_logged [of L "{}"] by (simp add: log_space_def)
  then have "alloc_pre s V L {}" using l C by (simp add: alloc_pre_def log_space_def)
  then obtain a t where a: "balloc (i_dev (itable s ip)) s = Inr (a, t)" "balloc_spec s V L {} a t"
    "a = 0 \<longrightarrow> (\<forall>b. unat b < unat (sb_size (sb s)) \<longrightarrow> in_use (sb s) V b)"
    using balloc_ok [OF C(1) _ C(5)] by metis
  have r: "tx_rest t = tx_rest s" "disk t = disk s" using a(2) by (simp_all add: balloc_spec_def)
  note f = fs_rest [OF r(1)]
  show ?thesis
  proof (cases "a = 0")
    case a0: True
    have g: "grows ip s V t V" using file_grows_refl [OF C(3,4)] fs_frame_rest [OF r, of ip]
      by (simp add: grows_def f free_ok_def file_ok_def data_blk_def)
    have i': "tx_inv t V L {}" using a(2) a0 by (simp add: balloc_spec_def)
    have "bmap_entry ip i s = Inr (0, t)" using True a(1) a0 by (simp add: bmap_entry_def)
    then show ?thesis using that ctx_grows [OF c g i'] g a(3) a0 True f by (auto simp: full_def)
  next
    case a1: False
    define u where "u = upd_ip ip (\<lambda>x. x\<lparr>i_addrs := (i_addrs x)(i := a)\<rparr>) t"
    define L' where "L' = add_log a (add_log (BBLOCK a (sb s)) L)"
    have A: "unat a < unat (sb_size (sb s))" "\<not> in_use (sb s) V a" "tx_inv t (balloc_view (sb s) a V) L' {}"
      using a(2) a1 by (simp_all add: balloc_spec_def L'_def)
    have g: "grows ip s V u (balloc_view (sb s) a V)" by (rule bmap_entry_grows [OF refl C(2-4) A(1,2) refl True i r u_def])
    have i': "tx_inv u (balloc_view (sb s) a V) L' {}" using A(3) by (simp add: u_def)
    have e: "bmap_entry ip i s = Inr (a, u)" using True a(1) a1 by (simp add: bmap_entry_def u_def)
    have "length L' \<le> length L + 2" unfolding L'_def
      by (rule le_trans [OF add_log(2)]) (use add_log(2) [of "BBLOCK a (sb s)" L] in simp)
    moreover have "a = i_addrs (itable u ip) i" by (simp add: u_def)
    ultimately show ?thesis by (rule that [OF e ctx_grows [OF c g i'] g]) (use a1 in simp)
  qed
qed

lemma grows_rest:
  assumes "file_ctx ip s V L" "tx_rest t = tx_rest s" "disk t = disk s"
  shows "grows ip s V t V"
  using file_grows_refl [of s V ip] file_ctxD(3,4) [OF assms(1)] fs_frame_rest [OF assms(2,3), of ip] fs_rest [OF assms(2)]
  by (simp add: grows_def free_ok_def file_ok_def data_blk_def)

text \<open>The second level: the entry \<open>j\<close> of the indirect block.\<close>

definition bmap_slot :: "nat \<Rightarrow> u32 \<Rightarrow> nat \<Rightarrow> 'a fsst_scheme \<Rightarrow> (u32 \<times> 'a fsst_scheme) result" where
  "bmap_slot ip d j s =
     bindE (bread (i_dev (itable s ip)) d s) (\<lambda>(bp, s).
       let a = get32 (b_data (bufs s bp)) (4 * j)
       in if a \<noteq> 0 then bindE (brelse bp s) (\<lambda>s. Inr (a, s))
          else
            bindE (balloc (i_dev (itable s ip)) s) (\<lambda>(a, s).
            bindE (if a \<noteq> 0 then log_write bp (set_data bp (put32 (b_data (bufs s bp)) (4 * j) a) s) else Inr s) (\<lambda>s.
            bindE (brelse bp s) (\<lambda>s. Inr (a, s)))))"

lemma bmap_slots: "bmap ip n s =
  (if n < NDIRECT then bmap_entry ip n s
   else if n - NDIRECT < NINDIRECT
   then bindE (bmap_entry ip NDIRECT s) (\<lambda>(d, s). if d = 0 then Inr (0, s) else bmap_slot ip d (n - NDIRECT) s)
   else Inl (Panic ''bmap: out of range''))"
  unfolding bmap_def bmap_slot_def Let_def ..

lemma bmap_slot_ok:
  fixes s :: "'a fsst_scheme"
  assumes c: "file_ctx ip s V L" and l: "log_space s L 2" and d: "d = i_addrs (itable s ip) NDIRECT" "d \<noteq> 0" and j: "j < NINDIRECT"
  obtains a s' V' L' where "bmap_slot ip d j s = Inr (a, s')" "file_ctx ip s' V' L'" "grows ip s V s' V'" "length L' \<le> length L + 3"
    "a = fblk V' (itable s' ip) (NDIRECT + j)" "a = 0 \<longrightarrow> full s' V'"
proof -
  note C = file_ctxD [OF c]
  define x where "x = itable s ip"
  have din: "d \<in> fblks V x" using file_okD(5) [OF C(4)] d by (simp add: x_def)
  have dd: "unat d < unat (sb_size (sb s))" "in_use (sb s) V d" "tx_usable s d" "d \<notin> meta (sb s)"
    using file_okD(1) [OF C(4)] din by (auto simp: data_blk_def x_def)
  have cL: "card (set L \<union> {}) < NBUF" "card (set L \<union> {d}) + 1 < NBUF"
    using l card_logged [of L "{}"] card_logged [of L "{d}"] by (simp_all add: log_space_def)
  obtain p s1 where 1: "tx_acquire d s = Inr (p, s1)" "tx_data s1 p = V d" "tx_inv s1 V L {d}" "tx_holds s1 d p"
    "tx_rest s1 = tx_rest s" "disk s1 = disk s" "d \<in> set L \<or> V d = disk s1 d"
    by (rule log_store.read_block [OF C(1) dd(3) _ cL(1)]) auto
  note f1 = fs_rest [OF 1(5)]
  define e where "e = get32 (V d) (4 * j)"
  have fe: "fblk V x (NDIRECT + j) = e" using d by (simp add: fblk_def x_def e_def)
  show ?thesis
  proof (cases "e = 0")
    case False
    obtain s2 where 2: "brelse p s1 = Inr s2" "tx_inv s2 V L {}" "tx_rest s2 = tx_rest s1" "disk s2 = disk s1"
      by (rule log_store.close_block [OF 1(3) _ 1(4,7)]) auto
    have r: "tx_rest s2 = tx_rest s" "disk s2 = disk s" using 2(3,4) 1(5,6) by simp_all
    note g = grows_rest [OF c r]
    have "bmap_slot ip d j s = Inr (e, s2)" using 1(1,2) 2(1) False C(5) by (simp add: bmap_slot_def tx_fold e_def)
    then show ?thesis using that ctx_grows [OF c g 2(2)] g False fe fs_rest(1) [OF r(1)] by (auto simp: x_def)
  next
    case True
    have "alloc_pre s V L {d}" using C(2,3) dd cL(2) l by (auto simp: alloc_pre_def log_space_def meta_def)
    then have pre: "alloc_pre s1 V L {d}" using alloc_pre_rest [OF 1(5)] by blast
    have dv: "i_dev (itable s1 ip) = lg_dev s1" using C(5) f1 by simp
    obtain a t where a: "balloc (i_dev (itable s1 ip)) s1 = Inr (a, t)" "balloc_spec s1 V L {d} a t"
      "a = 0 \<longrightarrow> (\<forall>b. unat b < unat (sb_size (sb s1)) \<longrightarrow> in_use (sb s1) V b)"
      by (rule balloc_ok [OF 1(3) pre dv])
    have rt: "tx_rest t = tx_rest s" "disk t = disk s" and ht: "tx_holds t d p"
      using a(2) 1(4-6) by (simp_all add: balloc_spec_def)
    note ft = fs_rest [OF rt(1)]
    show ?thesis
    proof (cases "a = 0")
      case a0: True
      have it: "tx_inv t V L {d}" using a(2) a0 by (simp add: balloc_spec_def)
      obtain s2 where 2: "brelse p t = Inr s2" "tx_inv s2 V L {}" "tx_rest s2 = tx_rest t" "disk s2 = disk t"
        by (rule log_store.close_block [OF it _ ht]) (use 1(6,7) rt(2) in auto)
      have r: "tx_rest s2 = tx_rest s" "disk s2 = disk s" using 2(3,4) rt by simp_all
      note g = grows_rest [OF c r]
      have "bmap_slot ip d j s = Inr (0, s2)" using 1(1,2) 2(1) True C(5) a(1) a0 by (simp add: bmap_slot_def tx_fold e_def)
      then show ?thesis using that ctx_grows [OF c g 2(2)] g True fe fs_rest(1,2) [OF r(1)] a(3) a0 f1 by (auto simp: x_def full_def)
    next
      case a1: False
      define W where "W = balloc_view (sb s) a V"
      define M where "M = add_log a (add_log (BBLOCK a (sb s)) L)"
      have A: "unat a < unat (sb_size (sb s))" "\<not> in_use (sb s) V a" "tx_inv t W M {d}"
        using a(2) a1 f1 by (simp_all add: balloc_spec_def M_def W_def)
      note F = fresh_block [OF C(2,3) C(4) A(1,2) W_def]
      have Wd: "W d = V d" using F(3) din by (simp add: x_def)
      have lM: "length M \<le> length L + 2" unfolding M_def
        by (rule le_trans [OF add_log(2)]) (use add_log(2) [of "BBLOCK a (sb s)" L] in simp)
      then have rm: "length M < tx_room t" using l ft(8) by (simp add: log_space_def)
      define X where "X = W(d := put32 (V d) (4 * j) a)"
      obtain s2 where 2: "log_write p (set_data p (put32 (V d) (4 * j) a) t) = Inr s2"
        "tx_inv s2 X (if d \<in> set M then M else M @ [d]) {d}" "tx_rest s2 = tx_rest t" "disk s2 = disk t"
        "\<forall>c q. tx_holds t c q \<longrightarrow> tx_holds s2 c q"
        unfolding X_def by (rule log_store.change_block [OF A(3) ht rm])
      have h2: "tx_holds s2 d p" using 2(5) ht by blast
      obtain s3 where 3: "brelse p s2 = Inr s3" "tx_inv s3 X (if d \<in> set M then M else M @ [d]) {}" "tx_rest s3 = tx_rest s2" "disk s3 = disk s2"
        by (rule log_store.close_block [OF 2(2) _ h2]) auto
      have r: "tx_rest s3 = tx_rest s" "disk s3 = disk s" using 3(3,4) 2(3,4) rt by simp_all
      note G = bmap_indirect_grows [OF x_def C(2,3) C(4) [folded x_def] A(1,2) d(1) [folded x_def] d(2) j
          True [unfolded e_def] X_def [unfolded W_def] r]
      have td: "tx_data t p = V d" using log_store.data [OF A(3) ht] Wd by simp
      have run: "bmap_slot ip d j s = Inr (a, s3)"
        using 1(1,2) 2(1) 3(1) True C(5) a(1) a1 td by (simp add: bmap_slot_def tx_fold e_def)
      show ?thesis
      proof (rule that [OF run ctx_grows [OF c G(1) 3(2)] G(1)])
        show "length (if d \<in> set M then M else M @ [d]) \<le> length L + 3" using lM by simp
        show "a = fblk X (itable s3 ip) (NDIRECT + j)" using G(2) fs_rest(1) [OF r(1)] by (simp add: x_def)
        show "a = 0 \<longrightarrow> full s3 X" using a1 by simp
      qed
    qed
  qed
qed

lemma bmap_ok:
  fixes s :: "'a fsst_scheme"
  assumes c: "file_ctx ip s V L" and l: "log_space s L 4" and n: "n < MAXFILE"
  obtains a s' V' L' where "bmap ip n s = Inr (a, s')" "file_ctx ip s' V' L'" "grows ip s V s' V'" "length L' \<le> length L + 5"
    "a = fblk V' (itable s' ip) n" "a = 0 \<longrightarrow> full s' V'"
proof (cases "n < NDIRECT")
  case True
  have l1: "log_space s L 1" using l by (simp add: log_space_def)
  obtain a s' V' L' where "bmap_entry ip n s = Inr (a, s')" "file_ctx ip s' V' L'" "grows ip s V s' V'" "length L' \<le> length L + 2"
    "a = i_addrs (itable s' ip) n" "a = 0 \<longrightarrow> full s' V'" by (rule bmap_entry_ok [OF c l1, of n]) (use True in auto)
  then show ?thesis using that [of a s' V' L'] True by (simp add: bmap_slots fblk_def)
next
  case False
  have l1: "log_space s L 1" using l by (simp add: log_space_def)
  obtain d s1 V1 L1 where 1: "bmap_entry ip NDIRECT s = Inr (d, s1)" "file_ctx ip s1 V1 L1" "grows ip s V s1 V1" "length L1 \<le> length L + 2"
    "d = i_addrs (itable s1 ip) NDIRECT" "d = 0 \<longrightarrow> full s1 V1" by (rule bmap_entry_ok [OF c l1, of NDIRECT]) auto
  have j: "n - NDIRECT < NINDIRECT" using n False by (auto simp: MAXFILE_def)
  show ?thesis
  proof (cases "d = 0")
    case True
    then show ?thesis using that [of 0 s1 V1 L1] 1 False j by (simp add: bmap_slots fblk_def)
  next
    case d: False
    have "tx_room s1 = tx_room s" using growsD(1) [OF 1(3)] by (simp add: fs_frame_def)
    then have l2: "log_space s1 L1 2" using l 1(4) by (simp add: log_space_def)
    obtain a s' V' L' where 2: "bmap_slot ip d (n - NDIRECT) s1 = Inr (a, s')" "file_ctx ip s' V' L'" "grows ip s1 V1 s' V'"
      "length L' \<le> length L1 + 3" "a = fblk V' (itable s' ip) (NDIRECT + (n - NDIRECT))" "a = 0 \<longrightarrow> full s' V'"
      by (rule bmap_slot_ok [OF 1(2) l2 1(5) d j])
    show ?thesis
    proof (rule that [of a s' V' L'])
      show "bmap ip n s = Inr (a, s')" using 1(1) 2(1) False j d by (simp add: bmap_slots)
    qed (use 1(4) 2 file_grows_trans [OF 1(3) 2(3)] False in auto)
  qed
qed

end
