(* ===== verification/FsData.thy ===== *)
theory FsData
  imports FsMap
begin

text \<open>
  Reading and writing the contents of an inode (\<open>readi\<close> and \<open>writei\<close> in \<^verbatim>\<open>kernel/fs.c\<close>): the file
  is an array of bytes, holes reading as 0, that \<open>writei\<close> updates and \<open>readi\<close> returns.
\<close>

section \<open>The bytes of a file\<close>

definition fdata :: "(u32 \<Rightarrow> block) \<Rightarrow> inode \<Rightarrow> nat \<Rightarrow> u8" where
  "fdata V x k = (let b = fblk V x (k div BSIZE) in if b = 0 then 0 else V b (k mod BSIZE))"

definition present :: "(u32 \<Rightarrow> block) \<Rightarrow> inode \<Rightarrow> nat \<Rightarrow> bool" where
  "present V x k \<longleftrightarrow> k div BSIZE < MAXFILE \<and> fblk V x (k div BSIZE) \<noteq> 0"

lemma block_index: "k < MAXFILE * BSIZE \<longleftrightarrow> k div BSIZE < MAXFILE"
  by (simp add: div_less_iff_less_mult BSIZE_def)

lemma fdata_grows:
  assumes "grows ip s V s' V'" "k < MAXFILE * BSIZE"
  shows "fdata V' (itable s' ip) k = fdata V (itable s ip) k"
proof -
  have n: "k div BSIZE < MAXFILE" using assms(2) by (simp only: block_index)
  have m: "k mod BSIZE < BSIZE" by (simp add: BSIZE_def)
  note D = growsD [OF assms(1)]
  show ?thesis
  proof (cases "fblk V (itable s ip) (k div BSIZE) = 0")
    case True
    then show ?thesis using D(7) [OF n True _ m] by (simp add: fdata_def Let_def)
  next
    case False
    then show ?thesis using D(5,6) [OF n False] by (simp add: fdata_def Let_def)
  qed
qed

lemma present_grows: "grows ip s V s' V' \<Longrightarrow> present V (itable s ip) k \<Longrightarrow> present V' (itable s' ip) k"
  using growsD(5) [of ip s V s' V' "k div BSIZE"] by (auto simp: present_def)

text \<open>Positions inside one block.\<close>

lemma same_block:
  assumes "i < BSIZE - off mod BSIZE"
  shows "(off + i) div BSIZE = off div BSIZE" "(off + i) mod BSIZE = off mod BSIZE + i"
proof -
  define q r where "q = off div BSIZE" and "r = off mod BSIZE"
  have off: "off + i = (r + i) + BSIZE * q" by (simp add: q_def r_def)
  have "r + i < BSIZE" using assms by (simp add: r_def)
  then show "(off + i) div BSIZE = off div BSIZE" "(off + i) mod BSIZE = off mod BSIZE + i"
    unfolding q_def [symmetric] r_def [symmetric] by (simp_all add: off BSIZE_def)
qed

lemma block_bytes:
  assumes "m \<le> BSIZE - off mod BSIZE" "fblk V x (off div BSIZE) \<noteq> 0"
  shows "bytes_of (V (fblk V x (off div BSIZE))) (off mod BSIZE) m = map (fdata V x) [off..<off + m]"
proof (rule nth_equalityI)
  fix i assume "i < length (bytes_of (V (fblk V x (off div BSIZE))) (off mod BSIZE) m)"
  then have i: "i < m" by simp
  then have "i < BSIZE - off mod BSIZE" using assms(1) by simp
  from same_block [OF this] show "bytes_of (V (fblk V x (off div BSIZE))) (off mod BSIZE) m ! i = map (fdata V x) [off..<off + m] ! i"
    using i assms(2) by (simp add: fdata_def)
qed simp

section \<open>Reading\<close>

lemma bmap_present:
  fixes s :: "'a fsst_scheme"
  assumes c: "file_ctx ip s V L" and l: "length L < NBUF" and n: "n < MAXFILE" "fblk V (itable s ip) n \<noteq> 0"
  obtains s' where "bmap ip n s = Inr (fblk V (itable s ip) n, s')" "tx_inv s' V L {}" "tx_rest s' = tx_rest s" "disk s' = disk s"
proof (cases "n < NDIRECT")
  case True
  then have "bmap ip n s = Inr (fblk V (itable s ip) n, s)" using n(2) by (simp add: bmap_slots bmap_entry_def Let_def fblk_def)
  then show ?thesis using that file_ctxD(1) [OF c] by blast
next
  case False
  note C = file_ctxD [OF c]
  define d where "d = i_addrs (itable s ip) NDIRECT"
  have d: "d \<noteq> 0" "fblk V (itable s ip) n = get32 (V d) (4 * (n - NDIRECT))" using n(2) False by (auto simp: fblk_def d_def split: if_splits)
  have du: "tx_usable s d" using file_okD(1) [OF C(4) file_okD(5) [OF C(4)]] d(1) by (simp add: data_blk_def d_def)
  have cL: "card (set L \<union> {}) < NBUF" using l card_logged [of L "{}"] by simp
  obtain p s1 s2 where 1: "tx_acquire d s = Inr (p, s1)" "tx_data s1 p = V d" "tx_rest s1 = tx_rest s" "brelse p s1 = Inr s2" "tx_inv s2 V L {}"
    "tx_rest s2 = tx_rest s" "disk s2 = disk s" by (rule log_store.read_release [OF C(1) du _ cL]) auto
  have j: "n - NDIRECT < NINDIRECT" using n(1) False by (auto simp: MAXFILE_def)
  have e: "bmap_entry ip NDIRECT s = Inr (d, s)" using d(1) by (simp add: bmap_entry_def d_def Let_def)
  have "bmap_slot ip d (n - NDIRECT) s = Inr (fblk V (itable s ip) n, s2)"
    using 1(1,2,4) n(2) d(2) C(5) by (simp add: bmap_slot_def tx_fold)
  then have "bmap ip n s = Inr (fblk V (itable s ip) n, s2)" using False j e d(1) by (simp add: bmap_slots)
  then show ?thesis using that 1(5-7) by blast
qed

lemma ctx_rest:
  assumes "file_ctx ip s V L" "tx_inv t V L {}" "tx_rest t = tx_rest s" "disk t = disk s"
  shows "file_ctx ip t V L"
  using ctx_grows [OF assms(1) grows_rest [OF assms(1,3,4)] assms(2)] .

lemma readi_loop_ok:
  fixes s :: "'a fsst_scheme"
  assumes "file_ctx ip s V L" "length L < NBUF" "\<forall>k. off \<le> k \<longrightarrow> k < off + (n - tot) \<longrightarrow> present V (itable s ip) k" "tot \<le> n"
  shows "\<exists>s'. readi_loop ip False dst off n tot acc s = Inr ((int n, acc @ map (fdata V (itable s ip)) [off..<off + (n - tot)]), s') \<and>
    tx_inv s' V L {} \<and> tx_rest s' = tx_rest s \<and> disk s' = disk s"
  using assms
proof (induction "n - tot" arbitrary: off tot dst acc s rule: less_induct)
  case less
  note C = file_ctxD [OF less.prems(1)]
  show ?case
  proof (cases "tot < n")
    case False
    then show ?thesis using less.prems C(1) by (simp add: readi_loop.simps [of _ _ _ _ n])
  next
    case True
    define x where "x = itable s ip"
    define b where "b = fblk V x (off div BSIZE)"
    define m where "m = min (n - tot) (BSIZE - off mod BSIZE)"
    have m: "0 < m" "m \<le> n - tot" "m \<le> BSIZE - off mod BSIZE" using True by (simp_all add: m_def BSIZE_def)
    have pr: "off div BSIZE < MAXFILE" "b \<noteq> 0" using less.prems(3) True by (auto simp: present_def b_def x_def)
    obtain s1 where 1: "bmap ip (off div BSIZE) s = Inr (b, s1)" "tx_inv s1 V L {}" "tx_rest s1 = tx_rest s" "disk s1 = disk s"
      by (rule bmap_present [OF less.prems(1,2) pr(1)]) (use pr(2) in \<open>auto simp: b_def x_def\<close>)
    note f1 = fs_rest [OF 1(3)]
    have bu: "tx_usable s1 b" using file_okD(1) [OF C(4) file_okD(4) [OF C(4) pr(1)]] pr(2) f1(9) by (simp add: data_blk_def b_def x_def)
    have cL: "card (set L \<union> {}) < NBUF" using less.prems(2) card_logged [of L "{}"] by simp
    obtain p s2 s3 where 2: "tx_acquire b s1 = Inr (p, s2)" "tx_data s2 p = V b" "tx_rest s2 = tx_rest s1" "brelse p s2 = Inr s3" "tx_inv s3 V L {}"
      "tx_rest s3 = tx_rest s1" "disk s3 = disk s1" by (rule log_store.read_release [OF 1(2) bu _ cL]) auto
    have r3: "tx_rest s3 = tx_rest s" "disk s3 = disk s" using 2(6,7) 1(3,4) by simp_all
    note f3 = fs_rest [OF r3(1)]
    have bts: "bytes_of (V b) (off mod BSIZE) m = map (fdata V x) [off..<off + m]"
      unfolding b_def by (rule block_bytes [OF m(3)]) (use pr(2) in \<open>simp add: b_def\<close>)
    have step: "readi_loop ip False dst off n tot acc s =
      readi_loop ip False (dst + of_nat m) (off + m) n (tot + m) (acc @ map (fdata V x) [off..<off + m]) s3"
      using True 1(1) pr(2) 2(1,2,4) C(5) f1 by (simp add: readi_loop.simps [of _ _ _ _ n tot] m_def [symmetric] tx_fold either_copyout_def bts)
    have "\<exists>s'. readi_loop ip False (dst + of_nat m) (off + m) n (tot + m) (acc @ map (fdata V x) [off..<off + m]) s3 =
        Inr ((int n, (acc @ map (fdata V x) [off..<off + m]) @ map (fdata V (itable s3 ip)) [off + m..<off + m + (n - (tot + m))]), s') \<and>
      tx_inv s' V L {} \<and> tx_rest s' = tx_rest s3 \<and> disk s' = disk s3"
      by (rule less.hyps) (use m True less.prems ctx_rest [OF less.prems(1) 2(5) r3] f3 in auto)
    moreover have "[off..<off + (n - tot)] = [off..<off + m] @ [off + m..<off + m + (n - (tot + m))]"
    proof -
      have e: "off + (n - tot) = off + m + (n - (tot + m))" using m(2) True by simp
      show ?thesis unfolding e by (rule upt_add_eq_append) simp
    qed
    ultimately show ?thesis using r3 f3 step by (auto simp: x_def)
  qed
qed

section \<open>Writing\<close>

text \<open>What a write of the bytes \<open>bs\<close> at offset \<open>off\<close> does to a file.\<close>

definition overwrite :: "(nat \<Rightarrow> u8) \<Rightarrow> nat \<Rightarrow> u8 list \<Rightarrow> nat \<Rightarrow> u8" where
  "overwrite f off bs k = (if off \<le> k \<and> k < off + length bs then bs ! (k - off) else f k)"

lemma overwrite_append: "overwrite (overwrite f off bs) (off + length bs) cs = overwrite f off (bs @ cs)"
  by (auto simp: overwrite_def fun_eq_iff nth_append)

lemma fdata_write:
  assumes fi: "file_ok s V x" and n: "off div BSIZE < MAXFILE" "b = fblk V x (off div BSIZE)" "b \<noteq> 0" "length bs \<le> BSIZE - off mod BSIZE"
    and W: "W = V(b := put_bytes (V b) (off mod BSIZE) bs)"
  shows "fblk W x = fblk V x" "k < MAXFILE * BSIZE \<Longrightarrow> fdata W x k = overwrite (fdata V x) off bs k"
proof -
  have "b \<noteq> i_addrs x NDIRECT" using file_okD(3) [OF fi n(1)] n(2,3) by simp
  then show f: "fblk W x = fblk V x" by (auto simp: W fblk_def fun_eq_iff)
  assume k: "k < MAXFILE * BSIZE"
  then have kn: "k div BSIZE < MAXFILE" by (simp only: block_index)
  show "fdata W x k = overwrite (fdata V x) off bs k"
  proof (cases "k div BSIZE = off div BSIZE")
    case True
    have B: "0 < BSIZE" by (simp add: BSIZE_def)
    have kk: "k = BSIZE * (off div BSIZE) + k mod BSIZE" by (metis True mult_div_mod_eq)
    have oo: "off = BSIZE * (off div BSIZE) + off mod BSIZE" by simp
    have iff: "off \<le> k \<longleftrightarrow> off mod BSIZE \<le> k mod BSIZE" "k < off + length bs \<longleftrightarrow> k mod BSIZE < off mod BSIZE + length bs"
      "off \<le> k \<Longrightarrow> k - off = k mod BSIZE - off mod BSIZE" using kk oo by linarith+
    then show ?thesis using True n(2,3) unfolding fdata_def f overwrite_def
      by (auto simp: W put_bytes_apply)
  next
    case False
    then have "fblk V x (k div BSIZE) \<noteq> b \<or> fblk V x (k div BSIZE) = 0" using file_okD(2) [OF fi kn n(1)] n(2) by auto
    moreover have "\<not> (off \<le> k \<and> k < off + length bs)"
    proof
      assume h: "off \<le> k \<and> k < off + length bs"
      then have "k - off < BSIZE - off mod BSIZE" using n(4) by linarith
      from same_block(1) [OF this] show False using False h by simp
    qed
    ultimately show ?thesis unfolding fdata_def f overwrite_def using n(3) by (auto simp: W Let_def)
  qed
qed

lemma ctx_write:
  assumes c: "file_ctx ip s V L" and b: "b \<in> fblks V (itable s ip)" "b \<noteq> i_addrs (itable s ip) NDIRECT"
    and i: "tx_inv t (V(b := v)) L' {}" and r: "tx_rest t = tx_rest s"
  shows "file_ctx ip t (V(b := v)) L'" "\<And>c. unat c < unat (sb_size (sb s)) \<Longrightarrow> in_use (sb s) (V(b := v)) c = in_use (sb s) V c"
proof -
  note C = file_ctxD [OF c] and f = fs_rest [OF r]
  define x where "x = itable s ip"
  have k: "fblk (V(b := v)) x = fblk V x" using b(2) by (auto simp: fblk_def fun_eq_iff x_def)
  have "b \<notin> meta (sb s)" using file_okD(1) [OF C(4) b(1)] by (simp add: data_blk_def)
  then have u: "in_use (sb s) (V(b := v)) c = in_use (sb s) V c" if "unat c < unat (sb_size (sb s))" for c
    using that by (auto simp: in_use_def meta_def bitmap_blocks_def)
  then show "\<And>c. unat c < unat (sb_size (sb s)) \<Longrightarrow> in_use (sb s) (V(b := v)) c = in_use (sb s) V c" by blast
  have db: "data_blk t (V(b := v)) c = data_blk s V c" for c using u by (auto simp: data_blk_def f)
  have "file_ok t (V(b := v)) x" using C(4) fblks_cong [OF k] by (simp add: file_ok_def db k x_def [symmetric])
  moreover have "free_ok t (V(b := v))" using C(3) u by (simp add: free_ok_def f)
  ultimately show "file_ctx ip t (V(b := v)) L'" using C(2,5) i geometry_rest [OF r] by (simp add: file_ctx_def f x_def)
qed

text \<open>
  The progress of a write: the state after \<open>bs\<close> has been written at \<open>off\<close>.
\<close>

definition wrote :: "nat \<Rightarrow> 'a fsst_scheme \<Rightarrow> (u32 \<Rightarrow> block) \<Rightarrow> 'a fsst_scheme \<Rightarrow> (u32 \<Rightarrow> block) \<Rightarrow> nat \<Rightarrow> u8 list \<Rightarrow> bool" where
  "wrote ip s V s' V' off bs \<longleftrightarrow> fs_frame ip s s' \<and> fblks V (itable s ip) \<subseteq> fblks V' (itable s' ip) \<and>
     (\<forall>k < MAXFILE * BSIZE. fdata V' (itable s' ip) k = overwrite (fdata V (itable s ip)) off bs k) \<and>
     (\<forall>k. present V (itable s ip) k \<longrightarrow> present V' (itable s' ip) k) \<and>
     (\<forall>k. off \<le> k \<longrightarrow> k < off + length bs \<longrightarrow> present V' (itable s' ip) k) \<and>
     (\<forall>c. c \<notin> fblks V' (itable s' ip) \<longrightarrow> c \<notin> bitmap_blocks (sb s) \<longrightarrow> V' c = V c)"

lemma wroteD:
  assumes "wrote ip s V s' V' off bs"
  shows "fs_frame ip s s'" "fblks V (itable s ip) \<subseteq> fblks V' (itable s' ip)"
    "k < MAXFILE * BSIZE \<Longrightarrow> fdata V' (itable s' ip) k = overwrite (fdata V (itable s ip)) off bs k"
    "present V (itable s ip) k \<Longrightarrow> present V' (itable s' ip) k"
    "off \<le> k \<Longrightarrow> k < off + length bs \<Longrightarrow> present V' (itable s' ip) k"
    "c \<notin> fblks V' (itable s' ip) \<Longrightarrow> c \<notin> bitmap_blocks (sb s) \<Longrightarrow> V' c = V c"
  using assms by (auto simp: wrote_def)

lemma wrote_trans:
  assumes 1: "wrote ip s V t W off bs" and 2: "wrote ip t W u X (off + length bs) cs"
  shows "wrote ip s V u X off (bs @ cs)"
proof -
  note D = wroteD [OF 1] and E = wroteD [OF 2]
  have sb: "sb t = sb s" using D(1) by (simp add: fs_frame_def)
  have "fdata X (itable u ip) k = overwrite (fdata V (itable s ip)) off (bs @ cs) k" if "k < MAXFILE * BSIZE" for k
    unfolding overwrite_append [symmetric] using D(3) [OF that] E(3) [OF that] by (simp add: overwrite_def)
  moreover have "present X (itable u ip) k" if "off \<le> k" "k < off + length (bs @ cs)" for k
  proof (cases "k < off + length bs")
    case True
    then show ?thesis by (rule E(4) [OF D(5) [OF that(1)]])
  next
    case False
    then show ?thesis using that(2) by (intro E(5)) auto
  qed
  moreover have "X c = V c" if "c \<notin> fblks X (itable u ip)" "c \<notin> bitmap_blocks (sb s)" for c
    using E(6) [OF that(1)] D(6) [of c] E(2) that by (auto simp: sb)
  ultimately show ?thesis
    unfolding wrote_def using fs_frame_trans [OF D(1) E(1)] subset_trans [OF D(2) E(2)] E(4) [OF D(4)] by simp
qed

lemma wrote_grows: "grows ip s V s' V' \<Longrightarrow> wrote ip s V s' V' off []"
  using fdata_grows [of ip s V s' V'] present_grows [of ip s V s' V'] growsD(1,4,9) [of ip s V s' V']
  by (auto simp: wrote_def overwrite_def)

lemma wrote_block:
  assumes c: "file_ctx ip s V L" and n: "off div BSIZE < MAXFILE" "b = fblk V (itable s ip) (off div BSIZE)" "b \<noteq> 0"
    "length bs \<le> BSIZE - off mod BSIZE" and W: "W = V(b := put_bytes (V b) (off mod BSIZE) bs)"
    and r: "tx_rest t = tx_rest s" "disk t = disk s"
  shows "wrote ip s V t W off bs"
proof -
  note C = file_ctxD [OF c] and f = fs_rest [OF r(1)]
  note F = fdata_write [OF C(4) n W]
  have "present W (itable t ip) k" if "off \<le> k" "k < off + length bs" for k
  proof -
    have "k - off < BSIZE - off mod BSIZE" using that n(4) by linarith
    from same_block(1) [OF this] have "k div BSIZE = off div BSIZE" using that(1) by simp
    then show ?thesis using n(1-3) by (simp add: present_def f F(1))
  qed
  moreover have "b \<in> fblks V (itable s ip)" using file_okD(4) [OF C(4) n(1)] n(2,3) by simp
  then have "W c = V c" if "c \<notin> fblks W (itable t ip)" for c
    using that unfolding f fblks_cong [OF F(1)] by (auto simp: W)
  ultimately show ?thesis unfolding wrote_def f fblks_cong [OF F(1)]
    using fs_frame_rest [OF r] F(2) by (simp add: present_def F(1) f)
qed

text \<open>The number of blocks that \<open>n\<close> bytes at \<open>off\<close> touch.\<close>

definition touched :: "nat \<Rightarrow> nat \<Rightarrow> nat" where
  "touched off n = (if n = 0 then 0 else (off mod BSIZE + n + BSIZE - 1) div BSIZE)"

lemma touched_step:
  assumes "0 < n" and m: "m = min n (BSIZE - off mod BSIZE)"
  shows "touched off n = Suc (touched (off + m) (n - m)) \<or> (n = m \<and> 1 \<le> touched off n)"
proof (cases "n \<le> BSIZE - off mod BSIZE")
  case True
  have "BSIZE \<le> off mod BSIZE + n + BSIZE - 1" using assms(1) by simp
  then have "1 \<le> touched off n" unfolding touched_def using assms(1) by (simp add: BSIZE_def less_eq_div_iff_mult_less_eq)
  then show ?thesis using True m by simp
next
  case False
  have r: "off mod BSIZE < BSIZE" by (simp add: BSIZE_def)
  have me: "m = BSIZE - off mod BSIZE" using False m by simp
  have "off + m = BSIZE * (off div BSIZE) + (off mod BSIZE + m)" by simp
  also have "\<dots> = BSIZE * Suc (off div BSIZE)" using me r by simp
  finally have z: "(off + m) mod BSIZE = 0" by simp
  define q where "q = n - m"
  have e: "off mod BSIZE + n + BSIZE - 1 = BSIZE + (q + BSIZE - 1)" and q: "0 < q" using me r False by (simp_all add: q_def BSIZE_def)
  have B: "BSIZE \<noteq> 0" by (simp add: BSIZE_def)
  have "touched off n = (BSIZE + (q + BSIZE - 1)) div BSIZE" using assms(1) by (simp only: touched_def e) simp
  also have "\<dots> = Suc ((q + BSIZE - 1) div BSIZE)" by (simp add: div_add_self1 [OF B])
  also have "(q + BSIZE - 1) div BSIZE = touched (off + m) q" using q by (simp add: touched_def z)
  finally have "touched off n = Suc (touched (off + m) (n - m))" by (simp add: q_def)
  then show ?thesis by simp
qed

lemma writei_loop_ok:
  fixes s :: "'a fsst_scheme"
  assumes "file_ctx ip s V L" "log_space s L (6 * touched off (n - tot))" "off + (n - tot) \<le> MAXFILE * BSIZE" "length bs = n - tot" "tot \<le> n"
  shows "\<exists>w s' V' L'. writei_loop ip (Kernel bs) off n tot s = Inr (tot + w, off + w, s') \<and> w \<le> n - tot \<and> (w < n - tot \<longrightarrow> full s' V') \<and>
    file_ctx ip s' V' L' \<and> wrote ip s V s' V' off (take w bs) \<and> length L' \<le> length L + 6 * touched off (n - tot)"
  using assms
proof (induction "n - tot" arbitrary: off tot bs s V L rule: less_induct)
  case less
  note C = file_ctxD [OF less.prems(1)]
  show ?case
  proof (cases "tot < n")
    case False
    have "wrote ip s V s V off []" by (rule wrote_grows [OF file_grows_refl [OF C(3,4)]])
    then show ?thesis using less.prems False by (intro exI [of _ 0] exI [of _ s] exI [of _ V] exI [of _ L]) (simp add: writei_loop.simps [of _ _ _ n])
  next
    case True
    define m where "m = min (n - tot) (BSIZE - off mod BSIZE)"
    have m: "0 < m" "m \<le> n - tot" "m \<le> BSIZE - off mod BSIZE" using True by (simp_all add: m_def BSIZE_def)
    have T: "touched off (n - tot) = Suc (touched (off + m) (n - (tot + m))) \<or> (n - tot = m \<and> 1 \<le> touched off (n - tot))"
      using touched_step [of "n - tot" m off] True m_def by simp
    then have T1: "1 \<le> touched off (n - tot)" by auto
    have "off < MAXFILE * BSIZE" using less.prems(3) True by linarith
    then have bn: "off div BSIZE < MAXFILE" by (simp only: block_index)
    have l4: "log_space s L 4" "log_space s L 6" using less.prems(2) T1 by (auto simp: log_space_def)
    obtain b s1 V1 L1 where 1: "bmap ip (off div BSIZE) s = Inr (b, s1)" "file_ctx ip s1 V1 L1" "grows ip s V s1 V1" "length L1 \<le> length L + 5"
      "b = fblk V1 (itable s1 ip) (off div BSIZE)" "b = 0 \<longrightarrow> full s1 V1" by (rule bmap_ok [OF less.prems(1) l4(1) bn])
    note C1 = file_ctxD [OF 1(2)]
    show ?thesis
    proof (cases "b = 0")
      case b0: True
      have "writei_loop ip (Kernel bs) off n tot s = Inr (tot, off, s1)" using True 1(1) b0 by (simp add: writei_loop.simps [of _ _ _ n])
      then show ?thesis using 1 b0 T1 wrote_grows [OF 1(3)] by (intro exI [of _ 0] exI [of _ s1] exI [of _ V1] exI [of _ L1]) simp
    next
      case b1: False
      define v where "v = put_bytes (V1 b) (off mod BSIZE) (take m bs)"
      have bf: "b \<in> fblks V1 (itable s1 ip)" "b \<noteq> i_addrs (itable s1 ip) NDIRECT" "tx_usable s1 b"
        using file_okD(3,4) [OF C1(4) bn] file_okD(1) [OF C1(4), of b] 1(5) b1 by (auto simp: data_blk_def)
      have room: "tx_room s1 = tx_room s" using growsD(1) [OF 1(3)] by (simp add: fs_frame_def)
      have cL: "card (set L1 \<union> {}) < NBUF" "length L1 < tx_room s1"
        using l4(2) 1(4) room card_logged [of L1 "{}"] by (auto simp: log_space_def)
      obtain p t1 t2 t3 where 2: "tx_acquire b s1 = Inr (p, t1)" "tx_data t1 p = V1 b" "tx_rest t1 = tx_rest s1"
        "log_write p (set_data p v t1) = Inr t2" "brelse p t2 = Inr t3" "tx_inv t3 (V1(b := v)) (if b \<in> set L1 then L1 else L1 @ [b]) {}"
        "tx_rest t3 = tx_rest s1" "disk t3 = disk s1"
        by (rule log_store.update_block [OF C1(1) bf(3) _ cL]) auto
      define L2 where "L2 = (if b \<in> set L1 then L1 else L1 @ [b])"
      have lm: "length (take m bs) = m" using m(2) less.prems(4) by simp
      note c3 = ctx_write(1) [OF 1(2) bf(1,2) 2(6) [folded L2_def] 2(7)]
      have W2: "wrote ip s1 V1 t3 (V1(b := v)) off (take m bs)"
        by (rule wrote_block [OF 1(2) bn 1(5) b1 _ _ 2(7,8)]) (use m(3) lm in \<open>simp_all only: v_def\<close>)
      have W1: "wrote ip s V t3 (V1(b := v)) off (take m bs)"
        using wrote_trans [of ip s V s1 V1 off "[]", OF wrote_grows [OF 1(3)]] W2 by simp
      have l2: "length L2 \<le> length L + 6" using 1(4) by (simp add: L2_def)
      have step: "writei_loop ip (Kernel bs) off n tot s = writei_loop ip (Kernel (drop m bs)) (off + m) n (tot + m) t3"
        using True 1(1) b1 2(1,2,4,5) C1(5) by (simp add: writei_loop.simps [of _ _ _ n tot] m_def [symmetric] tx_fold v_def)
      have ls: "log_space t3 L2 (6 * touched (off + m) (n - (tot + m)))" and lb: "6 + 6 * touched (off + m) (n - (tot + m)) \<le> 6 * touched off (n - tot)"
      proof -
        have z: "touched (off + m) 0 = 0" by (simp add: touched_def)
        show "6 + 6 * touched (off + m) (n - (tot + m)) \<le> 6 * touched off (n - tot)" using T T1 z by auto
        then show "log_space t3 L2 (6 * touched (off + m) (n - (tot + m)))"
          using less.prems(2) l2 fs_rest(8) [OF 2(7)] room by (simp add: log_space_def)
      qed
      have "\<exists>w s' V' L'. writei_loop ip (Kernel (drop m bs)) (off + m) n (tot + m) t3 = Inr (tot + m + w, off + m + w, s') \<and> w \<le> n - (tot + m) \<and>
        (w < n - (tot + m) \<longrightarrow> full s' V') \<and> file_ctx ip s' V' L' \<and> wrote ip t3 (V1(b := v)) s' V' (off + m) (take w (drop m bs)) \<and>
        length L' \<le> length L2 + 6 * touched (off + m) (n - (tot + m))"
        by (rule less.hyps [OF _ c3 ls]) (use m less.prems True in auto)
      then obtain w s' V' L' where 3: "writei_loop ip (Kernel (drop m bs)) (off + m) n (tot + m) t3 = Inr (tot + m + w, off + m + w, s')"
        "w \<le> n - (tot + m)" "w < n - (tot + m) \<longrightarrow> full s' V'" "file_ctx ip s' V' L'"
        "wrote ip t3 (V1(b := v)) s' V' (off + m) (take w (drop m bs))" "length L' \<le> length L2 + 6 * touched (off + m) (n - (tot + m))" by blast
      have "wrote ip s V s' V' off (take m bs @ take w (drop m bs))" by (rule wrote_trans [OF W1]) (use 3(5) lm in simp)
      then have "wrote ip s V s' V' off (take (m + w) bs)" by (simp add: take_add)
      then show ?thesis using 3(1-4,6) l2 lb m(2)
        by (intro exI [of _ "m + w"] exI [of _ s'] exI [of _ V'] exI [of _ L']) (auto simp: step add.assoc)
    qed
  qed
qed

section \<open>The whole operations\<close>

lemma fblk_addrs: "i_addrs y = i_addrs x \<Longrightarrow> fblk V y = fblk V x \<and> fblks V y = fblks V x \<and> file_ok s V y = file_ok s V x"
  by (simp add: fblk_def fblks_def file_ok_def fun_eq_iff)

lemma iupdate_ok:
  fixes s :: "'a fsst_scheme"
  assumes c: "file_ctx ip s V L" and l: "log_space s L 0" and n: "unat (i_inum (itable s ip)) < unat (sb_ninodes (sb s))"
    and b: "b = IBLOCK (i_inum (itable s ip)) (sb s)"
  obtains s' v where "iupdate ip s = Inr s'" "tx_rest s' = tx_rest s" "disk s' = disk s" "file_ctx ip s' (V(b := v)) (add_log b L)"
    "fblk (V(b := v)) (itable s ip) = fblk V (itable s ip)" "b \<in> inode_blocks (sb s)" "b \<notin> fblks V (itable s ip)"
    "\<And>c. unat c < unat (sb_size (sb s)) \<Longrightarrow> in_use (sb s) (V(b := v)) c = in_use (sb s) V c"
proof -
  note C = file_ctxD [OF c]
  define x where "x = itable s ip"
  define v where "v = put_dinode x (dinode_off (i_inum x)) (V b)"
  have bi: "b \<in> inode_blocks (sb s)" using n by (auto simp: inode_blocks_def b)
  then have bm: "b \<in> meta (sb s)" "tx_usable s b" "b \<notin> bitmap_blocks (sb s)" using C(2) by (auto simp: geometry_def meta_def)
  have bf: "b \<notin> fblks V x" using file_okD(1) [OF C(4), of b] bm(1) by (auto simp: data_blk_def x_def)
  have cL: "card (set L \<union> {}) < NBUF" "length L < tx_room s" using l card_logged [of L "{}"] by (auto simp: log_space_def)
  obtain p t1 t2 t3 where 2: "tx_acquire b s = Inr (p, t1)" "tx_data t1 p = V b" "tx_rest t1 = tx_rest s"
    "log_write p (set_data p v t1) = Inr t2" "brelse p t2 = Inr t3" "tx_inv t3 (V(b := v)) (if b \<in> set L then L else L @ [b]) {}"
    "tx_rest t3 = tx_rest s" "disk t3 = disk s"
    by (rule log_store.update_block [OF C(1) bm(2) _ cL]) auto
  note f = fs_rest [OF 2(7)]
  have k: "fblk (V(b := v)) x = fblk V x" by (rule fblk_cong) (use bf in auto)
  have u: "in_use (sb s) (V(b := v)) c = in_use (sb s) V c" if "unat c < unat (sb_size (sb s))" for c
    using that bm(3) by (auto simp: in_use_def bitmap_blocks_def)
  have db: "data_blk t3 (V(b := v)) c = data_blk s V c" for c using u by (auto simp: data_blk_def f)
  have "file_ok t3 (V(b := v)) x" using C(4) fblks_cong [OF k] by (simp add: file_ok_def db k x_def [symmetric])
  moreover have "free_ok t3 (V(b := v))" using C(3) u by (simp add: free_ok_def f)
  ultimately have c3: "file_ctx ip t3 (V(b := v)) (add_log b L)"
    using C(2,5) 2(6) geometry_rest [OF 2(7)] by (simp add: file_ctx_def f x_def add_log_def)
  have run: "iupdate ip s = Inr t3"
    using 2(1,2,4,5) C(5) fs_rest [OF 2(3)] by (simp add: iupdate_def tx_fold b [symmetric] v_def x_def)
  show ?thesis by (rule that [OF run 2(7,8) c3]) (use k bi bf u in \<open>auto simp: x_def\<close>)
qed

lemma file_bytes_small: "k \<le> MAXFILE * BSIZE \<Longrightarrow> unat (of_nat k :: u32) = k"
  by (intro unat_nat32) (simp add: MAXFILE_def NDIRECT_def NINDIRECT_def BSIZE_def)

lemma writei_runs:
  assumes "off \<le> unat (i_size (itable s ip))" "off + n \<le> MAXFILE * BSIZE" "writei_loop ip src off n 0 s = Inr (w, off', s1)"
    and "u = (if unat (i_size (itable s1 ip)) < off' then upd_ip ip (\<lambda>x. x\<lparr>i_size := of_nat off'\<rparr>) s1 else s1)" "iupdate ip u = Inr s'"
  shows "writei ip src (of_nat off) (of_nat n) s = Inr (int w, s')"
proof -
  have e: "unat (of_nat off :: u32) = off" "unat (of_nat n :: u32) = n" "unat (of_nat (off + n) :: u32) = off + n"
    by (rule file_bytes_small, use assms(2) in simp)+
  have "\<not> i_size (itable s ip) < of_nat off" "\<not> (of_nat off + of_nat n :: u32) < of_nat off"
    using assms(1) e by (simp_all add: word_less_nat_alt flip: of_nat_add)
  moreover have "\<not> MAXFILE * BSIZE < unat (of_nat off + of_nat n :: u32)" using assms(2) e(3) by (simp flip: of_nat_add)
  ultimately show ?thesis using assms(3-5) e by (simp add: writei_def Let_def)
qed

lemma writei_ok:
  fixes s :: "'a fsst_scheme"
  assumes c: "file_ctx ip s V L" and l: "log_space s L (6 * touched off n)"
    and o: "off \<le> unat (i_size (itable s ip))" "off + n \<le> MAXFILE * BSIZE" "length bs = n"
    and i: "unat (i_inum (itable s ip)) < unat (sb_ninodes (sb s))"
  obtains w s' V' L' where "writei ip (Kernel bs) (of_nat off) (of_nat n) s = Inr (int w, s')" "w \<le> n" "w < n \<longrightarrow> full s' V'"
    "file_ctx ip s' V' L'" "length L' \<le> length L + 6 * touched off n + 1"
    "unat (i_size (itable s' ip)) = max (unat (i_size (itable s ip))) (off + w)"
    "\<forall>k < MAXFILE * BSIZE. fdata V' (itable s' ip) k = overwrite (fdata V (itable s ip)) off (take w bs) k"
    "\<forall>k. present V (itable s ip) k \<or> off \<le> k \<and> k < off + w \<longrightarrow> present V' (itable s' ip) k"
    "\<forall>j. j \<noteq> ip \<longrightarrow> itable s' j = itable s j"
    "\<forall>c. c \<notin> fblks V' (itable s' ip) \<longrightarrow> c \<notin> meta (sb s) \<longrightarrow> V' c = V c"
proof -
  obtain w s1 V1 L1 where 1: "writei_loop ip (Kernel bs) off n 0 s = Inr (w, off + w, s1)" "w \<le> n" "w < n \<longrightarrow> full s1 V1"
    "file_ctx ip s1 V1 L1" "wrote ip s V s1 V1 off (take w bs)" "length L1 \<le> length L + 6 * touched off n"
    using writei_loop_ok [OF c, of off n 0 bs] l o(2,3) by auto
  note W = wroteD [OF 1(5)]
  obtain A where x1: "itable s1 ip = (itable s ip)\<lparr>i_addrs := A\<rparr>" and fr: "sb s1 = sb s" "tx_room s1 = tx_room s"
    "\<forall>j. j \<noteq> ip \<longrightarrow> itable s1 j = itable s j" using W(1) by (auto simp: fs_frame_def)
  define u where "u = (if unat (i_size (itable s1 ip)) < off + w then upd_ip ip (\<lambda>x. x\<lparr>i_size := of_nat (off + w)\<rparr>) s1 else s1)"
  have xu: "i_addrs (itable u ip) = i_addrs (itable s1 ip)" "i_inum (itable u ip) = i_inum (itable s ip)" "sb u = sb s" "tx_room u = tx_room s"
    "\<forall>j. j \<noteq> ip \<longrightarrow> itable u j = itable s j" "i_dev (itable u ip) = i_dev (itable s1 ip)" "lg_dev u = lg_dev s1"
    using fr by (simp_all add: u_def x1)
  have size_u: "unat (i_size (itable u ip)) = max (unat (i_size (itable s ip))) (off + w)"
    using file_bytes_small [of "off + w"] o(2) 1(2) by (simp add: u_def x1)
  note C1 = file_ctxD [OF 1(4)]
  have cu: "file_ctx ip u V1 L1"
  proof -
    have "tx_inv u V1 L1 {}" "geometry u" "free_ok u V1" using C1 by (simp_all add: u_def geometry_def free_ok_def)
    moreover have "file_ok u V1 (itable s1 ip)" using C1(4) by (simp add: u_def file_ok_def data_blk_def)
    ultimately show ?thesis using C1(5) fblk_addrs [OF xu(1), of V1 u] xu(6,7) by (simp add: file_ctx_def)
  qed
  have lu: "log_space u L1 0" "unat (i_inum (itable u ip)) < unat (sb_ninodes (sb u))" using l 1(6) xu i by (simp_all add: log_space_def)
  obtain s' v b where 2: "iupdate ip u = Inr s'" "tx_rest s' = tx_rest u" "disk s' = disk u" "file_ctx ip s' (V1(b := v)) (add_log b L1)"
    "fblk (V1(b := v)) (itable u ip) = fblk V1 (itable u ip)" "b \<in> inode_blocks (sb u)" "b \<notin> fblks V1 (itable u ip)"
    "\<And>c. unat c < unat (sb_size (sb u)) \<Longrightarrow> in_use (sb u) (V1(b := v)) c = in_use (sb u) V1 c"
    by (rule iupdate_ok [OF cu lu refl]) blast
  note f = fs_rest [OF 2(2)]
  have k: "fblk (V1(b := v)) (itable s' ip) = fblk V1 (itable s1 ip)" "fblks (V1(b := v)) (itable s' ip) = fblks V1 (itable s1 ip)"
    using 2(5) fblk_addrs [OF xu(1), of V1 u] fblks_cong [OF 2(5)] f(1) by simp_all
  have bm: "b \<in> meta (sb s)" using 2(6) xu(3) by (simp add: meta_def)
  have bn: "fblk V1 (itable s1 ip) m \<noteq> b" if "m < MAXFILE" "fblk V1 (itable s1 ip) m \<noteq> 0" for m
    using file_okD(4) [OF C1(4) that] 2(7) fblk_addrs [OF xu(1), of V1 u] by auto
  have fd: "fdata (V1(b := v)) (itable s' ip) q = fdata V1 (itable s1 ip) q" if "q < MAXFILE * BSIZE" for q
    using bn [of "q div BSIZE"] that by (auto simp: fdata_def k Let_def block_index)
  have fp: "present (V1(b := v)) (itable s' ip) q = present V1 (itable s1 ip) q" for q by (simp add: present_def k)
  show ?thesis
  proof (rule that [OF writei_runs [OF o(1,2) 1(1) u_def 2(1)] 1(2) _ 2(4)])
    show "w < n \<longrightarrow> full s' (V1(b := v))" using 1(3) 2(8) f(2) xu(3) fr(1) by (simp add: full_def)
    show "length (add_log b L1) \<le> length L + 6 * touched off n + 1" by (rule le_trans [OF add_log(2)]) (use 1(6) in simp)
    show "unat (i_size (itable s' ip)) = max (unat (i_size (itable s ip))) (off + w)" using size_u f(1) by simp
    show "\<forall>q < MAXFILE * BSIZE. fdata (V1(b := v)) (itable s' ip) q = overwrite (fdata V (itable s ip)) off (take w bs) q"
      using fd W(3) by simp
    show "\<forall>q. present V (itable s ip) q \<or> off \<le> q \<and> q < off + w \<longrightarrow> present (V1(b := v)) (itable s' ip) q"
      using fp W(4,5) 1(2) o(3) by auto
    show "\<forall>j. j \<noteq> ip \<longrightarrow> itable s' j = itable s j" using xu(5) f(1) by simp
    show "\<forall>c. c \<notin> fblks (V1(b := v)) (itable s' ip) \<longrightarrow> c \<notin> meta (sb s) \<longrightarrow> (V1(b := v)) c = V c"
      using W(6) bm by (auto simp: k(2) meta_def)
  qed
qed

lemma readi_ok:
  fixes s :: "'a fsst_scheme"
  assumes c: "file_ctx ip s V L" and l: "length L < NBUF" and z: "sz = unat (i_size (itable s ip))" "\<forall>k < sz. present V (itable s ip) k"
    and q: "q + m < 2 ^ 32" and k: "k = min (q + m) sz - q"
  shows "\<exists>s'. readi ip False dst (of_nat q) (of_nat m) s = Inr ((int k, map (fdata V (itable s ip)) [q..<q + k]), s')"
proof -
  have e: "unat (of_nat q :: u32) = q" "unat (of_nat m :: u32) = m" "unat (of_nat (q + m) :: u32) = q + m"
    by (rule unat_nat32, use q in simp)+
  have no: "\<not> (of_nat q + of_nat m :: u32) < of_nat q" using e by (simp add: word_less_nat_alt flip: of_nat_add)
  have gt: "i_size (itable s ip) < of_nat q \<longleftrightarrow> sz < q" "i_size (itable s ip) < of_nat q + of_nat m \<longleftrightarrow> sz < q + m"
    using e z(1) by (simp_all add: word_less_nat_alt flip: of_nat_add)
  show ?thesis
  proof (cases "sz < q")
    case True
    then show ?thesis using k gt(1) by (simp add: readi_def)
  next
    case False
    have "unat (i_size (itable s ip) - of_nat q) = sz - q" using False e(1) z(1) by (simp add: unat_sub word_le_nat_alt)
    then have n: "unat (if i_size (itable s ip) < of_nat q + of_nat m then i_size (itable s ip) - of_nat q else of_nat m) = k"
      using k False gt(2) e(2) by auto
    have "\<forall>j. q \<le> j \<longrightarrow> j < q + (k - 0) \<longrightarrow> present V (itable s ip) j" using z(2) k by auto
    from readi_loop_ok [OF c l this, of dst "[]"] obtain s' where
      "readi_loop ip False dst q k 0 [] s = Inr ((int k, map (fdata V (itable s ip)) [q..<q + k]), s')" by auto
    moreover have "readi ip False dst (of_nat q) (of_nat m) s = readi_loop ip False dst q k 0 [] s"
      using False gt(1) no n e(1) by (simp add: readi_def Let_def)
    ultimately show ?thesis by auto
  qed
qed


section \<open>A small file system\<close>

text \<open>
  A disk of 100 blocks as \<^verbatim>\<open>mkfs\<close> would lay it out: the log in blocks 2 to 32, the inodes in block
  33, the bitmap in block 34, and blocks 0 to 39 in use. Inode 1 is open and empty.
\<close>

definition small_sb :: superblock where
  "small_sb = \<lparr>sb_magic = FSMAGIC, sb_size = 100, sb_nblocks = 60, sb_ninodes = 16, sb_nlog = 31, sb_logstart = 2,
     sb_inodestart = 33, sb_bmapstart = 34\<rparr>"

definition small_disk :: "u32 \<Rightarrow> block" where
  "small_disk b = (\<lambda>k. if b = 34 \<and> k < 5 then 255 else 0)"

definition empty_inode :: inode where
  "empty_inode = \<lparr>i_dev = 1, i_inum = 1, i_ref = 1, i_lock = True, i_valid = True, i_type = T_FILE, i_major = 0, i_minor = 0,
     i_nlink = 1, i_size = 0, i_addrs = \<lambda>_. 0\<rparr>"

definition small_fs :: fsst where
  "small_fs = logst.extend (logst.truncate ((boot small_disk)\<lparr>lg_start := 2, lg_size := 31, lg_dev := 1, outstanding := 1\<rparr>))
     (fsst.fields small_sb (\<lambda>_. empty_inode) \<lparr>freelist = [], refs = \<lambda>_. 0, pg = \<lambda>_ _. 0, pend = 0\<rparr> 0 0)"

lemma small_fs_fields:
  "sb small_fs = small_sb" "itable small_fs = (\<lambda>_. empty_inode)" "lg_dev small_fs = 1" "lg_start small_fs = 2" "lg_size small_fs = 31"
  "outstanding small_fs = 1" "bufs small_fs = bufs (boot small_disk)" "disk small_fs = small_disk" "lh_n small_fs = 0"
  "lh_block small_fs = replicate LOGSIZE 0"
  by (simp_all add: small_fs_def logst.defs fsst.defs boot_def binit_def)

lemma small_in_use:
  assumes "unat b < 100"
  shows "in_use small_sb small_disk b \<longleftrightarrow> unat b < 40" "BBLOCK b small_sb = 34"
proof -
  have "BBLOCK (of_nat (unat b)) small_sb = of_nat (unat b div BPB) + 34"
    using BBLOCK_nat [OF unat_u32, of b small_sb] by (simp add: small_sb_def)
  then show 1: "BBLOCK b small_sb = 34" using assms by (simp add: BPB_def)
  have "(255 :: u8) = - 1" by simp
  then have "bit (255 :: u8) (unat b mod 8)" by (simp only: bit_minus_1_iff) simp
  moreover have "unat b div 8 < 5 \<longleftrightarrow> unat b < 40" by auto
  ultimately show "in_use small_sb small_disk b \<longleftrightarrow> unat b < 40" using assms
    by (auto simp: in_use_def 1 bitmap_bit_def small_disk_def BPB_def)
qed

lemma small_tx: "tx_inv small_fs small_disk [] {}"
proof -
  define z where "z = \<lparr>bufs = \<lambda>_. zero_buf, disk = small_disk, written = [], lg_start = 0, lg_size = 0, outstanding = 0,
     committing = False, lg_dev = 0, lh_n = 0, lh_block = replicate LOGSIZE 0 :: u32 list\<rparr>"
  have Z: "bufs z = (\<lambda>_. zero_buf)" "boot small_disk = binit z" "disk z = small_disk" by (simp_all add: z_def boot_def)
  have c: "cache_abs 1 small_fs = cache_abs 1 (binit z)" "bcache_ok 1 small_fs = bcache_ok 1 (binit z)"
    using cache_cong [of small_fs "binit z"] by (simp_all add: small_fs_fields Z binit_def)
  note B = binit_ok [OF Z(1), of 1]
  note e = cache_abs_eqD [OF c(1) [unfolded B(2) [OF one_neq_zero]], simplified]
  have "log_layout small_fs" "logged small_fs = []" by (simp_all add: log_layout_def logged_def small_fs_fields LOGSIZE_def)
  then show ?thesis using B(1) c(2) e by (simp add: tx_inv_def small_fs_fields Z)
qed

lemma small_ctx: "file_ctx 0 small_fs small_disk []"
proof -
  have bm: "bitmap_blocks small_sb = {34}" using small_in_use(2) by (auto simp: bitmap_blocks_def small_sb_def intro!: exI [of _ 0])
  have "IBLOCK i small_sb = 33" if "unat i < 16" for i
  proof -
    have "i div 16 = 0" using that by (simp add: word_unat_eq_iff unat_div)
    then show ?thesis by (simp add: IBLOCK_def IPB_def small_sb_def)
  qed
  then have ib: "inode_blocks small_sb = {33}" by (auto simp: inode_blocks_def small_sb_def intro!: exI [of _ 0])
  have u: "tx_usable small_fs b \<longleftrightarrow> unat b < 2 \<or> 32 < unat b" for b
    by (auto simp: tx_usable_def in_log_def small_fs_fields LOGSIZE_def)
  have g: "geometry small_fs"
    by (simp add: geometry_def meta_def bm ib u small_fs_fields) (simp add: small_sb_def BPB_def)
  have "free_ok small_fs small_disk"
  proof -
    have "b \<noteq> 33 \<and> b \<noteq> 34 \<and> b \<noteq> 0" if "\<not> unat b < 40" for b :: u32 using that by auto
    moreover have "sb_size small_sb = 100" by (simp add: small_sb_def)
    ultimately show ?thesis by (simp add: free_ok_def small_fs_fields meta_def bm ib u small_in_use)
  qed
  moreover have k: "fblk V empty_inode n = 0" for V n by (simp add: fblk_def empty_inode_def)
  have "i_addrs empty_inode NDIRECT = 0" by (simp add: empty_inode_def)
  then have "fblks small_disk empty_inode = {}" by (auto simp: fblks_def k)
  then have "file_ok small_fs small_disk empty_inode" by (simp add: file_ok_def k)
  ultimately show ?thesis using g small_tx by (simp add: file_ctx_def small_fs_fields empty_inode_def)
qed


end
