(* ===== verification/FsPath.thy ===== *)
theory FsPath
  imports Fs
begin

text \<open>
  The elements that \<open>skipelem\<close> of \<^verbatim>\<open>kernel/fs.c\<close> takes off a path one after the other.
\<close>

section \<open>Path elements\<close>

function path_elems :: "u8 list \<Rightarrow> u8 list list" where
  "path_elems path = (case skipelem path of None \<Rightarrow> [] | Some (name, rest) \<Rightarrow> name # path_elems rest)"
  by pat_completeness auto
termination
  by (relation "measure length") (auto dest: skipelem_shorter)

declare path_elems.simps [simp del]

text \<open>The reference: cut the path at every slash, drop the empty pieces, keep \<open>DIRSIZ\<close> characters of each.\<close>

fun split_slash :: "u8 list \<Rightarrow> u8 list list" where
  "split_slash [] = [[]]"
| "split_slash (c # cs) = (if c = slash then [] # split_slash cs else (c # hd (split_slash cs)) # tl (split_slash cs))"

lemma split_slash_word:
  "split_slash p = takeWhile (\<lambda>c. c \<noteq> slash) p # (case dropWhile (\<lambda>c. c \<noteq> slash) p of [] \<Rightarrow> [] | _ # r \<Rightarrow> split_slash r)"
  by (induction p) (auto split: list.splits)

lemma split_slash_skip:
  "filter (\<lambda>w. w \<noteq> []) (split_slash (dropWhile (\<lambda>c. c = slash) p)) = filter (\<lambda>w. w \<noteq> []) (split_slash p)"
  by (induction p) auto

lemma split_slash_elem:
  assumes p: "p \<noteq> []" "hd p \<noteq> slash"
  shows "filter (\<lambda>w. w \<noteq> []) (split_slash p) =
    takeWhile (\<lambda>c. c \<noteq> slash) p # filter (\<lambda>w. w \<noteq> []) (split_slash (dropWhile (\<lambda>c. c = slash) (dropWhile (\<lambda>c. c \<noteq> slash) p)))"
proof -
  have t: "takeWhile (\<lambda>c. c \<noteq> slash) p \<noteq> []" using p by (cases p) auto
  show ?thesis
  proof (cases "dropWhile (\<lambda>c. c \<noteq> slash) p")
    case Nil
    then show ?thesis using t unfolding split_slash_word [of p] Nil by simp
  next
    case (Cons c r)
    then have "c = slash" using hd_dropWhile [of "\<lambda>c. c \<noteq> slash" p] by simp
    then show ?thesis using t split_slash_skip [of r] unfolding split_slash_word [of p] Cons by simp
  qed
qed

text \<open>
  C24: taking elements off a path with \<open>skipelem\<close> until none is left yields the non-empty pieces
  between the slashes, each cut to \<open>DIRSIZ\<close> characters; leading, trailing and repeated slashes
  do not matter, and the loop ends for every path.
\<close>

theorem skipelem_splits: "path_elems path = map (take DIRSIZ) (filter (\<lambda>w. w \<noteq> []) (split_slash path))"
proof (induction path rule: path_elems.induct)
  case (1 path)
  define p where "p = dropWhile (\<lambda>c. c = slash) path"
  note s = split_slash_skip [of path, folded p_def]
  show ?case
  proof (cases "p = []")
    case True
    then have "skipelem path = None" by (simp add: skipelem_def p_def)
    then show ?thesis using s True by (simp add: path_elems.simps [of path])
  next
    case False
    define r where "r = dropWhile (\<lambda>c. c = slash) (dropWhile (\<lambda>c. c \<noteq> slash) p)"
    have k: "skipelem path = Some (take DIRSIZ (takeWhile (\<lambda>c. c \<noteq> slash) p), r)"
      using False by (simp add: skipelem_def p_def Let_def r_def)
    have "hd p \<noteq> slash" using hd_dropWhile [of "\<lambda>c. c = slash" path] False by (simp add: p_def)
    note e = split_slash_elem [OF False this, folded r_def]
    have "path_elems r = map (take DIRSIZ) (filter (\<lambda>w. w \<noteq> []) (split_slash r))" by (rule "1.IH" [OF k refl])
    then show ?thesis unfolding path_elems.simps [of path] k s [symmetric] e by simp
  qed
qed

end
