(* ===== verification/Grep.thy ===== *)
theory Grep
  imports Prelude
begin

text \<open>
  \<^verbatim>\<open>user/grep.c\<close>: the matcher for patterns with the operators \<open>^ . * $\<close> and the loop that reads a
  file in pieces and prints the matching lines. A C string is the list of its characters, and
  reading at its end yields the terminating 0. \<open>match\<close> is shown to decide the language of the
  pattern, and \<open>grep\<close> to print the complete lines that match, however \<open>read\<close> cuts the input.
\<close>

section \<open>Operations\<close>

definition ch :: "u8 list \<Rightarrow> nat \<Rightarrow> u8" where
  "ch s i = (if i < length s then s ! i else 0)"

definition CARET :: u8 where "CARET = 94"
definition DOLLAR :: u8 where "DOLLAR = 36"
definition DOT :: u8 where "DOT = 46"
definition STAR :: u8 where "STAR = 42"
definition NL :: u8 where "NL = 10"

text \<open>In \<open>matchstar\<close> the loop goes on behind the character it has looked at.\<close>

function matchhere :: "u8 list \<Rightarrow> u8 list \<Rightarrow> bool" and matchstar :: "u8 \<Rightarrow> u8 list \<Rightarrow> u8 list \<Rightarrow> bool" where
  "matchhere re tx =
     (if re = [] \<or> ch re 0 = 0 then True
      else if ch re 1 = STAR then matchstar (ch re 0) (drop 2 re) tx
      else if ch re 0 = DOLLAR \<and> ch re 1 = 0 then ch tx 0 = 0
      else if tx \<noteq> [] \<and> ch tx 0 \<noteq> 0 \<and> (ch re 0 = DOT \<or> ch re 0 = ch tx 0) then matchhere (tl re) (tl tx)
      else False)"
| "matchstar c re tx =
     (if matchhere re tx then True
      else if tx \<noteq> [] \<and> ch tx 0 \<noteq> 0 \<and> (ch tx 0 = c \<or> c = DOT) then matchstar c re (tl tx)
      else False)"
  by pat_completeness auto
termination
  by (relation "measure (\<lambda>x. case x of Inl (re, tx) \<Rightarrow> 2 * (length re + length tx)
        | Inr (c, re, tx) \<Rightarrow> 2 * (length re + length tx) + 1)")
    (auto simp: ch_def STAR_def neq_Nil_conv split: if_splits)

declare matchhere.simps [simp del] matchstar.simps [simp del]

fun match_loop :: "u8 list \<Rightarrow> u8 list \<Rightarrow> bool" where
  "match_loop re tx =
     (if matchhere re tx then True
      else if tx \<noteq> [] \<and> ch tx 0 \<noteq> 0 then match_loop re (tl tx)
      else False)"

declare match_loop.simps [simp del]

definition match :: "u8 list \<Rightarrow> u8 list \<Rightarrow> bool" where
  "match re tx = (if ch re 0 = CARET then matchhere (tl re) tx else match_loop re tx)"

text \<open>
  \<open>strchr\<close> gives the position of the character. \<open>grep_lines\<close> is the inner loop, on what the buffer
  holds from \<open>p\<close> on: it returns the printed bytes and the rest of the buffer. In the outer loop
  \<open>amount k inp\<close> is the number of bytes that \<open>read\<close> delivers when \<open>k\<close> are asked for and
  \<open>inp\<close> is what is left of the file.
\<close>

fun strchr :: "u8 list \<Rightarrow> u8 \<Rightarrow> nat option" where
  "strchr [] c = None"
| "strchr (x # s) c = (if x = 0 then None else if x = c then Some 0 else map_option Suc (strchr s c))"

lemma strchr_less: "strchr s c = Some q \<Longrightarrow> q < length s"
  by (induction s arbitrary: q) (auto split: if_splits)

function grep_lines :: "u8 list \<Rightarrow> u8 list \<Rightarrow> u8 list \<times> u8 list" where
  "grep_lines pattern p =
     (case strchr p NL of
        None \<Rightarrow> ([], p)
      | Some q \<Rightarrow>
          let (out, rest) = grep_lines pattern (drop (Suc q) p)
          in ((if match pattern (take q p) then take (Suc q) p else []) @ out, rest))"
  by pat_completeness auto
termination
  by (relation "measure (\<lambda>(pattern, p). length p)") (auto dest: strchr_less)

declare grep_lines.simps [simp del]

definition BUFLEN :: nat where "BUFLEN = 1024"

function grep_loop :: "(nat \<Rightarrow> u8 list \<Rightarrow> nat) \<Rightarrow> u8 list \<Rightarrow> u8 list \<Rightarrow> u8 list \<Rightarrow> u8 list" where
  "grep_loop amount pattern buf inp =
     (let n = min (amount (BUFLEN - length buf - 1) inp) (length inp)
      in if n = 0 then []
         else
           let (out, buf) = grep_lines pattern (buf @ take n inp)
           in out @ grep_loop amount pattern buf (drop n inp))"
  by pat_completeness auto
termination
  by (relation "measure (\<lambda>(amount, pattern, buf, inp). length inp)") auto

declare grep_loop.simps [simp del]

definition grep :: "(nat \<Rightarrow> u8 list \<Rightarrow> nat) \<Rightarrow> u8 list \<Rightarrow> u8 list \<Rightarrow> u8 list" where
  "grep amount pattern inp = grep_loop amount pattern [] inp"

section \<open>The language of a pattern\<close>

text \<open>
  A pattern is a sequence of items, with a flag that asks for the end of the text. An item is a
  character or a starred character; the character \<open>.\<close> stands for any.
\<close>

datatype item = One u8 | Many u8

fun items :: "u8 list \<Rightarrow> item list" where
  "items [] = []"
| "items [c] = (if c = DOLLAR then [] else [One c])"
| "items (c # d # re) = (if d = STAR then Many c # items re else One c # items (d # re))"

fun to_end :: "u8 list \<Rightarrow> bool" where
  "to_end [] = False"
| "to_end [c] = (c = DOLLAR)"
| "to_end (c # d # re) = (if d = STAR then to_end re else to_end (d # re))"

definition fits :: "u8 \<Rightarrow> u8 \<Rightarrow> bool" where
  "fits c x \<longleftrightarrow> c = DOT \<or> c = x"

fun lang :: "item list \<Rightarrow> u8 list set" where
  "lang [] = {[]}"
| "lang (One c # is) = {x # w |x w. fits c x \<and> w \<in> lang is}"
| "lang (Many c # is) = {u @ w |u w. (\<forall>x \<in> set u. fits c x) \<and> w \<in> lang is}"

lemma DOLLAR_neq: "DOLLAR \<noteq> 0" "0 \<noteq> STAR"
  by (simp_all add: DOLLAR_def STAR_def)

text \<open>The pattern describes a prefix of the text, or all of it.\<close>

definition describes :: "u8 list \<Rightarrow> u8 list \<Rightarrow> bool" where
  "describes re tx \<longleftrightarrow> (\<exists>w v. tx = w @ v \<and> w \<in> lang (items re) \<and> (to_end re \<longrightarrow> v = []))"

text \<open>What \<open>Many c\<close> followed by the rest of the pattern describes.\<close>

lemma describesI: "w \<in> lang (items re) \<Longrightarrow> (to_end re \<Longrightarrow> v = []) \<Longrightarrow> describes re (w @ v)"
  unfolding describes_def by blast

lemma describesE:
  assumes "describes re tx"
  obtains w v where "tx = w @ v" "w \<in> lang (items re)" "to_end re \<longrightarrow> v = []"
  using assms unfolding describes_def by blast

lemma describes_Many:
  "describes (c # STAR # re) tx \<longleftrightarrow> (\<exists>u v. tx = u @ v \<and> (\<forall>x \<in> set u. fits c x) \<and> describes re v)"
proof
  assume "describes (c # STAR # re) tx"
  then obtain w v where w: "tx = w @ v" "w \<in> lang (items (c # STAR # re))" "to_end (c # STAR # re) \<longrightarrow> v = []"
    by (rule describesE)
  then obtain u w' where u: "w = u @ w'" "\<forall>x \<in> set u. fits c x" "w' \<in> lang (items re)" by auto
  have "describes re (w' @ v)" using u(3) w(3) by (intro describesI) simp_all
  then show "\<exists>u v. tx = u @ v \<and> (\<forall>x \<in> set u. fits c x) \<and> describes re v"
    using w(1) u(1,2) by (intro exI [of _ u] exI [of _ "w' @ v"]) simp
next
  assume "\<exists>u v. tx = u @ v \<and> (\<forall>x \<in> set u. fits c x) \<and> describes re v"
  then obtain u w v where u: "tx = u @ w @ v" "\<forall>x \<in> set u. fits c x" "w \<in> lang (items re)" "to_end re \<longrightarrow> v = []"
    unfolding describes_def by blast
  have "u @ w \<in> lang (items (c # STAR # re))" using u(2,3) by auto
  then have "describes (c # STAR # re) ((u @ w) @ v)" by (rule describesI) (simp add: u(4))
  then show "describes (c # STAR # re) tx" using u(1) by simp
qed

lemma describes_One:
  assumes "re = [] \<or> hd re \<noteq> STAR" "\<not> (c = DOLLAR \<and> re = [])"
  shows "describes (c # re) tx \<longleftrightarrow> (\<exists>x v. tx = x # v \<and> fits c x \<and> describes re v)"
proof -
  have i: "items (c # re) = One c # items re" "to_end (c # re) = to_end re" using assms by (cases re; auto)+
  show ?thesis
  proof
    assume "describes (c # re) tx"
    then obtain w v where w: "tx = w @ v" "w \<in> lang (items (c # re))" "to_end (c # re) \<longrightarrow> v = []" by (rule describesE)
    then obtain x w' where x: "w = x # w'" "fits c x" "w' \<in> lang (items re)" unfolding i by auto
    have "describes re (w' @ v)" using x(3) w(3) i by (intro describesI) simp_all
    then show "\<exists>x v. tx = x # v \<and> fits c x \<and> describes re v" using w(1) x(1,2) by auto
  next
    assume "\<exists>x v. tx = x # v \<and> fits c x \<and> describes re v"
    then obtain x w v where x: "tx = x # w @ v" "fits c x" "w \<in> lang (items re)" "to_end re \<longrightarrow> v = []" unfolding describes_def by blast
    have "x # w \<in> lang (items (c # re))" unfolding i using x(2,3) by simp
    then have "describes (c # re) ((x # w) @ v)" by (rule describesI) (simp add: x(4) i)
    then show "describes (c # re) tx" using x(1) by simp
  qed
qed

lemma many_step:
  "(\<exists>u v. tx = u @ v \<and> (\<forall>x \<in> set u. fits c x) \<and> P v) \<longleftrightarrow>
     P tx \<or> (\<exists>x t. tx = x # t \<and> fits c x \<and> (\<exists>u v. t = u @ v \<and> (\<forall>x \<in> set u. fits c x) \<and> P v))"
  (is "?L tx \<longleftrightarrow> _")
proof
  assume "?L tx"
  then obtain u v where u: "tx = u @ v" "\<forall>x \<in> set u. fits c x" "P v" by auto
  then show "P tx \<or> (\<exists>x t. tx = x # t \<and> fits c x \<and> ?L t)" by (cases u) auto
next
  assume "P tx \<or> (\<exists>x t. tx = x # t \<and> fits c x \<and> ?L t)"
  then show "?L tx"
  proof (elim disjE exE conjE)
    assume "P tx"
    then show ?thesis by (intro exI [of _ "[]"] exI [of _ tx]) simp
  next
    fix x t u v
    assume "tx = x # t" "fits c x" "t = u @ v" "\<forall>x \<in> set u. fits c x" "P v"
    then show ?thesis by (intro exI [of _ "x # u"] exI [of _ v]) simp
  qed
qed

lemma match_describes:
  "0 \<notin> set re \<Longrightarrow> 0 \<notin> set tx \<Longrightarrow> matchhere re tx \<longleftrightarrow> describes re tx"
  "0 \<notin> set re \<Longrightarrow> 0 \<notin> set tx \<Longrightarrow>
     matchstar c re tx \<longleftrightarrow> (\<exists>u v. tx = u @ v \<and> (\<forall>x \<in> set u. fits c x) \<and> describes re v)"
proof (induction re tx and c re tx rule: matchhere_matchstar.induct)
  case (1 re tx)
  show ?case
  proof (cases re)
    case Nil
    then show ?thesis by (simp add: matchhere.simps describes_def)
  next
    case (Cons c r)
    have c0: "c \<noteq> 0" "0 \<notin> set r" using "1.prems"(1) Cons by auto
    consider (star) r' where "r = STAR # r'" | (last) "c = DOLLAR" "r = []"
      | (one) "r = [] \<or> hd r \<noteq> STAR" "\<not> (c = DOLLAR \<and> r = [])" by (cases r) auto
    then show ?thesis
    proof cases
      case star
      then show ?thesis using 1 Cons c0 by (simp add: matchhere.simps [of "c # STAR # r'"] ch_def describes_Many)
    next
      case last
      have "ch tx 0 = 0 \<longleftrightarrow> tx = []" using "1.prems"(2) by (cases tx) (auto simp: ch_def)
      then show ?thesis using last Cons by (simp add: matchhere.simps [of "[DOLLAR]"] ch_def DOLLAR_neq describes_def)
    next
      case one
      have s: "ch re 1 \<noteq> STAR" "\<not> (ch re 0 = DOLLAR \<and> ch re 1 = 0)"
        using one c0 Cons by (cases r; auto simp: ch_def STAR_def)+
      have t: "tx \<noteq> [] \<Longrightarrow> ch tx 0 = hd tx \<and> hd tx \<noteq> 0" using "1.prems"(2) by (cases tx) (auto simp: ch_def)
      have re: "ch re 0 = c" "tl re = r" "re \<noteq> []" using Cons by (simp_all add: ch_def)
      have "matchhere re tx \<longleftrightarrow> tx \<noteq> [] \<and> fits c (hd tx) \<and> matchhere r (tl tx)"
        using s t c0 re by (auto simp: matchhere.simps [of re] fits_def)
      moreover have "matchhere r (tl tx) \<longleftrightarrow> describes r (tl tx)" if "tx \<noteq> []" "fits c (hd tx)"
      proof -
        have "ch re 0 = DOT \<or> ch re 0 = ch tx 0" using that t re by (auto simp: fits_def)
        moreover have "0 \<notin> set (tl tx)" using "1.prems"(2) by (cases tx) auto
        ultimately show ?thesis using "1.IH"(2) s re c0 t that by simp
      qed
      ultimately show ?thesis unfolding Cons describes_One [OF one] by (cases tx) auto
    qed
  qed
next
  case (2 c re tx)
  have t: "tx \<noteq> [] \<Longrightarrow> ch tx 0 = hd tx \<and> hd tx \<noteq> 0" using "2.prems"(2) by (cases tx) (auto simp: ch_def)
  have tt: "0 \<notin> set (tl tx)" using "2.prems"(2) by (cases tx) auto
  show ?case
  proof (cases "matchhere re tx")
    case True
    then have "describes re tx" using "2.IH"(1) "2.prems" by simp
    then show ?thesis using True by (subst many_step) (simp add: matchstar.simps)
  next
    case False
    then have d: "\<not> describes re tx" using "2.IH"(1) "2.prems" by simp
    show ?thesis
    proof (cases "tx \<noteq> [] \<and> fits c (hd tx)")
      case True
      then have g: "tx \<noteq> [] \<and> ch tx 0 \<noteq> 0 \<and> (ch tx 0 = c \<or> c = DOT)" using t by (auto simp: fits_def)
      then have "matchstar c re tx \<longleftrightarrow> matchstar c re (tl tx)" using False by (simp add: matchstar.simps [of c re tx])
      also have "\<dots> \<longleftrightarrow> (\<exists>u v. tl tx = u @ v \<and> (\<forall>x \<in> set u. fits c x) \<and> describes re v)"
        using "2.IH"(2) False g "2.prems"(1) tt by simp
      finally show ?thesis using d True by (subst many_step) (cases tx, auto)
    next
      case g: False
      then have "\<not> matchstar c re tx" using False t by (auto simp: matchstar.simps [of c re tx] fits_def)
      then show ?thesis using d g by (subst many_step) auto
    qed
  qed
qed

lemma match_loop_describes:
  "0 \<notin> set re \<Longrightarrow> 0 \<notin> set tx \<Longrightarrow> match_loop re tx \<longleftrightarrow> (\<exists>u v. tx = u @ v \<and> describes re v)"
proof (induction tx)
  case Nil
  then show ?case by (simp add: match_loop.simps [of re] match_describes)
next
  case (Cons x t)
  have "match_loop re (x # t) \<longleftrightarrow> describes re (x # t) \<or> match_loop re t"
    using Cons.prems by (simp add: match_loop.simps [of re "x # t"] match_describes ch_def)
  then show ?case using Cons by (auto simp: Cons_eq_append_conv)
qed

text \<open>
  C25: \<open>match\<close> returns for every pattern and text, and decides whether the text has a part
  described by the pattern: a prefix if the pattern starts with \<open>^\<close>, a part that reaches to the end of the
  text if it ends with \<open>$\<close>, with \<open>.\<close> for any character and \<open>*\<close> for any number of repetitions.
\<close>

theorem match_decides:
  assumes "0 \<notin> set re" "0 \<notin> set tx"
  shows "match re tx \<longleftrightarrow>
    (if re \<noteq> [] \<and> hd re = CARET then describes (tl re) tx else \<exists>u v. tx = u @ v \<and> describes re v)"
  using assms match_describes(1) [of "tl re" tx] match_loop_describes [of re tx]
  by (cases re) (auto simp: match_def ch_def CARET_def)

theorem match_decides_witness:
  "match [97, 42, 98, 36] [120, 97, 97, 98] \<and> (\<exists>u v. [120, 97, 97, 98] = u @ v \<and> describes [97, 42, 98, 36] v)"
  using match_decides [of "[97, 42, 98, 36]" "[120, 97, 97, 98]"]
  by (simp add: CARET_def match_def match_loop.simps matchhere.simps matchstar.simps ch_def STAR_def DOLLAR_def DOT_def)

section \<open>The lines of a file\<close>

fun lines_of :: "u8 list \<Rightarrow> u8 list \<Rightarrow> u8 list list" where
  "lines_of acc [] = []"
| "lines_of acc (x # s) = (if x = NL then acc # lines_of [] s else lines_of (acc @ [x]) s)"

fun last_piece :: "u8 list \<Rightarrow> u8 list \<Rightarrow> u8 list" where
  "last_piece acc [] = acc"
| "last_piece acc (x # s) = (if x = NL then last_piece [] s else last_piece (acc @ [x]) s)"

definition printed :: "u8 list \<Rightarrow> u8 list list \<Rightarrow> u8 list" where
  "printed pattern ls = concat (map (\<lambda>l. l @ [NL]) (filter (match pattern) ls))"

lemma lines_of_append: "lines_of acc (s @ t) = lines_of acc s @ lines_of (last_piece acc s) t"
  by (induction s arbitrary: acc) auto

lemma last_piece_append: "last_piece acc (s @ t) = last_piece (last_piece acc s) t"
  by (induction s arbitrary: acc) auto

lemma lines_of_plain: "NL \<notin> set s \<Longrightarrow> lines_of acc s = [] \<and> last_piece acc s = acc @ s"
  by (induction s arbitrary: acc) auto

lemma last_piece_plain: "NL \<notin> set acc \<Longrightarrow> NL \<notin> set (last_piece acc s)"
  by (induction s arbitrary: acc) auto

lemma set_last_piece: "set (last_piece acc s) \<subseteq> set acc \<union> set s"
proof (induction s arbitrary: acc)
  case (Cons x s)
  then show ?case using Cons.IH [of "[]"] Cons.IH [of "acc @ [x]"] by auto
qed simp

lemma length_last_piece: "length (last_piece acc s) \<le> length acc + length s"
proof (induction s arbitrary: acc)
  case (Cons x s)
  then show ?case using Cons.IH [of "[]"] Cons.IH [of "acc @ [x]"] by auto
qed simp

lemma strchr_Some:
  "0 \<notin> set p \<Longrightarrow> strchr p c = Some q \<Longrightarrow> p = take q p @ c # drop (Suc q) p \<and> c \<notin> set (take q p)"
  by (induction p arbitrary: q) (auto split: if_splits)

lemma strchr_None: "0 \<notin> set p \<Longrightarrow> strchr p c = None \<Longrightarrow> c \<notin> set p"
  by (induction p) (auto split: if_splits)

lemma printed_simps [simp]:
  "printed pattern [] = []"
  "printed pattern (l # ls) = (if match pattern l then l @ [NL] else []) @ printed pattern ls"
  "printed pattern (ls @ ms) = printed pattern ls @ printed pattern ms"
  by (simp_all add: printed_def)

lemma grep_lines_ok:
  "0 \<notin> set p \<Longrightarrow> grep_lines pattern p = (printed pattern (lines_of [] p), last_piece [] p)"
proof (induction pattern p rule: grep_lines.induct)
  case (1 pattern p)
  show ?case
  proof (cases "strchr p NL")
    case None
    then show ?thesis using strchr_None [OF 1(2) None] lines_of_plain [of p "[]"] by (simp add: grep_lines.simps [of pattern p])
  next
    case (Some q)
    define l r where "l = take q p" and "r = drop (Suc q) p"
    have p: "p = l @ NL # r" "NL \<notin> set l" using strchr_Some [OF 1(2) Some] by (simp_all add: l_def r_def)
    have "length l = q" using strchr_less [OF Some] by (simp add: l_def)
    then have tq: "take (Suc q) p = l @ [NL]" by (simp add: p(1))
    have "0 \<notin> set r" using 1(2) p(1) by simp
    then have "grep_lines pattern r = (printed pattern (lines_of [] r), last_piece [] r)"
      using 1(1) [OF Some] by (simp add: r_def)
    moreover have "lines_of [] p = l # lines_of [] r" "last_piece [] p = last_piece [] r"
      using lines_of_plain [OF p(2), of "[]"] by (simp_all add: p(1) lines_of_append last_piece_append)
    ultimately show ?thesis using tq by (simp add: grep_lines.simps [of pattern p] Some flip: l_def r_def)
  qed
qed

text \<open>What \<open>read\<close> promises: at least one byte while there are some, and no more than asked for.\<close>

definition read_ok :: "(nat \<Rightarrow> u8 list \<Rightarrow> nat) \<Rightarrow> bool" where
  "read_ok amount \<longleftrightarrow> (\<forall>k inp. amount k inp \<le> k \<and> (0 < k \<and> inp \<noteq> [] \<longrightarrow> 0 < amount k inp))"

text \<open>No line fills the buffer.\<close>

definition short_lines :: "u8 list \<Rightarrow> u8 list \<Rightarrow> bool" where
  "short_lines buf inp \<longleftrightarrow> (\<forall>s t. inp = s @ t \<longrightarrow> length (last_piece buf s) < BUFLEN - 1)"

lemma grep_loop_ok:
  "read_ok amount \<Longrightarrow> 0 \<notin> set buf \<Longrightarrow> 0 \<notin> set inp \<Longrightarrow> NL \<notin> set buf \<Longrightarrow> short_lines buf inp \<Longrightarrow>
    grep_loop amount pattern buf inp = printed pattern (lines_of buf inp)"
proof (induction amount pattern buf inp rule: grep_loop.induct)
  case (1 amount pattern buf inp)
  define n where "n = min (amount (BUFLEN - length buf - 1) inp) (length inp)"
  show ?case
  proof (cases "n = 0")
    case True
    have "length (last_piece buf []) < BUFLEN - 1"
      using "1.prems"(5) unfolding short_lines_def by (metis append_Nil)
    then have "0 < BUFLEN - length buf - 1" by simp
    then have "inp \<noteq> [] \<longrightarrow> 0 < amount (BUFLEN - length buf - 1) inp" using "1.prems"(1) unfolding read_ok_def by blast
    then have "inp = []" using True unfolding n_def by (cases inp) auto
    then show ?thesis by (simp add: grep_loop.simps [of amount pattern buf "[]"])
  next
    case False
    define b where "b = last_piece buf (take n inp)"
    have z: "0 \<notin> set (buf @ take n inp)" "0 \<notin> set b" "0 \<notin> set (drop n inp)"
      using "1.prems"(2,3) set_last_piece [of buf "take n inp"] by (auto simp: b_def dest: in_set_takeD in_set_dropD)
    have e: "lines_of [] (buf @ take n inp) = lines_of buf (take n inp)" "last_piece [] (buf @ take n inp) = b"
      using lines_of_plain [OF "1.prems"(4), of "[]"] by (simp_all add: lines_of_append last_piece_append b_def)
    have gl: "grep_lines pattern (buf @ take n inp) = (printed pattern (lines_of buf (take n inp)), b)"
      unfolding grep_lines_ok [OF z(1)] e ..
    have "short_lines b (drop n inp)" unfolding short_lines_def
    proof (intro allI impI)
      fix s t
      assume "drop n inp = s @ t"
      then have "inp = (take n inp @ s) @ t" by (metis append.assoc append_take_drop_id)
      then have "length (last_piece buf (take n inp @ s)) < BUFLEN - 1"
        using "1.prems"(5) unfolding short_lines_def by blast
      then show "length (last_piece b s) < BUFLEN - 1" by (simp add: b_def last_piece_append)
    qed
    moreover have "NL \<notin> set b" using last_piece_plain [OF "1.prems"(4)] by (simp add: b_def)
    ultimately have "grep_loop amount pattern b (drop n inp) = printed pattern (lines_of b (drop n inp))"
      using "1.IH" [OF n_def False gl [symmetric] refl "1.prems"(1) z(2,3)] by simp
    moreover have "lines_of buf inp = lines_of buf (take n inp) @ lines_of b (drop n inp)"
      using lines_of_append [of buf "take n inp" "drop n inp"] by (simp add: b_def)
    ultimately show ?thesis using False gl
      unfolding grep_loop.simps [of amount pattern buf inp] n_def [symmetric] by simp
  qed
qed

text \<open>
  C26: for a text file whose lines are shorter than 1023 bytes \<open>grep\<close> returns and has printed
  the lines that \<open>match\<close> the pattern, in order and each with its newline, whatever the sizes of
  the pieces in which \<open>read\<close> delivers the file.
\<close>

theorem grep_prints:
  assumes "read_ok amount" "0 \<notin> set inp" "short_lines [] inp"
  shows "grep amount pattern inp = printed pattern (lines_of [] inp)"
  unfolding grep_def using assms by (intro grep_loop_ok) simp_all

theorem grep_prints_witness:
  "grep (\<lambda>k inp. min k 3) [98] [97, 98, 10, 97, 10, 98, 10] = [97, 98, 10, 98, 10]"
proof -
  have "short_lines [] ([97, 98, 10, 97, 10, 98, 10] :: u8 list)" unfolding short_lines_def
  proof (intro allI impI)
    fix u v :: "u8 list"
    assume "[97, 98, 10, 97, 10, 98, 10] = u @ v"
    from arg_cong [OF this, of length] have "length u \<le> 7" by simp
    then show "length (last_piece [] u) < BUFLEN - 1" using length_last_piece [of "[]" u] by (simp add: BUFLEN_def)
  qed
  then have "grep (\<lambda>k inp. min k 3) [98] [97, 98, 10, 97, 10, 98, 10] = printed [98] (lines_of [] [97, 98, 10, 97, 10, 98, 10])"
    by (intro grep_prints) (simp_all add: read_ok_def)
  then show ?thesis
    by (simp add: NL_def match_def match_loop.simps matchhere.simps ch_def CARET_def STAR_def DOLLAR_def DOT_def)
qed

end
