(* ===== verification/Pipe.thy ===== *)
theory Pipe
  imports Vm
begin

text \<open>
  \<^verbatim>\<open>kernel/pipe.c\<close>: the ring buffer of a pipe and the calls that write, read and close it. Each
  call runs under the lock of the pipe up to its return or to the \<open>sleep\<close> in its loop, and
  resumes after the wake-up where it stopped. The bytes come from and go to user memory with
  \<^const>\<open>copyin\<close> and \<^const>\<open>copyout\<close>. \<open>killed\<close> is the answer of \<open>killed(pr)\<close> at each of its calls.
\<close>

section \<open>The pipe\<close>

definition PIPESIZE :: u32 where "PIPESIZE = 512"

record pipe =
  pdata :: "nat \<Rightarrow> u8"
  nread :: u32
  nwrite :: u32
  readopen :: bool
  writeopen :: bool

text \<open>The fields that \<open>pipealloc\<close> sets in a fresh page.\<close>

definition pipe_init :: "pipe \<Rightarrow> pipe" where
  "pipe_init pi = pi\<lparr>readopen := True, writeopen := True, nwrite := 0, nread := 0\<rparr>"

definition pipe_put :: "pipe \<Rightarrow> u8 \<Rightarrow> pipe" where
  "pipe_put pi ch = pi\<lparr>pdata := (pdata pi)(unat (nwrite pi mod PIPESIZE) := ch), nwrite := nwrite pi + 1\<rparr>"

definition pipe_get :: "pipe \<Rightarrow> u8 \<times> pipe" where
  "pipe_get pi = (pdata pi (unat (nread pi mod PIPESIZE)), pi\<lparr>nread := nread pi + 1\<rparr>)"

definition pipe_full :: "pipe \<Rightarrow> bool" where
  "pipe_full pi \<longleftrightarrow> nwrite pi = nread pi + PIPESIZE"

text \<open>A call returns a value, or sleeps with \<open>i\<close> bytes done.\<close>

datatype outcome = Returned int | Asleep nat

text \<open>
  The loop of \<open>pipewrite\<close> from \<open>i\<close> on; the flag says whether it wakes the readers, which it
  does before it sleeps and on every return but those with -1.
\<close>

function pipewrite :: "pool \<Rightarrow> addr \<Rightarrow> (nat \<Rightarrow> bool) \<Rightarrow> pipe \<Rightarrow> u64 \<Rightarrow> int \<Rightarrow> nat \<Rightarrow> outcome \<times> bool \<times> pipe" where
  "pipewrite P pt killed pi a n i =
     (if int i < n then
        if \<not> readopen pi \<or> killed i then (Returned (- 1), False, pi)
        else if pipe_full pi then (Asleep i, True, pi)
        else case copyin P pt (a + of_nat i) 1 of
               (r, bs) \<Rightarrow>
                 if r = - 1 then (Returned (int i), True, pi)
                 else pipewrite P pt killed (pipe_put pi (hd bs)) a n (Suc i)
      else (Returned (int i), True, pi))"
  by pat_completeness auto
termination
  by (relation "measure (\<lambda>(P, pt, killed, pi, a, n, i). nat (n - int i))") auto

declare pipewrite.simps [simp del]

text \<open>The loop of \<open>piperead\<close> that takes bytes out, and the whole call.\<close>

function piperead_loop :: "pool \<Rightarrow> addr \<Rightarrow> pipe \<Rightarrow> u64 \<Rightarrow> int \<Rightarrow> nat \<Rightarrow> nat \<times> pipe \<times> pool" where
  "piperead_loop P pt pi a n i =
     (if int i < n then
        if nread pi = nwrite pi then (i, pi, P)
        else case pipe_get pi of
               (ch, pi) \<Rightarrow>
                 (case copyout P pt (a + of_nat i) [ch] of
                    (r, P) \<Rightarrow> if r = - 1 then (i, pi, P) else piperead_loop P pt pi a n (Suc i))
      else (i, pi, P))"
  by pat_completeness auto
termination
  by (relation "measure (\<lambda>(P, pt, pi, a, n, i). nat (n - int i))") auto

declare piperead_loop.simps [simp del]

definition piperead :: "pool \<Rightarrow> addr \<Rightarrow> bool \<Rightarrow> pipe \<Rightarrow> u64 \<Rightarrow> int \<Rightarrow> outcome \<times> bool \<times> pipe \<times> pool" where
  "piperead P pt killed pi a n =
     (if nread pi = nwrite pi \<and> writeopen pi then
        (if killed then Returned (- 1) else Asleep 0, False, pi, P)
      else case piperead_loop P pt pi a n 0 of (i, pi, P) \<Rightarrow> (Returned (int i), True, pi, P))"

text \<open>
  \<open>pipeclose\<close> on the table of pipes, indexed by the pages they lie in: the last closer frees
  the page.
\<close>

definition pipe_shut :: "pipe \<Rightarrow> bool \<Rightarrow> pipe" where
  "pipe_shut pi writable = (if writable then pi\<lparr>writeopen := False\<rparr> else pi\<lparr>readopen := False\<rparr>)"

definition pipeclose :: "(addr \<Rightarrow> pipe) \<Rightarrow> pool \<Rightarrow> addr \<Rightarrow> bool \<Rightarrow> ((addr \<Rightarrow> pipe) \<times> pool) result" where
  "pipeclose pis P a writable =
     (let pi = pipe_shut (pis a) writable;
          pis = pis(a := pi)
      in if \<not> readopen pi \<and> \<not> writeopen pi
         then bindE (pool_kfree P a) (\<lambda>P. Inr (pis, P))
         else Inr (pis, P))"

section \<open>The bytes in a pipe\<close>

definition pipe_len :: "pipe \<Rightarrow> nat" where
  "pipe_len pi = unat (nwrite pi - nread pi)"

definition contents :: "pipe \<Rightarrow> u8 list" where
  "contents pi = map (\<lambda>k. pdata pi (unat ((nread pi + of_nat k) mod PIPESIZE))) [0..<pipe_len pi]"

definition pipe_ok :: "pipe \<Rightarrow> bool" where
  "pipe_ok pi \<longleftrightarrow> pipe_len pi \<le> 512"

lemma length_contents [simp]: "length (contents pi) = pipe_len pi"
  by (simp add: contents_def)

lemma pipe_empty_iff: "nread pi = nwrite pi \<longleftrightarrow> contents pi = []"
proof -
  have "pipe_len pi = 0 \<longleftrightarrow> nwrite pi - nread pi = 0" by (simp add: pipe_len_def unat_eq_0)
  then have "pipe_len pi = 0 \<longleftrightarrow> nread pi = nwrite pi" by (metis eq_iff_diff_eq_0)
  then show ?thesis by (metis length_0_conv length_contents)
qed

lemma pipe_full_iff: "pipe_full pi \<longleftrightarrow> length (contents pi) = 512"
proof -
  have "pipe_full pi \<longleftrightarrow> nwrite pi - nread pi = PIPESIZE" by (simp add: pipe_full_def diff_eq_eq add.commute)
  also have "\<dots> \<longleftrightarrow> pipe_len pi = 512" by (simp add: pipe_len_def PIPESIZE_def word_unat_eq_iff)
  finally show ?thesis by simp
qed

text \<open>Ring positions do not depend on the wrap-around of the 32-bit counters.\<close>

lemma ring_pos: "unat ((r + of_nat k) mod PIPESIZE) = (unat r + k) mod 512"
proof -
  have "unat (r + of_nat k) mod 512 = ((unat r + k) mod 2 ^ 32) mod 512"
    by (simp add: unat_word_ariths unat_of_nat mod_add_right_eq)
  also have "\<dots> = (unat r + k) mod 512" by (rule mod_mod_cancel) simp
  finally show ?thesis by (simp add: PIPESIZE_def unat_mod)
qed

lemma nth_contents: "k < pipe_len pi \<Longrightarrow> contents pi ! k = pdata pi ((unat (nread pi) + k) mod 512)"
  by (simp add: contents_def ring_pos)

lemma nwrite_len: "nwrite pi = nread pi + of_nat (pipe_len pi)"
  by (simp add: pipe_len_def)

lemma ring_neq: "k < n \<Longrightarrow> n < 512 \<Longrightarrow> (r + k) mod 512 \<noteq> (r + n) mod (512 :: nat)"
proof
  assume h: "k < n" "n < 512" "(r + k) mod 512 = (r + n) mod 512"
  then have "512 dvd (r + n) - (r + k)" by (metis add_left_mono less_imp_le mod_eq_dvd_iff_nat)
  then show False using h by (auto dest: dvd_imp_le)
qed

lemma contents_put:
  assumes "pipe_len pi < 512"
  shows "contents (pipe_put pi ch) = contents pi @ [ch]" "pipe_len (pipe_put pi ch) = Suc (pipe_len pi)"
proof -
  have "pipe_len (pipe_put pi ch) = unat (nwrite pi + 1 - nread pi)" by (simp add: pipe_len_def pipe_put_def)
  also have "nwrite pi + 1 - nread pi = of_nat (Suc (pipe_len pi))" by (subst nwrite_len) simp
  also have "unat (of_nat (Suc (pipe_len pi)) :: u32) = Suc (pipe_len pi)" using assms by (intro unat_of_nat_small) simp
  finally show l: "pipe_len (pipe_put pi ch) = Suc (pipe_len pi)" .
  have w: "unat (nwrite pi mod PIPESIZE) = (unat (nread pi) + pipe_len pi) mod 512"
    by (simp only: nwrite_len [of pi] ring_pos)
  have f: "nread (pipe_put pi ch) = nread pi"
    "pdata (pipe_put pi ch) = (pdata pi)((unat (nread pi) + pipe_len pi) mod 512 := ch)"
    by (simp_all add: pipe_put_def w)
  have "contents (pipe_put pi ch) ! k = (contents pi @ [ch]) ! k" if "k < Suc (pipe_len pi)" for k
    using that assms ring_neq [of k "pipe_len pi" "unat (nread pi)"]
    by (cases "k = pipe_len pi")
      (simp_all add: nth_contents l nth_append f)
  then show "contents (pipe_put pi ch) = contents pi @ [ch]" by (intro nth_equalityI) (simp_all add: l)
qed

lemma contents_get:
  assumes "pipe_get pi = (ch, pi')" "nread pi \<noteq> nwrite pi"
  shows "contents pi = ch # contents pi'" "pipe_len pi = Suc (pipe_len pi')"
proof -
  have p: "pi' = pi\<lparr>nread := nread pi + 1\<rparr>" "ch = pdata pi (unat (nread pi mod PIPESIZE))"
    using assms(1) by (simp_all add: pipe_get_def)
  have "nwrite pi - nread pi \<noteq> 0" using assms(2) by auto
  then show l: "pipe_len pi = Suc (pipe_len pi')"
    using unat_minus_one [of "nwrite pi - nread pi"] unat_gt_0 [of "nwrite pi - nread pi"]
    by (simp add: p pipe_len_def diff_diff_add)
  have "contents pi ! k = (ch # contents pi') ! k" if "k < Suc (pipe_len pi')" for k
  proof (cases k)
    case 0
    then show ?thesis using ring_pos [of "nread pi" 0] by (simp add: nth_contents l p(2))
  next
    case (Suc j)
    have "(unat (nread pi') + j) mod 512 = (unat (nread pi) + Suc j) mod 512"
      using ring_pos [of "nread pi" "Suc j"] ring_pos [of "nread pi'" j] by (simp add: p(1) add.assoc)
    then show ?thesis using that Suc by (simp add: nth_contents l) (simp add: p(1))
  qed
  then show "contents pi = ch # contents pi'" by (intro nth_equalityI) (simp_all add: l)
qed

section \<open>Reading and writing\<close>

lemma copyin_byte:
  assumes "copyin P pt a 1 = (r, bs)" "r \<noteq> - 1"
  obtains b where "bs = [b]"
proof -
  have o: "page_off a < 4096" by (rule page_off_less)
  then have "min (4096 - page_off a) 1 = 1" by simp
  moreover have "copyin P pt x 0 = (0, [])" for x by (simp add: copyin.simps)
  ultimately have "bs = bytes_of (pg P (walkaddr P pt (PGROUNDDOWN a))) (page_off a) 1"
    using assms by (auto simp: copyin.simps [of P pt a] Let_def split: if_splits)
  then show ?thesis using that bytes_of_one by simp
qed

lemma pipewrite_wakes: "pipewrite P pt killed pi a n i = (r, w, pi') \<Longrightarrow> w \<or> r = Returned (- 1)"
  by (induction P pt killed pi a n i rule: pipewrite.induct)
    (auto simp: pipewrite.simps split: if_splits prod.splits)

text \<open>What a call of \<open>pipewrite\<close> appends, and in which state it stops.\<close>

lemma pipewrite_appends:
  assumes "pipewrite P pt killed pi a n i = (r, w, pi')" "pipe_ok pi"
  shows "\<exists>bs. contents pi' = contents pi @ bs \<and> pipe_ok pi' \<and>
    readopen pi' = readopen pi \<and> writeopen pi' = writeopen pi \<and>
    (\<forall>j. r = Asleep j \<longrightarrow> w \<and> readopen pi' \<and> length (contents pi') = 512 \<and> j = i + length bs) \<and>
    (\<forall>v. r = Returned v \<longrightarrow> v = - 1 \<or> v = int (i + length bs))"
  using assms
proof (induction P pt killed pi a n i rule: pipewrite.induct)
  case (1 P pt killed pi a n i)
  show ?case
  proof (cases "int i < n \<and> readopen pi \<and> \<not> killed i \<and> \<not> pipe_full pi \<and> fst (copyin P pt (a + of_nat i) 1) \<noteq> - 1")
    case False
    then show ?thesis using 1(2,3)
      by (auto simp: pipewrite.simps [of P] pipe_full_iff split: if_splits prod.splits intro!: exI [of _ "[]"])
  next
    case True
    obtain s bs where c: "copyin P pt (a + of_nat i) 1 = (s, bs)" by fastforce
    then obtain b where b: "bs = [b]" using True copyin_byte [OF c] by auto
    have len: "pipe_len pi < 512" using True 1(3) pipe_full_iff [of pi] by (simp add: pipe_ok_def)
    note put = contents_put [OF len, of b]
    have rec: "pipewrite P pt killed (pipe_put pi b) a n (Suc i) = (r, w, pi')"
      using 1(2) True c b by (simp add: pipewrite.simps [of P pt killed pi])
    have ok: "pipe_ok (pipe_put pi b)" using put(2) len by (simp add: pipe_ok_def)
    have o: "readopen (pipe_put pi b) = readopen pi" "writeopen (pipe_put pi b) = writeopen pi"
      by (simp_all add: pipe_put_def)
    have "\<exists>cs. contents pi' = contents (pipe_put pi b) @ cs \<and> pipe_ok pi' \<and>
      readopen pi' = readopen (pipe_put pi b) \<and> writeopen pi' = writeopen (pipe_put pi b) \<and>
      (\<forall>j. r = Asleep j \<longrightarrow> w \<and> readopen pi' \<and> length (contents pi') = 512 \<and> j = Suc i + length cs) \<and>
      (\<forall>v. r = Returned v \<longrightarrow> v = - 1 \<or> v = int (Suc i + length cs))"
      using 1(1) [of s bs] True c b rec ok by simp
    then obtain cs where cs: "contents pi' = contents (pipe_put pi b) @ cs" "pipe_ok pi'" "readopen pi' = readopen pi"
      "writeopen pi' = writeopen pi"
      "\<forall>j. r = Asleep j \<longrightarrow> w \<and> readopen pi' \<and> length (contents pi') = 512 \<and> j = Suc i + length cs"
      "\<forall>v. r = Returned v \<longrightarrow> v = - 1 \<or> v = int (Suc i + length cs)"
      unfolding o by blast
    then show ?thesis using cs put(1) by (intro exI [of _ "b # cs"]) auto
  qed
qed

lemma piperead_loop_takes:
  assumes "piperead_loop P pt pi a n i = (m, pi', P')"
  shows "\<exists>bs. contents pi = bs @ contents pi' \<and> readopen pi' = readopen pi \<and> writeopen pi' = writeopen pi \<and>
    i \<le> m \<and> m \<le> i + length bs"
  using assms
proof (induction P pt pi a n i rule: piperead_loop.induct)
  case (1 P pt pi a n i)
  show ?case
  proof (cases "int i < n \<and> nread pi \<noteq> nwrite pi")
    case False
    then show ?thesis using 1(2)
      by (auto simp: piperead_loop.simps [of P pt pi] split: if_splits)
  next
    case True
    obtain ch q where g: "pipe_get pi = (ch, q)" by fastforce
    obtain r Q where c: "copyout P pt (a + of_nat i) [ch] = (r, Q)" by fastforce
    have G: "contents pi = ch # contents q" using contents_get(1) [OF g] True by blast
    have o: "readopen q = readopen pi" "writeopen q = writeopen pi" using g by (auto simp: pipe_get_def)
    show ?thesis
    proof (cases "r = - 1")
      case r: True
      then show ?thesis using 1(2) True g c G o
        by (auto simp: piperead_loop.simps [of P pt pi] intro!: exI [of _ "[ch]"])
    next
      case r: False
      have "piperead_loop Q pt q a n (Suc i) = (m, pi', P')"
        using 1(2) True g c r by (simp add: piperead_loop.simps [of P pt pi])
      then obtain bs where "contents q = bs @ contents pi'" "readopen pi' = readopen q" "writeopen pi' = writeopen q"
        "Suc i \<le> m" "m \<le> Suc i + length bs"
        using 1(1) [of ch q r Q] True g c r by auto
      then show ?thesis using G o by (intro exI [of _ "ch # bs"]) auto
    qed
  qed
qed

section \<open>Processes at a pipe\<close>

text \<open>
  Any number of processes, with their page tables, write, read and close; \<open>rsl\<close> and \<open>wsl\<close>
  are the processes asleep on \<open>&pi->nread\<close> and \<open>&pi->nwrite\<close>. \<open>sent\<close> and \<open>taken\<close> record the
  bytes that entered and left the buffer, and \<open>cut_short\<close> that a write was cut short by \<open>kill\<close>, or by
  the close of the read end, after it had put bytes in: such a write returns without \<open>wakeup\<close>.
\<close>

record psys =
  the_pipe :: pipe
  user :: pool
  rsl :: "nat set"
  wsl :: "nat set"
  sent :: "u8 list"
  taken :: "u8 list"
  cut_short :: bool

definition sleeps :: "outcome \<Rightarrow> nat \<Rightarrow> nat set \<Rightarrow> nat set" where
  "sleeps r p S = (case r of Asleep _ \<Rightarrow> insert p S | Returned _ \<Rightarrow> S)"

inductive pipe_step :: "psys \<Rightarrow> psys \<Rightarrow> bool" where
  writing: "p \<notin> rsl s \<union> wsl s \<Longrightarrow> pipewrite (user s) pt killed (the_pipe s) a n i = (r, w, pi) \<Longrightarrow>
    pipe_step s (s\<lparr>the_pipe := pi, rsl := (if w then {} else rsl s), wsl := sleeps r p (wsl s),
                  sent := sent s @ drop (length (contents (the_pipe s))) (contents pi),
                  cut_short := (\<not> w \<and> (cut_short s \<or> contents pi \<noteq> contents (the_pipe s)))\<rparr>)"
| reading: "p \<notin> rsl s \<union> wsl s \<Longrightarrow> piperead (user s) pt kl (the_pipe s) a n = (r, w, pi, P) \<Longrightarrow>
    pipe_step s (s\<lparr>the_pipe := pi, user := P, wsl := (if w then {} else wsl s), rsl := sleeps r p (rsl s),
                  taken := taken s @ take (length (contents (the_pipe s)) - length (contents pi)) (contents (the_pipe s))\<rparr>)"
| closing: "pipe_step s (s\<lparr>the_pipe := pipe_shut (the_pipe s) writable,
                  rsl := (if writable then {} else rsl s), wsl := (if writable then wsl s else {})\<rparr>)"
| waking: "pipe_step s (s\<lparr>rsl := rsl s - {p}, wsl := wsl s - {p}\<rparr>)"
| running: "pipe_step s (s\<lparr>user := P\<rparr>)"

definition pipe_inv :: "psys \<Rightarrow> bool" where
  "pipe_inv s \<longleftrightarrow>
     pipe_ok (the_pipe s) \<and> sent s = taken s @ contents (the_pipe s) \<and>
     (rsl s \<noteq> {} \<longrightarrow> writeopen (the_pipe s) \<and> (cut_short s \<or> contents (the_pipe s) = [])) \<and>
     (wsl s \<noteq> {} \<longrightarrow> readopen (the_pipe s) \<and> length (contents (the_pipe s)) = 512)"

definition opened :: "psys \<Rightarrow> bool" where
  "opened s \<longleftrightarrow> (\<exists>pi. the_pipe s = pipe_init pi) \<and> rsl s = {} \<and> wsl s = {} \<and> sent s = [] \<and> taken s = []"

lemma write_inv:
  assumes inv: "pipe_inv s" and w: "pipewrite (user s) pt killed (the_pipe s) a n i = (r, w, pi)"
    and s': "s' = s\<lparr>the_pipe := pi, rsl := (if w then {} else rsl s), wsl := sleeps r p (wsl s),
                  sent := sent s @ drop (length (contents (the_pipe s))) (contents pi),
                  cut_short := (\<not> w \<and> (cut_short s \<or> contents pi \<noteq> contents (the_pipe s)))\<rparr>"
  shows "pipe_inv s'"
proof -
  have ok: "pipe_ok (the_pipe s)" using inv by (simp add: pipe_inv_def)
  obtain bs where bs: "contents pi = contents (the_pipe s) @ bs" "pipe_ok pi" "readopen pi = readopen (the_pipe s)"
      "writeopen pi = writeopen (the_pipe s)" "\<forall>j. r = Asleep j \<longrightarrow> readopen pi \<and> length (contents pi) = 512"
    using pipewrite_appends [OF w ok] by blast
  have "bs = []" if "wsl s \<noteq> {}"
  proof -
    have "length (contents (the_pipe s)) = 512" using that inv by (simp add: pipe_inv_def)
    then have "length (contents pi) = 512 + length bs" using bs(1) by simp
    moreover have "length (contents pi) \<le> 512" using bs(2) by (simp add: pipe_ok_def)
    ultimately have "length bs = 0" by linarith
    then show ?thesis by simp
  qed
  then show ?thesis using inv bs unfolding s'
    by (cases r) (auto simp: pipe_inv_def sleeps_def simp del: length_contents)
qed

lemma read_inv:
  assumes inv: "pipe_inv s" and w: "piperead (user s) pt kl (the_pipe s) a n = (r, w, pi, P)"
    and s': "s' = s\<lparr>the_pipe := pi, user := P, wsl := (if w then {} else wsl s), rsl := sleeps r p (rsl s),
                  taken := taken s @ take (length (contents (the_pipe s)) - length (contents pi)) (contents (the_pipe s))\<rparr>"
  shows "pipe_inv s'"
proof (cases "nread (the_pipe s) = nwrite (the_pipe s) \<and> writeopen (the_pipe s)")
  case True
  then show ?thesis using inv w pipe_empty_iff [of "the_pipe s"] unfolding s'
    by (auto simp: pipe_inv_def sleeps_def piperead_def split: if_splits)
next
  case False
  obtain m where m: "piperead_loop (user s) pt (the_pipe s) a n 0 = (m, pi, P)" "r = Returned (int m)" "w"
    using w False by (auto simp: piperead_def split: prod.splits if_splits)
  obtain bs where bs: "contents (the_pipe s) = bs @ contents pi" "writeopen pi = writeopen (the_pipe s)"
    using piperead_loop_takes [OF m(1)] by blast
  then have "pipe_len pi \<le> pipe_len (the_pipe s)"
    using length_contents [of pi] length_contents [of "the_pipe s"] by simp
  then show ?thesis using inv bs m unfolding s'
    by (auto simp: pipe_inv_def pipe_ok_def sleeps_def simp del: length_contents)
qed

lemma pipe_step_inv: "pipe_step s s' \<Longrightarrow> pipe_inv s \<Longrightarrow> pipe_inv s'"
proof (induction rule: pipe_step.induct)
  case (writing p s pt killed a n i r w pi)
  then show ?case by (intro write_inv [OF _ _ refl])
next
  case (reading p s pt kl a n r w pi P)
  then show ?case by (intro read_inv [OF _ _ refl])
next
  case (closing s writable)
  have "contents (pipe_shut (the_pipe s) writable) = contents (the_pipe s)"
    "pipe_len (pipe_shut (the_pipe s) writable) = pipe_len (the_pipe s)"
    by (simp_all add: pipe_shut_def contents_def pipe_len_def)
  then show ?case using closing by (auto simp: pipe_inv_def pipe_ok_def pipe_shut_def)
qed (auto simp: pipe_inv_def)

lemma opened_inv: "opened s \<Longrightarrow> pipe_inv s"
  by (auto simp: opened_def pipe_inv_def pipe_ok_def pipe_init_def contents_def pipe_len_def)

lemma pipe_steps_inv: "pipe_step\<^sup>*\<^sup>* s s' \<Longrightarrow> pipe_inv s \<Longrightarrow> pipe_inv s'"
  by (induction rule: rtranclp_induct) (auto intro: pipe_step_inv)


text \<open>A read of an empty pipe sleeps.\<close>

definition fresh_pipe :: psys where
  "fresh_pipe = \<lparr>the_pipe = pipe_init \<lparr>pdata = \<lambda>_. 5, nread = 7, nwrite = 7, readopen = False, writeopen = False\<rparr>,
     user = \<lparr>freelist = [], refs = \<lambda>_. 0, pg = \<lambda>_ _. 0, pend = 0x80022000\<rparr>,
     rsl = {}, wsl = {}, sent = [], taken = [], cut_short = False\<rparr>"


end
