(* ===== verification/File.thy ===== *)
theory File
  imports Fs Pipe Sleeplock SocketCalls
begin

text \<open>
  The state that the system calls work on, and \<^verbatim>\<open>kernel/file.c\<close> with \<open>pipealloc\<close> of
  \<^verbatim>\<open>kernel/pipe.c\<close>. The state extends that of the file system by the file table, the pipes, the
  network stack and the process table. Files, processes and inodes are indices into their tables,
  and \<open>None\<close> is a null pointer. The fields \<^const>\<open>upagetable\<close> and \<^const>\<open>cwd\<close> are those of the
  calling process, which the operations get as \<open>me\<close>; all pages come from \<^const>\<open>umem_pool\<close>. A
  call that has to sleep ends its run.
\<close>

section \<open>State\<close>

definition NFILE :: nat where "NFILE = 100"
definition NOFILE :: nat where "NOFILE = 16"
definition NDEV :: int where "NDEV = 10"
definition MAX_THREADS :: nat where "MAX_THREADS = 64"

datatype ftype = FD_NONE | FD_PIPE | FD_INODE | FD_DEVICE | FD_SOCKET

record kfile =
  f_type :: ftype
  f_ref :: int
  f_readable :: bool
  f_writable :: bool
  f_pipe :: addr
  f_ip :: "nat option"
  f_sock :: addr
  f_off :: u32
  f_major :: u16

text \<open>The addresses that processes sleep on, by what lies there.\<close>

datatype wchan = ProcChan nat | ReadChan addr | WriteChan addr | TicksChan

record proc =
  p_state :: procstate
  p_chan :: "wchan option"
  p_killed :: bool
  p_xstate :: u32
  p_pid :: int
  p_parent :: "nat option"
  p_sz :: u64
  p_pagetable :: addr
  p_trapframe :: addr
  p_ofile :: "nat \<Rightarrow> nat option"
  p_cwd :: "nat option"
  p_name :: "u8 list"
  p_is_thread :: bool
  p_infants :: "nat \<Rightarrow> nat option"

record kst = fsst +
  ftable :: "nat \<Rightarrow> kfile"
  pipes :: "addr \<Rightarrow> pipe"
  netk :: netst
  procs :: "nat \<Rightarrow> proc"
  initproc :: "nat option"
  nextpid :: int
  trampoline :: addr

definition upd_file :: "nat \<Rightarrow> (kfile \<Rightarrow> kfile) \<Rightarrow> kst \<Rightarrow> kst" where
  "upd_file f g s = s\<lparr>ftable := (ftable s)(f := g (ftable s f))\<rparr>"

definition upd_proc :: "nat \<Rightarrow> (proc \<Rightarrow> proc) \<Rightarrow> kst \<Rightarrow> kst" where
  "upd_proc p g s = s\<lparr>procs := (procs s)(p := g (procs s p))\<rparr>"

text \<open>\<open>wakeup\<close> of \<^verbatim>\<open>kernel/proc.c\<close>, called by \<open>me\<close>.\<close>

definition wakeup :: "nat \<Rightarrow> wchan \<Rightarrow> kst \<Rightarrow> kst" where
  "wakeup me ch s = s\<lparr>procs := (\<lambda>p. if p < NPROC \<and> p \<noteq> me \<and> p_state (procs s p) = SLEEPING \<and> p_chan (procs s p) = Some ch
     then (procs s p)\<lparr>p_state := RUNNABLE\<rparr> else procs s p)\<rparr>"

text \<open>A call into the network stack, which takes its pages from the same pool.\<close>

definition net_call :: "(netst \<Rightarrow> ('r \<times> netst) result) \<Rightarrow> kst \<Rightarrow> ('r \<times> kst) result" where
  "net_call f s = bindE (f ((netk s)\<lparr>mem := umem_pool s\<rparr>)) (\<lambda>(r, n). Inr (r, s\<lparr>netk := n, umem_pool := mem n\<rparr>))"

section \<open>Files\<close>

definition filealloc :: "kst \<Rightarrow> nat option \<times> kst" where
  "filealloc s =
     (case find (\<lambda>f. f_ref (ftable s f) = 0) [0..<NFILE] of
        None \<Rightarrow> (None, s)
      | Some f \<Rightarrow> (Some f, upd_file f (\<lambda>x. x\<lparr>f_ref := 1\<rparr>) s))"

definition filedup :: "nat \<Rightarrow> kst \<Rightarrow> kst result" where
  "filedup f s =
     (if f_ref (ftable s f) < 1 then Inl (Panic ''filedup'')
      else Inr (upd_file f (\<lambda>x. x\<lparr>f_ref := f_ref x + 1\<rparr>) s))"

text \<open>The part of \<open>fileclose\<close> behind the release of \<open>ftable.lock\<close>, on the copy \<open>ff\<close>.\<close>

definition file_release :: "nat \<Rightarrow> nat \<Rightarrow> kfile \<Rightarrow> kst \<Rightarrow> kst result" where
  "file_release me f ff s =
     (case f_type ff of
        FD_PIPE \<Rightarrow>
          bindE (pipeclose (pipes s) (umem_pool s) (f_pipe ff) (f_writable ff)) (\<lambda>(pis, P).
            Inr (wakeup me (if f_writable ff then ReadChan (f_pipe ff) else WriteChan (f_pipe ff))
                   (s\<lparr>pipes := pis, umem_pool := P\<rparr>)))
      | FD_SOCKET \<Rightarrow> bindE (net_call (\<lambda>n. ops_close n (f_sock (ftable s f))) s) (\<lambda>(r, s). Inr s)
      | FD_NONE \<Rightarrow> Inr s
      | _ \<Rightarrow>
          bindE (begin_op s) (\<lambda>s.
          bindE (case f_ip ff of None \<Rightarrow> Inl NullDeref | Some ip \<Rightarrow> iput ip s) end_op))"

definition fileclose :: "nat \<Rightarrow> nat \<Rightarrow> kst \<Rightarrow> kst result" where
  "fileclose me f s =
     (if f_ref (ftable s f) < 1 then Inl (Panic ''fileclose'')
      else
        let s = upd_file f (\<lambda>x. x\<lparr>f_ref := f_ref x - 1\<rparr>) s
        in if f_ref (ftable s f) > 0 then Inr s
           else file_release me f (ftable s f) (upd_file f (\<lambda>x. x\<lparr>f_ref := 0, f_type := FD_NONE\<rparr>) s))"

text \<open>\<open>struct stat\<close> in memory; \<open>pad\<close> are the four bytes of padding, which are not set.\<close>

definition stat_bytes :: "(nat \<Rightarrow> u8) \<Rightarrow> stat \<Rightarrow> u8 list" where
  "stat_bytes pad st = bytes_of
     (put64 (put16 (put16 (put32 (put32 pad 0 (st_dev st)) 4 (st_ino st)) 8 (st_type st)) 10 (st_nlink st)) 16 (st_size st)) 0 24"

definition filestat :: "(nat \<Rightarrow> u8) \<Rightarrow> nat \<Rightarrow> u64 \<Rightarrow> kst \<Rightarrow> (int \<times> kst) result" where
  "filestat pad f a s =
     (if f_type (ftable s f) = FD_INODE \<or> f_type (ftable s f) = FD_DEVICE then
        bindE (ilock (f_ip (ftable s f)) s) (\<lambda>s.
          let st = stati (the (f_ip (ftable s f))) s
          in bindE (iunlock (f_ip (ftable s f)) s) (\<lambda>s.
               case copyout (umem_pool s) (upagetable s) a (stat_bytes pad st) of
                 (r, P) \<Rightarrow> Inr (if r < 0 then - 1 else 0, s\<lparr>umem_pool := P\<rparr>)))
      else Inr (- 1, s))"

text \<open>The device switch holds functions; a null pointer is \<open>None\<close>.\<close>

record 's devsw =
  dev_read :: "(bool \<Rightarrow> u64 \<Rightarrow> int \<Rightarrow> 's \<Rightarrow> (int \<times> 's) result) option"
  dev_write :: "(bool \<Rightarrow> u64 \<Rightarrow> int \<Rightarrow> 's \<Rightarrow> (int \<times> 's) result) option"

definition dev_call ::
  "(kst devsw \<Rightarrow> (bool \<Rightarrow> u64 \<Rightarrow> int \<Rightarrow> kst \<Rightarrow> (int \<times> kst) result) option) \<Rightarrow> (nat \<Rightarrow> kst devsw) \<Rightarrow> u16 \<Rightarrow>
   u64 \<Rightarrow> int \<Rightarrow> kst \<Rightarrow> (int \<times> kst) result" where
  "dev_call sel devsw major a n s =
     (if sint major < 0 \<or> sint major \<ge> NDEV then Inr (- 1, s)
      else case sel (devsw (unat major)) of None \<Rightarrow> Inr (- 1, s) | Some h \<Rightarrow> h True a n s)"

definition fileread :: "(nat \<Rightarrow> kst devsw) \<Rightarrow> nat \<Rightarrow> nat \<Rightarrow> u64 \<Rightarrow> int \<Rightarrow> kst \<Rightarrow> (int \<times> kst) result" where
  "fileread devsw me f a n s =
     (if \<not> f_readable (ftable s f) then Inr (- 1, s)
      else case f_type (ftable s f) of
        FD_PIPE \<Rightarrow>
          let pi = f_pipe (ftable s f)
          in (case piperead (umem_pool s) (upagetable s) (p_killed (procs s me)) (pipes s pi) a n of
                (Asleep i, _) \<Rightarrow> Inl Sleeps
              | (Returned r, wake, pp, P) \<Rightarrow>
                  let s = s\<lparr>pipes := (pipes s)(pi := pp), umem_pool := P\<rparr>
                  in Inr (r, if wake then wakeup me (WriteChan pi) s else s))
      | FD_DEVICE \<Rightarrow> dev_call dev_read devsw (f_major (ftable s f)) a n s
      | FD_INODE \<Rightarrow>
          bindE (ilock (f_ip (ftable s f)) s) (\<lambda>s.
          bindE (readi (the (f_ip (ftable s f))) True a (f_off (ftable s f)) (of_int n) s) (\<lambda>((r, bs), s).
            let s = (if r > 0 then upd_file f (\<lambda>x. x\<lparr>f_off := f_off x + of_int r\<rparr>) s else s)
            in bindE (iunlock (f_ip (ftable s f)) s) (\<lambda>s. Inr (r, s))))
      | _ \<Rightarrow> Inl (Panic ''fileread''))"

text \<open>One trip of the loop of \<open>filewrite\<close>, and the loop.\<close>

definition write_chunk :: "nat \<Rightarrow> u64 \<Rightarrow> int \<Rightarrow> kst \<Rightarrow> (int \<times> kst) result" where
  "write_chunk f a n1 s =
     bindE (begin_op s) (\<lambda>s.
     bindE (ilock (f_ip (ftable s f)) s) (\<lambda>s.
     bindE (writei (the (f_ip (ftable s f))) (User a) (f_off (ftable s f)) (of_int n1) s) (\<lambda>(r, s).
       let s = (if r > 0 then upd_file f (\<lambda>x. x\<lparr>f_off := f_off x + of_int r\<rparr>) s else s)
       in bindE (iunlock (f_ip (ftable s f)) s) (\<lambda>s.
          bindE (end_op s) (\<lambda>s. Inr (r, s))))))"

definition write_max :: int where
  "write_max = ((MAXOPBLOCKS - 1 - 1 - 2) div 2) * int BSIZE"

function filewrite_loop :: "nat \<Rightarrow> u64 \<Rightarrow> int \<Rightarrow> int \<Rightarrow> kst \<Rightarrow> (int \<times> kst) result" where
  "filewrite_loop f a n i s =
     (if i < n then
        let n1 = (if n - i > write_max then write_max else n - i)
        in bindE (write_chunk f (a + of_int i) n1 s) (\<lambda>(r, s).
             if r \<noteq> n1 then Inr (i, s) else filewrite_loop f a n (i + r) s)
      else Inr (i, s))"
  by pat_completeness auto
termination
  by (relation "measure (\<lambda>(f, a, n, i, s). nat (n - i))") (auto simp: write_max_def MAXOPBLOCKS_def BSIZE_def)

declare filewrite_loop.simps [simp del]

definition filewrite :: "(nat \<Rightarrow> kst devsw) \<Rightarrow> nat \<Rightarrow> nat \<Rightarrow> u64 \<Rightarrow> int \<Rightarrow> kst \<Rightarrow> (int \<times> kst) result" where
  "filewrite devsw me f a n s =
     (if \<not> f_writable (ftable s f) then Inr (- 1, s)
      else case f_type (ftable s f) of
        FD_PIPE \<Rightarrow>
          let pi = f_pipe (ftable s f)
          in (case pipewrite (umem_pool s) (upagetable s) (\<lambda>_. p_killed (procs s me)) (pipes s pi) a n 0 of
                (Asleep i, _) \<Rightarrow> Inl Sleeps
              | (Returned r, wake, pp) \<Rightarrow>
                  let s = s\<lparr>pipes := (pipes s)(pi := pp)\<rparr>
                  in Inr (r, if wake then wakeup me (ReadChan pi) s else s))
      | FD_DEVICE \<Rightarrow> dev_call dev_write devsw (f_major (ftable s f)) a n s
      | FD_INODE \<Rightarrow> bindE (filewrite_loop f a n 0 s) (\<lambda>(i, s). Inr (if i = n then n else - 1, s))
      | _ \<Rightarrow> Inl (Panic ''filewrite''))"

text \<open>\<open>pipealloc\<close>; the failure paths close the files that are not connected to a pipe yet.\<close>

definition pipealloc :: "nat \<Rightarrow> kst \<Rightarrow> ((nat \<times> nat) option \<times> kst) result" where
  "pipealloc me s =
     (case filealloc s of
        (None, s) \<Rightarrow> Inr (None, s)
      | (Some f0, s) \<Rightarrow>
          (case filealloc s of
             (None, s) \<Rightarrow> bindE (fileclose me f0 s) (\<lambda>s. Inr (None, s))
           | (Some f1, s) \<Rightarrow>
              (case pool_kalloc (umem_pool s) of (pi, P) \<Rightarrow>
                let s = s\<lparr>umem_pool := P\<rparr>
                in if pi = 0 then bindE (fileclose me f0 s) (\<lambda>s. bindE (fileclose me f1 s) (\<lambda>s. Inr (None, s)))
                   else
                     let s = s\<lparr>pipes := (pipes s)(pi := pipe_init (pipes s pi))\<rparr>;
                         s = upd_file f0 (\<lambda>x. x\<lparr>f_type := FD_PIPE, f_readable := True, f_writable := False, f_pipe := pi\<rparr>) s;
                         s = upd_file f1 (\<lambda>x. x\<lparr>f_type := FD_PIPE, f_readable := False, f_writable := True, f_pipe := pi\<rparr>) s
                     in Inr (Some (f0, f1), s))))"

end
