(* ===== verification/Proc.thy ===== *)
theory Proc
  imports File
begin

text \<open>
  \<^verbatim>\<open>kernel/proc.c\<close>: the life of processes and threads. Each call runs up to its return or to the
  \<open>sleep\<close> in it, under the locks it takes; the context switch itself and the saved registers of
  a kernel thread are not modelled. A trap frame lies in its page at the offsets of \<open>struct trapframe\<close>.
\<close>

section \<open>The process table\<close>

definition TRAMPOLINE :: u64 where "TRAMPOLINE = MAXVA - PGSIZE"
definition TRAPFRAME :: u64 where "TRAPFRAME = TRAMPOLINE - PGSIZE"

definition KSTACK :: "nat \<Rightarrow> u64" where
  "KSTACK p = TRAMPOLINE - (of_nat p + 1) * 2 * PGSIZE"

definition tf_epc :: nat where [layout]: "tf_epc = 24"
definition tf_ra :: nat where [layout]: "tf_ra = 40"
definition tf_sp :: nat where [layout]: "tf_sp = 48"
definition tf_a0 :: nat where [layout]: "tf_a0 = 112"
definition tf_size :: nat where [layout]: "tf_size = 288"

definition upd_tf :: "nat \<Rightarrow> (buf \<Rightarrow> buf) \<Rightarrow> kst \<Rightarrow> kst" where
  "upd_tf p g s =
     (let P = umem_pool s; t = p_trapframe (procs s p)
      in s\<lparr>umem_pool := P\<lparr>pg := (pg P)(t := g (pg P t))\<rparr>\<rparr>)"

definition mapstack :: "addr \<Rightarrow> nat \<Rightarrow> pool \<Rightarrow> pool result" where
  "mapstack kpgtbl p P =
     (case pool_kalloc P of (pa, P) \<Rightarrow>
        if pa = 0 then Inl (Panic ''kalloc'')
        else kvmmap P kpgtbl (KSTACK p) pa PGSIZE (PTE_R OR PTE_W))"

definition proc_mapstacks :: "addr \<Rightarrow> pool \<Rightarrow> pool result" where
  "proc_mapstacks kpgtbl P = forE (mapstack kpgtbl) [0..<NPROC] P"

definition procinit :: "kst \<Rightarrow> kst" where
  "procinit s = s\<lparr>procs := (\<lambda>p. if p < NPROC then (procs s p)\<lparr>p_state := UNUSED\<rparr> else procs s p)\<rparr>"

definition allocpid :: "kst \<Rightarrow> int \<times> kst" where
  "allocpid s = (nextpid s, s\<lparr>nextpid := nextpid s + 1\<rparr>)"

definition proc_pagetable :: "addr \<Rightarrow> addr \<Rightarrow> pool \<Rightarrow> (addr \<times> pool) result" where
  "proc_pagetable tramp tf P =
     (case uvmcreate P of (pt, P) \<Rightarrow>
        if pt = 0 then Inr (0, P)
        else
          bindE (mappages P pt TRAMPOLINE PGSIZE tramp (PTE_R OR PTE_X)) (\<lambda>(r, P).
            if r < 0 then bindE (uvmfree P pt 0) (\<lambda>P. Inr (0, P))
            else
              bindE (mappages P pt TRAPFRAME PGSIZE tf (PTE_R OR PTE_W)) (\<lambda>(r, P).
                if r < 0 then
                  bindE (uvmunmap P pt TRAMPOLINE 1 False) (\<lambda>P.
                  bindE (uvmfree P pt 0) (\<lambda>P. Inr (0, P)))
                else Inr (pt, P))))"

definition proc_freepagetable :: "addr \<Rightarrow> u64 \<Rightarrow> pool \<Rightarrow> pool result" where
  "proc_freepagetable pt sz P =
     bindE (uvmunmap P pt TRAMPOLINE 1 False) (\<lambda>P.
     bindE (uvmunmap P pt TRAPFRAME 1 False) (\<lambda>P. uvmfree P pt sz))"

definition freeproc :: "nat \<Rightarrow> kst \<Rightarrow> kst result" where
  "freeproc p s =
     (let x = procs s p
      in bindE (if p_trapframe x \<noteq> 0 then pool_kfree (umem_pool s) (p_trapframe x) else Inr (umem_pool s)) (\<lambda>P.
         bindE (if p_pagetable x \<noteq> 0 then proc_freepagetable (p_pagetable x) (p_sz x) P else Inr P) (\<lambda>P.
           Inr (upd_proc p (\<lambda>x. x\<lparr>p_trapframe := 0, p_pagetable := 0, p_sz := 0, p_pid := 0, p_parent := None,
                  p_name := [], p_chan := None, p_killed := False, p_xstate := 0, p_state := UNUSED\<rparr>)
                (s\<lparr>umem_pool := P\<rparr>)))))"

text \<open>
  \<open>allocproc\<close>. The \<open>memset\<close> of \<open>infant_threads\<close> is over \<open>MAX_THREADS\<close> bytes, which are 8 of the
  64 pointers.
\<close>

definition allocproc :: "kst \<Rightarrow> (nat option \<times> kst) result" where
  "allocproc s =
     (case find (\<lambda>p. p_state (procs s p) = UNUSED) [0..<NPROC] of
        None \<Rightarrow> Inr (None, s)
      | Some p \<Rightarrow>
          let (pid, s) = allocpid s;
              s = upd_proc p (\<lambda>x. x\<lparr>p_pid := pid, p_state := USED\<rparr>) s;
              (tf, P) = pool_kalloc (umem_pool s);
              s = upd_proc p (\<lambda>x. x\<lparr>p_trapframe := tf\<rparr>) (s\<lparr>umem_pool := P\<rparr>)
          in if tf = 0 then bindE (freeproc p s) (\<lambda>s. Inr (None, s))
             else
               bindE (proc_pagetable (trampoline s) tf (umem_pool s)) (\<lambda>(pt, P).
                 let s = upd_proc p (\<lambda>x. x\<lparr>p_pagetable := pt\<rparr>) (s\<lparr>umem_pool := P\<rparr>)
                 in if pt = 0 then bindE (freeproc p s) (\<lambda>s. Inr (None, s))
                    else Inr (Some p, upd_proc p (\<lambda>x. x\<lparr>p_infants := (\<lambda>i. if i < MAX_THREADS div 8 then None else p_infants x i)\<rparr>) s)))"

text \<open>\<open>initcode\<close> is the program that \<open>userinit\<close> copies.\<close>

definition initcode :: "u8 list" where
  "initcode = [0x17, 0x05, 0x00, 0x00, 0x13, 0x05, 0x45, 0x02,
     0x97, 0x05, 0x00, 0x00, 0x93, 0x85, 0x35, 0x02,
     0x93, 0x08, 0x70, 0x00, 0x73, 0x00, 0x00, 0x00,
     0x93, 0x08, 0x20, 0x00, 0x73, 0x00, 0x00, 0x00,
     0xef, 0xf0, 0x9f, 0xff, 0x2f, 0x69, 0x6e, 0x69,
     0x74, 0x00, 0x00, 0x24, 0x00, 0x00, 0x00, 0x00,
     0x00, 0x00, 0x00, 0x00]"

definition userinit :: "kst \<Rightarrow> kst result" where
  "userinit s =
     bindE (allocproc s) (\<lambda>(p, s).
       let s = s\<lparr>initproc := p\<rparr>
       in case p of
            None \<Rightarrow> Inl NullDeref
          | Some p \<Rightarrow>
              bindE (uvmfirst (umem_pool s) (p_pagetable (procs s p)) initcode) (\<lambda>P.
                let s = upd_proc p (\<lambda>x. x\<lparr>p_sz := PGSIZE\<rparr>) (s\<lparr>umem_pool := P\<rparr>);
                    s = upd_tf p (\<lambda>b. put64 (put64 b tf_epc 0) tf_sp PGSIZE) s
                in bindE (namei [slash] s) (\<lambda>(r, s).
                     Inr (upd_proc p (\<lambda>x. x\<lparr>p_name := [105, 110, 105, 116, 99, 111, 100, 101], p_cwd := r, p_state := RUNNABLE\<rparr>) s))))"

section \<open>Memory\<close>

text \<open>
  \<open>uvmthreaded_alloc\<close> of \<^verbatim>\<open>kernel/vm.c\<close>: the inner loop over the threads of the parent \<open>q\<close>
  returns whether all mappings succeeded.
\<close>

fun thread_maps :: "nat \<Rightarrow> u64 \<Rightarrow> u64 \<Rightarrow> addr \<Rightarrow> u64 \<Rightarrow> u64 \<Rightarrow> nat list \<Rightarrow> kst \<Rightarrow> (bool \<times> kst) result" where
  "thread_maps q a oldsz m newsz perm [] s = Inr (True, s)"
| "thread_maps q a oldsz m newsz perm (i # is) s =
     (case p_infants (procs s q) i of
        None \<Rightarrow> thread_maps q a oldsz m newsz perm is s
      | Some t \<Rightarrow>
          bindE (mappages (umem_pool s) (p_pagetable (procs s t)) a PGSIZE m perm) (\<lambda>(r, P).
            if r \<noteq> 0 then
              bindE (pool_kfree P m) (\<lambda>P.
              bindE (uvmdealloc P (p_pagetable (procs s t)) a oldsz) (\<lambda>(_, P). Inr (False, s\<lparr>umem_pool := P\<rparr>)))
            else thread_maps q a oldsz m newsz perm is
                   (upd_proc t (\<lambda>x. x\<lparr>p_sz := newsz\<rparr>) (s\<lparr>umem_pool := P\<rparr>))))"

function threaded_alloc_loop :: "nat \<Rightarrow> nat \<Rightarrow> u64 \<Rightarrow> u64 \<Rightarrow> u64 \<Rightarrow> u64 \<Rightarrow> kst \<Rightarrow> (u64 \<times> kst) result" where
  "threaded_alloc_loop t q a oldsz newsz xperm s =
     (if a \<ge> newsz then Inr (newsz, s)
      else case pool_kalloc (umem_pool s) of (m, P) \<Rightarrow>
        if m = 0 then bindE (uvmdealloc P (p_pagetable (procs s t)) a oldsz) (\<lambda>(_, P). Inr (0, s\<lparr>umem_pool := P\<rparr>))
        else case thread_maps q a oldsz m newsz (PTE_R OR PTE_U OR xperm) [0..<MAX_THREADS] (s\<lparr>umem_pool := zero_page P m\<rparr>) of
               Inl e \<Rightarrow> Inl e
             | Inr (ok, s) \<Rightarrow>
                 if \<not> ok then Inr (0, s)
                 else case mappages (umem_pool s) (p_pagetable (procs s q)) a PGSIZE m (PTE_R OR PTE_U OR xperm) of
                        Inl e \<Rightarrow> Inl e
                      | Inr (r, P) \<Rightarrow>
                          if r \<noteq> 0 then
                            bindE (pool_kfree P m) (\<lambda>P.
                            bindE (uvmdealloc P (p_pagetable (procs s q)) a oldsz) (\<lambda>(_, P). Inr (0, s\<lparr>umem_pool := P\<rparr>)))
                          else threaded_alloc_loop t q (a + PGSIZE) oldsz newsz xperm
                                 (upd_proc q (\<lambda>x. x\<lparr>p_sz := newsz\<rparr>) (s\<lparr>umem_pool := P\<rparr>)))"
  by pat_completeness auto
termination
  by (relation "measure (\<lambda>(t, q, a, _). unat MAXVA + 8192 - unat a)") (auto dest!: mappages_below_MAXVA)

declare threaded_alloc_loop.simps [simp del]

definition uvmthreaded_alloc :: "nat \<Rightarrow> u64 \<Rightarrow> u64 \<Rightarrow> u64 \<Rightarrow> kst \<Rightarrow> (u64 \<times> kst) result" where
  "uvmthreaded_alloc t oldsz newsz xperm s =
     (if newsz < oldsz then Inr (oldsz, s)
      else if PGROUNDUP oldsz \<ge> newsz then Inr (newsz, s)
      else case p_parent (procs s t) of
             None \<Rightarrow> Inl NullDeref
           | Some q \<Rightarrow> threaded_alloc_loop t q (PGROUNDUP oldsz) (PGROUNDUP oldsz) newsz xperm s)"

fun thread_unmaps :: "nat \<Rightarrow> u64 \<Rightarrow> u64 \<Rightarrow> u64 \<Rightarrow> nat list \<Rightarrow> kst \<Rightarrow> kst result" where
  "thread_unmaps q oldsz newsz npages [] s = Inr s"
| "thread_unmaps q oldsz newsz npages (i # is) s =
     (case p_infants (procs s q) i of
        None \<Rightarrow> thread_unmaps q oldsz newsz npages is s
      | Some t \<Rightarrow>
          bindE (if PGROUNDUP newsz < PGROUNDUP oldsz
                 then uvmunmap (umem_pool s) (p_pagetable (procs s t)) (PGROUNDUP newsz) npages False
                 else Inr (umem_pool s)) (\<lambda>P.
            thread_unmaps q oldsz newsz npages is (upd_proc t (\<lambda>x. x\<lparr>p_sz := newsz\<rparr>) (s\<lparr>umem_pool := P\<rparr>))))"

definition uvmthreaded_dealloc :: "nat \<Rightarrow> u64 \<Rightarrow> u64 \<Rightarrow> kst \<Rightarrow> (u64 \<times> kst) result" where
  "uvmthreaded_dealloc t oldsz newsz s =
     (if newsz \<ge> oldsz then Inr (oldsz, s)
      else case p_parent (procs s t) of
             None \<Rightarrow> Inl NullDeref
           | Some q \<Rightarrow>
               let npages = scast (ucast ((PGROUNDUP oldsz - PGROUNDUP newsz) div PGSIZE) :: u32)
               in bindE (thread_unmaps q oldsz newsz npages [0..<MAX_THREADS] s) (\<lambda>s.
                  bindE (uvmunmap (umem_pool s) (p_pagetable (procs s q)) (PGROUNDUP newsz) npages True) (\<lambda>P.
                    Inr (newsz, upd_proc q (\<lambda>x. x\<lparr>p_sz := newsz\<rparr>) (s\<lparr>umem_pool := P\<rparr>)))))"

definition growproc :: "nat \<Rightarrow> int \<Rightarrow> kst \<Rightarrow> (int \<times> kst) result" where
  "growproc me n s =
     (let sz = p_sz (procs s me)
      in if n > 0 then
           bindE (if p_is_thread (procs s me) then uvmthreaded_alloc me sz (sz + of_int n) PTE_W s
                  else bindE (uvmalloc (umem_pool s) (p_pagetable (procs s me)) sz (sz + of_int n) PTE_W) (\<lambda>(sz, P). Inr (sz, s\<lparr>umem_pool := P\<rparr>)))
             (\<lambda>(sz, s). if sz = 0 then Inr (- 1, s) else Inr (0, upd_proc me (\<lambda>x. x\<lparr>p_sz := sz\<rparr>) s))
         else if n < 0 then
           bindE (if p_is_thread (procs s me) then uvmthreaded_dealloc me sz (sz + of_int n) s
                  else bindE (uvmdealloc (umem_pool s) (p_pagetable (procs s me)) sz (sz + of_int n)) (\<lambda>(sz, P). Inr (sz, s\<lparr>umem_pool := P\<rparr>)))
             (\<lambda>(sz, s). Inr (0, upd_proc me (\<lambda>x. x\<lparr>p_sz := sz\<rparr>) s))
         else Inr (0, upd_proc me (\<lambda>x. x\<lparr>p_sz := sz\<rparr>) s))"

section \<open>Creation\<close>

text \<open>\<open>np->ofile[i] = filedup(p->ofile[i])\<close> where the descriptor is open, and \<open>np->cwd = idup(p->cwd)\<close>.\<close>

definition dup_fd :: "nat \<Rightarrow> nat \<Rightarrow> nat \<Rightarrow> kst \<Rightarrow> kst result" where
  "dup_fd p np i s =
     (case p_ofile (procs s p) i of
        None \<Rightarrow> Inr s
      | Some f \<Rightarrow> bindE (filedup f s) (\<lambda>s. Inr (upd_proc np (\<lambda>x. x\<lparr>p_ofile := (p_ofile x)(i := Some f)\<rparr>) s)))"

definition dup_cwd :: "nat \<Rightarrow> nat \<Rightarrow> kst \<Rightarrow> kst result" where
  "dup_cwd p np s =
     (case p_cwd (procs s p) of
        None \<Rightarrow> Inl NullDeref
      | Some c \<Rightarrow> Inr (upd_proc np (\<lambda>x. x\<lparr>p_cwd := Some c\<rparr>) (idup c s)))"

definition fork :: "nat \<Rightarrow> kst \<Rightarrow> (int \<times> kst) result" where
  "fork p s =
     bindE (allocproc s) (\<lambda>(r, s).
       case r of
         None \<Rightarrow> Inr (- 1, s)
       | Some np \<Rightarrow>
           bindE (uvmcopy (umem_pool s) (p_pagetable (procs s p)) (p_pagetable (procs s np)) (p_sz (procs s p))) (\<lambda>(r, P).
             let s = s\<lparr>umem_pool := P\<rparr>
             in if r < 0 then bindE (freeproc np s) (\<lambda>s. Inr (- 1, s))
                else
                  let s = upd_proc np (\<lambda>x. x\<lparr>p_sz := p_sz (procs s p)\<rparr>) s;
                      t = pg (umem_pool s) (p_trapframe (procs s p));
                      s = upd_tf np (\<lambda>b. put64 (blit b 0 t 0 tf_size) tf_a0 0) s
                  in bindE (forE (dup_fd p np) [0..<NOFILE] s) (\<lambda>s.
                     bindE (dup_cwd p np s) (\<lambda>s.
                       Inr (p_pid (procs s np),
                            upd_proc np (\<lambda>x. x\<lparr>p_name := take 15 (p_name (procs s p)), p_parent := Some p,
                              p_state := RUNNABLE, p_is_thread := False\<rparr>) s)))))"

text \<open>
  \<open>create_thread\<close> looks for an index in the caller's own array. A thread that creates a thread
  hands it to the parent of its parent, in whose array it is entered.
\<close>

definition thread_owner :: "nat \<Rightarrow> kst \<Rightarrow> nat option result" where
  "thread_owner p s =
     (if p_is_thread (procs s p) then
        case p_parent (procs s p) of None \<Rightarrow> Inl NullDeref | Some q \<Rightarrow> Inr (p_parent (procs s q))
      else Inr (Some p))"

definition create_thread :: "nat \<Rightarrow> u64 \<Rightarrow> u64 \<Rightarrow> u64 \<Rightarrow> u64 \<Rightarrow> kst \<Rightarrow> (int \<times> kst) result" where
  "create_thread p fn_addr args stack_addr exit_fn s =
     (let thread_idx = (case find (\<lambda>i. p_infants (procs s p) i = None) [0..<MAX_THREADS] of None \<Rightarrow> 0 | Some i \<Rightarrow> i)
      in bindE (allocproc s) (\<lambda>(r, s).
           case r of
             None \<Rightarrow> Inr (- 1, s)
           | Some np \<Rightarrow>
               bindE (uvmshare (umem_pool s) (p_pagetable (procs s p)) (p_pagetable (procs s np)) (p_sz (procs s p))) (\<lambda>(r, P).
                 let s = s\<lparr>umem_pool := P\<rparr>
                 in if r < 0 then bindE (freeproc np s) (\<lambda>s. Inr (- 1, s))
                    else
                      let s = upd_proc np (\<lambda>x. x\<lparr>p_sz := p_sz (procs s p)\<rparr>) s;
                          t = pg (umem_pool s) (p_trapframe (procs s p));
                          s = upd_tf np (\<lambda>b. put64 (put64 (put64 (put64 (blit b 0 t 0 tf_size)
                                tf_sp (stack_addr + PGSIZE)) tf_epc fn_addr) tf_a0 args) tf_ra exit_fn) s
                      in bindE (forE (dup_fd p np) [0..<NOFILE] s) (\<lambda>s.
                         bindE (dup_cwd p np s) (\<lambda>s.
                         bindE (thread_owner p s) (\<lambda>q.
                           let s = upd_proc np (\<lambda>x. x\<lparr>p_parent := q, p_is_thread := True, p_state := RUNNABLE\<rparr>) s
                           in case q of
                                None \<Rightarrow> Inl NullDeref
                              | Some q \<Rightarrow>
                                  Inr (p_pid (procs s np),
                                       upd_proc q (\<lambda>x. x\<lparr>p_infants := (p_infants x)(thread_idx := Some np)\<rparr>) s)))))))"

section \<open>Exit and wait\<close>

definition close_fd :: "nat \<Rightarrow> nat \<Rightarrow> nat \<Rightarrow> kst \<Rightarrow> kst result" where
  "close_fd me q fd s =
     (case p_ofile (procs s q) fd of
        None \<Rightarrow> Inr s
      | Some f \<Rightarrow> bindE (fileclose me f s) (\<lambda>s. Inr (upd_proc q (\<lambda>x. x\<lparr>p_ofile := (p_ofile x)(fd := None)\<rparr>) s)))"

definition put_cwd :: "nat \<Rightarrow> kst \<Rightarrow> kst result" where
  "put_cwd q s =
     bindE (begin_op s) (\<lambda>s.
     bindE (case p_cwd (procs s q) of None \<Rightarrow> Inl NullDeref | Some c \<Rightarrow> iput c s) (\<lambda>s.
     bindE (end_op s) (\<lambda>s. Inr (upd_proc q (\<lambda>x. x\<lparr>p_cwd := None\<rparr>) s))))"

definition reparent_one :: "nat \<Rightarrow> nat \<Rightarrow> kst \<Rightarrow> kst" where
  "reparent_one p q s =
     (if p_parent (procs s q) = Some p
      then let s = upd_proc q (\<lambda>x. x\<lparr>p_parent := initproc s\<rparr>) s
           in case initproc s of None \<Rightarrow> s | Some i \<Rightarrow> wakeup p (ProcChan i) s
      else s)"

definition reparent :: "nat \<Rightarrow> kst \<Rightarrow> kst" where
  "reparent p s = fold (reparent_one p) [0..<NPROC] s"

text \<open>
  \<open>thread_exit\<close>, which is also the second half of \<open>exit\<close>. The caller does not run again, so the
  result is the state in which its CPU enters the scheduler.
\<close>

definition thread_exit :: "u32 \<Rightarrow> nat \<Rightarrow> kst \<Rightarrow> kst result" where
  "thread_exit status p s =
     (if initproc s = Some p then Inl (Panic ''init exiting'')
      else
        bindE (forE (close_fd p p) [0..<NOFILE] s) (\<lambda>s.
        bindE (put_cwd p s) (\<lambda>s.
          let s = reparent p s;
              s = (case p_parent (procs s p) of None \<Rightarrow> s | Some q \<Rightarrow> wakeup p (ProcChan q) s)
          in Inr (upd_proc p (\<lambda>x. x\<lparr>p_xstate := status, p_state := ZOMBIE\<rparr>) s))))"

definition exit_infant :: "u32 \<Rightarrow> nat \<Rightarrow> nat \<Rightarrow> nat \<Rightarrow> kst \<Rightarrow> kst result" where
  "exit_infant status me q i s =
     (case p_infants (procs s q) i of
        None \<Rightarrow> Inr s
      | Some t \<Rightarrow>
          bindE (forE (close_fd me t) [0..<NOFILE] s) (\<lambda>s.
          bindE (put_cwd t s) (\<lambda>s. Inr (upd_proc t (\<lambda>x. x\<lparr>p_xstate := status, p_state := ZOMBIE\<rparr>) s))))"

definition exit :: "u32 \<Rightarrow> nat \<Rightarrow> kst \<Rightarrow> kst result" where
  "exit status p s =
     bindE (if p_is_thread (procs s p) then
              case p_parent (procs s p) of
                None \<Rightarrow> Inl NullDeref
              | Some q \<Rightarrow> forE (exit_infant status p q) [0..<MAX_THREADS] s
            else Inr s)
       (thread_exit status p)"

definition xstate_bytes :: "u32 \<Rightarrow> u8 list" where
  "xstate_bytes x = bytes_of (put32 (\<lambda>_. 0) 0 x) 0 4"

text \<open>One round of \<open>wait\<close>; \<open>None\<close> says that the caller has gone to sleep.\<close>

definition wait :: "nat \<Rightarrow> u64 \<Rightarrow> kst \<Rightarrow> (int option \<times> kst) result" where
  "wait p a s =
     (case find (\<lambda>q. p_parent (procs s q) = Some p \<and> p_state (procs s q) = ZOMBIE) [0..<NPROC] of
        Some q \<Rightarrow>
          let pid = p_pid (procs s q);
              (r, P) = (if a \<noteq> 0 then copyout (umem_pool s) (p_pagetable (procs s p)) a (xstate_bytes (p_xstate (procs s q)))
                        else (0, umem_pool s));
              s = s\<lparr>umem_pool := P\<rparr>
          in if r < 0 then Inr (Some (- 1), s) else bindE (freeproc q s) (\<lambda>s. Inr (Some pid, s))
      | None \<Rightarrow>
          if (\<forall>q \<in> set [0..<NPROC]. p_parent (procs s q) \<noteq> Some p) \<or> p_killed (procs s p) then Inr (Some (- 1), s)
          else Inr (None, upd_proc p (\<lambda>x. x\<lparr>p_chan := Some (ProcChan p), p_state := SLEEPING\<rparr>) s))"

text \<open>One round of \<open>join_thread\<close>.\<close>

definition join_thread :: "nat \<Rightarrow> u64 \<Rightarrow> u64 \<Rightarrow> kst \<Rightarrow> (int option \<times> kst) result" where
  "join_thread me thread_id status_addr s =
     (case if p_is_thread (procs s me) then p_parent (procs s me) else Some me of
        None \<Rightarrow> Inl NullDeref
      | Some p \<Rightarrow>
          case find (\<lambda>i. case p_infants (procs s p) i of None \<Rightarrow> False
                                                    | Some t \<Rightarrow> thread_id = of_int (p_pid (procs s t))) [0..<MAX_THREADS] of
            None \<Rightarrow> Inr (Some (- 1), s)
          | Some i \<Rightarrow>
              let t = the (p_infants (procs s p) i)
              in if p_state (procs s t) = ZOMBIE then
                   let (r, P) = (if status_addr \<noteq> 0
                                 then copyout (umem_pool s) (p_pagetable (procs s p)) status_addr (xstate_bytes (p_xstate (procs s t)))
                                 else (0, umem_pool s));
                       s = s\<lparr>umem_pool := P\<rparr>
                   in if r < 0 then Inr (Some (- 1), s)
                      else Inr (Some (uint thread_id), upd_proc p (\<lambda>x. x\<lparr>p_infants := (p_infants x)(i := None)\<rparr>) s)
                 else if p_killed (procs s p) then Inr (Some (- 1), s)
                 else Inr (None, upd_proc me (\<lambda>x. x\<lparr>p_chan := Some (ProcChan p), p_state := SLEEPING\<rparr>) s))"

section \<open>Scheduling and signals\<close>

text \<open>The scheduler's choice of a process, \<open>yield\<close>, and the last part of \<open>sleep\<close>.\<close>

definition run_proc :: "nat \<Rightarrow> kst \<Rightarrow> kst" where
  "run_proc p s = (if p_state (procs s p) = RUNNABLE
     then upd_proc p (\<lambda>x. x\<lparr>p_state := RUNNING\<rparr>) (s\<lparr>upagetable := p_pagetable (procs s p), cwd := (case p_cwd (procs s p) of None \<Rightarrow> cwd s | Some c \<Rightarrow> c)\<rparr>) else s)"

definition yield :: "nat \<Rightarrow> kst \<Rightarrow> kst" where
  "yield p s = upd_proc p (\<lambda>x. x\<lparr>p_state := RUNNABLE\<rparr>) s"

definition kill :: "int \<Rightarrow> kst \<Rightarrow> int \<times> kst" where
  "kill pid s =
     (case find (\<lambda>p. p_pid (procs s p) = pid) [0..<NPROC] of
        None \<Rightarrow> (- 1, s)
      | Some p \<Rightarrow> (0, upd_proc p (\<lambda>x. x\<lparr>p_killed := True, p_state := (if p_state x = SLEEPING then RUNNABLE else p_state x)\<rparr>) s))"

definition setkilled :: "nat \<Rightarrow> kst \<Rightarrow> kst" where
  "setkilled p s = upd_proc p (\<lambda>x. x\<lparr>p_killed := True\<rparr>) s"

definition killed :: "nat \<Rightarrow> kst \<Rightarrow> bool" where
  "killed p s = p_killed (procs s p)"

end
