(* ===== verification/Sysfile.thy ===== *)
theory Sysfile
  imports Proc
begin

text \<open>
  The system calls on files and processes: the argument fetching of \<^verbatim>\<open>kernel/syscall.c\<close>,
  \<^verbatim>\<open>kernel/sysfile.c\<close> without \<open>sys_exec\<close>, and the calls of \<^verbatim>\<open>kernel/sysproc.c\<close> that create, bind and
  close sockets or manage processes. \<open>me\<close> is the calling process.
\<close>

section \<open>Arguments\<close>

definition MAXPATH :: nat where "MAXPATH = 128"

definition argraw :: "nat \<Rightarrow> nat \<Rightarrow> kst \<Rightarrow> u64" where
  "argraw me n s = get64 (pg (umem_pool s) (p_trapframe (procs s me))) (tf_a0 + 8 * n)"

definition argint :: "nat \<Rightarrow> nat \<Rightarrow> kst \<Rightarrow> int" where
  "argint me n s = sint (ucast (argraw me n s) :: u32)"

definition argaddr :: "nat \<Rightarrow> nat \<Rightarrow> kst \<Rightarrow> u64" where
  "argaddr me n s = argraw me n s"

definition fetchaddr :: "nat \<Rightarrow> u64 \<Rightarrow> kst \<Rightarrow> u64 option" where
  "fetchaddr me a s =
     (if a \<ge> p_sz (procs s me) \<or> a + 8 > p_sz (procs s me) then None
      else case copyin (umem_pool s) (p_pagetable (procs s me)) a 8 of
             (r, bs) \<Rightarrow> if r \<noteq> 0 then None else Some (get64 (\<lambda>i. bs ! i) 0))"

text \<open>The string that is fetched, without the terminating 0.\<close>

definition fetchstr :: "nat \<Rightarrow> u64 \<Rightarrow> nat \<Rightarrow> kst \<Rightarrow> u8 list option" where
  "fetchstr me a mx s =
     (case copyinstr (umem_pool s) (p_pagetable (procs s me)) a mx of
        (r, bs) \<Rightarrow> if r < 0 then None else Some (takeWhile (\<lambda>c. c \<noteq> 0) bs))"

definition argstr :: "nat \<Rightarrow> nat \<Rightarrow> nat \<Rightarrow> kst \<Rightarrow> u8 list option" where
  "argstr me n mx s = fetchstr me (argaddr me n s) mx s"

definition argfd :: "nat \<Rightarrow> nat \<Rightarrow> kst \<Rightarrow> (nat \<times> nat) option" where
  "argfd me n s =
     (let fd = argint me n s
      in if fd < 0 \<or> fd \<ge> int NOFILE then None
         else map_option (\<lambda>f. (nat fd, f)) (p_ofile (procs s me) (nat fd)))"

definition set_fd :: "nat \<Rightarrow> nat \<Rightarrow> nat option \<Rightarrow> kst \<Rightarrow> kst" where
  "set_fd me fd f s = upd_proc me (\<lambda>x. x\<lparr>p_ofile := (p_ofile x)(fd := f)\<rparr>) s"

definition fdalloc :: "nat \<Rightarrow> nat \<Rightarrow> kst \<Rightarrow> nat option \<times> kst" where
  "fdalloc me f s =
     (case find (\<lambda>fd. p_ofile (procs s me) fd = None) [0..<NOFILE] of
        None \<Rightarrow> (None, s)
      | Some fd \<Rightarrow> (Some fd, set_fd me fd (Some f) s))"

section \<open>Descriptors\<close>

definition sys_dup :: "nat \<Rightarrow> kst \<Rightarrow> (int \<times> kst) result" where
  "sys_dup me s =
     (case argfd me 0 s of
        None \<Rightarrow> Inr (- 1, s)
      | Some (_, f) \<Rightarrow>
          (case fdalloc me f s of
             (None, s) \<Rightarrow> Inr (- 1, s)
           | (Some fd, s) \<Rightarrow> bindE (filedup f s) (\<lambda>s. Inr (int fd, s))))"

definition sys_read :: "(nat \<Rightarrow> kst devsw) \<Rightarrow> nat \<Rightarrow> kst \<Rightarrow> (int \<times> kst) result" where
  "sys_read devsw me s =
     (case argfd me 0 s of
        None \<Rightarrow> Inr (- 1, s)
      | Some (_, f) \<Rightarrow> fileread devsw me f (argaddr me 1 s) (argint me 2 s) s)"

definition sys_write :: "(nat \<Rightarrow> kst devsw) \<Rightarrow> nat \<Rightarrow> kst \<Rightarrow> (int \<times> kst) result" where
  "sys_write devsw me s =
     (case argfd me 0 s of
        None \<Rightarrow> Inr (- 1, s)
      | Some (_, f) \<Rightarrow> filewrite devsw me f (argaddr me 1 s) (argint me 2 s) s)"

definition sys_close :: "nat \<Rightarrow> kst \<Rightarrow> (int \<times> kst) result" where
  "sys_close me s =
     (case argfd me 0 s of
        None \<Rightarrow> Inr (- 1, s)
      | Some (fd, f) \<Rightarrow> bindE (fileclose me f (set_fd me fd None s)) (\<lambda>s. Inr (0, s)))"

definition sys_fstat :: "(nat \<Rightarrow> u8) \<Rightarrow> nat \<Rightarrow> kst \<Rightarrow> (int \<times> kst) result" where
  "sys_fstat pad me s =
     (case argfd me 0 s of
        None \<Rightarrow> Inr (- 1, s)
      | Some (_, f) \<Rightarrow> filestat pad f (argaddr me 1 s) s)"

definition int_bytes :: "nat \<Rightarrow> u8 list" where
  "int_bytes n = bytes_of (put32 (\<lambda>_. 0) 0 (of_nat n)) 0 4"

text \<open>The failure paths of \<open>sys_pipe\<close>, and the call.\<close>

definition pipe_undo :: "nat \<Rightarrow> nat list \<Rightarrow> nat \<Rightarrow> nat \<Rightarrow> kst \<Rightarrow> (int \<times> kst) result" where
  "pipe_undo me fds rf wrf s =
     bindE (fileclose me rf (fold (\<lambda>fd. set_fd me fd None) fds s)) (\<lambda>s.
     bindE (fileclose me wrf s) (\<lambda>s. Inr (- 1, s)))"

definition sys_pipe :: "nat \<Rightarrow> kst \<Rightarrow> (int \<times> kst) result" where
  "sys_pipe me s =
     (let fdarray = argaddr me 0 s
      in bindE (pipealloc me s) (\<lambda>(r, s).
           case r of
             None \<Rightarrow> Inr (- 1, s)
           | Some (rf, wrf) \<Rightarrow>
               (case fdalloc me rf s of
                  (None, s) \<Rightarrow> pipe_undo me [] rf wrf s
                | (Some fd0, s) \<Rightarrow>
                    (case fdalloc me wrf s of
                       (None, s) \<Rightarrow> pipe_undo me [fd0] rf wrf s
                     | (Some fd1, s) \<Rightarrow>
                         (case copyout (umem_pool s) (p_pagetable (procs s me)) fdarray (int_bytes fd0) of (r, P) \<Rightarrow>
                            if r < 0 then pipe_undo me [fd0, fd1] rf wrf (s\<lparr>umem_pool := P\<rparr>)
                            else
                              (case copyout P (p_pagetable (procs s me)) (fdarray + 4) (int_bytes fd1) of (r, P) \<Rightarrow>
                                 if r < 0 then pipe_undo me [fd0, fd1] rf wrf (s\<lparr>umem_pool := P\<rparr>)
                                 else Inr (0, s\<lparr>umem_pool := P\<rparr>)))))))"

section \<open>Directories\<close>

definition op_fail :: "kst \<Rightarrow> (int \<times> kst) result" where
  "op_fail s = bindE (end_op s) (\<lambda>s. Inr (- 1, s))"

definition op_done :: "int \<Rightarrow> kst \<Rightarrow> (int \<times> kst) result" where
  "op_done r s = bindE (end_op s) (\<lambda>s. Inr (r, s))"

definition link_bad :: "nat \<Rightarrow> kst \<Rightarrow> (int \<times> kst) result" where
  "link_bad ip s =
     bindE (ilock (Some ip) s) (\<lambda>s.
     bindE (iupdate ip (upd_ip ip (\<lambda>x. x\<lparr>i_nlink := i_nlink x - 1\<rparr>) s)) (\<lambda>s.
     bindE (iunlockput ip s) op_fail))"

text \<open>\<open>sys_link\<close> from \<open>nameiparent\<close> on.\<close>

definition link_new :: "nat \<Rightarrow> u8 list \<Rightarrow> kst \<Rightarrow> (int \<times> kst) result" where
  "link_new ip path s =
     bindE (nameiparent path s) (\<lambda>(r, s).
       case r of
         None \<Rightarrow> link_bad ip s
       | Some (dp, name) \<Rightarrow>
           bindE (ilock (Some dp) s) (\<lambda>s.
             if i_dev (itable s dp) \<noteq> i_dev (itable s ip) then bindE (iunlockput dp s) (link_bad ip)
             else
               bindE (dirlink dp name (i_inum (itable s ip)) s) (\<lambda>(r, s).
                 if r < 0 then bindE (iunlockput dp s) (link_bad ip)
                 else bindE (iunlockput dp s) (\<lambda>s. bindE (iput ip s) (op_done 0)))))"

definition sys_link :: "nat \<Rightarrow> kst \<Rightarrow> (int \<times> kst) result" where
  "sys_link me s =
     (case (argstr me 0 MAXPATH s, argstr me 1 MAXPATH s) of
        (Some old, Some path) \<Rightarrow>
          bindE (begin_op s) (\<lambda>s.
          bindE (namei old s) (\<lambda>(r, s).
            case r of
              None \<Rightarrow> op_fail s
            | Some ip \<Rightarrow>
                bindE (ilock (Some ip) s) (\<lambda>s.
                  if i_type (itable s ip) = T_DIR then bindE (iunlockput ip s) op_fail
                  else
                    bindE (iupdate ip (upd_ip ip (\<lambda>x. x\<lparr>i_nlink := i_nlink x + 1\<rparr>) s)) (\<lambda>s.
                    bindE (iunlock (Some ip) s) (link_new ip path)))))
      | _ \<Rightarrow> Inr (- 1, s))"

function isdirempty :: "nat \<Rightarrow> nat \<Rightarrow> nat \<Rightarrow> kst \<Rightarrow> (bool \<times> kst) result" where
  "isdirempty dp sz off s =
     (if off < sz then
        bindE (readi dp False 0 (of_nat off) 16 s) (\<lambda>((r, de), s).
          if r \<noteq> 16 then Inl (Panic ''isdirempty: readi'')
          else if de_inum de \<noteq> 0 then Inr (False, s)
          else isdirempty dp sz (off + 16) s)
      else Inr (True, s))"
  by pat_completeness auto
termination
  by (relation "measure (\<lambda>(dp, sz, off, s). sz - off)") auto

declare isdirempty.simps [simp del]

definition dot :: "u8 list" where "dot = [46]"
definition dotdot :: "u8 list" where "dotdot = [46, 46]"

text \<open>\<open>sys_unlink\<close> from the test of \<open>nlink\<close> on, and the call.\<close>

definition unlink_entry :: "nat \<Rightarrow> nat \<Rightarrow> nat \<Rightarrow> kst \<Rightarrow> (int \<times> kst) result" where
  "unlink_entry dp ip off s =
     bindE (writei dp (Kernel (replicate 16 0)) (of_nat off) 16 s) (\<lambda>(r, s).
       if r \<noteq> 16 then Inl (Panic ''unlink: writei'')
       else
         bindE (if i_type (itable s ip) = T_DIR then iupdate dp (upd_ip dp (\<lambda>x. x\<lparr>i_nlink := i_nlink x - 1\<rparr>) s) else Inr s) (\<lambda>s.
         bindE (iunlockput dp s) (\<lambda>s.
         bindE (iupdate ip (upd_ip ip (\<lambda>x. x\<lparr>i_nlink := i_nlink x - 1\<rparr>) s)) (\<lambda>s.
         bindE (iunlockput ip s) (op_done 0)))))"

definition sys_unlink :: "nat \<Rightarrow> kst \<Rightarrow> (int \<times> kst) result" where
  "sys_unlink me s =
     (case argstr me 0 MAXPATH s of
        None \<Rightarrow> Inr (- 1, s)
      | Some path \<Rightarrow>
          bindE (begin_op s) (\<lambda>s.
          bindE (nameiparent path s) (\<lambda>(r, s).
            case r of
              None \<Rightarrow> op_fail s
            | Some (dp, name) \<Rightarrow>
                bindE (ilock (Some dp) s) (\<lambda>s.
                  if namecmp name dot = 0 \<or> namecmp name dotdot = 0 then bindE (iunlockput dp s) op_fail
                  else
                    bindE (dirlookup dp name s) (\<lambda>(found, s).
                      case found of
                        None \<Rightarrow> bindE (iunlockput dp s) op_fail
                      | Some (ip, off) \<Rightarrow>
                          bindE (ilock (Some ip) s) (\<lambda>s.
                            if sint (i_nlink (itable s ip)) < 1 then Inl (Panic ''unlink: nlink < 1'')
                            else
                              bindE (if i_type (itable s ip) = T_DIR then isdirempty ip (unat (i_size (itable s ip))) 32 s
                                     else Inr (True, s)) (\<lambda>(empty, s).
                                if \<not> empty then bindE (iunlockput ip s) (\<lambda>s. bindE (iunlockput dp s) op_fail)
                                else unlink_entry dp ip off s)))))))"

text \<open>The label \<open>fail\<close> of \<open>create\<close>, the part of \<open>create\<close> behind \<open>ialloc\<close>, and the whole.\<close>

definition create_fail :: "nat \<Rightarrow> nat \<Rightarrow> kst \<Rightarrow> (nat option \<times> kst) result" where
  "create_fail ip dp s =
     bindE (iupdate ip (upd_ip ip (\<lambda>x. x\<lparr>i_nlink := 0\<rparr>) s)) (\<lambda>s.
     bindE (iunlockput ip s) (\<lambda>s.
     bindE (iunlockput dp s) (\<lambda>s. Inr (None, s))))"

definition link_dots :: "nat \<Rightarrow> nat \<Rightarrow> kst \<Rightarrow> (int \<times> kst) result" where
  "link_dots ip dp s =
     bindE (dirlink ip dot (i_inum (itable s ip)) s) (\<lambda>(r, s).
       if r < 0 then Inr (- 1, s) else dirlink ip dotdot (i_inum (itable s dp)) s)"

definition create_new :: "nat \<Rightarrow> nat \<Rightarrow> u8 list \<Rightarrow> u16 \<Rightarrow> u16 \<Rightarrow> u16 \<Rightarrow> kst \<Rightarrow> (nat option \<times> kst) result" where
  "create_new ip dp name type major minor s =
     bindE (ilock (Some ip) s) (\<lambda>s.
     bindE (iupdate ip (upd_ip ip (\<lambda>x. x\<lparr>i_major := major, i_minor := minor, i_nlink := 1\<rparr>) s)) (\<lambda>s.
     bindE (if type = T_DIR then link_dots ip dp s else Inr (0, s)) (\<lambda>(r, s).
       if r < 0 then create_fail ip dp s
       else
         bindE (dirlink dp name (i_inum (itable s ip)) s) (\<lambda>(r, s).
           if r < 0 then create_fail ip dp s
           else
             bindE (if type = T_DIR then iupdate dp (upd_ip dp (\<lambda>x. x\<lparr>i_nlink := i_nlink x + 1\<rparr>) s) else Inr s) (\<lambda>s.
             bindE (iunlockput dp s) (\<lambda>s. Inr (Some ip, s)))))))"

definition create :: "u8 list \<Rightarrow> u16 \<Rightarrow> u16 \<Rightarrow> u16 \<Rightarrow> kst \<Rightarrow> (nat option \<times> kst) result" where
  "create path type major minor s =
     bindE (nameiparent path s) (\<lambda>(r, s).
       case r of
         None \<Rightarrow> Inr (None, s)
       | Some (dp, name) \<Rightarrow>
           bindE (ilock (Some dp) s) (\<lambda>s.
           bindE (dirlookup dp name s) (\<lambda>(found, s).
             case found of
               Some (ip, off) \<Rightarrow>
                 bindE (iunlockput dp s) (\<lambda>s.
                 bindE (ilock (Some ip) s) (\<lambda>s.
                   if type = T_FILE \<and> (i_type (itable s ip) = T_FILE \<or> i_type (itable s ip) = T_DEVICE) then Inr (Some ip, s)
                   else bindE (iunlockput ip s) (\<lambda>s. Inr (None, s))))
             | None \<Rightarrow>
                 bindE (ialloc (i_dev (itable s dp)) type s) (\<lambda>(r, s).
                   case r of
                     None \<Rightarrow> bindE (iunlockput dp s) (\<lambda>s. Inr (None, s))
                   | Some ip \<Rightarrow> create_new ip dp name type major minor s))))"

definition O_RDONLY :: u32 where "O_RDONLY = 0"
definition O_WRONLY :: u32 where "O_WRONLY = 0x001"
definition O_RDWR :: u32 where "O_RDWR = 0x002"
definition O_CREATE :: u32 where "O_CREATE = 0x200"
definition O_TRUNC :: u32 where "O_TRUNC = 0x400"

text \<open>The first half of \<open>sys_open\<close> yields the locked inode, the second the descriptor.\<close>

definition open_inode :: "u8 list \<Rightarrow> u32 \<Rightarrow> kst \<Rightarrow> (nat option \<times> kst) result" where
  "open_inode path omode s =
     (if omode AND O_CREATE \<noteq> 0 then create path T_FILE 0 0 s
      else
        bindE (namei path s) (\<lambda>(r, s).
          case r of
            None \<Rightarrow> Inr (None, s)
          | Some ip \<Rightarrow>
              bindE (ilock (Some ip) s) (\<lambda>s.
                if i_type (itable s ip) = T_DIR \<and> omode \<noteq> O_RDONLY then bindE (iunlockput ip s) (\<lambda>s. Inr (None, s))
                else Inr (Some ip, s))))"

definition open_file :: "nat \<Rightarrow> nat \<Rightarrow> u32 \<Rightarrow> kst \<Rightarrow> (int \<times> kst) result" where
  "open_file me ip omode s =
     (if i_type (itable s ip) = T_DEVICE \<and> (sint (i_major (itable s ip)) < 0 \<or> sint (i_major (itable s ip)) \<ge> NDEV)
      then bindE (iunlockput ip s) op_fail
      else
        (case filealloc s of
           (None, s) \<Rightarrow> bindE (iunlockput ip s) op_fail
         | (Some f, s) \<Rightarrow>
             (case fdalloc me f s of
                (None, s) \<Rightarrow> bindE (fileclose me f s) (\<lambda>s. bindE (iunlockput ip s) op_fail)
              | (Some fd, s) \<Rightarrow>
                  let s = upd_file f (if i_type (itable s ip) = T_DEVICE
                                      then (\<lambda>x. x\<lparr>f_type := FD_DEVICE, f_major := i_major (itable s ip)\<rparr>)
                                      else (\<lambda>x. x\<lparr>f_type := FD_INODE, f_off := 0\<rparr>)) s;
                      s = upd_file f (\<lambda>x. x\<lparr>f_ip := Some ip, f_readable := (omode AND O_WRONLY = 0),
                            f_writable := (omode AND O_WRONLY \<noteq> 0 \<or> omode AND O_RDWR \<noteq> 0)\<rparr>) s
                  in bindE (if omode AND O_TRUNC \<noteq> 0 \<and> i_type (itable s ip) = T_FILE then itrunc ip s else Inr s) (\<lambda>s.
                     bindE (iunlock (Some ip) s) (op_done (int fd))))))"

definition sys_open :: "nat \<Rightarrow> kst \<Rightarrow> (int \<times> kst) result" where
  "sys_open me s =
     (let omode = of_int (argint me 1 s)
      in case argstr me 0 MAXPATH s of
           None \<Rightarrow> Inr (- 1, s)
         | Some path \<Rightarrow>
             bindE (begin_op s) (\<lambda>s.
             bindE (open_inode path omode s) (\<lambda>(r, s).
               case r of None \<Rightarrow> op_fail s | Some ip \<Rightarrow> open_file me ip omode s)))"

definition sys_mkdir :: "nat \<Rightarrow> kst \<Rightarrow> (int \<times> kst) result" where
  "sys_mkdir me s =
     bindE (begin_op s) (\<lambda>s.
       case argstr me 0 MAXPATH s of
         None \<Rightarrow> op_fail s
       | Some path \<Rightarrow>
           bindE (create path T_DIR 0 0 s) (\<lambda>(r, s).
             case r of None \<Rightarrow> op_fail s | Some ip \<Rightarrow> bindE (iunlockput ip s) (op_done 0)))"

definition sys_mknod :: "nat \<Rightarrow> kst \<Rightarrow> (int \<times> kst) result" where
  "sys_mknod me s =
     bindE (begin_op s) (\<lambda>s.
       case argstr me 0 MAXPATH s of
         None \<Rightarrow> op_fail s
       | Some path \<Rightarrow>
           bindE (create path T_DEVICE (of_int (argint me 1 s)) (of_int (argint me 2 s)) s) (\<lambda>(r, s).
             case r of None \<Rightarrow> op_fail s | Some ip \<Rightarrow> bindE (iunlockput ip s) (op_done 0)))"

definition sys_chdir :: "nat \<Rightarrow> kst \<Rightarrow> (int \<times> kst) result" where
  "sys_chdir me s =
     bindE (begin_op s) (\<lambda>s.
       case argstr me 0 MAXPATH s of
         None \<Rightarrow> op_fail s
       | Some path \<Rightarrow>
           bindE (namei path s) (\<lambda>(r, s).
             case r of
               None \<Rightarrow> op_fail s
             | Some ip \<Rightarrow>
                 bindE (ilock (Some ip) s) (\<lambda>s.
                   if i_type (itable s ip) \<noteq> T_DIR then bindE (iunlockput ip s) op_fail
                   else
                     bindE (iunlock (Some ip) s) (\<lambda>s.
                     bindE (case p_cwd (procs s me) of None \<Rightarrow> Inl NullDeref | Some c \<Rightarrow> iput c s) (\<lambda>s.
                     bindE (end_op s) (\<lambda>s.
                       Inr (0, upd_proc me (\<lambda>x. x\<lparr>p_cwd := Some ip\<rparr>) (s\<lparr>cwd := ip\<rparr>))))))))"

section \<open>Sockets\<close>

text \<open>\<open>sys_socket\<close> does not look at the result of \<open>initsocket\<close>.\<close>

definition sys_socket :: "nat \<Rightarrow> kst \<Rightarrow> (int \<times> kst) result" where
  "sys_socket me s =
     (case pool_kalloc (umem_pool s) of (sock, P) \<Rightarrow>
        if sock = 0 then Inr (- 1, s\<lparr>umem_pool := P\<rparr>)
        else
          let s = s\<lparr>umem_pool := zero_page P sock\<rparr>
          in bindE (net_call (\<lambda>n. initsocket n sock (ucast (argaddr me 0 s)) (ucast (argaddr me 1 s)) (ucast (argaddr me 2 s))) s) (\<lambda>(_, s).
               (case filealloc s of
                  (None, s) \<Rightarrow> bindE (pool_kfree (umem_pool s) sock) (\<lambda>P. Inr (- 1, s\<lparr>umem_pool := P\<rparr>))
                | (Some f, s) \<Rightarrow>
                    (case fdalloc me f s of
                       (None, s) \<Rightarrow>
                         bindE (fileclose me f s) (\<lambda>s.
                         bindE (pool_kfree (umem_pool s) sock) (\<lambda>P. Inr (- 1, s\<lparr>umem_pool := P\<rparr>)))
                     | (Some fd, s) \<Rightarrow>
                         let P = umem_pool s
                         in Inr (int fd, upd_file f (\<lambda>x. x\<lparr>f_type := FD_SOCKET, f_sock := sock\<rparr>)
                                   (s\<lparr>umem_pool := P\<lparr>pg := (pg P)(sock := put32 (pg P sock) sk_fd (of_nat fd))\<rparr>\<rparr>))))))"

text \<open>
  The socket calls use the descriptor as an index without a test. \<open>junk\<close> is what the stack holds
  where the address of \<open>sys_bind\<close> is copied to.
\<close>

definition sock_fd :: "nat \<Rightarrow> int \<Rightarrow> kst \<Rightarrow> nat option result" where
  "sock_fd me fd s =
     (if fd < 0 \<or> fd \<ge> int NOFILE then Inl OutOfBounds
      else Inr (case p_ofile (procs s me) (nat fd) of
                  None \<Rightarrow> None
                | Some f \<Rightarrow> if f_type (ftable s f) \<noteq> FD_SOCKET then None else Some f))"

definition sys_bind :: "buf \<Rightarrow> nat \<Rightarrow> kst \<Rightarrow> (int \<times> kst) result" where
  "sys_bind junk me s =
     bindE (sock_fd me (argint me 0 s) s) (\<lambda>r.
       case r of
         None \<Rightarrow> Inr (- 1, s)
       | Some f \<Rightarrow>
           let addrlen = argint me 2 s
           in if addrlen < 0 \<or> addrlen > 16 then Inr (- 1, s)
              else case copyin (umem_pool s) (p_pagetable (procs s me)) (argaddr me 1 s) (nat addrlen) of
                     (e, bs) \<Rightarrow>
                       if e < 0 then Inr (- 1, s)
                       else net_call (\<lambda>n. ops_bind n (f_sock (ftable s f)) (Some (put_bytes junk 0 bs)) (of_int addrlen)) s)"

definition sys_send :: "nat \<Rightarrow> kst \<Rightarrow> (int \<times> kst) result" where
  "sys_send me s =
     bindE (sock_fd me (argint me 0 s) s) (\<lambda>r.
       case r of
         None \<Rightarrow> Inr (- 1, s)
       | Some f \<Rightarrow> net_call (\<lambda>n. send n (of_int (argint me 0 s)) (argaddr me 1 s) (argint me 2 s) (argint me 3 s)) s)"

definition sys_recv :: "nat \<Rightarrow> kst \<Rightarrow> (int \<times> kst) result" where
  "sys_recv me s =
     bindE (sock_fd me (argint me 0 s) s) (\<lambda>r.
       case r of
         None \<Rightarrow> Inr (- 1, s)
       | Some f \<Rightarrow> net_call (\<lambda>n. recv n (of_int (argint me 0 s)) (argaddr me 1 s) (argint me 2 s) (argint me 3 s)) s)"

definition sys_listen :: "nat \<Rightarrow> kst \<Rightarrow> (int \<times> kst) result" where
  "sys_listen me s = net_call (\<lambda>n. listen n (ucast (argaddr me 0 s)) (sint (ucast (argaddr me 1 s) :: u32))) s"

section \<open>Processes\<close>

definition sys_exit :: "nat \<Rightarrow> kst \<Rightarrow> kst result" where
  "sys_exit me s = exit (of_int (argint me 0 s)) me s"

definition sys_getpid :: "nat \<Rightarrow> kst \<Rightarrow> int" where
  "sys_getpid me s = p_pid (procs s me)"

definition sys_fork :: "nat \<Rightarrow> kst \<Rightarrow> (int \<times> kst) result" where
  "sys_fork me s = fork me s"

definition sys_wait :: "nat \<Rightarrow> kst \<Rightarrow> (int option \<times> kst) result" where
  "sys_wait me s = wait me (argaddr me 0 s) s"

definition sys_sbrk :: "nat \<Rightarrow> kst \<Rightarrow> (int \<times> kst) result" where
  "sys_sbrk me s =
     bindE (growproc me (argint me 0 s) s) (\<lambda>(r, s').
       Inr (if r < 0 then - 1 else uint (p_sz (procs s me)), s'))"

definition sys_kill :: "nat \<Rightarrow> kst \<Rightarrow> int \<times> kst" where
  "sys_kill me s = kill (argint me 0 s) s"

definition sys_create_thread :: "nat \<Rightarrow> kst \<Rightarrow> (int \<times> kst) result" where
  "sys_create_thread me s =
     create_thread me (argaddr me 0 s) (argaddr me 1 s) (argaddr me 2 s) (argaddr me 3 s) s"

definition sys_join_thread :: "nat \<Rightarrow> kst \<Rightarrow> (int option \<times> kst) result" where
  "sys_join_thread me s = join_thread me (argaddr me 0 s) (argaddr me 1 s) s"

definition sys_thread_exit :: "nat \<Rightarrow> kst \<Rightarrow> kst result" where
  "sys_thread_exit me s = thread_exit (ucast (argaddr me 0 s)) me s"

end
