(* ===== verification/FsFrame.thy ===== *)
theory FsFrame
  imports Fs
begin

text \<open>
  The operations of the buffer cache, the log and the file system leave the rest of a state that
  extends theirs alone: what the system calls keep beside it is the same after every return.
\<close>

named_theorems frame \<open>an operation keeps the part of the state that extends the file system's\<close>

abbreviation beyond :: "'a fsst_scheme \<Rightarrow> 'a" where
  "beyond \<equiv> fsst.more"

lemmas frame_unfold = bindE_eq_Inr Let_def

section \<open>Buffers and log\<close>

lemma beyond_upd [simp]:
  fixes s :: "'a fsst_scheme"
  shows "beyond (upd_buf b f s) = beyond s" "beyond (virtio_disk_rw b w s) = beyond s" "beyond (bpin b s) = beyond s"
    "beyond (bunpin b s) = beyond s" "beyond (set_data b d s) = beyond s" "beyond (upd_ip ip g s) = beyond s" "beyond (idup ip s) = beyond s"
  by (simp_all add: upd_buf_def virtio_disk_rw_def bpin_def bunpin_def set_data_def upd_ip_def idup_def Let_def)

lemma lock_buf_frame [frame]:
  fixes s :: "'a fsst_scheme"
  shows "lock_buf b s = Inr (r, s') \<Longrightarrow> beyond s' = beyond s"
  by (auto simp: lock_buf_def split: if_splits)

lemma bget_frame [frame]:
  fixes s :: "'a fsst_scheme"
  shows "bget dev b s = Inr (r, s') \<Longrightarrow> beyond s' = beyond s"
  by (auto simp: bget_def bindE_eq_Inr split: option.splits dest!: frame)

lemma bread_frame [frame]:
  fixes s :: "'a fsst_scheme"
  shows "bread dev b s = Inr (r, s') \<Longrightarrow> beyond s' = beyond s"
  by (auto simp: bread_def bindE_eq_Inr split: if_splits dest!: frame)

lemma bwrite_frame [frame]:
  fixes s :: "'a fsst_scheme"
  shows "bwrite b s = Inr s' \<Longrightarrow> beyond s' = beyond s"
  by (auto simp: bwrite_def split: if_splits)

lemma brelse_frame [frame]:
  fixes s :: "'a fsst_scheme"
  shows "brelse b s = Inr s' \<Longrightarrow> beyond s' = beyond s"
  by (auto simp: brelse_def Let_def split: if_splits)

lemma forE_frame:
  fixes s :: "'a fsst_scheme"
  assumes "\<And>i s s'. f i s = Inr s' \<Longrightarrow> beyond s' = beyond s"
  shows "forE f is s = Inr s' \<Longrightarrow> beyond s' = beyond s"
proof (induction "is" arbitrary: s)
  case (Cons i "is")
  then show ?case using assms by (auto simp: bindE_eq_Inr)
qed simp

lemma install_one_frame [frame]:
  fixes s :: "'a fsst_scheme"
  shows "install_one r t s = Inr s' \<Longrightarrow> beyond s' = beyond s"
  by (auto simp: install_one_def bindE_eq_Inr split: if_splits dest!: frame)

lemma write_log_one_frame [frame]:
  fixes s :: "'a fsst_scheme"
  shows "write_log_one t s = Inr s' \<Longrightarrow> beyond s' = beyond s"
  by (auto simp: write_log_one_def bindE_eq_Inr dest!: frame)

lemma write_head_frame [frame]:
  fixes s :: "'a fsst_scheme"
  shows "write_head s = Inr s' \<Longrightarrow> beyond s' = beyond s"
  by (auto simp: write_head_def bindE_eq_Inr dest!: frame)

lemma log_loops_frame [frame]:
  fixes s :: "'a fsst_scheme"
  shows "install_trans r s = Inr s' \<Longrightarrow> beyond s' = beyond s" "write_log s = Inr s' \<Longrightarrow> beyond s' = beyond s"
  unfolding install_trans_def write_log_def by (erule forE_frame [rotated], erule frame)+

lemma commit_frame [frame]:
  fixes s :: "'a fsst_scheme"
  shows "commit s = Inr s' \<Longrightarrow> beyond s' = beyond s"
  by (auto simp: commit_def bindE_eq_Inr split: if_splits dest!: frame)

lemma op_frame [frame]:
  fixes s :: "'a fsst_scheme"
  shows "begin_op s = Inr s' \<Longrightarrow> beyond s' = beyond s" "end_op s = Inr s' \<Longrightarrow> beyond s' = beyond s"
    "log_write b s = Inr s' \<Longrightarrow> beyond s' = beyond s"
  by (auto simp: begin_op_def end_op_def log_write_def bindE_eq_Inr Let_def split: if_splits dest!: frame)

section \<open>Blocks and inodes\<close>

lemma bzero_frame [frame]:
  fixes s :: "'a fsst_scheme"
  shows "bzero dev b s = Inr s' \<Longrightarrow> beyond s' = beyond s"
  by (auto simp: bzero_def bindE_eq_Inr dest!: frame)

lemma balloc_loop_frame [frame]:
  fixes s :: "'a fsst_scheme"
  shows "balloc_loop dev m b s = Inr (r, s') \<Longrightarrow> beyond s' = beyond s"
proof (induction m arbitrary: b s)
  case (Suc m)
  then show ?case by (auto simp: bindE_eq_Inr split: option.splits dest!: frame)
qed simp

lemma balloc_frame [frame]:
  fixes s :: "'a fsst_scheme"
  shows "balloc dev s = Inr (r, s') \<Longrightarrow> beyond s' = beyond s"
  by (auto simp: balloc_def dest!: frame)

lemma bfree_frame [frame]:
  fixes s :: "'a fsst_scheme"
  shows "bfree dev b s = Inr s' \<Longrightarrow> beyond s' = beyond s"
  by (auto simp: bfree_def bindE_eq_Inr Let_def split: if_splits dest!: frame)

lemma iget_frame [frame]:
  fixes s :: "'a fsst_scheme"
  shows "iget dev i s = Inr (r, s') \<Longrightarrow> beyond s' = beyond s"
  by (auto simp: iget_def split: option.splits)

lemma ialloc_loop_frame [frame]:
  fixes s :: "'a fsst_scheme"
  shows "ialloc_loop dev t m i s = Inr (r, s') \<Longrightarrow> beyond s' = beyond s"
proof (induction m arbitrary: i s)
  case (Suc m)
  obtain bp s1 where 1: "bread dev (IBLOCK (of_nat i) (sb s)) s = Inr (bp, s1)" using Suc.prems by (auto simp: bindE_eq_Inr)
  show ?case
  proof (cases "get16 (b_data (bufs s1 bp)) (dinode_off (of_nat i)) = 0")
    case True
    then show ?thesis using Suc.prems 1 bread_frame [OF 1]
      by (auto simp: bindE_eq_Inr Let_def dest!: op_frame brelse_frame iget_frame)
  next
    case False
    then show ?thesis using Suc.prems 1 bread_frame [OF 1] by (auto simp: bindE_eq_Inr Let_def dest!: brelse_frame Suc.IH)
  qed
qed simp

lemma ialloc_frame [frame]:
  fixes s :: "'a fsst_scheme"
  shows "ialloc dev t s = Inr (r, s') \<Longrightarrow> beyond s' = beyond s"
  by (auto simp: ialloc_def dest!: frame)

lemma iupdate_frame [frame]:
  fixes s :: "'a fsst_scheme"
  shows "iupdate ip s = Inr s' \<Longrightarrow> beyond s' = beyond s"
  by (auto simp: iupdate_def bindE_eq_Inr dest!: frame)

lemma ilock_frame [frame]:
  fixes s :: "'a fsst_scheme"
  shows "ilock p s = Inr s' \<Longrightarrow> beyond s' = beyond s"
  by (auto simp: ilock_def bindE_eq_Inr Let_def split: option.splits if_splits dest!: frame)

lemma iunlock_frame [frame]:
  fixes s :: "'a fsst_scheme"
  shows "iunlock p s = Inr s' \<Longrightarrow> beyond s' = beyond s"
  by (auto simp: iunlock_def split: option.splits if_splits)

lemma trunc_direct_frame [frame]:
  fixes s :: "'a fsst_scheme"
  shows "trunc_direct ip i s = Inr s' \<Longrightarrow> beyond s' = beyond s"
  by (auto simp: trunc_direct_def bindE_eq_Inr split: if_splits dest!: frame)

lemma trunc_indirect_frame [frame]:
  fixes s :: "'a fsst_scheme"
  shows "trunc_indirect ip bp j s = Inr s' \<Longrightarrow> beyond s' = beyond s"
  by (auto simp: trunc_indirect_def Let_def split: if_splits dest!: frame)

lemma trunc_loops_frame [frame]:
  fixes s :: "'a fsst_scheme"
  shows "forE (trunc_direct ip) is s = Inr s' \<Longrightarrow> beyond s' = beyond s"
    "forE (trunc_indirect ip bp) is s = Inr s' \<Longrightarrow> beyond s' = beyond s"
  by (erule forE_frame [rotated], erule frame)+

lemma itrunc_frame [frame]:
  fixes s :: "'a fsst_scheme"
  shows "itrunc ip s = Inr s' \<Longrightarrow> beyond s' = beyond s"
  by (auto simp: itrunc_def bindE_eq_Inr split: if_splits dest!: frame)

lemma iput_frame [frame]:
  fixes s :: "'a fsst_scheme"
  shows "iput ip s = Inr s' \<Longrightarrow> beyond s' = beyond s"
  by (auto simp: iput_def bindE_eq_Inr split: if_splits dest!: frame)

lemma iunlockput_frame [frame]:
  fixes s :: "'a fsst_scheme"
  shows "iunlockput ip s = Inr s' \<Longrightarrow> beyond s' = beyond s"
  by (auto simp: iunlockput_def bindE_eq_Inr dest!: frame)

section \<open>Contents and names\<close>

lemma bmap_entry_frame [frame]:
  fixes s :: "'a fsst_scheme"
  shows "bmap_entry ip i s = Inr (r, s') \<Longrightarrow> beyond s' = beyond s"
  by (auto simp: bmap_entry_def bindE_eq_Inr Let_def split: if_splits dest!: frame)

lemma bmap_frame [frame]:
  fixes s :: "'a fsst_scheme"
  shows "bmap ip bn s = Inr (r, s') \<Longrightarrow> beyond s' = beyond s"
  by (auto simp: bmap_def bindE_eq_Inr Let_def split: if_splits dest!: frame)

lemma either_copyout_frame [frame]:
  fixes s :: "'a fsst_scheme"
  shows "either_copyout u d bs s = (r, s') \<Longrightarrow> beyond s' = beyond s"
  by (auto simp: either_copyout_def split: if_splits prod.splits)

lemma readi_loop_frame [frame]:
  fixes s :: "'a fsst_scheme"
  shows "readi_loop ip u d off n tot acc s = Inr (r, s') \<Longrightarrow> beyond s' = beyond s"
proof (induction "n - tot" arbitrary: d off tot acc s rule: less_induct)
  case less
  show ?case
  proof (cases "tot < n")
    case False
    then show ?thesis using less.prems by (simp add: readi_loop.simps [of ip u d off n tot])
  next
    case True
    obtain a s1 where 1: "bmap ip (off div BSIZE) s = Inr (a, s1)"
      using less.prems True by (auto simp: readi_loop.simps [of ip u d off n tot] bindE_eq_Inr)
    show ?thesis
    proof (cases "a = 0")
      case True
      then show ?thesis using less.prems 1 \<open>tot < n\<close> bmap_frame [OF 1] by (simp add: readi_loop.simps [of ip u d off n tot])
    next
      case False
      obtain bp s2 where 2: "bread (i_dev (itable s1 ip)) a s1 = Inr (bp, s2)"
        using less.prems True 1 False by (auto simp: readi_loop.simps [of ip u d off n tot] bindE_eq_Inr)
      define m where "m = min (n - tot) (BSIZE - off mod BSIZE)"
      define bs where "bs = bytes_of (b_data (bufs s2 bp)) (off mod BSIZE) m"
      obtain e s3 where 3: "either_copyout u d bs s2 = (e, s3)" by fastforce
      have b3: "beyond s3 = beyond s" using bmap_frame [OF 1] bread_frame [OF 2] either_copyout_frame [OF 3] by simp
      have run: "(if e = - 1 then bindE (brelse bp s3) (\<lambda>s. Inr ((- 1, acc), s))
          else bindE (brelse bp s3) (readi_loop ip u (d + of_nat m) (off + m) n (tot + m) (acc @ bs))) = Inr (r, s')"
        using less.prems True 1 2 3 False by (cases "e = - 1") (simp_all add: readi_loop.simps [of ip u d off n tot] Let_def flip: m_def bs_def)
      have m0: "0 < m" using True by (simp add: m_def BSIZE_def)
      show ?thesis
      proof (cases "e = - 1")
        case True
        then show ?thesis using run b3 by (auto simp: bindE_eq_Inr dest!: brelse_frame)
      next
        case False
        then obtain s4 where 4: "brelse bp s3 = Inr s4" "readi_loop ip u (d + of_nat m) (off + m) n (tot + m) (acc @ bs) s4 = Inr (r, s')"
          using run by (auto simp: bindE_eq_Inr)
        have "n - (tot + m) < n - tot" using True m0 by simp
        from less.hyps [OF this 4(2)] show ?thesis using brelse_frame [OF 4(1)] b3 by simp
      qed
    qed
  qed
qed

lemma readi_frame [frame]:
  fixes s :: "'a fsst_scheme"
  shows "readi ip u d off n s = Inr (r, s') \<Longrightarrow> beyond s' = beyond s"
  unfolding readi_def Let_def by (auto split: if_splits elim: readi_loop_frame)

lemma writei_loop_frame [frame]:
  fixes s :: "'a fsst_scheme"
  shows "writei_loop ip src off n tot s = Inr (t, o', s') \<Longrightarrow> beyond s' = beyond s"
proof (induction "n - tot" arbitrary: src off tot s rule: less_induct)
  case less
  show ?case
  proof (cases "tot < n")
    case False
    then show ?thesis using less.prems by (simp add: writei_loop.simps [of ip src off n tot])
  next
    case True
    obtain a s1 where 1: "bmap ip (off div BSIZE) s = Inr (a, s1)"
      using less.prems True by (auto simp: writei_loop.simps [of ip src off n tot] bindE_eq_Inr)
    show ?thesis
    proof (cases "a = 0")
      case True
      then show ?thesis using less.prems 1 \<open>tot < n\<close> bmap_frame [OF 1] by (simp add: writei_loop.simps [of ip src off n tot])
    next
      case False
      obtain bp s2 where 2: "bread (i_dev (itable s1 ip)) a s1 = Inr (bp, s2)"
        using less.prems True 1 False by (auto simp: writei_loop.simps [of ip src off n tot] bindE_eq_Inr)
      define m where "m = min (n - tot) (BSIZE - off mod BSIZE)"
      obtain e bs where 3: "either_copyin src m s2 = (e, bs)" by fastforce
      define s3 where "s3 = set_data bp (put_bytes (b_data (bufs s2 bp)) (off mod BSIZE) bs) s2"
      have b3: "beyond s3 = beyond s" using bmap_frame [OF 1] bread_frame [OF 2] by (simp add: s3_def)
      have run: "(if e = - 1 then bindE (brelse bp s3) (\<lambda>s. Inr (tot, off, s))
          else bindE (log_write bp s3) (\<lambda>s. bindE (brelse bp s) (writei_loop ip (src_add src m) (off + m) n (tot + m)))) = Inr (t, o', s')"
        using less.prems True 1 2 3 False by (cases "e = - 1") (simp_all add: writei_loop.simps [of ip src off n tot] Let_def flip: m_def s3_def)
      have m0: "0 < m" using True by (simp add: m_def BSIZE_def)
      show ?thesis
      proof (cases "e = - 1")
        case True
        then show ?thesis using run b3 by (auto simp: bindE_eq_Inr dest!: brelse_frame)
      next
        case False
        then obtain s4 s5 where 4: "log_write bp s3 = Inr s4" "brelse bp s4 = Inr s5"
          "writei_loop ip (src_add src m) (off + m) n (tot + m) s5 = Inr (t, o', s')"
          using run by (auto simp: bindE_eq_Inr)
        have "n - (tot + m) < n - tot" using True m0 by simp
        from less.hyps [OF this 4(3)] show ?thesis using op_frame(3) [OF 4(1)] brelse_frame [OF 4(2)] b3 by simp
      qed
    qed
  qed
qed

lemma writei_frame [frame]:
  fixes s :: "'a fsst_scheme"
  shows "writei ip src off n s = Inr (r, s') \<Longrightarrow> beyond s' = beyond s"
  by (auto simp: writei_def bindE_eq_Inr Let_def split: if_splits dest!: writei_loop_frame iupdate_frame)

lemma dirlookup_loop_frame [frame]:
  fixes s :: "'a fsst_scheme"
  shows "dirlookup_loop dp name sz off s = Inr (r, s') \<Longrightarrow> beyond s' = beyond s"
proof (induction "sz - off" arbitrary: off s rule: less_induct)
  case less
  show ?case
  proof (cases "off < sz")
    case False
    then show ?thesis using less.prems by (simp add: dirlookup_loop.simps [of dp name sz off])
  next
    case True
    have d: "sz - (off + 16) < sz - off" using True by simp
    show ?thesis using less.prems True
      by (auto simp: dirlookup_loop.simps [of dp name sz off] bindE_eq_Inr split: if_splits dest!: readi_frame iget_frame less.hyps [OF d])
  qed
qed

lemma dirlookup_frame [frame]:
  fixes s :: "'a fsst_scheme"
  shows "dirlookup dp name s = Inr (r, s') \<Longrightarrow> beyond s' = beyond s"
  by (auto simp: dirlookup_def split: if_splits elim: dirlookup_loop_frame)

lemma dirlink_slot_frame [frame]:
  fixes s :: "'a fsst_scheme"
  shows "dirlink_slot dp sz off s = Inr (r, s') \<Longrightarrow> beyond s' = beyond s"
proof (induction "sz - off" arbitrary: off s rule: less_induct)
  case less
  show ?case
  proof (cases "off < sz")
    case False
    then show ?thesis using less.prems by (simp add: dirlink_slot.simps [of dp sz off])
  next
    case True
    have d: "sz - (off + 16) < sz - off" using True by simp
    show ?thesis using less.prems True
      by (auto simp: dirlink_slot.simps [of dp sz off] bindE_eq_Inr split: if_splits dest!: readi_frame less.hyps [OF d])
  qed
qed

lemma dirlink_frame [frame]:
  fixes s :: "'a fsst_scheme"
  shows "dirlink dp name i s = Inr (r, s') \<Longrightarrow> beyond s' = beyond s"
  by (auto simp: dirlink_def bindE_eq_Inr split: option.splits dest!: dirlookup_frame dirlink_slot_frame writei_frame iput_frame)

lemma namex_loop_frame [frame]:
  fixes s :: "'a fsst_scheme"
  shows "namex_loop path parent name ip s = Inr (r, s') \<Longrightarrow> beyond s' = beyond s"
proof (induction "length path" arbitrary: path name ip s rule: less_induct)
  case less
  show ?case
  proof (cases "skipelem path")
    case None
    then show ?thesis using less.prems
      by (auto simp: namex_loop.simps [of path] bindE_eq_Inr split: if_splits dest!: iput_frame)
  next
    case (Some nr)
    obtain nm rest where k: "skipelem path = Some (nm, rest)" using Some by (cases nr) auto
    note hyp = less.hyps [OF skipelem_shorter [OF k]]
    show ?thesis using less.prems
      by (auto simp: namex_loop.simps [of path] k bindE_eq_Inr split: if_splits option.splits
          dest!: hyp ilock_frame iunlock_frame iunlockput_frame dirlookup_frame)
  qed
qed

lemma name_frame [frame]:
  fixes s :: "'a fsst_scheme"
  shows "namex path parent s = Inr (nr, s') \<Longrightarrow> beyond s' = beyond s"
    "namei path s = Inr (r, s') \<Longrightarrow> beyond s' = beyond s" "nameiparent path s = Inr (nr, s') \<Longrightarrow> beyond s' = beyond s"
  by (auto simp: namei_def nameiparent_def namex_def bindE_eq_Inr split: if_splits dest!: namex_loop_frame iget_frame)

end
