(* ===== verification/SysFrame.thy ===== *)
theory SysFrame
  imports Sysfile FsFrame
begin

text \<open>
  The system calls that change neither what the descriptors refer to nor the process tree:
  their effect on the file table and the process table is at most a moved offset, a changed flag
  or a woken process. The directory calls change nothing beyond the file system.
\<close>

section \<open>Calls that change neither descriptors nor the process tree\<close>

definition dead :: "proc \<Rightarrow> bool" where
  "dead x \<longleftrightarrow> p_state x = UNUSED \<or> p_state x = ZOMBIE"

definition tree_proc :: "proc \<Rightarrow> proc \<Rightarrow> bool" where
  "tree_proc x x' \<longleftrightarrow> (p_state x' = UNUSED \<longleftrightarrow> p_state x = UNUSED) \<and> (p_state x' = ZOMBIE \<longleftrightarrow> p_state x = ZOMBIE) \<and>
     (p_state x \<noteq> UNUSED \<longrightarrow> p_pid x' = p_pid x \<and> p_parent x' = p_parent x)"

definition tree_same :: "kst \<Rightarrow> kst \<Rightarrow> bool" where
  "tree_same s s' \<longleftrightarrow> initproc s' = initproc s \<and> nextpid s \<le> nextpid s' \<and> (\<forall>p. tree_proc (procs s p) (procs s' p))"

definition refs_proc :: "proc \<Rightarrow> proc \<Rightarrow> bool" where
  "refs_proc x x' \<longleftrightarrow> p_ofile x' = p_ofile x \<and> p_infants x' \<subseteq>\<^sub>m p_infants x \<and> (dead x' \<longleftrightarrow> dead x) \<and>
     (p_parent x' = p_parent x \<or> p_parent x' = None)"

definition refs_same :: "kst \<Rightarrow> kst \<Rightarrow> bool" where
  "refs_same s s' \<longleftrightarrow> (\<forall>f. f_ref (ftable s' f) = f_ref (ftable s f)) \<and> initproc s' = initproc s \<and>
     (\<forall>p. refs_proc (procs s p) (procs s' p))"

definition undisturbed :: "kst \<Rightarrow> kst \<Rightarrow> bool" where
  "undisturbed s s' \<longleftrightarrow> tree_same s s' \<and> refs_same s s'"

lemma proc_refl [simp]: "tree_proc x x" "refs_proc x x"
  by (simp_all add: tree_proc_def refs_proc_def)

lemma tree_proc_trans: "tree_proc x y \<Longrightarrow> tree_proc y z \<Longrightarrow> tree_proc x z"
  by (simp add: tree_proc_def)

lemma refs_proc_trans: "refs_proc x y \<Longrightarrow> refs_proc y z \<Longrightarrow> refs_proc x z"
  using map_le_trans unfolding refs_proc_def by (elim conjE disjE) simp_all

lemma tree_same_refl [simp]: "tree_same s s"
  by (simp add: tree_same_def)

lemma tree_same_trans: "tree_same s s' \<Longrightarrow> tree_same s' s'' \<Longrightarrow> tree_same s s''"
  unfolding tree_same_def by (auto intro: tree_proc_trans)

lemma refs_same_refl [simp]: "refs_same s s"
  by (simp add: refs_same_def)

lemma refs_same_trans: "refs_same s s' \<Longrightarrow> refs_same s' s'' \<Longrightarrow> refs_same s s''"
  unfolding refs_same_def by (auto intro: refs_proc_trans)

lemma undisturbed_refl [simp]: "undisturbed s s"
  by (simp add: undisturbed_def)

lemma undisturbed_trans: "undisturbed s s' \<Longrightarrow> undisturbed s' s'' \<Longrightarrow> undisturbed s s''"
  unfolding undisturbed_def by (meson tree_same_trans refs_same_trans)

lemma beyondD:
  fixes s :: kst
  assumes b: "beyond s' = beyond s"
  shows "ftable s' = ftable s" "procs s' = procs s" "initproc s' = initproc s" "nextpid s' = nextpid s"
proof -
  have "ftable s' = ftable s \<and> procs s' = procs s \<and> initproc s' = initproc s \<and> nextpid s' = nextpid s"
    using b by (cases s; cases s') simp
  then show "ftable s' = ftable s" "procs s' = procs s" "initproc s' = initproc s" "nextpid s' = nextpid s" by simp_all
qed

lemma same_ktables:
  "ftable s' = ftable s \<Longrightarrow> procs s' = procs s \<Longrightarrow> initproc s' = initproc s \<Longrightarrow> nextpid s' = nextpid s \<Longrightarrow> undisturbed s s'"
  by (simp add: undisturbed_def tree_same_def refs_same_def)

lemma undisturbed_frame: "beyond s' = beyond s \<Longrightarrow> undisturbed s s'"
  by (rule same_ktables; erule beyondD)

lemma upd_simps [simp]:
  "ftable (upd_file f g s) = (ftable s)(f := g (ftable s f))" "procs (upd_file f g s) = procs s"
  "initproc (upd_file f g s) = initproc s" "nextpid (upd_file f g s) = nextpid s" "itable (upd_file f g s) = itable s"
  "umem_pool (upd_file f g s) = umem_pool s"
  "procs (upd_proc p h s) = (procs s)(p := h (procs s p))" "ftable (upd_proc p h s) = ftable s"
  "initproc (upd_proc p h s) = initproc s" "nextpid (upd_proc p h s) = nextpid s" "umem_pool (upd_proc p h s) = umem_pool s"
  "procs (upd_ip ip k s) = procs s" "ftable (upd_ip ip k s) = ftable s" "initproc (upd_ip ip k s) = initproc s"
  "nextpid (upd_ip ip k s) = nextpid s"
  by (simp_all add: upd_file_def upd_proc_def upd_ip_def)

lemma undisturbed_upd_file: "(\<And>x. f_ref (g x) = f_ref x) \<Longrightarrow> undisturbed s (upd_file f g s)"
  by (simp add: undisturbed_def tree_same_def refs_same_def)

lemma undisturbed_upd_proc:
  assumes "p_ofile (h (procs s p)) = p_ofile (procs s p)" "p_infants (h (procs s p)) \<subseteq>\<^sub>m p_infants (procs s p)"
    "p_parent (h (procs s p)) = p_parent (procs s p)" "p_pid (h (procs s p)) = p_pid (procs s p)"
    "p_state (h (procs s p)) = p_state (procs s p) \<or> \<not> dead (procs s p) \<and> \<not> dead (h (procs s p))"
  shows "undisturbed s (upd_proc p h s)"
proof -
  have "tree_proc (procs s p) (h (procs s p))" "refs_proc (procs s p) (h (procs s p))"
    using assms by (auto simp: tree_proc_def refs_proc_def dead_def)
  then show ?thesis by (simp add: undisturbed_def tree_same_def refs_same_def)
qed

lemma undisturbed_wakeup: "undisturbed s (wakeup me ch s)"
  by (simp add: undisturbed_def tree_same_def refs_same_def wakeup_def dead_def tree_proc_def refs_proc_def)

lemma undisturbed_pool: "undisturbed s (s\<lparr>umem_pool := P\<rparr>)" "undisturbed s (s\<lparr>pipes := pis\<rparr>)" "undisturbed s (s\<lparr>netk := n\<rparr>)"
  by (simp_all add: undisturbed_def tree_same_def refs_same_def)

text \<open>The frames of the file system as rules for \<^const>\<open>undisturbed\<close>.\<close>

named_theorems calm \<open>an operation changes neither descriptors nor the process tree\<close>

lemma net_call_undisturbed [calm]: "net_call f s = Inr (r, s') \<Longrightarrow> undisturbed s s'"
  by (auto simp: net_call_def bindE_eq_Inr intro!: same_ktables)

lemmas [calm] = frame [THEN undisturbed_frame]

section \<open>Directory calls\<close>

lemma done_frame [frame]:
  "op_fail s = Inr (r, s') \<Longrightarrow> beyond s' = beyond s" "op_done k s = Inr (r, s') \<Longrightarrow> beyond s' = beyond s"
  by (auto simp: op_fail_def op_done_def bindE_eq_Inr dest!: op_frame)

lemmas inode_frames = ilock_frame iunlock_frame iunlockput_frame iput_frame iupdate_frame name_frame done_frame
  dirlink_frame dirlookup_frame

lemma link_bad_frame [frame]: "link_bad ip s = Inr (r, s') \<Longrightarrow> beyond s' = beyond s"
  by (auto simp: link_bad_def bindE_eq_Inr dest!: inode_frames)

lemma link_new_frame [frame]: "link_new ip path s = Inr (r, s') \<Longrightarrow> beyond s' = beyond s"
  by (auto simp: link_new_def bindE_eq_Inr split: option.splits if_splits dest!: inode_frames link_bad_frame)

lemma sys_link_frame [frame]: "sys_link me s = Inr (r, s') \<Longrightarrow> beyond s' = beyond s"
  by (auto simp: sys_link_def bindE_eq_Inr split: option.splits if_splits dest!: inode_frames op_frame(1) link_new_frame)

lemma isdirempty_frame [frame]: "isdirempty dp sz off s = Inr (r, s') \<Longrightarrow> beyond s' = beyond s"
proof (induction "sz - off" arbitrary: off s rule: less_induct)
  case less
  show ?case
  proof (cases "off < sz")
    case False
    then show ?thesis using less.prems by (simp add: isdirempty.simps [of dp sz off])
  next
    case True
    have d: "sz - (off + 16) < sz - off" using True by simp
    show ?thesis using less.prems True
      by (auto simp: isdirempty.simps [of dp sz off] bindE_eq_Inr split: if_splits dest!: readi_frame less.hyps [OF d])
  qed
qed

lemma unlink_entry_frame [frame]: "unlink_entry dp ip off s = Inr (r, s') \<Longrightarrow> beyond s' = beyond s"
  by (auto simp: unlink_entry_def bindE_eq_Inr split: if_splits dest!: writei_frame inode_frames)

lemma sys_unlink_frame [frame]: "sys_unlink me s = Inr (r, s') \<Longrightarrow> beyond s' = beyond s"
  by (auto simp: sys_unlink_def bindE_eq_Inr split: option.splits if_splits
      dest!: inode_frames op_frame(1) isdirempty_frame unlink_entry_frame)

lemma create_fail_frame [frame]: "create_fail ip dp s = Inr (r, s') \<Longrightarrow> beyond s' = beyond s"
  by (auto simp: create_fail_def bindE_eq_Inr dest!: inode_frames)

lemma link_dots_frame [frame]: "link_dots ip dp s = Inr (r, s') \<Longrightarrow> beyond s' = beyond s"
  by (auto simp: link_dots_def bindE_eq_Inr split: if_splits dest!: dirlink_frame)

lemma create_new_frame [frame]: "create_new ip dp name t mj mn s = Inr (r, s') \<Longrightarrow> beyond s' = beyond s"
  by (auto simp: create_new_def bindE_eq_Inr split: if_splits dest!: inode_frames create_fail_frame link_dots_frame)

lemma create_frame [frame]: "create path t mj mn s = Inr (r, s') \<Longrightarrow> beyond s' = beyond s"
  by (auto simp: create_def bindE_eq_Inr split: option.splits if_splits dest!: inode_frames ialloc_frame create_new_frame)

lemma make_frame [frame]:
  "sys_mkdir me s = Inr (r, s') \<Longrightarrow> beyond s' = beyond s" "sys_mknod me s = Inr (r, s') \<Longrightarrow> beyond s' = beyond s"
  "open_inode path omode s = Inr (k, s') \<Longrightarrow> beyond s' = beyond s"
  by (auto simp: sys_mkdir_def sys_mknod_def open_inode_def bindE_eq_Inr split: option.splits if_splits
      dest!: inode_frames op_frame(1) create_frame)

section \<open>Reading and writing\<close>

lemma filestat_frame [frame]: "filestat pad f a s = Inr (r, s') \<Longrightarrow> beyond s' = beyond s"
  by (auto simp: filestat_def bindE_eq_Inr Let_def case_prod_beta split: if_splits dest!: ilock_frame iunlock_frame)

definition dev_ok :: "(nat \<Rightarrow> kst devsw) \<Rightarrow> bool" where
  "dev_ok devsw \<longleftrightarrow> (\<forall>i h u a n s r s'. (dev_read (devsw i) = Some h \<or> dev_write (devsw i) = Some h) \<longrightarrow>
     h u a n s = Inr (r, s') \<longrightarrow> undisturbed s s')"

lemma dev_call_undisturbed:
  assumes "dev_ok devsw" "sel = dev_read \<or> sel = dev_write" "dev_call sel devsw major a n s = Inr (r, s')"
  shows "undisturbed s s'"
proof (cases "sel (devsw (unat major))")
  case None
  then show ?thesis using assms(3) by (auto simp: dev_call_def split: if_splits)
next
  case (Some h)
  then have "s' = s \<or> h True a n s = Inr (r, s')" using assms(3) by (auto simp: dev_call_def split: if_splits)
  then show ?thesis using assms(1,2) Some unfolding dev_ok_def by auto
qed

lemma moved_undisturbed:
  assumes "beyond s1 = beyond s" "s2 = (if c then upd_file f (\<lambda>x. x\<lparr>f_off := f_off x + k\<rparr>) s1 else s1)" "beyond s' = beyond s2"
  shows "undisturbed s s'"
proof -
  have "undisturbed s1 s2" using assms(2) undisturbed_upd_file [of "\<lambda>x. x\<lparr>f_off := f_off x + k\<rparr>" s1 f] by (cases c) auto
  then show ?thesis using undisturbed_frame [OF assms(1)] undisturbed_frame [OF assms(3)] by (blast intro: undisturbed_trans)
qed

lemma fileread_undisturbed:
  assumes d: "dev_ok devsw" and r: "fileread devsw me f a n s = Inr (r, s')"
  shows "undisturbed s s'"
proof (cases "f_readable (ftable s f)")
  case False
  then show ?thesis using r by (simp add: fileread_def)
next
  case True
  show ?thesis
  proof (cases "f_type (ftable s f)")
    case FD_PIPE
    define pi where "pi = f_pipe (ftable s f)"
    obtain k wake pp P where p: "piperead (umem_pool s) (upagetable s) (p_killed (procs s me)) (pipes s pi) a n = (Returned k, wake, pp, P)"
      using r True FD_PIPE by (auto simp: fileread_def Let_def pi_def split: prod.splits outcome.splits)
    define t where "t = s\<lparr>pipes := (pipes s)(pi := pp), umem_pool := P\<rparr>"
    have "s' = (if wake then wakeup me (WriteChan pi) t else t)"
      using r True FD_PIPE p by (cases wake) (simp_all add: fileread_def Let_def t_def flip: pi_def)
    moreover have "undisturbed s t" by (rule same_ktables) (simp_all add: t_def)
    ultimately show ?thesis using undisturbed_wakeup undisturbed_trans by (cases wake) auto
  next
    case FD_DEVICE
    then show ?thesis using r True dev_call_undisturbed [OF d, of dev_read] by (simp add: fileread_def)
  next
    case FD_INODE
    then obtain s1 s2 k bs where 1: "ilock (f_ip (ftable s f)) s = Inr s1"
      "readi (the (f_ip (ftable s1 f))) True a (f_off (ftable s1 f)) (of_int n) s1 = Inr ((k, bs), s2)"
      "bindE (iunlock (f_ip (ftable (if k > 0 then upd_file f (\<lambda>x. x\<lparr>f_off := f_off x + of_int k\<rparr>) s2 else s2) f))
          (if k > 0 then upd_file f (\<lambda>x. x\<lparr>f_off := f_off x + of_int k\<rparr>) s2 else s2)) (\<lambda>s. Inr (k, s)) = Inr (r, s')"
      using r True by (auto simp: fileread_def bindE_eq_Inr Let_def)
    show ?thesis
    proof (rule moved_undisturbed [OF _ refl])
      show "beyond s2 = beyond s" using ilock_frame [OF 1(1)] readi_frame [OF 1(2)] by simp
      show "beyond s' = beyond (if k > 0 then upd_file f (\<lambda>x. x\<lparr>f_off := f_off x + of_int k\<rparr>) s2 else s2)"
        using 1(3) by (cases "k > 0") (auto simp: bindE_eq_Inr dest!: iunlock_frame)
    qed
  qed (use r True in \<open>simp_all add: fileread_def\<close>)
qed

lemma write_chunk_undisturbed [calm]: "write_chunk f a n1 s = Inr (r, s') \<Longrightarrow> undisturbed s s'"
proof -
  assume w: "write_chunk f a n1 s = Inr (r, s')"
  then obtain s1 s2 s3 k where 1: "begin_op s = Inr s1" "ilock (f_ip (ftable s1 f)) s1 = Inr s2"
    "writei (the (f_ip (ftable s2 f))) (User a) (f_off (ftable s2 f)) (of_int n1) s2 = Inr (k, s3)"
    "bindE (iunlock (f_ip (ftable (if k > 0 then upd_file f (\<lambda>x. x\<lparr>f_off := f_off x + of_int k\<rparr>) s3 else s3) f))
       (if k > 0 then upd_file f (\<lambda>x. x\<lparr>f_off := f_off x + of_int k\<rparr>) s3 else s3)) (\<lambda>s. bindE (end_op s) (\<lambda>s. Inr (k, s))) = Inr (r, s')"
    by (auto simp: write_chunk_def bindE_eq_Inr Let_def)
  show ?thesis
  proof (rule moved_undisturbed [OF _ refl])
    show "beyond s3 = beyond s" using op_frame(1) [OF 1(1)] ilock_frame [OF 1(2)] writei_frame [OF 1(3)] by simp
    show "beyond s' = beyond (if k > 0 then upd_file f (\<lambda>x. x\<lparr>f_off := f_off x + of_int k\<rparr>) s3 else s3)"
      using 1(4) by (cases "k > 0") (auto simp: bindE_eq_Inr dest!: iunlock_frame op_frame(2))
  qed
qed

lemma filewrite_loop_undisturbed [calm]: "filewrite_loop f a n i s = Inr (r, s') \<Longrightarrow> undisturbed s s'"
proof (induction "nat (n - i)" arbitrary: i s rule: less_induct)
  case less
  show ?case
  proof (cases "i < n")
    case False
    then show ?thesis using less.prems by (simp add: filewrite_loop.simps [of f a n i])
  next
    case True
    define n1 where "n1 = (if n - i > write_max then write_max else n - i)"
    have n1: "0 < n1" using True by (auto simp: n1_def write_max_def MAXOPBLOCKS_def BSIZE_def)
    obtain k s1 where 1: "write_chunk f (a + of_int i) n1 s = Inr (k, s1)"
      "(if k \<noteq> n1 then Inr (i, s1) else filewrite_loop f a n (i + k) s1) = Inr (r, s')"
      using less.prems True by (auto simp: filewrite_loop.simps [of f a n i] bindE_eq_Inr Let_def simp flip: n1_def)
    have "undisturbed s1 s'"
    proof (cases "k = n1")
      case True
      have "nat (n - (i + k)) < nat (n - i)" using \<open>i < n\<close> n1 True by simp
      from less.hyps [OF this] show ?thesis using 1(2) True by simp
    qed (use 1(2) in simp)
    then show ?thesis by (rule undisturbed_trans [OF write_chunk_undisturbed [OF 1(1)]])
  qed
qed

lemma filewrite_undisturbed:
  assumes d: "dev_ok devsw" and r: "filewrite devsw me f a n s = Inr (r, s')"
  shows "undisturbed s s'"
proof (cases "f_writable (ftable s f)")
  case False
  then show ?thesis using r by (simp add: filewrite_def)
next
  case True
  show ?thesis
  proof (cases "f_type (ftable s f)")
    case FD_PIPE
    define pi where "pi = f_pipe (ftable s f)"
    obtain k wake pp where p: "pipewrite (umem_pool s) (upagetable s) (\<lambda>_. p_killed (procs s me)) (pipes s pi) a n 0 = (Returned k, wake, pp)"
      using r True FD_PIPE by (auto simp: filewrite_def Let_def pi_def split: prod.splits outcome.splits)
    define t where "t = s\<lparr>pipes := (pipes s)(pi := pp)\<rparr>"
    have "s' = (if wake then wakeup me (ReadChan pi) t else t)"
      using r True FD_PIPE p by (cases wake) (simp_all add: filewrite_def Let_def t_def flip: pi_def)
    moreover have "undisturbed s t" by (rule same_ktables) (simp_all add: t_def)
    ultimately show ?thesis using undisturbed_wakeup undisturbed_trans by (cases wake) auto
  next
    case FD_DEVICE
    then show ?thesis using r True dev_call_undisturbed [OF d, of dev_write] by (simp add: filewrite_def)
  next
    case FD_INODE
    then show ?thesis using r True by (auto simp: filewrite_def bindE_eq_Inr intro: filewrite_loop_undisturbed)
  qed (use r True in \<open>simp_all add: filewrite_def\<close>)
qed

lemma file_release_undisturbed:
  assumes r: "file_release me f ff s = Inr s'"
  shows "undisturbed s s'"
proof -
  consider "f_type ff = FD_PIPE" | "f_type ff = FD_SOCKET" | "f_type ff = FD_NONE" | (inode) "f_type ff \<in> {FD_INODE, FD_DEVICE}"
    by (cases "f_type ff") auto
  then show ?thesis
  proof cases
    case 1
    then obtain pis P where "s' = wakeup me (if f_writable ff then ReadChan (f_pipe ff) else WriteChan (f_pipe ff)) (s\<lparr>pipes := pis, umem_pool := P\<rparr>)"
      using r by (auto simp: file_release_def bindE_eq_Inr)
    moreover have "undisturbed s (s\<lparr>pipes := pis, umem_pool := P\<rparr>)" by (rule same_ktables) simp_all
    ultimately show ?thesis using undisturbed_wakeup undisturbed_trans by blast
  next
    case 2
    then show ?thesis using r net_call_undisturbed by (auto simp: file_release_def bindE_eq_Inr)
  next
    case 3
    then show ?thesis using r by (simp add: file_release_def)
  next
    case inode
    then have "beyond s' = beyond s"
      using r by (auto simp: file_release_def bindE_eq_Inr split: option.splits dest!: op_frame iput_frame)
    then show ?thesis by (rule undisturbed_frame)
  qed
qed

end
