(* ===== verification/Descr.thy ===== *)
theory Descr
  imports SysFrame
begin

text \<open>
  The reference count of a file is the number of descriptors that refer to it. The calls run in
  any order and by any processes; in the middle of a call some references are held by the call
  itself, which the invariant lists.
\<close>

section \<open>The invariant\<close>

definition fdset :: "kst \<Rightarrow> nat \<Rightarrow> (nat \<times> nat) set" where
  "fdset s f = {(p, fd). p < NPROC \<and> fd < NOFILE \<and> p_ofile (procs s p) fd = Some f}"

definition procs_range :: "kst \<Rightarrow> bool" where
  "procs_range s \<longleftrightarrow> (\<forall>p < NPROC. (\<forall>i t. p_infants (procs s p) i = Some t \<longrightarrow> t < NPROC) \<and>
     (\<forall>q. p_parent (procs s p) = Some q \<longrightarrow> q < NPROC)) \<and> (\<forall>i. initproc s = Some i \<longrightarrow> i < NPROC)"

definition closed :: "proc \<Rightarrow> bool" where
  "closed x \<longleftrightarrow> (\<forall>fd < NOFILE. p_ofile x fd = None)"

definition files_in :: "nat list \<Rightarrow> kst \<Rightarrow> bool" where
  "files_in D s \<longleftrightarrow> (\<forall>f < NFILE. f_ref (ftable s f) = int (card (fdset s f) + count_list D f)) \<and>
     (\<forall>f \<ge> NFILE. fdset s f = {} \<and> f \<notin> set D) \<and> (\<forall>p < NPROC. dead (procs s p) \<longrightarrow> closed (procs s p)) \<and> procs_range s"

lemma files_inD:
  assumes "files_in D s"
  shows "\<And>f. f < NFILE \<Longrightarrow> f_ref (ftable s f) = int (card (fdset s f) + count_list D f)"
    "\<And>f. NFILE \<le> f \<Longrightarrow> fdset s f = {}" "\<And>f. f \<in> set D \<Longrightarrow> f < NFILE"
    "\<And>p. p < NPROC \<Longrightarrow> dead (procs s p) \<Longrightarrow> closed (procs s p)" "procs_range s"
proof -
  show "\<And>f. f \<in> set D \<Longrightarrow> f < NFILE" using assms by (auto simp: files_in_def simp flip: not_le)
qed (use assms in \<open>auto simp: files_in_def\<close>)

lemma finite_fdset [simp]: "finite (fdset s f)"
  by (rule finite_subset [of _ "{..<NPROC} \<times> {..<NOFILE}"]) (auto simp: fdset_def)

lemma open_file_small:
  assumes "files_in D s" "p < NPROC" "fd < NOFILE" "p_ofile (procs s p) fd = Some f"
  shows "f < NFILE" "0 < card (fdset s f)"
proof -
  have i: "(p, fd) \<in> fdset s f" using assms(2-4) by (simp add: fdset_def)
  then show "f < NFILE" using files_inD(2) [OF assms(1), of f] by (cases "f < NFILE") auto
  show "0 < card (fdset s f)" using i by (auto simp: card_gt_0_iff)
qed

lemma files_in_cong:
  assumes "files_in D s" "\<And>f. f_ref (ftable s' f) = f_ref (ftable s f)" "\<And>p. p < NPROC \<Longrightarrow> p_ofile (procs s' p) = p_ofile (procs s p)"
    "\<And>p. p < NPROC \<Longrightarrow> dead (procs s' p) \<Longrightarrow> dead (procs s p) \<or> closed (procs s p)" "procs_range s'"
  shows "files_in D s'"
proof -
  have "fdset s' f = fdset s f" for f using assms(3) by (auto simp: fdset_def)
  moreover have "closed (procs s' p) = closed (procs s p)" if "p < NPROC" for p using assms(3) [OF that] by (simp add: closed_def)
  moreover have "closed (procs s p)" if "p < NPROC" "dead (procs s' p)" for p
    using assms(4) [OF that] files_inD(4) [OF assms(1) that(1)] by blast
  ultimately show ?thesis using files_inD [OF assms(1)] assms(2,5) unfolding files_in_def by (auto simp flip: not_le)
qed

lemma range_same:
  assumes "refs_same s s'" "procs_range s"
  shows "procs_range s'"
proof -
  have i: "p_infants (procs s p) j = Some t" if "p_infants (procs s' p) j = Some t" for p j t
    using assms(1) that unfolding refs_same_def refs_proc_def by (metis domI map_le_def)
  have q: "p_parent (procs s p) = Some q" if "p_parent (procs s' p) = Some q" for p q
    using assms(1) that unfolding refs_same_def refs_proc_def by (metis option.distinct(1))
  show ?thesis using assms i q unfolding procs_range_def refs_same_def by metis
qed

lemma files_in_same: "refs_same s s' \<Longrightarrow> files_in D s \<Longrightarrow> files_in D s'"
proof -
  assume r: "refs_same s s'" and f: "files_in D s"
  show ?thesis
    by (rule files_in_cong [OF f]) (use r range_same [OF r files_inD(5) [OF f]] in \<open>auto simp: refs_same_def refs_proc_def\<close>)
qed

lemma files_in_undisturbed: "undisturbed s s' \<Longrightarrow> files_in D s \<Longrightarrow> files_in D s'"
  unfolding undisturbed_def by (blast intro: files_in_same)

section \<open>References\<close>

lemma files_in_file:
  assumes f: "files_in D s" and "f < NFILE" "f_ref (g (ftable s f)) = f_ref (ftable s f) + k"
    and c: "\<And>h. int (count_list D' h) = int (count_list D h) + (if h = f then k else 0)" "set D' \<subseteq> {..<NFILE}"
  shows "files_in D' (upd_file f g s)"
proof -
  have e: "fdset (upd_file f g s) h = fdset s h" for h by (simp add: fdset_def)
  have "procs_range (upd_file f g s)" using files_inD(5) [OF f] unfolding procs_range_def upd_simps .
  moreover have "f_ref (ftable (upd_file f g s) h) = int (card (fdset s h) + count_list D' h)" if "h < NFILE" for h
    using assms(3) files_inD(1) [OF f that] c(1) [of h] by (cases "h = f") simp_all
  moreover have "h \<notin> set D'" if "NFILE \<le> h" for h using c(2) that by auto
  ultimately show ?thesis using files_inD(2,4) [OF f] unfolding files_in_def e by simp
qed

lemma take_ref:
  assumes "files_in D s" "f < NFILE" "f_ref (g (ftable s f)) = f_ref (ftable s f) + 1"
  shows "files_in (f # D) (upd_file f g s)"
  by (rule files_in_file [OF assms(1), of f g 1]) (use assms files_inD(3) [OF assms(1)] in auto)

lemma drop_ref:
  assumes "files_in (f # D) s" "f_ref (g (ftable s f)) = f_ref (ftable s f) - 1"
  shows "files_in D (upd_file f g s)"
  by (rule files_in_file [OF assms(1), of f g "- 1"]) (use assms files_inD(3) [OF assms(1)] in auto)

lemma filealloc_ref:
  assumes "files_in D s" "filealloc s = (Some f, s')"
  shows "files_in (f # D) s'" "procs s' = procs s" "initproc s' = initproc s" "nextpid s' = nextpid s"
proof -
  have f: "f < NFILE" "f_ref (ftable s f) = 0" "s' = upd_file f (\<lambda>x. x\<lparr>f_ref := 1\<rparr>) s"
    using assms(2) by (auto simp: filealloc_def find_Some_iff split: option.splits)
  show "files_in (f # D) s'" unfolding f(3) by (rule take_ref [OF assms(1) f(1)]) (simp add: f(2))
qed (use assms(2) in \<open>auto simp: filealloc_def split: option.splits\<close>)

lemma fileclose_shape:
  assumes "fileclose me f s = Inr s'"
  shows "1 \<le> f_ref (ftable s f)" "undisturbed (upd_file f (\<lambda>x. x\<lparr>f_ref := f_ref x - 1\<rparr>) s) s'"
proof -
  define s1 where "s1 = upd_file f (\<lambda>x. x\<lparr>f_ref := f_ref x - 1\<rparr>) s"
  show r: "1 \<le> f_ref (ftable s f)" using assms by (auto simp: fileclose_def split: if_splits)
  show "undisturbed s1 s'"
  proof (cases "f_ref (ftable s1 f) > 0")
    case True
    then show ?thesis using assms r by (simp add: fileclose_def Let_def s1_def)
  next
    case False
    define s2 where "s2 = upd_file f (\<lambda>x. x\<lparr>f_ref := 0, f_type := FD_NONE\<rparr>) s1"
    have "file_release me f (ftable s1 f) s2 = Inr s'"
      using assms r False by (simp add: fileclose_def Let_def s1_def s2_def)
    moreover have "undisturbed s1 s2" using False r by (simp add: undisturbed_def tree_same_def refs_same_def s2_def s1_def)
    ultimately show ?thesis by (blast intro: undisturbed_trans file_release_undisturbed)
  qed
qed

lemma fileclose_ref: "files_in (f # D) s \<Longrightarrow> fileclose me f s = Inr s' \<Longrightarrow> files_in D s'"
  by (rule files_in_undisturbed [OF fileclose_shape(2)]) (auto intro: drop_ref)

lemma fileclose_tree: "fileclose me f s = Inr s' \<Longrightarrow> tree_same s s'"
proof -
  assume "fileclose me f s = Inr s'"
  from fileclose_shape(2) [OF this] have "tree_same (upd_file f (\<lambda>x. x\<lparr>f_ref := f_ref x - 1\<rparr>) s) s'" by (simp add: undisturbed_def)
  then show ?thesis by (simp add: tree_same_def)
qed

section \<open>Descriptors\<close>

lemma set_fd_simps [simp]:
  "procs (set_fd p fd v s) = (procs s)(p := (procs s p)\<lparr>p_ofile := (p_ofile (procs s p))(fd := v)\<rparr>)"
  "ftable (set_fd p fd v s) = ftable s" "initproc (set_fd p fd v s) = initproc s" "nextpid (set_fd p fd v s) = nextpid s"
  "umem_pool (set_fd p fd v s) = umem_pool s" "itable (set_fd p fd v s) = itable s"
  by (simp_all add: set_fd_def upd_proc_def)

lemma set_fd_range [simp]: "procs_range (set_fd p fd v s) = procs_range s"
  by (auto simp: procs_range_def split: if_splits)

lemma set_fd_tree [simp]: "tree_same s (set_fd p fd v s)"
  by (simp add: tree_same_def tree_proc_def)

lemma fill_fd:
  assumes f: "files_in (f # D) s" and p: "p < NPROC" "fd < NOFILE" "p_ofile (procs s p) fd = None" "\<not> dead (procs s p)"
  shows "files_in D (set_fd p fd (Some f) s)"
proof -
  have n: "f < NFILE" using files_inD(3) [OF f] by simp
  have d: "fdset (set_fd p fd (Some f) s) g = (if g = f then insert (p, fd) (fdset s f) else fdset s g)" for g
    using p by (auto simp: fdset_def split: if_splits)
  have "(p, fd) \<notin> fdset s f" using p(3) by (simp add: fdset_def)
  then have "card (insert (p, fd) (fdset s f)) = card (fdset s f) + 1" by simp
  then show ?thesis using files_inD [OF f] p(4) n unfolding files_in_def d by (auto simp: dead_def simp flip: not_le)
qed

lemma clear_fd:
  assumes f: "files_in D s" and p: "p < NPROC" "fd < NOFILE" "p_ofile (procs s p) fd = Some f"
  shows "files_in (f # D) (set_fd p fd None s)"
proof -
  note n = open_file_small [OF f p]
  have d: "fdset (set_fd p fd None s) g = (if g = f then fdset s f - {(p, fd)} else fdset s g)" for g
    using p by (auto simp: fdset_def split: if_splits)
  have "(p, fd) \<in> fdset s f" using p by (simp add: fdset_def)
  then have "card (fdset s f) = card (fdset s f - {(p, fd)}) + 1" using card_Suc_Diff1 [of "fdset s f" "(p, fd)"] by simp
  moreover have "closed ((procs s p)\<lparr>p_ofile := (p_ofile (procs s p))(fd := None)\<rparr>)" if "closed (procs s p)"
    using that by (simp add: closed_def)
  ultimately show ?thesis using files_inD [OF f] n unfolding files_in_def d by (auto simp: dead_def simp flip: not_le)
qed

lemma set_fd_undisturbed: "undisturbed a b \<Longrightarrow> undisturbed (set_fd p fd v a) (set_fd p fd v b)"
  by (auto simp: undisturbed_def tree_same_def refs_same_def tree_proc_def refs_proc_def dead_def)

lemma fdalloc_Some:
  assumes "fdalloc me f s = (Some fd, s')"
  shows "fd < NOFILE" "p_ofile (procs s me) fd = None" "s' = set_fd me fd (Some f) s"
  using assms by (auto simp: fdalloc_def find_Some_iff split: option.splits)

lemma fdalloc_None: "fdalloc me f s = (None, s') \<Longrightarrow> s' = s"
  by (auto simp: fdalloc_def split: option.splits)

lemma filealloc_None: "filealloc s = (None, s') \<Longrightarrow> s' = s"
  by (auto simp: filealloc_def split: option.splits)

section \<open>System calls on descriptors\<close>

lemma tree_dead: "tree_same s s' \<Longrightarrow> dead (procs s' p) \<longleftrightarrow> dead (procs s p)"
  by (simp add: tree_same_def tree_proc_def dead_def)

lemma undisturbed_tree: "undisturbed s s' \<Longrightarrow> tree_same s s'"
  by (simp add: undisturbed_def)

lemma tree_file [simp]: "tree_same s (upd_file f g s)"
  by (simp add: tree_same_def)

lemma filealloc_tree: "filealloc s = (r, s') \<Longrightarrow> tree_same s s'"
  by (auto simp: filealloc_def split: option.splits)

lemma fdalloc_tree: "fdalloc me f s = (r, s') \<Longrightarrow> tree_same s s'"
  by (auto simp: fdalloc_def split: option.splits)

lemma argfd_Some: "argfd me n s = Some (fd, f) \<Longrightarrow> fd < NOFILE \<and> p_ofile (procs s me) fd = Some f"
  by (auto simp: argfd_def Let_def split: if_splits)

lemma dup_commute: "upd_file f g (set_fd p fd v s) = set_fd p fd v (upd_file f g s)"
  by (simp add: upd_file_def set_fd_def upd_proc_def)

lemma sys_dup_ok:
  assumes i: "files_in D s" "me < NPROC" "\<not> dead (procs s me)" and r: "sys_dup me s = Inr (r, s')"
  shows "files_in D s' \<and> tree_same s s'"
proof (cases "argfd me 0 s")
  case None
  then show ?thesis using r i(1) by (simp add: sys_dup_def)
next
  case (Some kf)
  obtain k f where k: "argfd me 0 s = Some (k, f)" using Some by (cases kf) auto
  note kf = argfd_Some [OF k]
  obtain v s1 where v: "fdalloc me f s = (v, s1)" by fastforce
  show ?thesis
  proof (cases v)
    case None
    then show ?thesis using r i(1) k v fdalloc_None [of me f s s1] by (simp add: sys_dup_def)
  next
    case (Some fd)
    note fd = fdalloc_Some [OF v [unfolded Some]]
    define g :: "kfile \<Rightarrow> kfile" where "g = (\<lambda>x. x\<lparr>f_ref := f_ref x + 1\<rparr>)"
    have s': "s' = set_fd me fd (Some f) (upd_file f g s)"
      using r k v Some unfolding fd(3) by (auto simp: sys_dup_def bindE_eq_Inr filedup_def dup_commute g_def split: if_splits)
    have "files_in (f # D) (upd_file f g s)"
      by (rule take_ref [OF i(1)]) (use open_file_small [OF i(1,2)] kf in \<open>auto simp: g_def\<close>)
    then have "files_in D s'" unfolding s' by (rule fill_fd) (use i fd in simp_all)
    moreover have "tree_same s s'" unfolding s' by (rule tree_same_trans [OF tree_file set_fd_tree])
    ultimately show ?thesis ..
  qed
qed

lemma sys_close_ok:
  assumes i: "files_in D s" "me < NPROC" and r: "sys_close me s = Inr (r, s')"
  shows "files_in D s' \<and> tree_same s s'"
proof (cases "argfd me 0 s")
  case None
  then show ?thesis using r i(1) by (simp add: sys_close_def)
next
  case (Some kf)
  obtain k f where k: "argfd me 0 s = Some (k, f)" using Some by (cases kf) auto
  have c: "fileclose me f (set_fd me k None s) = Inr s'" using r k by (auto simp: sys_close_def bindE_eq_Inr)
  have "files_in (f # D) (set_fd me k None s)" using clear_fd [OF i] argfd_Some [OF k] by blast
  then have "files_in D s'" by (rule fileclose_ref [OF _ c])
  moreover have "tree_same s s'" by (rule tree_same_trans [OF set_fd_tree fileclose_tree [OF c]])
  ultimately show ?thesis ..
qed

lemma pipealloc_ok:
  assumes i: "files_in D s" and r: "pipealloc me s = Inr (r, s')"
  shows "(case r of None \<Rightarrow> files_in D s' | Some (f0, f1) \<Rightarrow> files_in (f1 # f0 # D) s') \<and> tree_same s s'"
proof -
  obtain a0 s1 where a0: "filealloc s = (a0, s1)" by fastforce
  show ?thesis
  proof (cases a0)
    case None
    then show ?thesis using r i a0 filealloc_None [of s s1] by (simp add: pipealloc_def)
  next
    case (Some f0)
    note f0 = filealloc_ref [OF i a0 [unfolded Some]]
    note t0 = filealloc_tree [OF a0]
    obtain a1 s2 where a1: "filealloc s1 = (a1, s2)" by fastforce
    note t1 = tree_same_trans [OF t0 filealloc_tree [OF a1]]
    show ?thesis
    proof (cases a1)
      case None
      then have c: "fileclose me f0 s1 = Inr s'" "r = None"
        using r a0 a1 Some filealloc_None [of s1 s2] by (auto simp: pipealloc_def bindE_eq_Inr)
      show ?thesis using fileclose_ref [OF f0(1) c(1)] tree_same_trans [OF t0 fileclose_tree [OF c(1)]] c(2) by simp
    next
      case (Some f1)
      note f1 = filealloc_ref [OF f0(1) a1 [unfolded Some]]
      obtain pi P where pi: "pool_kalloc (umem_pool s2) = (pi, P)" by fastforce
      define s3 where "s3 = s2\<lparr>umem_pool := P\<rparr>"
      have u3: "undisturbed s2 s3" by (simp add: s3_def undisturbed_pool)
      note t3 = tree_same_trans [OF t1 undisturbed_tree [OF u3]]
      note f3 = files_in_undisturbed [OF u3 f1(1)]
      show ?thesis
      proof (cases "pi = 0")
        case True
        then obtain s4 where c: "fileclose me f0 s3 = Inr s4" "fileclose me f1 s4 = Inr s'" "r = None"
          using r a0 a1 pi \<open>a0 = Some f0\<close> Some by (auto simp: pipealloc_def bindE_eq_Inr s3_def)
        have "files_in (f0 # f1 # D) s3" using f3 by (simp add: files_in_def insert_commute conj_commute)
        from fileclose_ref [OF fileclose_ref [OF this c(1)] c(2)] show ?thesis
          using tree_same_trans [OF t3 tree_same_trans [OF fileclose_tree [OF c(1)] fileclose_tree [OF c(2)]]] c(3) by simp
      next
        case False
        define s4 where "s4 = s3\<lparr>pipes := (pipes s3)(pi := pipe_init (pipes s3 pi))\<rparr>"
        define s5 where "s5 = upd_file f0 (\<lambda>x. x\<lparr>f_type := FD_PIPE, f_readable := True, f_writable := False, f_pipe := pi\<rparr>) s4"
        have s': "s' = upd_file f1 (\<lambda>x. x\<lparr>f_type := FD_PIPE, f_readable := False, f_writable := True, f_pipe := pi\<rparr>) s5" "r = Some (f0, f1)"
          using r a0 a1 pi \<open>a0 = Some f0\<close> Some False by (simp_all add: pipealloc_def Let_def s3_def s4_def s5_def)
        have "undisturbed s3 s4" by (simp add: s4_def undisturbed_pool)
        moreover have "undisturbed s4 s5" unfolding s5_def by (rule undisturbed_upd_file) simp
        moreover have "undisturbed s5 s'" unfolding s' by (rule undisturbed_upd_file) simp
        ultimately have u: "undisturbed s3 s'" by (blast intro: undisturbed_trans)
        show ?thesis using files_in_undisturbed [OF u f3] tree_same_trans [OF t3 undisturbed_tree [OF u]] s'(2) by simp
      qed
    qed
  qed
qed

lemma files_in_swap: "files_in (f # g # D) s \<Longrightarrow> files_in (g # f # D) s"
  by (simp add: files_in_def insert_commute conj_commute)

lemma pipe_undo_ok:
  assumes i: "files_in (rf # wrf # D) (fold (\<lambda>fd. set_fd me fd None) fds s)" and r: "pipe_undo me fds rf wrf s = Inr (r, s')"
  shows "files_in D s'" "tree_same (fold (\<lambda>fd. set_fd me fd None) fds s) s'"
proof -
  obtain s1 where 1: "fileclose me rf (fold (\<lambda>fd. set_fd me fd None) fds s) = Inr s1" "fileclose me wrf s1 = Inr s'"
    using r by (auto simp: pipe_undo_def bindE_eq_Inr)
  show "files_in D s'" by (rule fileclose_ref [OF fileclose_ref [OF i 1(1)] 1(2)])
  show "tree_same (fold (\<lambda>fd. set_fd me fd None) fds s) s'" by (rule tree_same_trans [OF fileclose_tree [OF 1(1)] fileclose_tree [OF 1(2)]])
qed

lemma tree_folds: "tree_same s (fold (\<lambda>fd. set_fd me fd None) fds s)"
proof (induction fds arbitrary: s)
  case (Cons fd fds)
  show ?case using tree_same_trans [OF set_fd_tree Cons.IH] by simp
qed simp

text \<open>The last part of \<open>sys_pipe\<close>, with both descriptors in place.\<close>

lemma sys_pipe_copies_ok:
  assumes i: "files_in D s" "me < NPROC" and fd: "fd0 < NOFILE" "fd1 < NOFILE" "fd0 \<noteq> fd1"
      "p_ofile (procs s me) fd0 = Some rf" "p_ofile (procs s me) fd1 = Some wrf"
    and r: "pipe_undo me [fd0, fd1] rf wrf (s\<lparr>umem_pool := P\<rparr>) = Inr (r, s') \<or> s' = s\<lparr>umem_pool := P\<rparr>"
  shows "files_in D s' \<and> tree_same s s'"
proof -
  define t where "t = s\<lparr>umem_pool := P\<rparr>"
  have u: "undisturbed s t" by (simp add: t_def undisturbed_pool)
  note ft = files_in_undisturbed [OF u i(1)]
  note tt = undisturbed_tree [OF u]
  show ?thesis using r unfolding t_def [symmetric]
  proof
    assume "s' = t"
    then show ?thesis using ft tt by simp
  next
    assume un: "pipe_undo me [fd0, fd1] rf wrf t = Inr (r, s')"
    have "files_in (rf # D) (set_fd me fd0 None t)" by (rule clear_fd [OF ft i(2) fd(1)]) (simp add: t_def fd)
    then have "files_in (wrf # rf # D) (set_fd me fd1 None (set_fd me fd0 None t))"
      by (rule clear_fd [OF _ i(2) fd(2)]) (simp add: t_def fd fd(3) [symmetric])
    then have "files_in (rf # wrf # D) (fold (\<lambda>fd. set_fd me fd None) [fd0, fd1] t)" by (simp add: files_in_swap)
    from pipe_undo_ok [OF this un] show ?thesis using tree_same_trans [OF tt tree_same_trans [OF tree_folds]] by blast
  qed
qed

lemma sys_pipe_ok:
  assumes i: "files_in D s" "me < NPROC" "\<not> dead (procs s me)" and r: "sys_pipe me s = Inr (r, s')"
  shows "files_in D s' \<and> tree_same s s'"
proof -
  obtain v s1 where 1: "pipealloc me s = Inr (v, s1)" using r by (auto simp: sys_pipe_def Let_def bindE_eq_Inr)
  note p = pipealloc_ok [OF i(1) 1]
  show ?thesis
  proof (cases v)
    case None
    then show ?thesis using r 1 p by (simp add: sys_pipe_def Let_def)
  next
    case (Some fs)
    obtain rf wrf where fs: "v = Some (rf, wrf)" using Some by (cases fs) auto
    have f1: "files_in (rf # wrf # D) s1" "tree_same s s1" using p fs by (auto simp: files_in_swap)
    have a1: "\<not> dead (procs s1 me)" using i(3) tree_dead [OF f1(2)] by simp
    obtain d0 s2 where d0: "fdalloc me rf s1 = (d0, s2)" by fastforce
    show ?thesis
    proof (cases d0)
      case None
      then have "pipe_undo me [] rf wrf s1 = Inr (r, s')"
        using r 1 fs d0 fdalloc_None [of me rf s1 s2] by (simp add: sys_pipe_def Let_def)
      then show ?thesis using pipe_undo_ok [of rf wrf D me "[]" s1 r s'] f1 tree_same_trans [OF f1(2)] by simp
    next
      case (Some fd0)
      note e0 = fdalloc_Some [OF d0 [unfolded Some]]
      have f2: "files_in (wrf # D) s2" unfolding e0(3) by (rule fill_fd [OF f1(1) i(2) e0(1,2) a1])
      have t2: "tree_same s s2" unfolding e0(3) by (rule tree_same_trans [OF f1(2) set_fd_tree])
      have a2: "\<not> dead (procs s2 me)" using i(3) tree_dead [OF t2] by simp
      have o2: "p_ofile (procs s2 me) fd0 = Some rf" by (simp add: e0(3))
      obtain d1 s3 where d1: "fdalloc me wrf s2 = (d1, s3)" by fastforce
      show ?thesis
      proof (cases d1)
        case None
        then have un: "pipe_undo me [fd0] rf wrf s2 = Inr (r, s')"
          using r 1 fs d0 Some d1 fdalloc_None [of me wrf s2 s3] by (simp add: sys_pipe_def Let_def)
        have "files_in (rf # wrf # D) (fold (\<lambda>fd. set_fd me fd None) [fd0] s2)" using clear_fd [OF f2 i(2) e0(1) o2] by simp
        from pipe_undo_ok [OF this un] show ?thesis using tree_same_trans [OF t2 tree_same_trans [OF tree_folds]] by blast
      next
        case (Some fd1)
        note e1 = fdalloc_Some [OF d1 [unfolded Some]]
        have f3: "files_in D s3" unfolding e1(3) by (rule fill_fd [OF f2 i(2) e1(1,2) a2])
        have t3: "tree_same s s3" unfolding e1(3) by (rule tree_same_trans [OF t2 set_fd_tree])
        have n: "fd0 \<noteq> fd1" using o2 e1(2) by auto
        have o3: "p_ofile (procs s3 me) fd0 = Some rf" "p_ofile (procs s3 me) fd1 = Some wrf" using o2 n by (simp_all add: e1(3))
        have "\<exists>P. pipe_undo me [fd0, fd1] rf wrf (s3\<lparr>umem_pool := P\<rparr>) = Inr (r, s') \<or> s' = s3\<lparr>umem_pool := P\<rparr>"
          using r 1 fs d0 \<open>d0 = Some fd0\<close> d1 Some by (auto simp: sys_pipe_def Let_def case_prod_beta split: if_splits)
        then obtain P where "pipe_undo me [fd0, fd1] rf wrf (s3\<lparr>umem_pool := P\<rparr>) = Inr (r, s') \<or> s' = s3\<lparr>umem_pool := P\<rparr>" by blast
        from sys_pipe_copies_ok [OF f3 i(2) e0(1) e1(1) n o3 this] show ?thesis using tree_same_trans [OF t3] by blast
      qed
    qed
  qed
qed

lemma open_file_ok:
  assumes i: "files_in D s" "me < NPROC" "\<not> dead (procs s me)" and r: "open_file me ip omode s = Inr (r, s')"
  shows "files_in D s' \<and> tree_same s s'"
proof -
  have out: "files_in D s' \<and> tree_same s s'"
    if "bindE (iunlockput ip t) op_fail = Inr (r, s')" "files_in D t" "tree_same s t" for t
  proof -
    have "undisturbed t s'" using that(1) by (auto simp: bindE_eq_Inr dest!: iunlockput_frame done_frame intro: undisturbed_frame)
    then show ?thesis using files_in_undisturbed that(2,3) undisturbed_tree tree_same_trans by blast
  qed
  consider (dev) "bindE (iunlockput ip s) op_fail = Inr (r, s')" | (alloc) "\<not> (i_type (itable s ip) = T_DEVICE \<and> (sint (i_major (itable s ip)) < 0 \<or> sint (i_major (itable s ip)) \<ge> NDEV))"
    using r by (auto simp: open_file_def split: if_splits)
  then show ?thesis
  proof cases
    case dev
    then show ?thesis using out i(1) by simp
  next
    case alloc
    obtain a s1 where a: "filealloc s = (a, s1)" by fastforce
    note t1 = filealloc_tree [OF a]
    show ?thesis
    proof (cases a)
      case None
      then show ?thesis using out [of s] r a i(1) alloc filealloc_None [of s s1] by (simp add: open_file_def)
    next
      case (Some f)
      note f1 = filealloc_ref [OF i(1) a [unfolded Some]]
      obtain d s2 where d: "fdalloc me f s1 = (d, s2)" by fastforce
      show ?thesis
      proof (cases d)
        case None
        then obtain s3 where c: "fileclose me f s1 = Inr s3" "bindE (iunlockput ip s3) op_fail = Inr (r, s')"
          using r a Some d alloc fdalloc_None [of me f s1 s2] by (auto simp: open_file_def bindE_eq_Inr)
        show ?thesis by (rule out [OF c(2) fileclose_ref [OF f1(1) c(1)] tree_same_trans [OF t1 fileclose_tree [OF c(1)]]])
      next
        case (Some fd)
        note e = fdalloc_Some [OF d [unfolded Some]]
        have a1: "\<not> dead (procs s1 me)" using i(3) f1(2) by simp
        have f2: "files_in D s2" unfolding e(3) by (rule fill_fd [OF f1(1) i(2) e(1,2) a1])
        have t2: "tree_same s s2" unfolding e(3) by (rule tree_same_trans [OF t1 set_fd_tree])
        define s3 where "s3 = upd_file f (if i_type (itable s2 ip) = T_DEVICE then (\<lambda>x. x\<lparr>f_type := FD_DEVICE, f_major := i_major (itable s2 ip)\<rparr>)
            else (\<lambda>x. x\<lparr>f_type := FD_INODE, f_off := 0\<rparr>)) s2"
        define s4 where "s4 = upd_file f (\<lambda>x. x\<lparr>f_ip := Some ip, f_readable := (omode AND O_WRONLY = 0),
            f_writable := (omode AND O_WRONLY \<noteq> 0 \<or> omode AND O_RDWR \<noteq> 0)\<rparr>) s3"
        have "bindE (if omode AND O_TRUNC \<noteq> 0 \<and> i_type (itable s4 ip) = T_FILE then itrunc ip s4 else Inr s4) (\<lambda>s. bindE (iunlock (Some ip) s) (op_done (int fd))) = Inr (r, s')"
          using r a \<open>a = Some f\<close> d Some alloc unfolding s4_def s3_def by (simp add: open_file_def Let_def cong: if_cong split del: if_split)
        then have "beyond s' = beyond s4" by (auto simp: bindE_eq_Inr split: if_splits dest!: itrunc_frame iunlock_frame done_frame)
        moreover have "undisturbed s2 s3" unfolding s3_def by (rule undisturbed_upd_file) simp
        moreover have "undisturbed s3 s4" unfolding s4_def by (rule undisturbed_upd_file) simp
        ultimately have u: "undisturbed s2 s'" by (blast intro: undisturbed_trans undisturbed_frame)
        show ?thesis using files_in_undisturbed [OF u f2] tree_same_trans [OF t2 undisturbed_tree [OF u]] by simp
      qed
    qed
  qed
qed

lemma sys_open_ok:
  assumes i: "files_in D s" "me < NPROC" "\<not> dead (procs s me)" and r: "sys_open me s = Inr (r, s')"
  shows "files_in D s' \<and> tree_same s s'"
proof -
  have "s' = s \<or> (\<exists>t. beyond t = beyond s \<and> (beyond s' = beyond t \<or> (\<exists>ip m. open_file me ip m t = Inr (r, s'))))"
    using r by (auto simp: sys_open_def Let_def bindE_eq_Inr split: option.splits dest!: op_frame(1) make_frame(3) done_frame)
  then consider "s' = s" | t where "undisturbed s t" "undisturbed t s'" | t ip m where "undisturbed s t" "open_file me ip m t = Inr (r, s')"
    using undisturbed_frame by blast
  then show ?thesis
  proof cases
    case 1
    then show ?thesis using i(1) by simp
  next
    case 2
    then show ?thesis using i(1) files_in_undisturbed undisturbed_trans undisturbed_tree by meson
  next
    case 3
    have "\<not> dead (procs t me)" using i(3) tree_dead [OF undisturbed_tree [OF 3(1)]] by simp
    from open_file_ok [OF files_in_undisturbed [OF 3(1) i(1)] i(2) this 3(2)] show ?thesis
      using tree_same_trans [OF undisturbed_tree [OF 3(1)]] by blast
  qed
qed

lemma sys_socket_ok:
  assumes i: "files_in D s" "me < NPROC" "\<not> dead (procs s me)" and r: "sys_socket me s = Inr (r, s')"
  shows "files_in D s' \<and> tree_same s s'"
proof -
  obtain sock P where p: "pool_kalloc (umem_pool s) = (sock, P)" by fastforce
  show ?thesis
  proof (cases "sock = 0")
    case True
    then have "s' = s\<lparr>umem_pool := P\<rparr>" using r p by (simp add: sys_socket_def)
    then have u: "undisturbed s s'" using undisturbed_pool by simp
    show ?thesis using files_in_undisturbed [OF u i(1)] undisturbed_tree [OF u] by simp
  next
    case False
    obtain k s1 where n: "net_call (\<lambda>n. initsocket n sock (ucast (argaddr me 0 (s\<lparr>umem_pool := zero_page P sock\<rparr>))) (ucast (argaddr me 1 (s\<lparr>umem_pool := zero_page P sock\<rparr>)))
        (ucast (argaddr me 2 (s\<lparr>umem_pool := zero_page P sock\<rparr>)))) (s\<lparr>umem_pool := zero_page P sock\<rparr>) = Inr (k, s1)"
      using r p False by (auto simp: sys_socket_def Let_def bindE_eq_Inr)
    have u1: "undisturbed s s1" by (rule undisturbed_trans [OF undisturbed_pool(1) net_call_undisturbed [OF n]])
    note f1 = files_in_undisturbed [OF u1 i(1)]
    note t1 = undisturbed_tree [OF u1]
    obtain a s2 where a: "filealloc s1 = (a, s2)" by fastforce
    note t2 = tree_same_trans [OF t1 filealloc_tree [OF a]]
    show ?thesis
    proof (cases a)
      case None
      then have "\<exists>P. s' = s1\<lparr>umem_pool := P\<rparr>"
        using r p False n a filealloc_None [of s1 s2] by (auto simp: sys_socket_def Let_def bindE_eq_Inr)
      then have u: "undisturbed s1 s'" using undisturbed_pool by auto
      show ?thesis using files_in_undisturbed [OF u f1] tree_same_trans [OF t1 undisturbed_tree [OF u]] by simp
    next
      case (Some f)
      note f2 = filealloc_ref [OF f1 a [unfolded Some]]
      obtain d s3 where d: "fdalloc me f s2 = (d, s3)" by fastforce
      show ?thesis
      proof (cases d)
        case None
        then obtain s4 where c: "fileclose me f s2 = Inr s4" "\<exists>P. s' = s4\<lparr>umem_pool := P\<rparr>"
          using r p False n a Some d fdalloc_None [of me f s2 s3] by (auto simp: sys_socket_def Let_def bindE_eq_Inr)
        have u: "undisturbed s4 s'" using c(2) undisturbed_pool by auto
        show ?thesis using files_in_undisturbed [OF u fileclose_ref [OF f2(1) c(1)]]
          tree_same_trans [OF t2 tree_same_trans [OF fileclose_tree [OF c(1)] undisturbed_tree [OF u]]] by simp
      next
        case (Some fd)
        note e = fdalloc_Some [OF d [unfolded Some]]
        have a2: "\<not> dead (procs s2 me)" using i(3) f2(2) tree_dead [OF t1] by simp
        have f3: "files_in D s3" unfolding e(3) by (rule fill_fd [OF f2(1) i(2) e(1,2) a2])
        have t3: "tree_same s s3" unfolding e(3) by (rule tree_same_trans [OF t2 set_fd_tree])
        have "\<exists>P. s' = upd_file f (\<lambda>x. x\<lparr>f_type := FD_SOCKET, f_sock := sock\<rparr>) (s3\<lparr>umem_pool := P\<rparr>)"
          using r p False n a \<open>a = Some f\<close> d Some by (auto simp: sys_socket_def Let_def)
        then obtain P' where "s' = upd_file f (\<lambda>x. x\<lparr>f_type := FD_SOCKET, f_sock := sock\<rparr>) (s3\<lparr>umem_pool := P'\<rparr>)" by blast
        then have u: "undisturbed s3 s'"
          using undisturbed_trans [OF undisturbed_pool(1) undisturbed_upd_file [of "\<lambda>x. x\<lparr>f_type := FD_SOCKET, f_sock := sock\<rparr>"]] by simp
        show ?thesis using files_in_undisturbed [OF u f3] tree_same_trans [OF t3 undisturbed_tree [OF u]] by simp
      qed
    qed
  qed
qed

end
