(* ===== verification/ProcInv.thy ===== *)
theory ProcInv
  imports Descr
begin

text \<open>
  What the calls that create and end processes do to the descriptors and to the process tree,
  and the two invariants of all system calls: reference counts are exact, and every process but
  the first has a living parent.
\<close>

section \<open>Allocation of process slots\<close>

definition blank :: "proc \<Rightarrow> proc" where
  "blank x = x\<lparr>p_trapframe := 0, p_pagetable := 0, p_sz := 0, p_pid := 0, p_parent := None,
     p_name := [], p_chan := None, p_killed := False, p_xstate := 0, p_state := UNUSED\<rparr>"

lemma blank_simps [simp]:
  "p_state (blank x) = UNUSED" "p_parent (blank x) = None" "p_ofile (blank x) = p_ofile x" "p_infants (blank x) = p_infants x"
  by (simp_all add: blank_def)

lemma freeproc_shape:
  assumes "freeproc p s = Inr s'"
  shows "procs s' = (procs s)(p := blank (procs s p))" "ftable s' = ftable s" "initproc s' = initproc s" "nextpid s' = nextpid s"
  using assms by (auto simp: freeproc_def bindE_eq_Inr Let_def blank_def)

lemma allocproc_cases:
  assumes a: "allocproc s = Inr (r, s')"
  obtains "r = None" "s' = s"
  | p x where "p < NPROC" "p_state (procs s p) = UNUSED" "procs s' = (procs s)(p := x)" "ftable s' = ftable s"
      "initproc s' = initproc s" "nextpid s' = nextpid s + 1" "p_ofile x = p_ofile (procs s p)" "p_infants x \<subseteq>\<^sub>m p_infants (procs s p)"
      "r = None \<and> p_state x = UNUSED \<and> p_parent x = None \<or>
       r = Some p \<and> p_state x = USED \<and> p_pid x = nextpid s \<and> p_parent x = p_parent (procs s p)"
proof (cases "find (\<lambda>p. p_state (procs s p) = UNUSED) [0..<NPROC]")
  case None
  then show ?thesis using a that(1) by (simp add: allocproc_def)
next
  case (Some p)
  have p: "p < NPROC" "p_state (procs s p) = UNUSED" using Some by (auto simp: find_Some_iff)
  obtain tf P where k: "pool_kalloc (umem_pool s) = (tf, P)" by fastforce
  define x1 where "x1 = (procs s p)\<lparr>p_pid := nextpid s, p_state := USED, p_trapframe := tf\<rparr>"
  define s1 where "s1 = upd_proc p (\<lambda>x. x\<lparr>p_trapframe := tf\<rparr>) ((upd_proc p (\<lambda>x. x\<lparr>p_pid := nextpid s, p_state := USED\<rparr>) (s\<lparr>nextpid := nextpid s + 1\<rparr>))\<lparr>umem_pool := P\<rparr>)"
  have s1: "procs s1 = (procs s)(p := x1)" "ftable s1 = ftable s" "initproc s1 = initproc s" "nextpid s1 = nextpid s + 1"
    by (simp_all add: s1_def x1_def)
  show ?thesis
  proof (cases "tf = 0")
    case True
    then have f: "freeproc p s1 = Inr s'" "r = None"
      using a Some k by (auto simp: allocproc_def allocpid_def Let_def bindE_eq_Inr s1_def)
    show ?thesis by (rule that(2) [of p "blank x1"]) (use p f freeproc_shape [OF f(1)] s1 in \<open>auto simp: x1_def\<close>)
  next
    case False
    then obtain pt P2 where q: "proc_pagetable (trampoline s1) tf (umem_pool s1) = Inr (pt, P2)"
      using a Some k by (auto simp: allocproc_def allocpid_def Let_def bindE_eq_Inr s1_def)
    define s2 where "s2 = upd_proc p (\<lambda>x. x\<lparr>p_pagetable := pt\<rparr>) (s1\<lparr>umem_pool := P2\<rparr>)"
    define x2 where "x2 = x1\<lparr>p_pagetable := pt\<rparr>"
    have s2: "procs s2 = (procs s)(p := x2)" "ftable s2 = ftable s" "initproc s2 = initproc s" "nextpid s2 = nextpid s + 1"
      by (simp_all add: s2_def x2_def s1)
    show ?thesis
    proof (cases "pt = 0")
      case True
      then have f: "freeproc p s2 = Inr s'" "r = None"
        using a Some k False q by (auto simp: allocproc_def allocpid_def Let_def bindE_eq_Inr s1_def s2_def)
      show ?thesis by (rule that(2) [of p "blank x2"]) (use p f freeproc_shape [OF f(1)] s2 in \<open>auto simp: x1_def x2_def\<close>)
    next
      case pt: False
      have s': "s' = upd_proc p (\<lambda>x. x\<lparr>p_infants := (\<lambda>i. if i < MAX_THREADS div 8 then None else p_infants x i)\<rparr>) s2" "r = Some p"
        using a Some k False q pt by (auto simp: allocproc_def allocpid_def Let_def s1_def s2_def)
      define x3 where "x3 = x2\<lparr>p_infants := (\<lambda>i. if i < MAX_THREADS div 8 then None else p_infants x2 i)\<rparr>"
      have "procs s' = (procs s)(p := x3)" unfolding s' upd_simps s2 x3_def fun_upd_same fun_upd_upd by (rule refl)
      moreover have "ftable s' = ftable s" "initproc s' = initproc s" "nextpid s' = nextpid s + 1" by (simp_all add: s' s2)
      ultimately show ?thesis
        by (rule that(2) [of p x3, OF p]) (auto simp: x1_def x2_def x3_def map_le_def s'(2) split: if_splits)
    qed
  qed
qed

lemma allocproc_None: "allocproc s = Inr (None, s') \<Longrightarrow> undisturbed s s'"
proof (erule allocproc_cases)
  fix p x
  assume "p_state (procs s p) = UNUSED" "procs s' = (procs s)(p := x)" "ftable s' = ftable s"
    "initproc s' = initproc s" "nextpid s' = nextpid s + 1" "p_ofile x = p_ofile (procs s p)" "p_infants x \<subseteq>\<^sub>m p_infants (procs s p)"
    "None = None \<and> p_state x = UNUSED \<and> p_parent x = None \<or> None = Some p \<and> p_state x = USED \<and> p_pid x = nextpid s \<and> p_parent x = p_parent (procs s p)"
  then show "undisturbed s s'"
    by (simp add: undisturbed_def tree_same_def refs_same_def tree_proc_def refs_proc_def dead_def)
qed simp

text \<open>A new process in slot \<open>np\<close>, with its parent.\<close>

definition spawned :: "nat \<Rightarrow> nat \<Rightarrow> kst \<Rightarrow> kst \<Rightarrow> bool" where
  "spawned q np s s' \<longleftrightarrow> np < NPROC \<and> p_state (procs s np) = UNUSED \<and> initproc s' = initproc s \<and> nextpid s' = nextpid s + 1 \<and>
     (\<forall>r. r \<noteq> np \<longrightarrow> tree_proc (procs s r) (procs s' r)) \<and> \<not> dead (procs s' np) \<and>
     p_pid (procs s' np) = nextpid s \<and> p_parent (procs s' np) = Some q"

text \<open>The state between \<open>allocproc\<close> and the end of \<open>fork\<close>: the new slot is in use and has no parent yet.\<close>

definition fresh :: "nat \<Rightarrow> kst \<Rightarrow> kst \<Rightarrow> bool" where
  "fresh np s t \<longleftrightarrow> np < NPROC \<and> p_state (procs s np) = UNUSED \<and> initproc t = initproc s \<and> nextpid t = nextpid s + 1 \<and>
     (\<forall>r. r \<noteq> np \<longrightarrow> procs t r = procs s r) \<and> p_state (procs t np) = USED \<and> p_pid (procs t np) = nextpid s \<and>
     (\<forall>q. p_parent (procs t np) = Some q \<longrightarrow> p_parent (procs s np) = Some q) \<and> p_infants (procs t np) \<subseteq>\<^sub>m p_infants (procs s np)"

lemma freshD:
  assumes "fresh np s t"
  shows "np < NPROC" "p_state (procs s np) = UNUSED" "initproc t = initproc s" "nextpid t = nextpid s + 1"
    "\<And>r. r \<noteq> np \<Longrightarrow> procs t r = procs s r" "p_state (procs t np) = USED" "p_pid (procs t np) = nextpid s"
  using assms by (simp_all add: fresh_def)

lemma map_le_Some: "m \<subseteq>\<^sub>m m' \<Longrightarrow> m i = Some t \<Longrightarrow> m' i = Some t"
  by (force simp: map_le_def)

lemma range_mono:
  assumes s: "procs_range s" and "initproc t = initproc s"
    and i: "\<And>p i k. p_infants (procs t p) i = Some k \<Longrightarrow> p_infants (procs s p) i = Some k \<or> k < NPROC"
    and q: "\<And>p q. p_parent (procs t p) = Some q \<Longrightarrow> p_parent (procs s p) = Some q \<or> q < NPROC"
  shows "procs_range t"
  unfolding procs_range_def
proof (intro conjI allI impI)
  fix p i k
  assume "p < NPROC" "p_infants (procs t p) i = Some k"
  then show "k < NPROC" using i s unfolding procs_range_def by blast
next
  fix p q
  assume "p < NPROC" "p_parent (procs t p) = Some q"
  then show "q < NPROC" using q s unfolding procs_range_def by blast
next
  fix i
  assume "initproc t = Some i"
  then show "i < NPROC" using assms(2) s unfolding procs_range_def by simp
qed

lemma fresh_range: "fresh np s t \<Longrightarrow> procs_range s \<Longrightarrow> procs_range t"
proof (erule range_mono)
  fix p q i k
  assume f: "fresh np s t"
  show "p_infants (procs s p) i = Some k \<or> k < NPROC" if "p_infants (procs t p) i = Some k"
    using f that by (cases "p = np") (auto simp: fresh_def dest: map_le_Some)
  show "p_parent (procs s p) = Some q \<or> q < NPROC" if "p_parent (procs t p) = Some q"
    using f that by (cases "p = np") (auto simp: fresh_def)
qed (simp add: fresh_def)

lemma fresh_dead: "fresh np s t \<Longrightarrow> dead (procs t p) \<Longrightarrow> dead (procs s p)"
  by (cases "p = np") (simp_all add: fresh_def dead_def)

lemma allocproc_fresh:
  assumes a: "allocproc s = Inr (Some np, t)" and f: "files_in D s"
  shows "fresh np s t" "files_in D t" "closed (procs t np)"
proof -
  show fr: "fresh np s t" using a by (rule allocproc_cases) (auto simp: fresh_def)
  have t: "ftable t = ftable s" "\<And>p. p_ofile (procs t p) = p_ofile (procs s p)"
    using a by (auto elim: allocproc_cases)
  show "files_in D t"
    by (rule files_in_cong [OF f]) (use t fresh_dead [OF fr] fresh_range [OF fr files_inD(5) [OF f]] in auto)
  show "closed (procs t np)" using files_inD(4) [OF f, of np] fr t(2) [of np] by (simp add: fresh_def dead_def closed_def)
qed

lemma fresh_freed:
  assumes f: "fresh np s t" "files_in D t" "closed (procs t np)" and r: "freeproc np t = Inr s'"
  shows "files_in D s' \<and> tree_same s s'"
proof
  note s' = freeproc_shape [OF r]
  have "procs_range s'" by (rule range_mono [OF files_inD(5) [OF f(2)]]) (auto simp: s' split: if_splits)
  then show "files_in D s'" by (intro files_in_cong [OF f(2)]) (use s' f(3) in \<open>auto split: if_splits\<close>)
  have "tree_proc (procs s r) (procs s' r)" for r by (cases "r = np") (simp_all add: freshD [OF f(1)] s' tree_proc_def)
  then show "tree_same s s'" by (simp add: freshD [OF f(1)] s' tree_same_def)
qed

section \<open>Copies of descriptors\<close>

definition only_fds :: "nat \<Rightarrow> kst \<Rightarrow> kst \<Rightarrow> bool" where
  "only_fds np s s' \<longleftrightarrow> initproc s' = initproc s \<and> nextpid s' = nextpid s \<and> (\<forall>r. r \<noteq> np \<longrightarrow> procs s' r = procs s r) \<and>
     (\<exists>w. procs s' np = (procs s np)\<lparr>p_ofile := w\<rparr>)"

lemma only_fds_refl: "only_fds np s s"
  unfolding only_fds_def by (intro conjI exI [of _ "p_ofile (procs s np)"]) simp_all

lemma only_fds_trans: "only_fds np s s' \<Longrightarrow> only_fds np s' s'' \<Longrightarrow> only_fds np s s''"
  by (auto simp: only_fds_def)

lemma dup_fds_ok:
  assumes "files_in D s" "p < NPROC" "np < NPROC" "p \<noteq> np" "\<not> dead (procs s np)" "distinct is" "set is \<subseteq> {..<NOFILE}"
    "\<forall>i \<in> set is. p_ofile (procs s np) i = None" "forE (dup_fd p np) is s = Inr s'"
  shows "files_in D s' \<and> only_fds np s s'"
  using assms
proof (induction "is" arbitrary: s)
  case Nil
  then show ?case by (simp add: only_fds_refl)
next
  case (Cons i "is")
  obtain s1 where 1: "dup_fd p np i s = Inr s1" "forE (dup_fd p np) is s1 = Inr s'" using Cons.prems by (auto simp: bindE_eq_Inr)
  have s1: "files_in D s1 \<and> only_fds np s s1 \<and> (\<forall>j. j \<noteq> i \<longrightarrow> p_ofile (procs s1 np) j = p_ofile (procs s np) j)"
  proof (cases "p_ofile (procs s p) i")
    case None
    then show ?thesis using 1(1) Cons.prems(1) by (simp add: dup_fd_def only_fds_refl)
  next
    case (Some f)
    define g :: "kfile \<Rightarrow> kfile" where "g = (\<lambda>x. x\<lparr>f_ref := f_ref x + 1\<rparr>)"
    have e: "s1 = set_fd np i (Some f) (upd_file f g s)"
      using 1(1) Some by (auto simp: dup_fd_def bindE_eq_Inr filedup_def set_fd_def g_def split: if_splits)
    have i: "i < NOFILE" using Cons.prems(7) by simp
    have "files_in (f # D) (upd_file f g s)"
      by (rule take_ref [OF Cons.prems(1) open_file_small(1) [OF Cons.prems(1,2) i Some]]) (simp add: g_def)
    then have "files_in D s1" unfolding e by (rule fill_fd) (use Cons.prems i in simp_all)
    then show ?thesis using e by (auto simp: only_fds_def)
  qed
  have "files_in D s' \<and> only_fds np s1 s'"
  proof (rule Cons.IH [OF _ Cons.prems(2-4) _ _ _ _ 1(2)])
    show "\<not> dead (procs s1 np)" using s1 Cons.prems(5) by (auto simp: only_fds_def dead_def)
    show "\<forall>j \<in> set is. p_ofile (procs s1 np) j = None" using s1 Cons.prems(6,8) by auto
  qed (use s1 Cons.prems in simp_all)
  then show ?case using s1 only_fds_trans by blast
qed

section \<open>Fork and create\_thread\<close>

lemma upd_tf_simps [simp]:
  "procs (upd_tf p g s) = procs s" "ftable (upd_tf p g s) = ftable s" "initproc (upd_tf p g s) = initproc s" "nextpid (upd_tf p g s) = nextpid s"
  by (simp_all add: upd_tf_def Let_def)

lemma fresh_more:
  assumes "fresh np s t" "initproc t' = initproc t" "nextpid t' = nextpid t" "\<And>r. r \<noteq> np \<Longrightarrow> procs t' r = procs t r"
    "p_state (procs t' np) = p_state (procs t np)" "p_pid (procs t' np) = p_pid (procs t np)"
    "p_parent (procs t' np) = p_parent (procs t np)" "p_infants (procs t' np) = p_infants (procs t np)"
  shows "fresh np s t'"
  using assms unfolding fresh_def by presburger

text \<open>The memory of the new process: its size and its trap frame.\<close>

lemma fresh_memory:
  assumes "fresh np s t" "files_in D t" "closed (procs t np)"
  shows "fresh np s (upd_tf np g (upd_proc np (\<lambda>x. x\<lparr>p_sz := z\<rparr>) (t\<lparr>umem_pool := P\<rparr>)))"
    "files_in D (upd_tf np g (upd_proc np (\<lambda>x. x\<lparr>p_sz := z\<rparr>) (t\<lparr>umem_pool := P\<rparr>)))"
    "closed (procs (upd_tf np g (upd_proc np (\<lambda>x. x\<lparr>p_sz := z\<rparr>) (t\<lparr>umem_pool := P\<rparr>))) np)"
    "fresh np s (t\<lparr>umem_pool := P\<rparr>)" "files_in D (t\<lparr>umem_pool := P\<rparr>)" "closed (procs (t\<lparr>umem_pool := P\<rparr>) np)"
proof -
  show 1: "fresh np s (t\<lparr>umem_pool := P\<rparr>)" by (rule fresh_more [OF assms(1)]) simp_all
  show 2: "files_in D (t\<lparr>umem_pool := P\<rparr>)" by (rule files_in_undisturbed [OF undisturbed_pool(1) assms(2)])
  show 3: "closed (procs (t\<lparr>umem_pool := P\<rparr>) np)" using assms(3) by simp
  let ?t = "upd_proc np (\<lambda>x. x\<lparr>p_sz := z\<rparr>) (t\<lparr>umem_pool := P\<rparr>)"
  have "undisturbed (t\<lparr>umem_pool := P\<rparr>) ?t" by (rule undisturbed_upd_proc) simp_all
  moreover have "undisturbed ?t (upd_tf np g ?t)" by (rule same_ktables) simp_all
  ultimately show "files_in D (upd_tf np g ?t)" using files_in_undisturbed 2 by blast
  show "fresh np s (upd_tf np g ?t)" by (rule fresh_more [OF 1]) simp_all
  show "closed (procs (upd_tf np g ?t) np)" using assms(3) by (simp add: closed_def)
qed

lemma fresh_dup:
  assumes f: "fresh np s t" "files_in D t" "closed (procs t np)" and p: "p < NPROC" "p \<noteq> np"
    and r: "forE (dup_fd p np) [0..<NOFILE] t = Inr t1" "dup_cwd p np t1 = Inr t2"
  shows "fresh np s t2" "files_in D t2"
proof -
  have "\<not> dead (procs t np)" using freshD(6) [OF f(1)] by (simp add: dead_def)
  with f p r(1) freshD(1) [OF f(1)] have d: "files_in D t1 \<and> only_fds np t t1" by (intro dup_fds_ok) (auto simp: closed_def)
  have 1: "fresh np s t1" by (rule fresh_more [OF f(1)]) (use d in \<open>auto simp: only_fds_def\<close>)
  obtain c where c: "t2 = upd_proc np (\<lambda>x. x\<lparr>p_cwd := Some c\<rparr>) (idup c t1)"
    using r(2) by (auto simp: dup_cwd_def split: option.splits)
  show "fresh np s t2" by (rule fresh_more [OF 1]) (simp_all add: c idup_def)
  have "undisturbed t1 (idup c t1)" by (rule undisturbed_frame) simp
  moreover have "undisturbed (idup c t1) t2" unfolding c by (rule undisturbed_upd_proc) simp_all
  ultimately show "files_in D t2" using d files_in_undisturbed by blast
qed

text \<open>The last assignments to the new process.\<close>

lemma fresh_spawned:
  assumes f: "fresh np s t" "files_in D t" and q: "q < NPROC"
    and h: "p_ofile (h (procs t np)) = p_ofile (procs t np)" "p_infants (h (procs t np)) = p_infants (procs t np)"
      "p_pid (h (procs t np)) = p_pid (procs t np)" "p_parent (h (procs t np)) = Some q" "p_state (h (procs t np)) = RUNNABLE"
  shows "files_in D (upd_proc np h t)" "spawned q np s (upd_proc np h t)"
proof -
  have "procs_range (upd_proc np h t)" by (rule range_mono [OF files_inD(5) [OF f(2)]]) (use h q in \<open>auto split: if_splits\<close>)
  then show "files_in D (upd_proc np h t)" by (intro files_in_cong [OF f(2)]) (use h in \<open>auto simp: dead_def split: if_splits\<close>)
  show "spawned q np s (upd_proc np h t)" using h by (simp add: spawned_def freshD [OF f(1)] dead_def)
qed

lemma fork_ok:
  assumes i: "files_in D s" "p < NPROC" "\<not> dead (procs s p)" and r: "fork p s = Inr (r, s')"
  shows "files_in D s' \<and> (tree_same s s' \<or> (\<exists>np. spawned p np s s'))"
proof -
  obtain v t where a: "allocproc s = Inr (v, t)" using r by (auto simp: fork_def bindE_eq_Inr)
  show ?thesis
  proof (cases v)
    case None
    then have "undisturbed s s'" using r a allocproc_None [of s t] by (simp add: fork_def)
    then show ?thesis using files_in_undisturbed i(1) undisturbed_tree by blast
  next
    case (Some np)
    note f = allocproc_fresh [OF a [unfolded Some] i(1)]
    have n: "p \<noteq> np" using freshD(2) [OF f(1)] i(3) by (auto simp: dead_def)
    obtain k P where u: "uvmcopy (umem_pool t) (p_pagetable (procs t p)) (p_pagetable (procs t np)) (p_sz (procs t p)) = Inr (k, P)"
      using r a Some by (auto simp: fork_def bindE_eq_Inr)
    show ?thesis
    proof (cases "k < 0")
      case True
      then have "freeproc np (t\<lparr>umem_pool := P\<rparr>) = Inr s'" using r a Some u by (auto simp: fork_def bindE_eq_Inr)
      from fresh_freed [OF fresh_memory(4-6) [OF f] this] show ?thesis by blast
    next
      case False
      then obtain g t1 t2 where 1: "forE (dup_fd p np) [0..<NOFILE] (upd_tf np g (upd_proc np (\<lambda>x. x\<lparr>p_sz := p_sz (procs t p)\<rparr>) (t\<lparr>umem_pool := P\<rparr>))) = Inr t1"
        "dup_cwd p np t1 = Inr t2"
        "s' = upd_proc np (\<lambda>x. x\<lparr>p_name := take 15 (p_name (procs t2 p)), p_parent := Some p, p_state := RUNNABLE, p_is_thread := False\<rparr>) t2"
        using r a Some u by (auto simp: fork_def Let_def bindE_eq_Inr)
      note d = fresh_dup [OF fresh_memory(1-3) [OF f] i(2) n 1(1,2)]
      have "files_in D s'" "spawned p np s s'" unfolding 1(3) by (rule fresh_spawned [OF d i(2)]; simp)+
      then show ?thesis by blast
    qed
  qed
qed

text \<open>The process that \<open>create_thread\<close> makes the parent of the new one.\<close>

definition owner_of :: "nat \<Rightarrow> nat \<Rightarrow> nat \<Rightarrow> kst \<Rightarrow> bool" where
  "owner_of p np q s \<longleftrightarrow> q = p \<or> (\<exists>m. p_parent (procs s p) = Some m \<and> (m = np \<or> p_parent (procs s m) = Some q))"

lemma create_thread_ok:
  assumes i: "files_in D s" "p < NPROC" "\<not> dead (procs s p)" and r: "create_thread p fna arg stk exf s = Inr (r, s')"
  shows "files_in D s' \<and> (tree_same s s' \<or> (\<exists>np q. owner_of p np q s \<and> spawned q np s s'))"
proof -
  obtain v t where a: "allocproc s = Inr (v, t)" using r by (auto simp: create_thread_def Let_def bindE_eq_Inr)
  show ?thesis
  proof (cases v)
    case None
    then have "undisturbed s s'" using r a allocproc_None [of s t] by (simp add: create_thread_def Let_def)
    then show ?thesis using files_in_undisturbed i(1) undisturbed_tree by blast
  next
    case (Some np)
    note f = allocproc_fresh [OF a [unfolded Some] i(1)]
    have n: "p \<noteq> np" using freshD(2) [OF f(1)] i(3) by (auto simp: dead_def)
    obtain k P where u: "uvmshare (umem_pool t) (p_pagetable (procs t p)) (p_pagetable (procs t np)) (p_sz (procs t p)) = Inr (k, P)"
      using r a Some by (auto simp: create_thread_def Let_def bindE_eq_Inr)
    show ?thesis
    proof (cases "k < 0")
      case True
      then have "freeproc np (t\<lparr>umem_pool := P\<rparr>) = Inr s'" using r a Some u by (auto simp: create_thread_def Let_def bindE_eq_Inr)
      from fresh_freed [OF fresh_memory(4-6) [OF f] this] show ?thesis by blast
    next
      case False
      then obtain g t1 t2 q j where 1: "forE (dup_fd p np) [0..<NOFILE] (upd_tf np g (upd_proc np (\<lambda>x. x\<lparr>p_sz := p_sz (procs t p)\<rparr>) (t\<lparr>umem_pool := P\<rparr>))) = Inr t1"
        "dup_cwd p np t1 = Inr t2" "thread_owner p t2 = Inr (Some q)"
        "s' = upd_proc q (\<lambda>x. x\<lparr>p_infants := (p_infants x)(j := Some np)\<rparr>) (upd_proc np (\<lambda>x. x\<lparr>p_parent := Some q, p_is_thread := True, p_state := RUNNABLE\<rparr>) t2)"
        using r a Some u by (auto simp: create_thread_def Let_def bindE_eq_Inr split: option.splits)
      note d = fresh_dup [OF fresh_memory(1-3) [OF f] i(2) n 1(1,2)]
      have o: "owner_of p np q s" using 1(3) freshD(5) [OF d(1) n] freshD(5) [OF d(1)] unfolding owner_of_def
        by (cases "the (p_parent (procs s p)) = np") (auto simp: thread_owner_def split: if_splits option.splits)
      have q: "q < NPROC"
      proof (cases "p_is_thread (procs t2 p)")
        case True
        then obtain m where m: "p_parent (procs t2 p) = Some m" "p_parent (procs t2 m) = Some q"
          using 1(3) by (auto simp: thread_owner_def split: option.splits)
        then have "m < NPROC" using files_inD(5) [OF d(2)] i(2) unfolding procs_range_def by blast
        then show ?thesis using files_inD(5) [OF d(2)] m(2) unfolding procs_range_def by blast
      qed (use 1(3) i(2) in \<open>simp add: thread_owner_def\<close>)
      define t3 where "t3 = upd_proc np (\<lambda>x. x\<lparr>p_parent := Some q, p_is_thread := True, p_state := RUNNABLE\<rparr>) t2"
      have t3: "files_in D t3" "spawned q np s t3" unfolding t3_def by (rule fresh_spawned [OF d q]; simp)+
      have s': "s' = upd_proc q (\<lambda>x. x\<lparr>p_infants := (p_infants x)(j := Some np)\<rparr>) t3" by (simp add: 1(4) t3_def)
      have "procs_range s'" by (rule range_mono [OF files_inD(5) [OF t3(1)]]) (use freshD(1) [OF f(1)] in \<open>auto simp: s' split: if_splits\<close>)
      then have "files_in D s'" by (intro files_in_cong [OF t3(1)]) (auto simp: s' dead_def split: if_splits)
      moreover have "spawned q np s s'" using t3(2) by (auto simp: spawned_def s' tree_proc_def dead_def)
      ultimately show ?thesis using o by blast
    qed
  qed
qed

section \<open>Exit\<close>

lemma close_fd_ok:
  assumes i: "files_in D s" "q < NPROC" "fd < NOFILE" and r: "close_fd me q fd s = Inr s'"
  shows "files_in D s'" "tree_same s s'" "p_ofile (procs s' q) = (p_ofile (procs s q))(fd := None)"
proof -
  have "files_in D s' \<and> tree_same s s' \<and> p_ofile (procs s' q) = (p_ofile (procs s q))(fd := None)"
  proof (cases "p_ofile (procs s q) fd")
    case None
    then show ?thesis using r i(1) by (simp add: close_fd_def fun_upd_idem)
  next
    case (Some f)
    define g :: "kfile \<Rightarrow> kfile" where "g = (\<lambda>x. x\<lparr>f_ref := f_ref x - 1\<rparr>)"
    obtain s1 where 1: "fileclose me f s = Inr s1" "s' = set_fd q fd None s1"
      using r Some by (auto simp: close_fd_def bindE_eq_Inr set_fd_def)
    note u = fileclose_shape(2) [OF 1(1), folded g_def]
    have "files_in D (upd_file f g (set_fd q fd None s))" by (rule drop_ref [OF clear_fd [OF i Some]]) (simp add: g_def)
    then have "files_in D s'" unfolding 1(2) dup_commute by (rule files_in_undisturbed [OF set_fd_undisturbed [OF u]])
    moreover have "tree_same s s'" unfolding 1(2) by (rule tree_same_trans [OF fileclose_tree [OF 1(1)] set_fd_tree])
    moreover have "p_ofile (procs s1 q) = p_ofile (procs s q)" using u by (simp add: undisturbed_def refs_same_def refs_proc_def)
    ultimately show ?thesis by (simp add: 1(2))
  qed
  then show "files_in D s'" "tree_same s s'" "p_ofile (procs s' q) = (p_ofile (procs s q))(fd := None)" by blast+
qed

lemma close_fds_ok:
  assumes "files_in D s" "q < NPROC" "set fds \<subseteq> {..<NOFILE}" "forE (close_fd me q) fds s = Inr s'"
  shows "files_in D s' \<and> tree_same s s' \<and> (\<forall>fd. fd \<in> set fds \<or> p_ofile (procs s q) fd = None \<longrightarrow> p_ofile (procs s' q) fd = None)"
  using assms
proof (induction fds arbitrary: s)
  case (Cons fd fds)
  obtain s1 where 1: "close_fd me q fd s = Inr s1" "forE (close_fd me q) fds s1 = Inr s'" using Cons.prems(4) by (auto simp: bindE_eq_Inr)
  have fd: "fd < NOFILE" "set fds \<subseteq> {..<NOFILE}" using Cons.prems(3) by auto
  note c = close_fd_ok [OF Cons.prems(1,2) fd(1) 1(1)]
  show ?case using Cons.IH [OF c(1) Cons.prems(2) fd(2) 1(2)] tree_same_trans [OF c(2)] by (auto simp: c(3))
qed simp

lemma put_cwd_undisturbed: "put_cwd q s = Inr s' \<Longrightarrow> undisturbed s s'"
proof -
  assume "put_cwd q s = Inr s'"
  then obtain t where t: "beyond t = beyond s" "s' = upd_proc q (\<lambda>x. x\<lparr>p_cwd := None\<rparr>) t"
    by (auto simp: put_cwd_def bindE_eq_Inr split: option.splits dest!: op_frame iput_frame)
  have "undisturbed t s'" unfolding t(2) by (rule undisturbed_upd_proc) simp_all
  then show ?thesis by (rule undisturbed_trans [OF undisturbed_frame [OF t(1)]])
qed

text \<open>\<open>reparent\<close> hands the children of \<open>p\<close> to the first process.\<close>

definition adopted :: "nat \<Rightarrow> nat set \<Rightarrow> kst \<Rightarrow> kst \<Rightarrow> bool" where
  "adopted p Q s s' \<longleftrightarrow> ftable s' = ftable s \<and> initproc s' = initproc s \<and> nextpid s' = nextpid s \<and>
     (\<forall>q. p_ofile (procs s' q) = p_ofile (procs s q) \<and> p_infants (procs s' q) = p_infants (procs s q) \<and>
          p_pid (procs s' q) = p_pid (procs s q) \<and> (p_state (procs s' q) = UNUSED \<longleftrightarrow> p_state (procs s q) = UNUSED) \<and>
          (p_state (procs s' q) = ZOMBIE \<longleftrightarrow> p_state (procs s q) = ZOMBIE) \<and>
          p_parent (procs s' q) = (if q \<in> Q \<and> p_parent (procs s q) = Some p then initproc s else p_parent (procs s q)))"

lemma wakeup_simps [simp]:
  "ftable (wakeup me c s) = ftable s" "initproc (wakeup me c s) = initproc s" "nextpid (wakeup me c s) = nextpid s"
  "p_ofile (procs (wakeup me c s) q) = p_ofile (procs s q)" "p_infants (procs (wakeup me c s) q) = p_infants (procs s q)"
  "p_pid (procs (wakeup me c s) q) = p_pid (procs s q)" "p_parent (procs (wakeup me c s) q) = p_parent (procs s q)"
  "p_state (procs (wakeup me c s) q) = UNUSED \<longleftrightarrow> p_state (procs s q) = UNUSED"
  "p_state (procs (wakeup me c s) q) = ZOMBIE \<longleftrightarrow> p_state (procs s q) = ZOMBIE"
  by (simp_all add: wakeup_def)

lemma adopted_wakeup: "adopted p Q s s' \<Longrightarrow> adopted p Q s (wakeup me c s')"
  by (simp add: adopted_def)

lemma reparent_one_adopted: "adopted p {q} s (reparent_one p q s)"
proof (cases "p_parent (procs s q) = Some p")
  case True
  have "adopted p {q} s (upd_proc q (\<lambda>x. x\<lparr>p_parent := initproc s\<rparr>) s)" using True by (simp add: adopted_def)
  then show ?thesis using True adopted_wakeup by (cases "initproc s") (simp_all add: reparent_one_def Let_def)
qed (simp add: reparent_one_def adopted_def)

lemma adopted_trans: "adopted p Q s s' \<Longrightarrow> adopted p R s' s'' \<Longrightarrow> adopted p (Q \<union> R) s s''"
  unfolding adopted_def by auto

lemma reparent_adopted: "adopted p {..<NPROC} s (reparent p s)"
proof -
  have "adopted p (set L) s (fold (reparent_one p) L s)" for L
  proof (induction L arbitrary: s)
    case (Cons q L)
    show ?case using adopted_trans [OF reparent_one_adopted [of p q s] Cons.IH] by simp
  qed (simp add: adopted_def)
  from this [of "[0..<NPROC]"] show ?thesis by (simp add: reparent_def atLeast_upt [symmetric] lessThan_atLeast0)
qed

lemma adopted_files:
  assumes a: "adopted p Q s s'" and f: "files_in D s"
  shows "files_in D s'"
proof (rule files_in_cong [OF f])
  have "q < NPROC" if "initproc s = Some q" for q using files_inD(5) [OF f] that unfolding procs_range_def by blast
  then show "procs_range s'" by (intro range_mono [OF files_inD(5) [OF f]]) (use a in \<open>auto simp: adopted_def split: if_splits\<close>)
qed (use a in \<open>auto simp: adopted_def dead_def\<close>)

text \<open>What the end of a process does to the tree.\<close>

definition exited :: "nat \<Rightarrow> kst \<Rightarrow> kst \<Rightarrow> bool" where
  "exited p s s' \<longleftrightarrow> initproc s \<noteq> Some p \<and> initproc s' = initproc s \<and> nextpid s \<le> nextpid s' \<and>
     (\<forall>q. (p_state (procs s' q) = UNUSED \<longleftrightarrow> p_state (procs s q) = UNUSED) \<and>
          (p_state (procs s' q) = ZOMBIE \<longleftrightarrow> q = p \<or> p_state (procs s q) = ZOMBIE) \<and>
          (p_state (procs s q) \<noteq> UNUSED \<longrightarrow> p_pid (procs s' q) = p_pid (procs s q) \<and>
             p_parent (procs s' q) = (if q < NPROC \<and> p_parent (procs s q) = Some p then initproc s else p_parent (procs s q))))"

lemma zombie_files:
  assumes "files_in D s" "closed (procs s p)"
  shows "files_in D (upd_proc p (\<lambda>x. x\<lparr>p_xstate := v, p_state := ZOMBIE\<rparr>) s)"
proof (rule files_in_cong [OF assms(1)])
  show "procs_range (upd_proc p (\<lambda>x. x\<lparr>p_xstate := v, p_state := ZOMBIE\<rparr>) s)"
    by (rule range_mono [OF files_inD(5) [OF assms(1)]]) (auto split: if_splits)
qed (use assms(2) in \<open>auto split: if_splits\<close>)

lemma thread_exit_ok:
  assumes i: "files_in D s" "p < NPROC" and r: "thread_exit v p s = Inr s'"
  shows "files_in D s'" "p_state (procs s p) \<noteq> UNUSED \<Longrightarrow> exited p s s'"
proof -
  have n: "initproc s \<noteq> Some p" using r by (auto simp: thread_exit_def split: if_splits)
  obtain s1 s2 where 1: "forE (close_fd p p) [0..<NOFILE] s = Inr s1" "put_cwd p s1 = Inr s2"
    using r n by (auto simp: thread_exit_def bindE_eq_Inr)
  have c: "files_in D s1 \<and> tree_same s s1 \<and> (\<forall>fd. fd \<in> set [0..<NOFILE] \<or> p_ofile (procs s p) fd = None \<longrightarrow> p_ofile (procs s1 p) fd = None)"
    by (rule close_fds_ok [OF i _ 1(1)]) auto
  note u = put_cwd_undisturbed [OF 1(2)]
  define s3 where "s3 = reparent p s2"
  define s4 where "s4 = (case p_parent (procs s3 p) of None \<Rightarrow> s3 | Some q \<Rightarrow> wakeup p (ProcChan q) s3)"
  have s': "s' = upd_proc p (\<lambda>x. x\<lparr>p_xstate := v, p_state := ZOMBIE\<rparr>) s4"
    using r n 1 unfolding s4_def s3_def by (auto simp: thread_exit_def Let_def)
  have a: "adopted p {..<NPROC} s2 s4" using reparent_adopted adopted_wakeup by (simp add: s4_def s3_def split: option.split)
  have f2: "files_in D s2" using files_in_undisturbed [OF u] c by blast
  have "p_ofile (procs s2 p) = p_ofile (procs s1 p)" using u by (simp add: undisturbed_def refs_same_def refs_proc_def)
  then have "closed (procs s4 p)" using c a by (simp add: closed_def adopted_def)
  then show "files_in D s'" unfolding s' by (rule zombie_files [OF adopted_files [OF a f2]])
  have t: "tree_same s s2" using c undisturbed_tree [OF u] tree_same_trans by blast
  assume l: "p_state (procs s p) \<noteq> UNUSED"
  show "exited p s s'" using n l t a by (auto simp: exited_def s' tree_same_def tree_proc_def adopted_def)
qed

lemma exit_infants_ok:
  assumes "files_in D s" "q < NPROC" "forE (exit_infant v me q) is s = Inr s'"
  shows "files_in D s'"
  using assms
proof (induction "is" arbitrary: s)
  case (Cons i "is")
  obtain s1 where 1: "exit_infant v me q i s = Inr s1" "forE (exit_infant v me q) is s1 = Inr s'" using Cons.prems(3) by (auto simp: bindE_eq_Inr)
  have "files_in D s1"
  proof (cases "p_infants (procs s q) i")
    case None
    then show ?thesis using 1(1) Cons.prems(1) by (simp add: exit_infant_def)
  next
    case (Some t)
    have t: "t < NPROC" using files_inD(5) [OF Cons.prems(1)] Cons.prems(2) Some unfolding procs_range_def by blast
    obtain s2 s3 where 2: "forE (close_fd me t) [0..<NOFILE] s = Inr s2" "put_cwd t s2 = Inr s3"
      "s1 = upd_proc t (\<lambda>x. x\<lparr>p_xstate := v, p_state := ZOMBIE\<rparr>) s3"
      using 1(1) Some by (auto simp: exit_infant_def bindE_eq_Inr)
    have c: "files_in D s2 \<and> tree_same s s2 \<and> (\<forall>fd. fd \<in> set [0..<NOFILE] \<or> p_ofile (procs s t) fd = None \<longrightarrow> p_ofile (procs s2 t) fd = None)"
      by (rule close_fds_ok [OF Cons.prems(1) t _ 2(1)]) auto
    note u = put_cwd_undisturbed [OF 2(2)]
    have "p_ofile (procs s3 t) = p_ofile (procs s2 t)" using u by (simp add: undisturbed_def refs_same_def refs_proc_def)
    then have "closed (procs s3 t)" using c by (simp add: closed_def)
    then show ?thesis unfolding 2(3) using files_in_undisturbed [OF u] c zombie_files by blast
  qed
  then show ?case using Cons.IH Cons.prems(2) 1(2) by blast
qed simp

lemma exit_ok:
  assumes i: "files_in D s" "p < NPROC" and r: "exit v p s = Inr s'"
  shows "files_in D s'" "\<not> p_is_thread (procs s p) \<Longrightarrow> p_state (procs s p) \<noteq> UNUSED \<Longrightarrow> exited p s s'"
proof -
  have e: "\<not> p_is_thread (procs s p) \<Longrightarrow> thread_exit v p s = Inr s'" using r by (simp add: exit_def)
  show "files_in D s'"
  proof (cases "p_is_thread (procs s p)")
    case False
    then show ?thesis using thread_exit_ok(1) [OF i] e by blast
  next
    case True
    then obtain q s1 where q: "p_parent (procs s p) = Some q" "forE (exit_infant v p q) [0..<MAX_THREADS] s = Inr s1" "thread_exit v p s1 = Inr s'"
      using r by (auto simp: exit_def bindE_eq_Inr split: option.splits)
    have "q < NPROC" using files_inD(5) [OF i(1)] i(2) q(1) unfolding procs_range_def by blast
    then have "files_in D s1" by (rule exit_infants_ok [OF i(1) _ q(2)])
    then show ?thesis by (rule thread_exit_ok(1) [OF _ i(2) q(3)])
  qed
  assume "\<not> p_is_thread (procs s p)" "p_state (procs s p) \<noteq> UNUSED"
  then show "exited p s s'" using thread_exit_ok(2) [OF i] e by blast
qed

end
