(* ===== verification/Syscalls.thy ===== *)
theory Syscalls
  imports ProcInv FsData
begin

text \<open>
  The kernel as a whole: the system calls of all processes, the scheduler and the wake-ups by
  interrupts, one after the other in any order, and what they keep true. Calls that fault or
  sleep have no successor state here, apart from the sleeps in \<open>wait\<close> and \<open>join_thread\<close>.
\<close>

section \<open>Waiting, memory and the remaining calls\<close>

definition reaped :: "nat \<Rightarrow> kst \<Rightarrow> kst \<Rightarrow> bool" where
  "reaped q s s' \<longleftrightarrow> p_state (procs s q) = ZOMBIE \<and> initproc s' = initproc s \<and> nextpid s \<le> nextpid s' \<and>
     (\<forall>r. r \<noteq> q \<longrightarrow> tree_proc (procs s r) (procs s' r)) \<and> p_state (procs s' q) = UNUSED"

lemma wait_ok:
  assumes i: "files_in D s" "\<not> dead (procs s p)" and r: "wait p a s = Inr (r, s')"
  shows "files_in D s' \<and> (tree_same s s' \<or> (\<exists>q. reaped q s s'))"
proof (cases "find (\<lambda>q. p_parent (procs s q) = Some p \<and> p_state (procs s q) = ZOMBIE) [0..<NPROC]")
  case None
  then have "s' = s \<or> s' = upd_proc p (\<lambda>x. x\<lparr>p_chan := Some (ProcChan p), p_state := SLEEPING\<rparr>) s"
    using r by (auto simp: wait_def split: if_splits)
  moreover have "undisturbed s (upd_proc p (\<lambda>x. x\<lparr>p_chan := Some (ProcChan p), p_state := SLEEPING\<rparr>) s)"
    by (rule undisturbed_upd_proc) (use i(2) in \<open>simp_all add: dead_def\<close>)
  ultimately have "undisturbed s s'" by auto
  then show ?thesis using files_in_undisturbed i(1) undisturbed_tree by blast
next
  case (Some q)
  have q: "q < NPROC" "p_state (procs s q) = ZOMBIE" using Some by (auto simp: find_Some_iff)
  obtain P where P: "s' = s\<lparr>umem_pool := P\<rparr> \<or> freeproc q (s\<lparr>umem_pool := P\<rparr>) = Inr s'"
  proof (cases "a = 0")
    case True
    then show ?thesis using r Some that [of "umem_pool s"] by (auto simp: wait_def Let_def bindE_eq_Inr)
  next
    case False
    then show ?thesis using r Some that by (auto simp: wait_def Let_def case_prod_beta bindE_eq_Inr split: if_splits)
  qed
  define t where "t = s\<lparr>umem_pool := P\<rparr>"
  have u: "undisturbed s t" unfolding t_def by (rule undisturbed_pool)
  note f = files_in_undisturbed [OF u i(1)]
  show ?thesis using P unfolding t_def [symmetric]
  proof
    assume "s' = t"
    then show ?thesis using f undisturbed_tree [OF u] by blast
  next
    assume "freeproc q t = Inr s'"
    note s' = freeproc_shape [OF this]
    have "closed (procs t q)" using files_inD(4) [OF f q(1)] q(2) by (simp add: t_def dead_def)
    moreover have "procs_range s'" by (rule range_mono [OF files_inD(5) [OF f]]) (auto simp: s' split: if_splits)
    ultimately have "files_in D s'" by (intro files_in_cong [OF f]) (auto simp: s' split: if_splits)
    moreover have "reaped q s s'" using q(2) by (simp add: reaped_def s' t_def)
    ultimately show ?thesis by blast
  qed
qed

lemma join_thread_undisturbed:
  assumes l: "\<not> dead (procs s me)" and r: "join_thread me tid a s = Inr (r, s')"
  shows "undisturbed s s'"
proof -
  obtain p where p: "(if p_is_thread (procs s me) then p_parent (procs s me) else Some me) = Some p"
    using r unfolding join_thread_def by (cases "if p_is_thread (procs s me) then p_parent (procs s me) else Some me") auto
  define v where "v = find (\<lambda>i. case p_infants (procs s p) i of None \<Rightarrow> False | Some t \<Rightarrow> tid = of_int (p_pid (procs s t))) [0..<MAX_THREADS]"
  show ?thesis
  proof (cases v)
    case None
    then show ?thesis using r p by (simp add: join_thread_def v_def)
  next
    case (Some i)
    define t where "t = the (p_infants (procs s p) i)"
    obtain k P where k: "(if a \<noteq> 0 then copyout (umem_pool s) (p_pagetable (procs s p)) a (xstate_bytes (p_xstate (procs s t))) else (0, umem_pool s)) = (k, P)"
      by fastforce
    have run: "(if p_state (procs s t) = ZOMBIE then
        if k < 0 then Inr (Some (- 1), s\<lparr>umem_pool := P\<rparr>)
        else Inr (Some (uint tid), upd_proc p (\<lambda>x. x\<lparr>p_infants := (p_infants x)(i := None)\<rparr>) (s\<lparr>umem_pool := P\<rparr>))
      else if p_killed (procs s p) then Inr (Some (- 1), s)
      else Inr (None, upd_proc me (\<lambda>x. x\<lparr>p_chan := Some (ProcChan p), p_state := SLEEPING\<rparr>) s)) = (Inr (r, s') :: fault + _)"
      using r unfolding join_thread_def p option.case v_def [symmetric] Some Let_def t_def [symmetric] k prod.case .
    have "undisturbed s (upd_proc p (\<lambda>x. x\<lparr>p_infants := (p_infants x)(i := None)\<rparr>) (s\<lparr>umem_pool := P\<rparr>))"
      by (rule undisturbed_trans [OF undisturbed_pool(1) undisturbed_upd_proc]) (auto simp: map_le_def)
    moreover have "undisturbed s (upd_proc me (\<lambda>x. x\<lparr>p_chan := Some (ProcChan p), p_state := SLEEPING\<rparr>) s)"
      by (rule undisturbed_upd_proc) (use l in \<open>simp_all add: dead_def\<close>)
    ultimately show ?thesis using run undisturbed_pool(1) by (auto split: if_splits)
  qed
qed

lemma undisturbed_size: "undisturbed s (upd_proc t (\<lambda>x. x\<lparr>p_sz := z\<rparr>) (s\<lparr>umem_pool := P\<rparr>))"
  by (rule undisturbed_trans [OF undisturbed_pool(1) undisturbed_upd_proc]) simp_all

lemma thread_maps_undisturbed: "thread_maps q a oldsz m newsz perm is s = Inr (r, s') \<Longrightarrow> undisturbed s s'"
proof (induction "is" arbitrary: s)
  case (Cons i "is")
  show ?case
  proof (cases "p_infants (procs s q) i")
    case None
    then show ?thesis using Cons by simp
  next
    case (Some t)
    obtain k P where k: "mappages (umem_pool s) (p_pagetable (procs s t)) a PGSIZE m perm = Inr (k, P)"
      using Cons.prems Some by (auto simp: bindE_eq_Inr)
    show ?thesis
    proof (cases "k = 0")
      case True
      then have "thread_maps q a oldsz m newsz perm is (upd_proc t (\<lambda>x. x\<lparr>p_sz := newsz\<rparr>) (s\<lparr>umem_pool := P\<rparr>)) = Inr (r, s')"
        using Cons.prems Some k by simp
      from Cons.IH [OF this] show ?thesis by (rule undisturbed_trans [OF undisturbed_size])
    next
      case False
      then have "\<exists>P. s' = s\<lparr>umem_pool := P\<rparr>" using Cons.prems Some k by (auto simp: bindE_eq_Inr)
      then show ?thesis using undisturbed_pool by auto
    qed
  qed
qed simp

lemma threaded_alloc_loop_undisturbed:
  "threaded_alloc_loop t q a oldsz newsz xperm s = Inr (r, s') \<Longrightarrow> undisturbed s s'"
proof (induction "unat MAXVA + 8192 - unat a" arbitrary: a s rule: less_induct)
  case less
  show ?case
  proof (cases "a \<ge> newsz")
    case True
    then show ?thesis using less.prems by (simp add: threaded_alloc_loop.simps [of t q a])
  next
    case False
    obtain m P where m: "pool_kalloc (umem_pool s) = (m, P)" by fastforce
    show ?thesis
    proof (cases "m = 0")
      case True
      then have "\<exists>P. s' = s\<lparr>umem_pool := P\<rparr>" using less.prems False m
        by (auto simp: threaded_alloc_loop.simps [of t q a] bindE_eq_Inr)
      then show ?thesis using undisturbed_pool by auto
    next
      case m0: False
      obtain ok s1 where 1: "thread_maps q a oldsz m newsz (PTE_R OR PTE_U OR xperm) [0..<MAX_THREADS] (s\<lparr>umem_pool := zero_page P m\<rparr>) = Inr (ok, s1)"
        using less.prems False m m0 by (auto simp: threaded_alloc_loop.simps [of t q a] split: sum.splits prod.splits)
      have u1: "undisturbed s s1" by (rule undisturbed_trans [OF undisturbed_pool(1) thread_maps_undisturbed [OF 1]])
      show ?thesis
      proof (cases ok)
        case False
        then show ?thesis using less.prems \<open>\<not> a \<ge> newsz\<close> m m0 1 u1 by (simp add: threaded_alloc_loop.simps [of t q a])
      next
        case True
        obtain k P2 where k: "mappages (umem_pool s1) (p_pagetable (procs s1 q)) a PGSIZE m (PTE_R OR PTE_U OR xperm) = Inr (k, P2)"
          using less.prems \<open>\<not> a \<ge> newsz\<close> m m0 1 True by (auto simp: threaded_alloc_loop.simps [of t q a] split: sum.splits prod.splits)
        have "undisturbed s1 s'"
        proof (cases "k = 0")
          case True
          have l: "threaded_alloc_loop t q (a + PGSIZE) oldsz newsz xperm (upd_proc q (\<lambda>x. x\<lparr>p_sz := newsz\<rparr>) (s1\<lparr>umem_pool := P2\<rparr>)) = Inr (r, s')"
            using less.prems \<open>\<not> a \<ge> newsz\<close> m m0 1 \<open>ok\<close> k True by (simp add: threaded_alloc_loop.simps [of t q a])
          have "unat MAXVA + 8192 - unat (a + PGSIZE) < unat MAXVA + 8192 - unat a"
            using mappages_below_MAXVA k True by fastforce
          from less.hyps [OF this l] show ?thesis by (rule undisturbed_trans [OF undisturbed_size])
        next
          case False
          then have "\<exists>P. s' = s1\<lparr>umem_pool := P\<rparr>" using less.prems \<open>\<not> a \<ge> newsz\<close> m m0 1 \<open>ok\<close> k
            by (auto simp: threaded_alloc_loop.simps [of t q a] bindE_eq_Inr)
          then show ?thesis using undisturbed_pool by auto
        qed
        then show ?thesis by (rule undisturbed_trans [OF u1])
      qed
    qed
  qed
qed

lemma thread_unmaps_undisturbed: "thread_unmaps q oldsz newsz n is s = Inr s' \<Longrightarrow> undisturbed s s'"
proof (induction "is" arbitrary: s)
  case (Cons i "is")
  show ?case
  proof (cases "p_infants (procs s q) i")
    case None
    then show ?thesis using Cons by simp
  next
    case (Some t)
    then obtain P where "thread_unmaps q oldsz newsz n is (upd_proc t (\<lambda>x. x\<lparr>p_sz := newsz\<rparr>) (s\<lparr>umem_pool := P\<rparr>)) = Inr s'"
      using Cons.prems by (auto simp: bindE_eq_Inr)
    from Cons.IH [OF this] show ?thesis by (rule undisturbed_trans [OF undisturbed_size])
  qed
qed simp

lemma threaded_undisturbed:
  "uvmthreaded_alloc t oldsz newsz xperm s = Inr (r, s') \<Longrightarrow> undisturbed s s'"
  "uvmthreaded_dealloc t oldsz newsz s = Inr (r, s') \<Longrightarrow> undisturbed s s'"
proof -
  show "undisturbed s s'" if "uvmthreaded_alloc t oldsz newsz xperm s = Inr (r, s')"
    using that by (auto simp: uvmthreaded_alloc_def split: if_splits option.splits intro: threaded_alloc_loop_undisturbed)
  show "undisturbed s s'" if d: "uvmthreaded_dealloc t oldsz newsz s = Inr (r, s')"
  proof -
    have "s' = s \<or> (\<exists>q n s1 P. thread_unmaps q oldsz newsz n [0..<MAX_THREADS] s = Inr s1 \<and> s' = upd_proc q (\<lambda>x. x\<lparr>p_sz := newsz\<rparr>) (s1\<lparr>umem_pool := P\<rparr>))"
      using d unfolding uvmthreaded_dealloc_def by (auto simp: Let_def bindE_eq_Inr split: if_splits option.splits)
    then show ?thesis using thread_unmaps_undisturbed [THEN undisturbed_trans, OF _ undisturbed_size] by auto
  qed
qed

lemma growproc_undisturbed: "growproc me n s = Inr (r, s') \<Longrightarrow> undisturbed s s'"
proof -
  assume "growproc me n s = Inr (r, s')"
  then have "(\<exists>z. s' = upd_proc me (\<lambda>x. x\<lparr>p_sz := z\<rparr>) s) \<or> (\<exists>t. undisturbed s t \<and> (s' = t \<or> (\<exists>z. s' = upd_proc me (\<lambda>x. x\<lparr>p_sz := z\<rparr>) t)))"
    by (auto simp: growproc_def Let_def bindE_eq_Inr split: if_splits dest!: threaded_undisturbed intro: undisturbed_pool)
  moreover have "undisturbed t (upd_proc me (\<lambda>x. x\<lparr>p_sz := z\<rparr>) t)" for t z by (rule undisturbed_upd_proc) simp_all
  ultimately show ?thesis using undisturbed_trans by blast
qed

lemma sys_chdir_undisturbed:
  assumes r: "sys_chdir me s = Inr (r, s')"
  shows "undisturbed s s'"
proof -
  obtain s1 where 1: "begin_op s = Inr s1" using r by (auto simp: sys_chdir_def bindE_eq_Inr)
  have moved: "undisturbed s (upd_proc me (\<lambda>x. x\<lparr>p_cwd := Some ip\<rparr>) (t\<lparr>cwd := ip\<rparr>))" if "beyond t = beyond s" for t ip
  proof -
    have "undisturbed t (upd_proc me (\<lambda>x. x\<lparr>p_cwd := Some ip\<rparr>) (t\<lparr>cwd := ip\<rparr>))"
      by (rule undisturbed_trans [OF same_ktables undisturbed_upd_proc]) simp_all
    then show ?thesis by (rule undisturbed_trans [OF undisturbed_frame [OF that]])
  qed
  show ?thesis
  proof (cases "argstr me 0 MAXPATH s1")
    case None
    then have "beyond s' = beyond s" using r 1 op_frame(1) [OF 1] by (auto simp: sys_chdir_def dest!: done_frame)
    then show ?thesis by (rule undisturbed_frame)
  next
    case (Some path)
    obtain v s2 where 2: "namei path s1 = Inr (v, s2)" using r 1 Some by (auto simp: sys_chdir_def bindE_eq_Inr)
    have b2: "beyond s2 = beyond s" using op_frame(1) [OF 1] name_frame(2) [OF 2] by simp
    show ?thesis
    proof (cases v)
      case None
      then have "beyond s' = beyond s" using r 1 Some 2 b2 by (auto simp: sys_chdir_def dest!: done_frame)
      then show ?thesis by (rule undisturbed_frame)
    next
      case (Some ip)
      obtain s3 where 3: "ilock (Some ip) s2 = Inr s3" using r 1 \<open>argstr me 0 MAXPATH s1 = Some path\<close> 2 Some by (auto simp: sys_chdir_def bindE_eq_Inr)
      have b3: "beyond s3 = beyond s" using ilock_frame [OF 3] b2 by simp
      show ?thesis
      proof (cases "i_type (itable s3 ip) = T_DIR")
        case False
        then have "beyond s' = beyond s" using r 1 \<open>argstr me 0 MAXPATH s1 = Some path\<close> 2 Some 3 b3
          by (auto simp: sys_chdir_def bindE_eq_Inr dest!: iunlockput_frame done_frame)
        then show ?thesis by (rule undisturbed_frame)
      next
        case True
        then obtain s4 c s5 s6 where "iunlock (Some ip) s3 = Inr s4" "iput c s4 = Inr s5" "end_op s5 = Inr s6"
          "s' = upd_proc me (\<lambda>x. x\<lparr>p_cwd := Some ip\<rparr>) (s6\<lparr>cwd := ip\<rparr>)"
          using r 1 \<open>argstr me 0 MAXPATH s1 = Some path\<close> 2 Some 3 by (auto simp: sys_chdir_def bindE_eq_Inr split: option.splits)
        then show ?thesis using moved [of s6 ip] iunlock_frame [of "Some ip" s3 s4] iput_frame [of c s4 s5] op_frame(2) [of s5 s6] b3 by simp
      qed
    qed
  qed
qed

lemma socket_calls_undisturbed:
  "sys_bind junk me s = Inr (r, s') \<Longrightarrow> undisturbed s s'" "sys_send me s = Inr (r, s') \<Longrightarrow> undisturbed s s'"
  "sys_recv me s = Inr (r, s') \<Longrightarrow> undisturbed s s'" "sys_listen me s = Inr (r, s') \<Longrightarrow> undisturbed s s'"
  by (auto simp: sys_bind_def sys_send_def sys_recv_def sys_listen_def bindE_eq_Inr Let_def case_prod_beta
      split: option.splits if_splits dest: net_call_undisturbed)

lemma kill_undisturbed: "kill pid s = (r, s') \<Longrightarrow> undisturbed s s'"
proof -
  assume "kill pid s = (r, s')"
  then have "s' = s \<or> (\<exists>p. s' = upd_proc p (\<lambda>x. x\<lparr>p_killed := True, p_state := (if p_state x = SLEEPING then RUNNABLE else p_state x)\<rparr>) s)"
    by (auto simp: kill_def split: option.splits)
  moreover have "undisturbed s (upd_proc p (\<lambda>x. x\<lparr>p_killed := True, p_state := (if p_state x = SLEEPING then RUNNABLE else p_state x)\<rparr>) s)" for p
    by (rule undisturbed_upd_proc) (simp_all add: dead_def)
  ultimately show ?thesis by auto
qed

section \<open>Steps of the kernel\<close>

text \<open>
  The hart whose turn it is: several processes may run, each on a hart with its own page table and
  current directory. A process makes a call on a hart that has its page table.
\<close>

definition turn :: "nat \<Rightarrow> kst \<Rightarrow> kst" where
  "turn p s = s\<lparr>upagetable := p_pagetable (procs s p), cwd := (case p_cwd (procs s p) of None \<Rightarrow> cwd s | Some c \<Rightarrow> c)\<rparr>"

definition running :: "nat \<Rightarrow> kst \<Rightarrow> bool" where
  "running p s \<longleftrightarrow> p < NPROC \<and> p_state (procs s p) = RUNNING \<and> upagetable s = p_pagetable (procs s p) \<and>
     (\<forall>c. p_cwd (procs s p) = Some c \<longrightarrow> cwd s = c)"

text \<open>
  One step. The flag says whether threads may call \<open>exit\<close>; they may always call \<open>thread_exit\<close>.
  \<open>pad\<close> and \<open>junk\<close> are uninitialised bytes.
\<close>

inductive kcall :: "bool \<Rightarrow> (nat \<Rightarrow> kst devsw) \<Rightarrow> kst \<Rightarrow> kst \<Rightarrow> bool" for T devsw where
  dup: "running p s \<Longrightarrow> sys_dup p s = Inr (r, s') \<Longrightarrow> kcall T devsw s s'"
| close: "running p s \<Longrightarrow> sys_close p s = Inr (r, s') \<Longrightarrow> kcall T devsw s s'"
| pipe: "running p s \<Longrightarrow> sys_pipe p s = Inr (r, s') \<Longrightarrow> kcall T devsw s s'"
| opens: "running p s \<Longrightarrow> sys_open p s = Inr (r, s') \<Longrightarrow> kcall T devsw s s'"
| socket: "running p s \<Longrightarrow> sys_socket p s = Inr (r, s') \<Longrightarrow> kcall T devsw s s'"
| reads: "running p s \<Longrightarrow> sys_read devsw p s = Inr (r, s') \<Longrightarrow> kcall T devsw s s'"
| writes: "running p s \<Longrightarrow> sys_write devsw p s = Inr (r, s') \<Longrightarrow> kcall T devsw s s'"
| fstat: "running p s \<Longrightarrow> sys_fstat pad p s = Inr (r, s') \<Longrightarrow> kcall T devsw s s'"
| link: "running p s \<Longrightarrow> sys_link p s = Inr (r, s') \<Longrightarrow> kcall T devsw s s'"
| unlink: "running p s \<Longrightarrow> sys_unlink p s = Inr (r, s') \<Longrightarrow> kcall T devsw s s'"
| mkdir: "running p s \<Longrightarrow> sys_mkdir p s = Inr (r, s') \<Longrightarrow> kcall T devsw s s'"
| mknod: "running p s \<Longrightarrow> sys_mknod p s = Inr (r, s') \<Longrightarrow> kcall T devsw s s'"
| chdir: "running p s \<Longrightarrow> sys_chdir p s = Inr (r, s') \<Longrightarrow> kcall T devsw s s'"
| bind: "running p s \<Longrightarrow> sys_bind junk p s = Inr (r, s') \<Longrightarrow> kcall T devsw s s'"
| send: "running p s \<Longrightarrow> sys_send p s = Inr (r, s') \<Longrightarrow> kcall T devsw s s'"
| recv: "running p s \<Longrightarrow> sys_recv p s = Inr (r, s') \<Longrightarrow> kcall T devsw s s'"
| listen: "running p s \<Longrightarrow> sys_listen p s = Inr (r, s') \<Longrightarrow> kcall T devsw s s'"
| sbrk: "running p s \<Longrightarrow> sys_sbrk p s = Inr (r, s') \<Longrightarrow> kcall T devsw s s'"
| kill: "running p s \<Longrightarrow> sys_kill p s = (r, s') \<Longrightarrow> kcall T devsw s s'"
| fork: "running p s \<Longrightarrow> sys_fork p s = Inr (r, s') \<Longrightarrow> kcall T devsw s s'"
| create: "running p s \<Longrightarrow> sys_create_thread p s = Inr (r, s') \<Longrightarrow> kcall T devsw s s'"
| join: "running p s \<Longrightarrow> sys_join_thread p s = Inr (w, s') \<Longrightarrow> kcall T devsw s s'"
| waits: "running p s \<Longrightarrow> sys_wait p s = Inr (w, s') \<Longrightarrow> kcall T devsw s s'"
| exits: "running p s \<Longrightarrow> p_is_thread (procs s p) \<longrightarrow> T \<Longrightarrow> sys_exit p s = Inr s' \<Longrightarrow> kcall T devsw s s'"
| thread_exits: "running p s \<Longrightarrow> sys_thread_exit p s = Inr s' \<Longrightarrow> kcall T devsw s s'"
| run: "kcall T devsw s (run_proc p s)"
| turn: "kcall T devsw s (turn p s)"
| yields: "running p s \<Longrightarrow> kcall T devsw s (yield p s)"
| interrupt: "kcall T devsw s (wakeup p ch s)"

definition tree_step :: "kst \<Rightarrow> kst \<Rightarrow> bool" where
  "tree_step s s' \<longleftrightarrow> tree_same s s' \<or> (\<exists>p np q. running p s \<and> owner_of p np q s \<and> spawned q np s s') \<or>
     (\<exists>q. reaped q s s') \<or> (\<exists>p. running p s \<and> exited p s s')"

lemma running_dead: "running p s \<Longrightarrow> p < NPROC \<and> \<not> dead (procs s p) \<and> p_state (procs s p) \<noteq> UNUSED"
  by (simp add: running_def dead_def)

lemma run_proc_undisturbed: "undisturbed s (run_proc p s)"
proof (cases "p_state (procs s p) = RUNNABLE")
  case True
  have "undisturbed s (s\<lparr>upagetable := a, cwd := c\<rparr>)" for a c by (rule same_ktables) simp_all
  moreover have "undisturbed (s\<lparr>upagetable := a, cwd := c\<rparr>) (upd_proc p (\<lambda>x. x\<lparr>p_state := RUNNING\<rparr>) (s\<lparr>upagetable := a, cwd := c\<rparr>))" for a c
    by (rule undisturbed_upd_proc) (use True in \<open>simp_all add: dead_def\<close>)
  ultimately show ?thesis using True undisturbed_trans unfolding run_proc_def by (simp add: run_proc_def) blast
qed (simp add: run_proc_def)

text \<open>The calls that leave descriptors and processes alone.\<close>

lemma kcall_undisturbed:
  assumes "dev_ok devsw" "running p s"
  shows "sys_read devsw p s = Inr (r, s') \<Longrightarrow> undisturbed s s'" "sys_write devsw p s = Inr (r, s') \<Longrightarrow> undisturbed s s'"
    "sys_sbrk p s = Inr (r, s') \<Longrightarrow> undisturbed s s'" "undisturbed s (yield p s)" "sys_join_thread p s = Inr (w, s') \<Longrightarrow> undisturbed s s'"
    "sys_fstat pad p s = Inr (r, s') \<Longrightarrow> undisturbed s s'"
proof -
  show "sys_read devsw p s = Inr (r, s') \<Longrightarrow> undisturbed s s'"
    using fileread_undisturbed [OF assms(1)] by (auto simp: sys_read_def split: option.splits)
  show "sys_write devsw p s = Inr (r, s') \<Longrightarrow> undisturbed s s'"
    using filewrite_undisturbed [OF assms(1)] by (auto simp: sys_write_def split: option.splits)
  show "sys_sbrk p s = Inr (r, s') \<Longrightarrow> undisturbed s s'"
    by (auto simp: sys_sbrk_def bindE_eq_Inr intro: growproc_undisturbed)
  show "undisturbed s (yield p s)" unfolding yield_def by (rule undisturbed_upd_proc) (use assms(2) in \<open>simp_all add: running_def dead_def\<close>)
  show "sys_join_thread p s = Inr (w, s') \<Longrightarrow> undisturbed s s'"
    unfolding sys_join_thread_def using running_dead [OF assms(2)] join_thread_undisturbed by blast
  show "sys_fstat pad p s = Inr (r, s') \<Longrightarrow> undisturbed s s'"
    by (auto simp: sys_fstat_def split: option.splits intro: undisturbed_frame filestat_frame)
qed

lemma kcall_step:
  assumes d: "dev_ok devsw" and f: "files_in [] s" and k: "kcall T devsw s s'"
  shows "files_in [] s'" "\<not> T \<Longrightarrow> tree_step s s'"
proof -
  have ok: "files_in [] s' \<and> tree_step s s'" if "undisturbed s s'" for s'
    using files_in_undisturbed [OF that f] undisturbed_tree [OF that] by (simp add: tree_step_def)
  have ok2: "files_in [] s' \<and> tree_step s s'" if "files_in [] s' \<and> tree_same s s'" for s' using that by (simp add: tree_step_def)
  have "files_in [] s' \<and> (\<not> T \<longrightarrow> tree_step s s')"
    using k
  proof cases
    case (dup p r)
    then show ?thesis using ok2 sys_dup_ok [OF f] running_dead by blast
  next
    case (close p r)
    then show ?thesis using ok2 sys_close_ok [OF f] running_dead by blast
  next
    case (pipe p r)
    then show ?thesis using ok2 sys_pipe_ok [OF f] running_dead by blast
  next
    case (opens p r)
    then show ?thesis using ok2 sys_open_ok [OF f] running_dead by blast
  next
    case (socket p r)
    then show ?thesis using ok2 sys_socket_ok [OF f] running_dead by blast
  next
    case (fork p r)
    then have "owner_of p np p s" for np by (simp add: owner_of_def)
    then show ?thesis using fork running_dead fork_ok [OF f, of p r s'] unfolding sys_fork_def tree_step_def by blast
  next
    case (create p r)
    then show ?thesis using running_dead create_thread_ok [OF f] unfolding sys_create_thread_def tree_step_def by blast
  next
    case (waits p w)
    then show ?thesis using running_dead wait_ok [OF f] unfolding sys_wait_def tree_step_def by blast
  next
    case (exits p)
    then show ?thesis using running_dead exit_ok [OF f] unfolding sys_exit_def tree_step_def by blast
  next
    case (thread_exits p)
    then show ?thesis using running_dead thread_exit_ok [OF f] unfolding sys_thread_exit_def tree_step_def by blast
  next
    case (kill p r)
    then show ?thesis using ok kill_undisturbed unfolding sys_kill_def by blast
  next
    case (run p)
    then show ?thesis using ok run_proc_undisturbed by blast
  next
    case (turn p)
    have "undisturbed s (turn p s)" unfolding turn_def by (rule same_ktables) simp_all
    then show ?thesis using ok turn by blast
  next
    case (interrupt p ch)
    then show ?thesis using ok undisturbed_wakeup by blast
  next
    case (reads p r)
    show ?thesis using ok [OF kcall_undisturbed(1) [OF d reads]] by simp
  next
    case (writes p r)
    show ?thesis using ok [OF kcall_undisturbed(2) [OF d writes]] by simp
  next
    case (sbrk p r)
    show ?thesis using ok [OF kcall_undisturbed(3) [OF d sbrk]] by simp
  next
    case (yields p)
    show ?thesis using ok kcall_undisturbed(4) [OF d, of p s] yields by simp
  next
    case (join p w)
    show ?thesis using ok [OF kcall_undisturbed(5) [OF d join]] by simp
  next
    case (fstat p pad r)
    show ?thesis using ok [OF kcall_undisturbed(6) [OF d fstat]] by simp
  next
    case (link p r)
    show ?thesis using ok [OF undisturbed_frame [OF sys_link_frame [OF link(2)]]] by simp
  next
    case (unlink p r)
    show ?thesis using ok [OF undisturbed_frame [OF sys_unlink_frame [OF unlink(2)]]] by simp
  next
    case (mkdir p r)
    show ?thesis using ok [OF undisturbed_frame [OF make_frame(1) [OF mkdir(2)]]] by simp
  next
    case (mknod p r)
    show ?thesis using ok [OF undisturbed_frame [OF make_frame(2) [OF mknod(2)]]] by simp
  next
    case (chdir p r)
    show ?thesis using ok [OF sys_chdir_undisturbed [OF chdir(2)]] by simp
  next
    case (bind p junk r)
    show ?thesis using ok [OF socket_calls_undisturbed(1) [OF bind(2)]] by simp
  next
    case (send p r)
    show ?thesis using ok [OF socket_calls_undisturbed(2) [OF send(2)]] by simp
  next
    case (recv p r)
    show ?thesis using ok [OF socket_calls_undisturbed(3) [OF recv(2)]] by simp
  next
    case (listen p r)
    show ?thesis using ok [OF socket_calls_undisturbed(4) [OF listen(2)]] by simp
  qed
  then show "files_in [] s'" "\<not> T \<Longrightarrow> tree_step s s'" by blast+
qed

section \<open>The invariants\<close>

text \<open>The state that \<open>userinit\<close> leaves: one process, \<open>i\<close>, no open file.\<close>

definition after_boot :: "nat \<Rightarrow> kst \<Rightarrow> bool" where
  "after_boot i s \<longleftrightarrow> (\<forall>f. f_ref (ftable s f) = 0) \<and> initproc s = Some i \<and> i < NPROC \<and>
     p_state (procs s i) = RUNNABLE \<and> p_parent (procs s i) = None \<and> 0 < p_pid (procs s i) \<and> p_pid (procs s i) < nextpid s \<and>
     (\<forall>p. p \<noteq> i \<longrightarrow> p_state (procs s p) = UNUSED \<and> p_parent (procs s p) = None) \<and>
     (\<forall>p. p_ofile (procs s p) = Map.empty \<and> p_infants (procs s p) = Map.empty)"

text \<open>Before, all tables are zero.\<close>

definition zeroed :: "kst \<Rightarrow> bool" where
  "zeroed s \<longleftrightarrow> (\<forall>f. f_ref (ftable s f) = 0) \<and> nextpid s = 1 \<and>
     (\<forall>p. p_state (procs s p) = UNUSED \<and> p_parent (procs s p) = None \<and> p_ofile (procs s p) = Map.empty \<and> p_infants (procs s p) = Map.empty)"

lemma userinit_boots:
  assumes z: "zeroed s" and u: "userinit s = Inr s'"
  shows "\<exists>i. after_boot i s'"
proof -
  obtain r t where a: "allocproc s = Inr (r, t)" using u by (auto simp: userinit_def bindE_eq_Inr)
  obtain i where i: "r = Some i" using u a by (cases r) (auto simp: userinit_def Let_def)
  define t1 where "t1 = t\<lparr>initproc := Some i\<rparr>"
  obtain P where P: "uvmfirst (umem_pool t1) (p_pagetable (procs t1 i)) initcode = Inr P"
    using u a i by (auto simp: userinit_def Let_def bindE_eq_Inr t1_def)
  define t2 where "t2 = upd_tf i (\<lambda>b. put64 (put64 b tf_epc 0) tf_sp PGSIZE) (upd_proc i (\<lambda>x. x\<lparr>p_sz := PGSIZE\<rparr>) (t1\<lparr>umem_pool := P\<rparr>))"
  obtain c t3 where 3: "namei [slash] t2 = Inr (c, t3)"
    "s' = upd_proc i (\<lambda>x. x\<lparr>p_name := [105, 110, 105, 116, 99, 111, 100, 101], p_cwd := c, p_state := RUNNABLE\<rparr>) t3"
    using u a i P by (auto simp: userinit_def Let_def bindE_eq_Inr t1_def t2_def)
  note b = beyondD [OF name_frame(2) [OF 3(1)]]
  from a [unfolded i] have "after_boot i s'"
  proof (rule allocproc_cases)
    fix p x
    assume p: "p < NPROC" "procs t = (procs s)(p := x)" "ftable t = ftable s" "initproc t = initproc s" "nextpid t = nextpid s + 1"
      "p_ofile x = p_ofile (procs s p)" "p_infants x \<subseteq>\<^sub>m p_infants (procs s p)"
      "Some i = None \<and> p_state x = UNUSED \<and> p_parent x = None \<or>
       Some i = Some p \<and> p_state x = USED \<and> p_pid x = nextpid s \<and> p_parent x = p_parent (procs s p)"
    then have "p_infants x = Map.empty" using z by (auto simp: zeroed_def map_le_def)
    then show ?thesis using p z b by (auto simp: after_boot_def zeroed_def 3(2) t2_def t1_def)
  qed simp
  then show ?thesis ..
qed

lemma boot_files:
  assumes "after_boot i s"
  shows "files_in [] s"
proof -
  have "fdset s f = {}" for f using assms by (simp add: fdset_def after_boot_def)
  moreover have "procs_range s"
    unfolding procs_range_def using assms by (auto simp: after_boot_def) (metis option.distinct(1))
  ultimately show ?thesis using assms by (simp add: files_in_def after_boot_def closed_def)
qed

definition tree_ok :: "nat \<Rightarrow> kst \<Rightarrow> bool" where
  "tree_ok i s \<longleftrightarrow> initproc s = Some i \<and> i < NPROC \<and> \<not> dead (procs s i) \<and> p_parent (procs s i) = None \<and>
     (\<forall>p < NPROC. p_state (procs s p) \<noteq> UNUSED \<longrightarrow> 0 < p_pid (procs s p) \<and> p_pid (procs s p) < nextpid s \<and>
        (p \<noteq> i \<longrightarrow> (\<exists>q < NPROC. p_parent (procs s p) = Some q \<and> \<not> dead (procs s q)))) \<and>
     (\<forall>p < NPROC. \<forall>q < NPROC. p \<noteq> q \<and> p_state (procs s p) \<noteq> UNUSED \<and> p_state (procs s q) \<noteq> UNUSED \<longrightarrow>
        p_pid (procs s p) \<noteq> p_pid (procs s q))"

lemma tree_okD:
  assumes "tree_ok i s"
  shows "initproc s = Some i" "i < NPROC" "\<not> dead (procs s i)" "p_parent (procs s i) = None"
    "\<And>p. p < NPROC \<Longrightarrow> p_state (procs s p) \<noteq> UNUSED \<Longrightarrow> 0 < p_pid (procs s p) \<and> p_pid (procs s p) < nextpid s"
    "\<And>p. p < NPROC \<Longrightarrow> p_state (procs s p) \<noteq> UNUSED \<Longrightarrow> p \<noteq> i \<Longrightarrow> \<exists>q < NPROC. p_parent (procs s p) = Some q \<and> \<not> dead (procs s q)"
    "\<And>p q. p < NPROC \<Longrightarrow> q < NPROC \<Longrightarrow> p \<noteq> q \<Longrightarrow> p_state (procs s p) \<noteq> UNUSED \<Longrightarrow> p_state (procs s q) \<noteq> UNUSED \<Longrightarrow>
       p_pid (procs s p) \<noteq> p_pid (procs s q)"
  using assms by (auto simp: tree_ok_def)

lemma tree_okI:
  assumes "initproc s = Some i" "i < NPROC" "\<not> dead (procs s i)" "p_parent (procs s i) = None"
    "\<And>p. p < NPROC \<Longrightarrow> p_state (procs s p) \<noteq> UNUSED \<Longrightarrow> 0 < p_pid (procs s p) \<and> p_pid (procs s p) < nextpid s"
    "\<And>p. p < NPROC \<Longrightarrow> p_state (procs s p) \<noteq> UNUSED \<Longrightarrow> p \<noteq> i \<Longrightarrow> \<exists>q < NPROC. p_parent (procs s p) = Some q \<and> \<not> dead (procs s q)"
    "\<And>p q. p < NPROC \<Longrightarrow> q < NPROC \<Longrightarrow> p \<noteq> q \<Longrightarrow> p_state (procs s p) \<noteq> UNUSED \<Longrightarrow> p_state (procs s q) \<noteq> UNUSED \<Longrightarrow>
       p_pid (procs s p) \<noteq> p_pid (procs s q)"
  shows "tree_ok i s"
  using assms by (simp add: tree_ok_def)

lemma boot_tree: "after_boot i s \<Longrightarrow> tree_ok i s"
  unfolding after_boot_def by (rule tree_okI) (simp_all add: dead_def, metis+)

text \<open>Steps under which every slot in use was in use before, with the same number.\<close>

lemma tree_ok_old:
  assumes t: "tree_ok i s" "initproc s' = initproc s" "nextpid s \<le> nextpid s'"
    and o: "\<And>p. p_state (procs s' p) \<noteq> UNUSED \<Longrightarrow> p_state (procs s p) \<noteq> UNUSED \<and> p_pid (procs s' p) = p_pid (procs s p)"
    and i: "\<not> dead (procs s' i)" "p_parent (procs s' i) = None"
    and q: "\<And>p. p < NPROC \<Longrightarrow> p_state (procs s' p) \<noteq> UNUSED \<Longrightarrow> p \<noteq> i \<Longrightarrow> \<exists>q < NPROC. p_parent (procs s' p) = Some q \<and> \<not> dead (procs s' q)"
  shows "tree_ok i s'"
proof (rule tree_okI)
  fix p assume p: "p < NPROC" "p_state (procs s' p) \<noteq> UNUSED"
  then show "0 < p_pid (procs s' p) \<and> p_pid (procs s' p) < nextpid s'" using o [of p] tree_okD(5) [OF t(1), of p] t(3) by auto
next
  fix p r assume "p < NPROC" "r < NPROC" "p \<noteq> r" "p_state (procs s' p) \<noteq> UNUSED" "p_state (procs s' r) \<noteq> UNUSED"
  then show "p_pid (procs s' p) \<noteq> p_pid (procs s' r)" using o tree_okD(7) [OF t(1), of p r] by simp
qed (use t i q tree_okD(1,2) [OF t(1)] in simp_all)

lemma tree_same_ok:
  assumes t: "tree_ok i s" and same: "tree_same s s'"
  shows "tree_ok i s'"
proof (rule tree_ok_old [OF t])
  have p: "tree_proc (procs s p) (procs s' p)" for p using same by (simp add: tree_same_def)
  show "\<not> dead (procs s' i)" using tree_okD(3) [OF t] tree_dead [OF same] by simp
  show "p_parent (procs s' i) = None" using tree_okD(3,4) [OF t] p [of i] by (simp add: tree_proc_def dead_def)
  show "p_state (procs s p) \<noteq> UNUSED \<and> p_pid (procs s' p) = p_pid (procs s p)" if "p_state (procs s' p) \<noteq> UNUSED" for p
    using that p [of p] by (simp add: tree_proc_def)
  show "\<exists>q < NPROC. p_parent (procs s' p) = Some q \<and> \<not> dead (procs s' q)" if "p < NPROC" "p_state (procs s' p) \<noteq> UNUSED" "p \<noteq> i" for p
    using that p [of p] tree_okD(6) [OF t, of p] tree_dead [OF same] by (simp add: tree_proc_def)
qed (use same in \<open>simp_all add: tree_same_def\<close>)

lemma tree_owner:
  assumes t: "tree_ok i s" and p: "running p s" and o: "owner_of p np q s" and n: "p_state (procs s np) = UNUSED"
  shows "q < NPROC \<and> \<not> dead (procs s q)"
proof (cases "q = p")
  case True
  then show ?thesis using running_dead [OF p] by simp
next
  case False
  then obtain m where m: "p_parent (procs s p) = Some m" "m = np \<or> p_parent (procs s m) = Some q" using o by (auto simp: owner_of_def)
  have "p \<noteq> i" using m(1) tree_okD(4) [OF t] by auto
  then have d: "m < NPROC" "\<not> dead (procs s m)" using tree_okD(6) [OF t, of p] running_dead [OF p] m(1) by auto
  then have q: "p_parent (procs s m) = Some q" using m(2) n by (auto simp: dead_def)
  then have "m \<noteq> i" using tree_okD(4) [OF t] by auto
  then show ?thesis using tree_okD(6) [OF t d(1)] d(2) q by (auto simp: dead_def)
qed

lemma tree_spawned_ok:
  assumes t: "tree_ok i s" and q: "q < NPROC" "\<not> dead (procs s q)" and sp: "spawned q np s s'"
  shows "tree_ok i s'"
proof -
  have s: "initproc s' = initproc s" "nextpid s' = nextpid s + 1" "p_state (procs s np) = UNUSED" "\<not> dead (procs s' np)"
    "p_pid (procs s' np) = nextpid s" "p_parent (procs s' np) = Some q" using sp by (simp_all add: spawned_def)
  have o: "tree_proc (procs s r) (procs s' r)" if "r \<noteq> np" for r using sp that by (simp add: spawned_def)
  have d: "\<not> dead (procs s' r)" if "\<not> dead (procs s r)" for r
    using that o [of r] s(4) by (cases "r = np") (auto simp: tree_proc_def dead_def)
  have i: "i \<noteq> np" using tree_okD(3) [OF t] s(3) by (auto simp: dead_def)
  have old: "p_state (procs s p) \<noteq> UNUSED \<and> p_pid (procs s' p) = p_pid (procs s p) \<and> p_parent (procs s' p) = p_parent (procs s p)"
    if "p \<noteq> np" "p_state (procs s' p) \<noteq> UNUSED" for p using that o [of p] by (simp add: tree_proc_def)
  have pid: "0 < nextpid s" using tree_okD(5) [OF t tree_okD(2) [OF t]] tree_okD(3) [OF t] by (simp add: dead_def)
  show ?thesis
  proof (rule tree_okI)
    show "p_parent (procs s' i) = None" using old [OF i] tree_okD(4) [OF t] d [OF tree_okD(3) [OF t]] by (simp add: dead_def)
    fix p assume p: "p < NPROC" "p_state (procs s' p) \<noteq> UNUSED"
    show "0 < p_pid (procs s' p) \<and> p_pid (procs s' p) < nextpid s'"
      using old [of p] p tree_okD(5) [OF t, of p] s pid by (cases "p = np") auto
    show "\<exists>q < NPROC. p_parent (procs s' p) = Some q \<and> \<not> dead (procs s' q)" if "p \<noteq> i"
      using old [of p] p tree_okD(6) [OF t, of p] s q d that by (cases "p = np") auto
    fix r assume r: "r < NPROC" "p \<noteq> r" "p_state (procs s' r) \<noteq> UNUSED"
    show "p_pid (procs s' p) \<noteq> p_pid (procs s' r)"
    proof (cases "p = np \<or> r = np")
      case True
      then show ?thesis using old [of p] old [of r] p r s(5) tree_okD(5) [OF t, of p] tree_okD(5) [OF t, of r] by auto
    next
      case False
      then show ?thesis using old [of p] old [of r] p r tree_okD(7) [OF t, of p r] by simp
    qed
  qed (use s tree_okD(1,2) [OF t] d [OF tree_okD(3) [OF t]] in simp_all)
qed

lemma tree_reaped_ok:
  assumes t: "tree_ok i s" and r: "reaped q s s'"
  shows "tree_ok i s'"
proof (rule tree_ok_old [OF t])
  have z: "dead (procs s q)" "p_state (procs s' q) = UNUSED" using r by (simp_all add: reaped_def dead_def)
  have o: "tree_proc (procs s p) (procs s' p)" if "p \<noteq> q" for p using r that by (simp add: reaped_def)
  have d: "\<not> dead (procs s' p)" if "\<not> dead (procs s p)" for p
  proof -
    have "p \<noteq> q" using that z by auto
    then show ?thesis using o [of p] that by (simp add: tree_proc_def dead_def)
  qed
  show "\<not> dead (procs s' i)" using d tree_okD(3) [OF t] by simp
  show "p_parent (procs s' i) = None" using o [of i] tree_okD(3,4) [OF t] z(1) by (auto simp: tree_proc_def dead_def)
  fix p assume p: "p_state (procs s' p) \<noteq> UNUSED"
  then have n: "p \<noteq> q" using z by auto
  show "p_state (procs s p) \<noteq> UNUSED \<and> p_pid (procs s' p) = p_pid (procs s p)" using o [OF n] p by (simp add: tree_proc_def)
  show "\<exists>q < NPROC. p_parent (procs s' p) = Some q \<and> \<not> dead (procs s' q)" if "p < NPROC" "p \<noteq> i"
    using o [OF n] p tree_okD(6) [OF t, of p] that d by (auto simp: tree_proc_def)
qed (use r in \<open>simp_all add: reaped_def\<close>)

lemma tree_exited_ok:
  assumes t: "tree_ok i s" and e: "exited x s s'"
  shows "tree_ok i s'"
proof (rule tree_ok_old [OF t])
  have xi: "x \<noteq> i" using e tree_okD(1) [OF t] by (auto simp: exited_def)
  have st: "p_state (procs s' p) = UNUSED \<longleftrightarrow> p_state (procs s p) = UNUSED" "p_state (procs s' p) = ZOMBIE \<longleftrightarrow> p = x \<or> p_state (procs s p) = ZOMBIE" for p
    using e by (simp_all add: exited_def)
  have d: "\<not> dead (procs s' p)" if "\<not> dead (procs s p)" "p \<noteq> x" for p using that st [of p] by (simp add: dead_def)
  have pp: "p_pid (procs s' p) = p_pid (procs s p)" "p_parent (procs s' p) = (if p < NPROC \<and> p_parent (procs s p) = Some x then Some i else p_parent (procs s p))"
    if "p_state (procs s p) \<noteq> UNUSED" for p using e that tree_okD(1) [OF t] by (simp_all add: exited_def)
  show di: "\<not> dead (procs s' i)" using d tree_okD(3) [OF t] xi by simp
  show "p_parent (procs s' i) = None" using pp(2) [of i] tree_okD(3,4) [OF t] by (simp add: dead_def)
  fix p assume p: "p_state (procs s' p) \<noteq> UNUSED"
  then have u: "p_state (procs s p) \<noteq> UNUSED" using st by simp
  show "p_state (procs s p) \<noteq> UNUSED \<and> p_pid (procs s' p) = p_pid (procs s p)" using u pp by simp
  show "\<exists>q < NPROC. p_parent (procs s' p) = Some q \<and> \<not> dead (procs s' q)" if p: "p < NPROC" "p \<noteq> i"
  proof (cases "p_parent (procs s p) = Some x")
    case True
    then show ?thesis using pp(2) [OF u] p(1) di tree_okD(2) [OF t] by simp
  next
    case False
    then show ?thesis using pp(2) [OF u] tree_okD(6) [OF t p(1) u p(2)] d by auto
  qed
qed (use e in \<open>simp_all add: exited_def\<close>)

lemma tree_step_ok: "tree_ok i s \<Longrightarrow> tree_step s s' \<Longrightarrow> tree_ok i s'"
proof -
  assume t: "tree_ok i s" and "tree_step s s'"
  then consider "tree_same s s'" | p np q where "running p s" "owner_of p np q s" "spawned q np s s'" | q where "reaped q s s'" | p where "exited p s s'"
    unfolding tree_step_def by blast
  then show ?thesis
  proof cases
    case 2
    have "p_state (procs s np) = UNUSED" using 2(3) by (simp add: spawned_def)
    then show ?thesis using tree_owner [OF t 2(1,2)] tree_spawned_ok [OF t _ _ 2(3)] by blast
  qed (use t tree_same_ok tree_reaped_ok tree_exited_ok in blast)+
qed

lemma kcalls_files:
  assumes "dev_ok devsw" "files_in [] s" "(kcall T devsw)\<^sup>*\<^sup>* s s'"
  shows "files_in [] s'"
  using assms(3,2) by (induction rule: rtranclp_induct) (auto intro: kcall_step(1) [OF assms(1)])

lemma kcalls_tree:
  assumes "dev_ok devsw" "files_in [] s" "tree_ok i s" "(kcall False devsw)\<^sup>*\<^sup>* s s'"
  shows "tree_ok i s'"
  using assms(4)
proof (induction rule: rtranclp_induct)
  case (step t u)
  have "files_in [] t" by (rule kcalls_files [OF assms(1,2) step(1)])
  then show ?case using kcall_step(2) [OF assms(1) _ step(2)] tree_step_ok step.IH by blast
qed (rule assms(3))



section \<open>A small run\<close>

text \<open>
  The first process, number 0, with an empty address space and a trap frame of zeros in page 0; it
  calls \<open>socket\<close> with a bad family, which gives it a descriptor all the same, and \<open>dup\<close>.
\<close>

definition boot_proc :: "procstate \<Rightarrow> int \<Rightarrow> proc" where
  "boot_proc st pid = \<lparr>p_state = st, p_chan = None, p_killed = False, p_xstate = 0, p_pid = pid, p_parent = None, p_sz = 0,
     p_pagetable = 0, p_trapframe = 0, p_ofile = Map.empty, p_cwd = Some 0, p_name = [], p_is_thread = False, p_infants = Map.empty\<rparr>"

definition boot_file :: kfile where
  "boot_file = \<lparr>f_type = FD_NONE, f_ref = 0, f_readable = False, f_writable = False, f_pipe = 0, f_ip = None, f_sock = 0, f_off = 0, f_major = 0\<rparr>"

definition boot_kst :: kst where
  "boot_kst = fsst.extend (small_fs\<lparr>umem_pool := \<lparr>freelist = [0x80110000, 0x80111000], refs = \<lambda>_. 0, pg = \<lambda>_ _. 0, pend = 0x80022000\<rparr>\<rparr>)
     (kst.fields (\<lambda>_. boot_file) (\<lambda>_. \<lparr>pdata = \<lambda>_. 0, nread = 0, nwrite = 0, readopen = False, writeopen = False\<rparr>) idle_net
        ((\<lambda>_. boot_proc UNUSED 0)(0 := boot_proc RUNNABLE 1)) (Some 0) 2 0)"

lemma boot_kst_fields:
  "ftable boot_kst = (\<lambda>_. boot_file)" "procs boot_kst = (\<lambda>_. boot_proc UNUSED 0)(0 := boot_proc RUNNABLE 1)" "initproc boot_kst = Some 0"
  "nextpid boot_kst = 2" "umem_pool boot_kst = \<lparr>freelist = [0x80110000, 0x80111000], refs = \<lambda>_. 0, pg = \<lambda>_ _. 0, pend = 0x80022000\<rparr>"
  by (simp_all add: boot_kst_def fsst.defs kst.defs)

lemma boot_kst_ok: "after_boot 0 boot_kst"
  by (simp add: after_boot_def boot_kst_fields boot_file_def boot_proc_def NPROC_def)

abbreviation no_devices :: "nat \<Rightarrow> kst devsw" where
  "no_devices \<equiv> \<lambda>_. \<lparr>dev_read = None, dev_write = None\<rparr>"

lemma no_devices_ok: "dev_ok no_devices"
  by (simp add: dev_ok_def)

lemma first_free: "m < n \<Longrightarrow> find P [m..<n] = (if P m then Some m else find P [Suc m..<n])"
  by (simp add: upt_conv_Cons)

lemma first_file: "f_ref (ftable s 0) = 0 \<Longrightarrow> filealloc s = (Some 0, upd_file 0 (\<lambda>x. x\<lparr>f_ref := 1\<rparr>) s)"
  by (simp add: filealloc_def first_free NFILE_def)

lemma first_fd:
  "p_ofile (procs s p) 0 = None \<Longrightarrow> fdalloc p f s = (Some 0, set_fd p 0 (Some f) s)"
  "p_ofile (procs s p) 0 \<noteq> None \<Longrightarrow> p_ofile (procs s p) 1 = None \<Longrightarrow> fdalloc p f s = (Some 1, set_fd p 1 (Some f) s)"
  by (auto simp: fdalloc_def first_free NOFILE_def)

lemma no_protocol: "initsocket n sock 0 t p = Inr (- 1, n)"
  by (simp add: initsocket_def socket_protocol_def AF_INET_def)

lemma zero_args: "pg (umem_pool s) (p_trapframe (procs s p)) = (\<lambda>_. 0) \<Longrightarrow> argraw p n s = 0"
  by (simp add: argraw_def get64_def get32_def get16_def)

lemma bad_socket:
  assumes a: "\<And>n. argraw 0 n s = 0" and f: "freelist (umem_pool s) = 0x80110000 # l" and t: "p_trapframe (procs s 0) = 0"
    and e: "p_ofile (procs s 0) = Map.empty" "f_ref (ftable s 0) = 0" "pg (umem_pool s) 0 = (\<lambda>_. 0)"
  shows "\<exists>s'. sys_socket 0 s = Inr (0, s') \<and> upagetable s' = upagetable s \<and> cwd s' = cwd s \<and> pg (umem_pool s') 0 = (\<lambda>_. 0) \<and>
    procs s' = (procs s)(0 := (procs s 0)\<lparr>p_ofile := [0 \<mapsto> 0]\<rparr>) \<and> f_ref (ftable s' 0) = 1"
proof -
  obtain P where P: "pool_kalloc (umem_pool s) = (0x80110000, P)" "pg P 0 = (\<lambda>_. 0)" using f e(3) by (simp add: pool_kalloc_def)
  define t where "t = s\<lparr>umem_pool := zero_page P 0x80110000\<rparr>"
  have t: "procs t = procs s" "ftable t = ftable s" "upagetable t = upagetable s" "cwd t = cwd s" "pg (umem_pool t) 0 = (\<lambda>_. 0)"
    using P(2) by (simp_all add: t_def zero_page_def)
  have z: "argraw 0 n t = 0" for n by (rule zero_args) (simp add: t \<open>p_trapframe (procs s 0) = 0\<close>)
  have p0: "pg (zero_page P 0x80110000) 0 = (\<lambda>_. 0)" using P(2) by (simp add: zero_page_def)
  show ?thesis
    unfolding sys_socket_def P(1) using t e p0
    by (simp add: t_def [symmetric] argaddr_def z no_protocol net_call_def first_file first_fd set_fd_def upd_file_def upd_proc_def Let_def)
qed

lemma dup_zero:
  assumes "argraw 0 0 s = 0" "p_ofile (procs s 0) = [0 \<mapsto> 0]" "f_ref (ftable s 0) = 1"
  shows "\<exists>s'. sys_dup 0 s = Inr (1, s') \<and> procs s' = (procs s)(0 := (procs s 0)\<lparr>p_ofile := [0 \<mapsto> 0, 1 \<mapsto> 0]\<rparr>) \<and> f_ref (ftable s' 0) = 2"
  using assms by (simp add: sys_dup_def argfd_def argint_def NOFILE_def first_fd set_fd_def filedup_def upd_file_def upd_proc_def Let_def)

lemma first_socket:
  "\<exists>s. (kcall False no_devices)\<^sup>*\<^sup>* boot_kst s \<and> procs s = (procs boot_kst)(0 := (boot_proc RUNNING 1)\<lparr>p_ofile := [0 \<mapsto> 0, 1 \<mapsto> 0]\<rparr>) \<and>
     f_ref (ftable s 0) = 2"
proof -
  define t where "t = run_proc 0 boot_kst"
  have t: "procs t = (procs boot_kst)(0 := boot_proc RUNNING 1)" "upagetable t = 0" "cwd t = 0" "umem_pool t = umem_pool boot_kst" "ftable t = ftable boot_kst"
    by (simp_all add: t_def run_proc_def boot_kst_fields boot_proc_def upd_proc_def)
  have a: "argraw 0 n t = 0" for n by (rule zero_args) (simp add: t boot_kst_fields)
  obtain u where u: "sys_socket 0 t = Inr (0, u)" "upagetable u = upagetable t" "cwd u = cwd t" "pg (umem_pool u) 0 = (\<lambda>_. 0)"
    "procs u = (procs t)(0 := (procs t 0)\<lparr>p_ofile := [0 \<mapsto> 0]\<rparr>)" "f_ref (ftable u 0) = 1"
    using bad_socket [OF a, of "[0x80111000]"] by (simp add: t boot_kst_fields boot_proc_def boot_file_def) blast
  have "argraw 0 0 u = 0" by (rule zero_args) (simp add: u t boot_proc_def)
  then obtain v where v: "sys_dup 0 u = Inr (1, v)" "procs v = (procs u)(0 := (procs u 0)\<lparr>p_ofile := [0 \<mapsto> 0, 1 \<mapsto> 0]\<rparr>)" "f_ref (ftable v 0) = 2"
    using dup_zero [of u] u(5,6) by (simp del: fun_upd_apply add: fun_upd_same) blast
  have r: "running 0 t" "running 0 u" by (simp_all add: running_def u t boot_proc_def NPROC_def)
  note k = kcall.socket [OF r(1) u(1), of False no_devices] kcall.dup [OF r(2) v(1), of False no_devices]
  have "kcall False no_devices boot_kst t" unfolding t_def by (rule kcall.run)
  then have "(kcall False no_devices)\<^sup>*\<^sup>* boot_kst v" using k by (blast intro: rtranclp.rtrancl_into_rtrancl)
  then show ?thesis using v u t by (intro exI [of _ v]) (simp add: boot_proc_def)
qed



section \<open>The call \<open>exit\<close> by a thread\<close>

text \<open>Steps after which a process without a current directory still has none.\<close>

definition still :: "kst \<Rightarrow> kst \<Rightarrow> bool" where
  "still s s' \<longleftrightarrow> (\<forall>r. p_infants (procs s' r) = p_infants (procs s r) \<and> (p_cwd (procs s r) = None \<longrightarrow> p_cwd (procs s' r) = None))"

lemma still_refl [simp]: "still s s"
  by (simp add: still_def)

lemma still_trans: "still s s' \<Longrightarrow> still s' s'' \<Longrightarrow> still s s''"
  by (simp add: still_def)

lemma still_forE: "(\<And>x s s'. f x s = Inr s' \<Longrightarrow> still s s') \<Longrightarrow> forE f xs s = Inr s' \<Longrightarrow> still s s'"
  by (induction xs arbitrary: s) (simp, simp add: bindE_eq_Inr, metis still_trans)

lemma fileclose_still:
  assumes "fileclose me f s = Inr s'"
  shows "still s s'"
proof (cases "f_ref (ftable s f) - 1 > 0")
  case True
  then show ?thesis using assms by (auto simp: fileclose_def Let_def still_def split: if_splits)
next
  case False
  define t where "t = upd_file f (\<lambda>x. x\<lparr>f_ref := 0, f_type := FD_NONE\<rparr>) (upd_file f (\<lambda>x. x\<lparr>f_ref := f_ref x - 1\<rparr>) s)"
  obtain ff where "file_release me f ff t = Inr s'" using assms False by (auto simp: fileclose_def Let_def t_def split: if_splits)
  then have "still t s'"
    by (cases "f_type ff") (auto simp: file_release_def bindE_eq_Inr net_call_def still_def wakeup_def split: option.splits dest!: op_frame iput_frame beyondD(2))
  then show ?thesis by (simp add: still_def t_def)
qed

lemma close_fd_still: "close_fd me q fd s = Inr s' \<Longrightarrow> still s s'"
  using fileclose_still by (fastforce simp: close_fd_def bindE_eq_Inr still_def split: option.splits)

lemma close_fds_still: "forE (close_fd me q) fds s = Inr s' \<Longrightarrow> still s s'"
  by (rule still_forE [of "close_fd me q"]) (erule close_fd_still)

lemma put_cwd_still: "put_cwd q s = Inr s' \<Longrightarrow> still s s' \<and> p_cwd (procs s q) \<noteq> None \<and> p_cwd (procs s' q) = None"
  by (auto simp: put_cwd_def bindE_eq_Inr still_def split: option.splits dest!: op_frame iput_frame beyondD(2))

lemma exit_infant_still:
  assumes "exit_infant v me q i s = Inr s'"
  shows "still s s' \<and> (\<forall>t. p_infants (procs s q) i = Some t \<longrightarrow> p_cwd (procs s' t) = None)"
proof (cases "p_infants (procs s q) i")
  case (Some t)
  then obtain a b where ab: "forE (close_fd me t) [0..<NOFILE] s = Inr a" "put_cwd t a = Inr b" "s' = upd_proc t (\<lambda>x. x\<lparr>p_xstate := v, p_state := ZOMBIE\<rparr>) b"
    using assms by (auto simp: exit_infant_def bindE_eq_Inr)
  have "still s b" using close_fds_still [OF ab(1)] put_cwd_still [OF ab(2)] still_trans by blast
  then show ?thesis using put_cwd_still [OF ab(2)] Some by (simp add: ab(3) still_def)
qed (use assms in \<open>simp add: exit_infant_def\<close>)

lemma exit_infants_still:
  assumes "forE (exit_infant v me q) is s = Inr s'" "i \<in> set is" "p_infants (procs s q) i = Some t"
  shows "p_cwd (procs s' t) = None"
  using assms
proof (induction "is" arbitrary: s)
  case (Cons j "is")
  then obtain a where a: "exit_infant v me q j s = Inr a" "forE (exit_infant v me q) is a = Inr s'" by (auto simp: bindE_eq_Inr)
  note e = exit_infant_still [OF a(1)]
  have "still a s'" using still_forE [OF _ a(2)] exit_infant_still by blast
  then show ?case using e Cons.IH [OF a(2)] Cons.prems by (auto simp: still_def)
qed simp


text \<open>A process 0 with a thread in slot 1.\<close>

definition thread_kst :: kst where
  "thread_kst = boot_kst\<lparr>procs := (procs boot_kst)(0 := (boot_proc RUNNABLE 1)\<lparr>p_infants := [0 \<mapsto> 1]\<rparr>,
     1 := (boot_proc RUNNING 2)\<lparr>p_parent := Some 0, p_is_thread := True\<rparr>), nextpid := 3\<rparr>"


end
