(* ===== verification/Spec2Isabelle.thy ===== *)
theory Spec2Isabelle
  imports NetRx SocketCalls VmCopy Spinlock Sleeplock FsData FsPath Grep Syscalls
begin

text \<open>
  Verification of the xv6 network stack (repository \<^verbatim>\<open>xv6_network_stack\<close>).
\<close>

section \<open>From one user's buffer to another's\<close>


definition sending_net :: netst where
  "sending_net = idle_net\<lparr>arp_cache :=
     (arp_cache idle_net)[0 := \<lparr>ae_ip = 0x05040302, ae_mac = replicate 6 7, ae_valid = 1\<rparr>]\<rparr>"

definition receiving_net :: netst where
  "receiving_net =
     (let s = set_page idle_net 0x80120000 (put64 (\<lambda>_. 0) pb_sock 0x80121000);
          s = set_page s 0x80121000 (put32 (\<lambda>_. 0) sk_proto PROTO_UDP)
      in s\<lparr>udp_port_binds := (replicate 512 0)[1 := 0x80120000]\<rparr>)"

lemma receiving_net_ok:
  "pool_ok (mem receiving_net)" "freelist (mem receiving_net) = [0x80110000, 0x80111000, 0x80112000, 0x80113000]"
  "udp_bound receiving_net 1 0x80121000 []"
  "udp_pages receiving_net 1 0x80121000 [] = {0x80120000, 0x80121000}" "umem receiving_net = umem idle_net"
proof -
  have f: "freelist (mem receiving_net) = freelist (mem idle_net)" "pend (mem receiving_net) = pend (mem idle_net)"
    "umem receiving_net = umem idle_net" "udp_port_binds receiving_net = (replicate 512 0)[1 := 0x80120000]"
    "page receiving_net 0x80120000 = put64 (\<lambda>_. 0) pb_sock 0x80121000"
    "page receiving_net 0x80121000 = put32 (\<lambda>_. 0) sk_proto PROTO_UDP"
    by (simp_all add: receiving_net_def Let_def)
  show "pool_ok (mem receiving_net)" using idle_net_ok(1) f(1,2) by (simp add: net_ok_def pool_ok_def)
  show "freelist (mem receiving_net) = [0x80110000, 0x80111000, 0x80112000, 0x80113000]"
    by (simp add: f) (simp add: idle_net_def)
  show "umem receiving_net = umem idle_net" by (rule f)
  have z: "get64 (put32 (\<lambda>_. 0) sk_proto PROTO_UDP) 80 = 0" "get64 (put32 (\<lambda>_. 0) sk_proto PROTO_UDP) 88 = 0"
    by (simp_all add: buf_simps) (simp_all add: get64_def get32_def)
  show "udp_bound receiving_net 1 0x80121000 []"
    by (simp add: udp_bound_def f MAX_PORT_BINDINGS_def rx_queue_def z)
  show "udp_pages receiving_net 1 0x80121000 [] = {0x80120000, 0x80121000}" by (simp add: udp_pages_def f)
qed

lemma sending_net_ok:
  "net_ok sending_net" "freelist (mem sending_net) = [0x80110000, 0x80111000, 0x80112000, 0x80113000]"
  "arp_lookup sending_net 0x05040302 = Some (replicate 6 7)" "umem sending_net = umem idle_net"
proof -
  show "net_ok sending_net" using idle_net_ok(1) by (simp add: net_ok_def sending_net_def tx_ready_def)
  show "freelist (mem sending_net) = [0x80110000, 0x80111000, 0x80112000, 0x80113000]"
    "umem sending_net = umem idle_net" by (simp_all add: sending_net_def idle_net_def)
  have r: "replicate 16 x = x # replicate 15 x" for x :: arp_entry
    by (simp add: numeral_eq_Suc)
  show "arp_lookup sending_net 0x05040302 = Some (replicate 6 7)"
    by (simp add: arp_lookup_def sending_net_def idle_net_def r)
qed

lemma idle_umem: "umem idle_net a = (if a < 4096 then Some (ucast a) else None)"
  by (simp add: idle_net_def)

definition dest_bytes :: "u8 list" where
  "dest_bytes = [254, 255, 0, 1, 2, 3, 4, 5, 6, 7, 8, 9, 10, 11, 12, 13]"

lemma idle_user_bytes:
  "user_bytes (umem idle_net) 254 16 = Some dest_bytes"
  "user_bytes (umem idle_net) 65 3 = Some [65, 66, 67]"
  "k < 3 \<Longrightarrow> umem idle_net (128 + of_nat k) \<noteq> None"
proof -
  show "user_bytes (umem idle_net) 254 16 = Some dest_bytes" "user_bytes (umem idle_net) 65 3 = Some [65, 66, 67]"
    by (simp_all add: user_bytes_def idle_umem upt_conv_Cons dest_bytes_def)
  assume "k < 3"
  then have "k = 0 \<or> k = 1 \<or> k = 2" by auto
  then show "umem idle_net (128 + of_nat k) \<noteq> None" by (auto simp: idle_umem)
qed

lemma dest_bytes_fields:
  "get32 (list_buf dest_bytes) 4 = 0x05040302" "1 = unat (ntohs (get16 (list_buf dest_bytes) 2))"
  by (simp_all add: list_buf_def dest_bytes_def get32_def get16_def put_bytes_apply ntohs_def)


end
